(* ===== verification/Kernel_Prelude.thy ===== *)
theory Kernel_Prelude
  imports Main "HOL-Library.Word" "HOL-Library.Multiset"
begin

text \<open>
  Shared vocabulary of the development: the widths of the kernel's integers on AMD64
  (\<^verbatim>\<open>Kernel/Common/Types.h\<close>), the ways an operation of the kernel can stop
  (\<^verbatim>\<open>ASSERT\<close>, \<^verbatim>\<open>runtime::panic\<close>, a hardware fault), the sequencing of
  operations that may stop, and generic facts on words and lists.
\<close>

unbundle bit_operations_syntax

subsection \<open>Machine integers\<close>

type_synonym u8 = "8 word"
type_synonym u16 = "16 word"
type_synonym u32 = "32 word"
type_synonym u64 = "64 word"

text \<open>On AMD64 \<^verbatim>\<open>size_t\<close>, \<^verbatim>\<open>ptr_t\<close> and \<^verbatim>\<open>Address\<close> are all 64 bits wide.\<close>

type_synonym size_t = "64 word"
type_synonym addr = "64 word"

subsection \<open>Operations that may stop\<close>

text \<open>
  \<open>Assertion\<close> is a failed \<^verbatim>\<open>ASSERT\<close>, \<open>Panic\<close> a call of \<^verbatim>\<open>runtime::panic\<close>:
  neither returns to its caller. \<open>Divide_Error\<close> is the processor's exception for a zero
  divisor, \<open>Undefined\<close> behaviour the language leaves undefined (an array
  index past the end, a dereferenced end iterator, a shift by the width or more).
\<close>

datatype fault = Assertion | Panic | Divide_Error | Undefined

type_synonym 'a res = "fault + 'a"

definition bind_res :: "'a res \<Rightarrow> ('a \<Rightarrow> 'b res) \<Rightarrow> 'b res" where
  "bind_res m f = (case m of Inl e \<Rightarrow> Inl e | Inr x \<Rightarrow> f x)"

named_theorems res_simps \<open>sequencing of operations that may stop\<close>

lemma bind_res_Inl [simp, res_simps]: "bind_res (Inl e) f = Inl e"
  by (simp add: bind_res_def)

lemma bind_res_Inr [simp, res_simps]: "bind_res (Inr x) f = f x"
  by (simp add: bind_res_def)

lemma bind_res_eq_Inr [res_simps]: "bind_res m f = Inr y \<longleftrightarrow> (\<exists>x. m = Inr x \<and> f x = Inr y)"
  by (cases m) simp_all

lemma bind_res_eq_Inl: "bind_res m f = Inl e \<longleftrightarrow> m = Inl e \<or> (\<exists>x. m = Inr x \<and> f x = Inl e)"
  by (cases m) simp_all

lemma bind_res_InrE:
  assumes "bind_res m f = Inr y"
  obtains x where "m = Inr x" "f x = Inr y"
  using assms by (auto simp: bind_res_eq_Inr)

lemma bind_res_cong [fundef_cong]:
  "m = m' \<Longrightarrow> (\<And>x. m' = Inr x \<Longrightarrow> f x = f' x) \<Longrightarrow> bind_res m f = bind_res m' f'"
  by (cases m') (simp_all add: bind_res_def)

lemma bind_res_assoc: "bind_res (bind_res x f) g = bind_res x (\<lambda>y. bind_res (f y) g)"
  by (cases x) simp_all

definition assert_that :: "bool \<Rightarrow> unit res" where
  "assert_that b = (if b then Inr () else Inl Assertion)"

lemma assert_that_simps [simp, res_simps]:
  "assert_that True = Inr ()" "assert_that False = Inl Assertion"
  by (simp_all add: assert_that_def)

lemma assert_that_eq_Inr [simp, res_simps]: "assert_that b = Inr u \<longleftrightarrow> b"
  by (simp add: assert_that_def)

subsection \<open>Error codes\<close>

datatype error_code =
    NO_ERROR | ACCESS_DENIED | INVALID_ARGUMENT | BAD_PATH | DISK_NOT_FOUND | UNSUPPORTED | NO_SUCH_FILE | IS_DIRECTORY
  | IS_FILE | FILE_IS_BUSY | FILE_ALREADY_EXISTS | NAME_TOO_LONG | BAD_FILENAME | INTERRUPTED | STREAM_CLOSED
  | WOULD_BLOCK_FOREVER | MEMORY_ACCESS_VIOLATION

subsection \<open>Lists\<close>

lemma count_list_update_out:
  "i < length xs \<Longrightarrow> xs ! i = x \<Longrightarrow> y \<noteq> x \<Longrightarrow> Suc (count_list (xs[i := y]) x) = count_list xs x"
  by (induction xs arbitrary: i) (auto split: nat.splits)

lemma count_list_update_in:
  "i < length xs \<Longrightarrow> xs ! i \<noteq> x \<Longrightarrow> count_list (xs[i := x]) x = Suc (count_list xs x)"
  by (induction xs arbitrary: i) (auto split: nat.splits)

lemma find_upt_Some:
  "find P [a..<b] = Some i \<longleftrightarrow> a \<le> i \<and> i < b \<and> P i \<and> (\<forall>j. a \<le> j \<and> j < i \<longrightarrow> \<not> P j)"
proof (induction "b - a" arbitrary: a)
  case (Suc n)
  then have "[a..<b] = a # [Suc a..<b]"
    by (simp add: upt_conv_Cons)
  then show ?case
    using Suc.hyps(1) [of "Suc a"] Suc.hyps(2) by (auto simp: le_less Suc_le_eq dest: Suc_lessI)
qed auto

lemma list_all2_in1: "list_all2 P xs ys \<Longrightarrow> x \<in> set xs \<Longrightarrow> \<exists>y \<in> set ys. P x y"
  by (induction rule: list_all2_induct) auto

lemma list_all2_in2: "list_all2 P xs ys \<Longrightarrow> y \<in> set ys \<Longrightarrow> \<exists>x \<in> set xs. P x y"
  by (induction rule: list_all2_induct) auto

subsection \<open>Arithmetic\<close>

lemma ceil_div_multiple:
  assumes "0 < d"
  shows "(d * k + d - Suc 0) div d = (k :: nat)"
proof -
  obtain m where "d = Suc m"
    using assms by (cases d) auto
  moreover have "(m + Suc m * k) div Suc m = k"
    by (simp only: div_mult_self2) simp
  ultimately show ?thesis
    by (simp add: ac_simps)
qed

lemma ceil_mult_ge: "0 < d \<Longrightarrow> u \<le> (u + d - Suc 0) div d * d" for u d :: nat
  using div_mult_mod_eq [of "u + d - Suc 0" d] mod_less_divisor [of d "u + d - Suc 0"] by linarith

lemma ceil_mult_least: "0 < d \<Longrightarrow> u \<le> d * k \<Longrightarrow> (u + d - Suc 0) div d * d \<le> d * k" for u d k :: nat
proof -
  assume d: "0 < d" and "u \<le> d * k"
  then have "u + d - Suc 0 \<le> d * k + d - Suc 0"
    by simp
  then have "(u + d - Suc 0) div d \<le> k"
    using div_le_mono [of _ _ d] ceil_div_multiple [OF d] by metis
  then show ?thesis
    by simp
qed

lemma floor_mult_greatest: "d * k \<le> x \<Longrightarrow> d * k \<le> x - x mod d" for d k x :: nat
  using div_le_mono [of "d * k" x d] by (cases "d = 0") (simp_all add: minus_mod_eq_mult_div)

subsection \<open>Words\<close>

lemma unat_less_64: "unat (x :: 64 word) < 2 ^ 64"
  using unsigned_less [of x, where ?'a = nat] by simp

lemma unat_word_of_nat_64: "n < 2 ^ 64 \<Longrightarrow> unat (word_of_nat n :: 64 word) = n"
  by (simp add: unat_of_nat)

lemma unat_and_mask: "unat (x AND mask n :: 'a::len word) = unat x mod 2 ^ n"
  by (simp only: take_bit_eq_mask [symmetric] unsigned_take_bit_eq) (simp add: take_bit_eq_mod)

lemma unat_mask: "unat (mask n :: 'a::len word) = mask (min LENGTH('a) n)"
  by (metis nat_mask_eq uint_mask_eq unat_eq_nat_uint)

lemma high_bits_of_small:
  fixes w :: "64 word"
  assumes "w \<le> push_bit n 1 - 1" "n \<le> k" "n < 64"
  shows "\<not> bit w k"
proof
  assume b: "bit w k"
  have "(push_bit n 1 - 1 :: 64 word) = mask n"
    by (simp add: mask_eq_exp_minus_1)
  then have "unat w \<le> mask n"
    using assms(1,3) by (simp add: word_le_nat_alt unat_mask)
  then have "unat w < 2 ^ n"
    using less_exp [of n] by (simp add: mask_eq_exp_minus_1 le_diff_conv2 Suc_le_eq)
  also have "(2 :: nat) ^ n \<le> 2 ^ k"
    using assms(2) by simp
  finally have "\<not> bit (unat w) k"
    by (simp add: bit_iff_odd)
  with b show False
    by (simp add: bit_unsigned_iff)
qed

lemma and_not_mask_eq: "(x :: 'a::len word) AND NOT (mask n) = x - (x AND mask n)"
proof -
  have "x = (x AND mask n) OR (x AND NOT (mask n))"
    by (rule bit_word_eqI) (auto simp: bit_simps)
  also have "\<dots> = (x AND mask n) + (x AND NOT (mask n))"
    by (rule disjunctive_add [symmetric]) (auto simp: bit_simps)
  finally show ?thesis
    by (metis add_diff_cancel_left')
qed

lemma unat_and_not_mask:
  "unat ((x :: 'a::len word) AND NOT (mask n)) = unat x - unat x mod 2 ^ n"
proof -
  have "x AND mask n \<le> x"
    by (simp add: word_and_le2)
  then show ?thesis
    by (simp add: and_not_mask_eq unat_sub unat_and_mask)
qed

lemma unat_diff_word: "y \<le> x \<Longrightarrow> unat (x - y) = unat x - unat (y :: 'a::len word)"
  by (simp add: unat_sub)

lemma unat_add_no_wrap:
  "unat x + unat y < 2 ^ LENGTH('a) \<Longrightarrow> unat (x + y :: 'a::len word) = unat x + unat y"
  by (simp add: unat_word_ariths)

lemma unat_add_wrap_64:
  assumes "\<not> unat x + unat y < 2 ^ 64"
  shows "unat (x + y :: 64 word) = unat x + unat y - 2 ^ 64"
proof -
  have "unat x + unat y - 2 ^ 64 < 2 ^ 64"
    using unat_less_64 [of x] unat_less_64 [of y] by linarith
  then have "(unat x + unat y) mod 2 ^ 64 = unat x + unat y - 2 ^ 64"
    using assms by (simp add: le_mod_geq)
  then show ?thesis
    by (simp add: unat_word_ariths)
qed

end
