(* ===== verification/Page_Range.thy ===== *)
theory Page_Range
  imports Kernel_Prelude
begin

text \<open>
  \<^verbatim>\<open>Kernel/Memory/Page.h\<close> (page rounding and alignment, AMD64 constants) and
  \<^verbatim>\<open>Kernel/Memory/Range.h\<close> (\<^verbatim>\<open>BasicRange\<close>, the half-open interval of addresses
  every allocator works with). A range is a record that other records extend, as
  \<^verbatim>\<open>MemoryMap::PhysicalRange\<close> extends \<^verbatim>\<open>LongRange\<close>. The abstraction
  \<open>addrs\<close> is the set of addresses of a range; the operations are related to
  operations on sets.
\<close>

subsection \<open>Pages\<close>

definition page_size :: size_t where
  "page_size = 4096"

definition page_huge_size :: size_t where
  "page_huge_size = 2 * 1024 * 1024"

definition page_alignment_mask :: size_t where
  "page_alignment_mask = 0xFFFFFFFFFFFFF000"

definition page_huge_alignment_mask :: size_t where
  "page_huge_alignment_mask = 0xFFFFFFFFFFFFFFFF - page_huge_size + 1"

definition round_up_custom :: "size_t \<Rightarrow> size_t \<Rightarrow> size_t \<Rightarrow> size_t" where
  "round_up_custom AlignmentMask PageSize sz =
     (if sz = 0 then PageSize
      else if sz AND NOT AlignmentMask \<noteq> 0 then (sz + PageSize) AND AlignmentMask
      else sz)"

definition round_down_custom :: "size_t \<Rightarrow> size_t \<Rightarrow> size_t" where
  "round_down_custom AlignmentMask sz =
     (if sz AND NOT AlignmentMask \<noteq> 0 then sz AND AlignmentMask else sz)"

definition page_round_up :: "size_t \<Rightarrow> size_t" where
  "page_round_up sz = round_up_custom page_alignment_mask page_size sz"

definition page_round_up_huge :: "size_t \<Rightarrow> size_t" where
  "page_round_up_huge sz = round_up_custom page_huge_alignment_mask page_huge_size sz"

definition page_round_down :: "size_t \<Rightarrow> size_t" where
  "page_round_down sz = round_down_custom page_alignment_mask sz"

definition page_round_down_huge :: "size_t \<Rightarrow> size_t" where
  "page_round_down_huge sz = round_down_custom page_huge_alignment_mask sz"

definition page_is_aligned :: "addr \<Rightarrow> bool" where
  "page_is_aligned address \<longleftrightarrow> address mod page_size = 0"

definition page_is_huge_aligned :: "addr \<Rightarrow> bool" where
  "page_is_huge_aligned address \<longleftrightarrow> address mod page_huge_size = 0"

subsection \<open>Rounding as arithmetic\<close>

lemma page_mask_eq: "page_alignment_mask = NOT (mask 12)"
  by (simp add: page_alignment_mask_def mask_eq_exp_minus_1)

lemma page_huge_mask_eq: "page_huge_alignment_mask = NOT (mask 21)"
  by (simp add: page_huge_alignment_mask_def page_huge_size_def mask_eq_exp_minus_1)

lemma unat_page_size [simp]: "unat page_size = 4096"
  by (simp add: page_size_def)

lemma page_size_pos [simp]: "0 < page_size" "page_size \<noteq> 0"
  by (simp_all add: page_size_def)

lemma unat_page_huge_size [simp]: "unat page_huge_size = 2097152"
  by (simp add: page_huge_size_def)

lemma round_down_custom_mask:
  "unat (round_down_custom (NOT (mask n)) x) = unat x - unat x mod 2 ^ n"
proof (cases "x AND mask n = 0")
  case True
  then have "unat x mod 2 ^ n = 0"
    using unat_and_mask [of x n] by simp
  with True show ?thesis
    by (simp add: round_down_custom_def)
next
  case False
  then show ?thesis
    by (simp add: round_down_custom_def unat_and_not_mask)
qed

lemma round_up_custom_mask:
  assumes "x \<noteq> 0" and "unat x + 2 ^ n \<le> 2 ^ 64" and "n < 64"
    and ps: "unat ps = 2 ^ n"
  shows "unat (round_up_custom (NOT (mask n)) ps x) = (unat x + 2 ^ n - 1) div 2 ^ n * 2 ^ n"
proof (cases "unat x mod 2 ^ n = 0")
  case True
  then have "x AND mask n = 0"
    by (metis unat_and_mask unat_eq_zero)
  moreover obtain k where k: "unat x = 2 ^ n * k"
    using True by auto
  moreover have "(2 ^ n * k + 2 ^ n - Suc 0) div 2 ^ n = k"
    by (rule ceil_div_multiple) simp
  ultimately show ?thesis
    using assms(1) by (simp add: round_up_custom_def)
next
  case False
  then have nz: "x AND mask n \<noteq> 0"
    using unat_and_mask [of x n] by auto
  show ?thesis
  proof (cases "unat x + 2 ^ n = 2 ^ 64")
    case True
    have "unat x mod 2 ^ n = (2 ^ 64 - 2 ^ n) mod 2 ^ n"
      using True by (metis add_diff_cancel_right')
    also have "(2 ^ 64 - 2 ^ n :: nat) = 2 ^ n * (2 ^ (64 - n) - 1)"
      using assms(3) by (simp add: diff_mult_distrib2 power_add [symmetric])
    finally show ?thesis
      using False by simp
  next
    case wrap: False
    obtain q r where x: "unat x = 2 ^ n * q + r" and r: "0 < r" "r < 2 ^ n"
      using False that [of "unat x div 2 ^ n" "unat x mod 2 ^ n"] by simp
    have "unat (x + ps) = r + 2 ^ n * (q + 1)"
      using wrap assms(2) ps x by (simp add: unat_add_no_wrap)
    moreover have "(r + 2 ^ n * (q + 1)) mod 2 ^ n = r"
      using r by (simp only: mod_mult_self2) simp
    ultimately have "unat ((x + ps) AND NOT (mask n)) = (q + 1) * 2 ^ n"
      by (simp only: unat_and_not_mask) simp
    also have "q + 1 = (unat x + 2 ^ n - 1) div 2 ^ n"
    proof -
      have "unat x + 2 ^ n - 1 = (r - 1) + 2 ^ n * (q + 1)"
        using x r by (simp add: algebra_simps)
      moreover have "((r - 1) + 2 ^ n * (q + 1)) div 2 ^ n = q + 1 + (r - 1) div 2 ^ n"
        by (rule div_mult_self2) simp
      ultimately show ?thesis
        using r by simp
    qed
    finally show ?thesis
      using nz assms(1) by (simp add: round_up_custom_def)
  qed
qed

lemma unat_page_round_down: "unat (page_round_down x) = unat x - unat x mod 4096"
  using round_down_custom_mask [of 12 x] by (simp add: page_round_down_def page_mask_eq)

lemma unat_page_round_up:
  "x \<noteq> 0 \<Longrightarrow> unat x \<le> 2 ^ 64 - 4096 \<Longrightarrow>
   unat (page_round_up x) = (unat x + 4095) div 4096 * 4096"
  using round_up_custom_mask [of x 12 page_size] by (simp add: page_round_up_def page_mask_eq)

lemma page_round_up_wraps:
  assumes "2 ^ 64 - 4096 < unat x"
  shows "page_round_up x = 0"
proof -
  let ?r = "unat x mod 4096"
  have x: "unat x < 2 ^ 64"
    by (rule unat_less_64)
  have "unat x = (unat x - (2 ^ 64 - 4096)) + 4096 * (2 ^ 52 - 1)"
    using assms by simp
  then have "?r = (unat x - (2 ^ 64 - 4096)) mod 4096"
    by (metis mod_mult_self2)
  then have r: "?r = unat x - (2 ^ 64 - 4096)"
    using x by simp
  then have nz: "x AND mask 12 \<noteq> 0"
    using assms unat_and_mask [of x 12] by auto
  have "unat (x + page_size) = unat x + 4096 - 2 ^ 64"
    using assms x by (simp add: unat_word_ariths mod_if)
  then have "unat ((x + page_size) AND NOT (mask 12)) = 0"
    using x by (simp add: unat_and_not_mask)
  then show ?thesis
    using nz assms by (auto simp: page_round_up_def round_up_custom_def page_mask_eq unat_eq_zero)
qed

lemma page_is_aligned_iff: "page_is_aligned a \<longleftrightarrow> unat a mod 4096 = 0"
  by (simp add: page_is_aligned_def unat_eq_zero [symmetric] unat_mod_distrib)

lemma page_is_aligned_round_down [simp]: "page_is_aligned (page_round_down x)"
  by (simp add: page_is_aligned_iff unat_page_round_down minus_mod_eq_mult_div)

lemma page_round_down_le: "page_round_down x \<le> x"
  by (simp add: word_le_nat_alt unat_page_round_down)

lemma page_round_down_aligned [simp]: "page_is_aligned x \<Longrightarrow> page_round_down x = x"
  by (simp add: page_is_aligned_iff word_unat_eq_iff unat_page_round_down)

subsection \<open>Ranges\<close>

text \<open>\<^verbatim>\<open>BasicRange\<close>: the members \<^verbatim>\<open>m_begin\<close> and \<^verbatim>\<open>m_end\<close>.\<close>

record range =
  r_begin :: addr
  r_end :: addr

definition empty_range :: range where
  "empty_range = \<lparr>r_begin = 0, r_end = 0\<rparr>"

definition mk_range :: "addr \<Rightarrow> size_t \<Rightarrow> range res" where
  "mk_range start len =
     (let r = \<lparr>r_begin = start, r_end = start + len\<rparr>
      in if r_begin r \<le> r_end r then Inr r else Inl Assertion)"

definition from_two_pointers :: "addr \<Rightarrow> addr \<Rightarrow> range res" where
  "from_two_pointers b e = (if b \<le> e then Inr \<lparr>r_begin = b, r_end = e\<rparr> else Inl Assertion)"

definition create_empty_at :: "addr \<Rightarrow> range" where
  "create_empty_at address = \<lparr>r_begin = address, r_end = address\<rparr>"

definition range_length :: "'a range_scheme \<Rightarrow> size_t" where
  "range_length r = r_end r - r_begin r"

definition set_length :: "size_t \<Rightarrow> 'a range_scheme \<Rightarrow> 'a range_scheme" where
  "set_length len r = r\<lparr>r_end := r_begin r + len\<rparr>"

definition set_begin :: "addr \<Rightarrow> 'a range_scheme \<Rightarrow> 'a range_scheme" where
  "set_begin b r = r\<lparr>r_begin := b\<rparr>"

definition set_end :: "addr \<Rightarrow> 'a range_scheme \<Rightarrow> 'a range_scheme" where
  "set_end e r = r\<lparr>r_end := e\<rparr>"

definition extend_by :: "size_t \<Rightarrow> 'a range_scheme \<Rightarrow> 'a range_scheme" where
  "extend_by len r = set_end (r_end r + len) r"

definition advance_begin_by :: "size_t \<Rightarrow> 'a range_scheme \<Rightarrow> 'a range_scheme" where
  "advance_begin_by len r = r\<lparr>r_begin := r_begin r + len\<rparr>"

definition range_empty :: "'a range_scheme \<Rightarrow> bool" where
  "range_empty r \<longleftrightarrow> r_begin r = r_end r"

definition contains_addr :: "'a range_scheme \<Rightarrow> addr \<Rightarrow> bool" where
  "contains_addr r address \<longleftrightarrow> address \<ge> r_begin r \<and> address < r_end r"

definition contains_range :: "'a range_scheme \<Rightarrow> 'b range_scheme \<Rightarrow> bool" where
  "contains_range r other \<longleftrightarrow> contains_addr r (r_begin other) \<and> r_end other \<le> r_end r"

definition overlaps :: "'a range_scheme \<Rightarrow> 'b range_scheme \<Rightarrow> bool" where
  "overlaps r other =
     (if range_empty r \<or> range_empty other then False
      else contains_addr r (r_begin other) \<or> contains_addr other (r_begin r))"

definition clipped_with_begin :: "'a range_scheme \<Rightarrow> addr \<Rightarrow> range res" where
  "clipped_with_begin r address =
     (if contains_addr r address \<or> address = r_end r
      then from_two_pointers address (r_end r) else Inl Assertion)"

definition clipped_with_end :: "'a range_scheme \<Rightarrow> addr \<Rightarrow> range res" where
  "clipped_with_end r address =
     (if contains_addr r address \<or> address = r_end r
      then from_two_pointers (r_begin r) address else Inl Assertion)"

definition constrained_by :: "range \<Rightarrow> addr \<Rightarrow> addr \<Rightarrow> range res" where
  "constrained_by r lowest highest =
     (if \<not> lowest < highest then Inl Assertion
      else if range_empty r then Inr r
      else if r_begin r > highest then from_two_pointers (r_begin r) (r_begin r)
      else if r_end r < lowest then from_two_pointers (r_end r) (r_end r)
      else
        let r1 = (if r_begin r < lowest
                  then let bytes_under = lowest - r_begin r
                       in set_begin (min (r_begin r + bytes_under) (r_end r)) r
                  else r);
            r2 = (if r_end r > highest
                  then let bytes_over = r_end r - highest
                       in set_end (max (r_end r - bytes_over) (r_begin r)) r1
                  else r1)
        in Inr r2)"

definition reset_with :: "addr \<Rightarrow> size_t \<Rightarrow> 'a range_scheme \<Rightarrow> 'a range_scheme" where
  "reset_with b len r = r\<lparr>r_begin := b, r_end := b + len\<rparr>"

definition reset_with_range :: "'b range_scheme \<Rightarrow> 'a range_scheme \<Rightarrow> 'a range_scheme" where
  "reset_with_range other r = r\<lparr>r_begin := r_begin other, r_end := r_end other\<rparr>"

definition reset_with_two_pointers ::
  "addr \<Rightarrow> addr \<Rightarrow> 'a range_scheme \<Rightarrow> 'a range_scheme res" where
  "reset_with_two_pointers b e r =
     (if b \<le> e then Inr (r\<lparr>r_begin := b, r_end := e\<rparr>) else Inl Assertion)"

definition range_less :: "'a range_scheme \<Rightarrow> 'b range_scheme \<Rightarrow> bool" where
  "range_less r other \<longleftrightarrow> r_begin r < r_begin other"

definition range_eq :: "'a range_scheme \<Rightarrow> 'b range_scheme \<Rightarrow> bool" where
  "range_eq r other \<longleftrightarrow> r_begin r = r_begin other \<and> r_end r = r_end other"

definition range_reset :: "'a range_scheme \<Rightarrow> 'a range_scheme" where
  "range_reset r = r\<lparr>r_begin := 0, r_end := 0\<rparr>"

definition is_aligned_to :: "'a range_scheme \<Rightarrow> size_t \<Rightarrow> bool res" where
  "is_aligned_to r alignment =
     (if alignment = 0 then Inl Divide_Error else Inr (r_begin r mod alignment = 0))"

definition aligned_begin :: "addr \<Rightarrow> size_t \<Rightarrow> addr" where
  "aligned_begin b alignment =
     (let remainder = b mod alignment
      in if remainder \<noteq> 0 then b + (alignment - remainder) else b)"

definition align_to :: "size_t \<Rightarrow> 'a range_scheme \<Rightarrow> 'a range_scheme res" where
  "align_to alignment r =
     (if alignment = 0 then Inl Divide_Error
      else let ab = aligned_begin (r_begin r) alignment
           in if \<not> ab < r_end r then Inl Assertion
              else if \<not> ab \<ge> r_begin r then Inl Assertion
              else Inr (r\<lparr>r_begin := ab\<rparr>))"

definition aligned_to :: "'a range_scheme \<Rightarrow> size_t \<Rightarrow> range res" where
  "aligned_to r alignment =
     (if alignment = 0 then Inl Divide_Error
      else let ab = aligned_begin (r_begin r) alignment
           in if ab < r_begin r \<or> ab \<ge> r_end r then Inr empty_range
              else from_two_pointers ab (r_end r))"

subsection \<open>Ranges as sets of addresses\<close>

definition addrs :: "'a range_scheme \<Rightarrow> addr set" where
  "addrs r = {a. r_begin r \<le> a \<and> a < r_end r}"

definition wf_range :: "'a range_scheme \<Rightarrow> bool" where
  "wf_range r \<longleftrightarrow> r_begin r \<le> r_end r"

named_theorems range_defs \<open>definitions of the operations on ranges\<close>

lemmas [range_defs] =
  mk_range_def from_two_pointers_def create_empty_at_def range_length_def set_length_def
  set_begin_def set_end_def extend_by_def advance_begin_by_def range_empty_def contains_addr_def
  contains_range_def overlaps_def clipped_with_begin_def clipped_with_end_def
  reset_with_def reset_with_range_def reset_with_two_pointers_def range_less_def range_eq_def
  addrs_def wf_range_def empty_range_def

lemma contains_addr_iff: "contains_addr r a \<longleftrightarrow> a \<in> addrs r"
  by (simp add: range_defs)

lemma range_empty_iff: "wf_range r \<Longrightarrow> range_empty r \<longleftrightarrow> addrs r = {}"
  by (auto simp: range_defs)

lemma begin_in_addrs: "wf_range r \<Longrightarrow> \<not> range_empty r \<Longrightarrow> r_begin r \<in> addrs r"
  by (auto simp: range_defs)

lemma overlaps_iff:
  "wf_range r \<Longrightarrow> wf_range s \<Longrightarrow> overlaps r s \<longleftrightarrow> addrs r \<inter> addrs s \<noteq> {}"
  by (auto simp: range_defs)

lemma contains_range_iff:
  assumes "wf_range s" "\<not> range_empty s"
  shows "contains_range r s \<longleftrightarrow> addrs s \<subseteq> addrs r"
proof
  assume "contains_range r s"
  then show "addrs s \<subseteq> addrs r"
    by (auto simp: range_defs)
next
  assume sub: "addrs s \<subseteq> addrs r"
  have lt: "r_begin s < r_end s"
    using assms by (simp add: range_defs)
  then have "r_end s - 1 \<in> addrs s"
    by (simp add: addrs_def) unat_arith
  with sub have "r_end s - 1 < r_end r"
    by (auto simp: addrs_def)
  with lt have "r_end s \<le> r_end r"
    by unat_arith
  moreover have "r_begin s \<in> addrs r"
    using sub assms begin_in_addrs by blast
  ultimately show "contains_range r s"
    by (simp add: contains_range_def contains_addr_iff)
qed

lemma card_addrs: "wf_range r \<Longrightarrow> card (addrs r) = unat (range_length r)"
proof -
  assume wf: "wf_range r"
  have "addrs r = word_of_nat ` {unat (r_begin r)..<unat (r_end r)}"
  proof (intro set_eqI iffI)
    fix a assume "a \<in> addrs r"
    then have "unat a \<in> {unat (r_begin r)..<unat (r_end r)}"
      by (simp add: addrs_def word_le_nat_alt word_less_nat_alt)
    then show "a \<in> word_of_nat ` {unat (r_begin r)..<unat (r_end r)}"
      by (metis image_eqI of_nat_unat ucast_id)
  next
    fix a :: addr
    assume "a \<in> word_of_nat ` {unat (r_begin r)..<unat (r_end r)}"
    then obtain n where n: "unat (r_begin r) \<le> n" "n < unat (r_end r)" "a = word_of_nat n"
      by auto
    then have "unat a = n"
      using unat_less_64 [of "r_end r"] by (simp add: unat_word_of_nat_64)
    with n show "a \<in> addrs r"
      by (simp add: addrs_def word_le_nat_alt word_less_nat_alt)
  qed
  moreover have "inj_on (word_of_nat :: nat \<Rightarrow> addr) {unat (r_begin r)..<unat (r_end r)}"
  proof (rule inj_onI)
    fix m n :: nat
    assume "m \<in> {unat (r_begin r)..<unat (r_end r)}" "n \<in> {unat (r_begin r)..<unat (r_end r)}"
      and eq: "(word_of_nat m :: addr) = word_of_nat n"
    then have "m < 2 ^ 64" "n < 2 ^ 64"
      using unat_less_64 [of "r_end r"] by simp_all
    with eq show "m = n"
      by (metis unat_word_of_nat_64)
  qed
  ultimately show ?thesis
    using wf by (simp add: card_image range_length_def wf_range_def unat_sub)
qed

lemma constrained_by_addrs:
  assumes "wf_range r" and "lowest < highest"
  shows "\<exists>r'. constrained_by r lowest highest = Inr r' \<and> wf_range r'
     \<and> addrs r' = addrs r \<inter> {lowest..<highest}"
  using assms by (auto simp: constrained_by_def Let_def range_defs min_def max_def)

lemma aligned_begin_cases:
  assumes "al \<noteq> 0"
  shows "(b \<le> aligned_begin b al \<and> unat (aligned_begin b al) mod unat al = 0
            \<and> (\<forall>c. b \<le> c \<and> unat c mod unat al = 0 \<longrightarrow> aligned_begin b al \<le> c))
       \<or> (aligned_begin b al < b \<and> (\<forall>c. b \<le> c \<longrightarrow> unat c mod unat al \<noteq> 0))"
proof -
  let ?u = "unat b" and ?m = "unat al" let ?r = "unat b mod unat al"
  have m: "0 < ?m"
    using assms by (simp add: unat_gt_0)
  have next_multiple: "?u + (?m - ?r) \<le> unat c"
    if nz: "?r \<noteq> 0" and le: "b \<le> c" and mult: "unat c mod ?m = 0" for c
  proof -
    obtain k where k: "unat c = ?m * k"
      using mult by auto
    obtain q where q: "?u = ?m * q + ?r"
      by (metis mult_div_mod_eq)
    have "?m * q < ?m * k"
      using nz le k q unfolding word_le_nat_alt by linarith
    then have "q + 1 \<le> k"
      by simp
    then have "?m * (q + 1) \<le> ?m * k"
      by (rule mult_le_mono2)
    then show ?thesis
      using k q m mod_less_divisor [OF m, of ?u] by (simp add: algebra_simps)
  qed
  show ?thesis
  proof (cases "?r = 0")
    case True
    then have "b mod al = 0"
      by (simp add: unat_eq_zero [symmetric] unat_mod_distrib)
    with True show ?thesis
      by (simp add: aligned_begin_def)
  next
    case False
    have rlt: "?r < ?m"
      using m by simp
    have ab: "aligned_begin b al = b + (al - b mod al)"
      using False by (simp add: aligned_begin_def Let_def unat_eq_zero [symmetric] unat_mod_distrib)
    have gap: "unat (al - b mod al) = ?m - ?r"
      using rlt by (simp add: unat_sub unat_mod_distrib word_le_nat_alt)
    show ?thesis
    proof (cases "?u + (?m - ?r) < 2 ^ 64")
      case True
      then have u: "unat (aligned_begin b al) = ?u + (?m - ?r)"
        using ab gap by (simp add: unat_add_no_wrap)
      have "?m * (?u div ?m) + ?r = ?u"
        by simp
      moreover have "?m * (?u div ?m + 1) = ?m * (?u div ?m) + ?m"
        by simp
      ultimately have "?u + (?m - ?r) = ?m * (?u div ?m + 1)"
        using rlt by linarith
      then have "unat (aligned_begin b al) mod ?m = 0"
        using u by simp
      with u next_multiple False show ?thesis
        by (simp add: word_le_nat_alt)
    next
      case wrap: False
      then have "unat (aligned_begin b al) = ?u + (?m - ?r) - 2 ^ 64"
        using ab gap unat_less_64 [of b] unat_less_64 [of al] unat_add_wrap_64 [of b "al - b mod al"]
        by simp
      then have "aligned_begin b al < b"
        using unat_less_64 [of al] wrap unfolding word_less_nat_alt by linarith
      moreover have "unat c mod ?m \<noteq> 0" if "b \<le> c" for c
        using next_multiple [OF False that] wrap unat_less_64 [of c] by auto
      ultimately show ?thesis
        by blast
    qed
  qed
qed

lemma aligned_to_cases:
  assumes "al \<noteq> 0"
  obtains (some) r' where "aligned_to r al = Inr r'" "r_end r' = r_end r"
      "r_begin r \<le> r_begin r'" "r_begin r' < r_end r'" "unat (r_begin r') mod unat al = 0"
      "\<And>c. r_begin r \<le> c \<Longrightarrow> unat c mod unat al = 0 \<Longrightarrow> r_begin r' \<le> c"
    | (none) "aligned_to r al = Inr empty_range"
      "\<And>c. c \<in> addrs r \<Longrightarrow> unat c mod unat al \<noteq> 0"
proof (cases "aligned_begin (r_begin r) al < r_begin r \<or> r_end r \<le> aligned_begin (r_begin r) al")
  case True
  then have "aligned_to r al = Inr empty_range"
    using assms by (simp add: aligned_to_def Let_def)
  moreover have "unat c mod unat al \<noteq> 0" if "c \<in> addrs r" for c
    using aligned_begin_cases [OF assms, of "r_begin r"] True that
    by (force simp: addrs_def)
  ultimately show thesis
    by (rule none)
next
  case False
  let ?r' = "\<lparr>r_begin = aligned_begin (r_begin r) al, r_end = r_end r\<rparr>"
  have "aligned_to r al = Inr ?r'"
    using False assms by (auto simp: aligned_to_def Let_def from_two_pointers_def)
  then show thesis
    using some [of ?r'] aligned_begin_cases [OF assms, of "r_begin r"] False by auto
qed

lemma page_round_up_least:
  assumes "x \<noteq> 0" "unat x \<le> 2 ^ 64 - 4096"
  shows "page_is_aligned (page_round_up x)" "x \<le> page_round_up x"
    and "page_is_aligned y \<Longrightarrow> x \<le> y \<Longrightarrow> page_round_up x \<le> y"
proof -
  note u = unat_page_round_up [OF assms]
  show "page_is_aligned (page_round_up x)"
    by (simp add: page_is_aligned_iff u)
  show "x \<le> page_round_up x"
    using ceil_mult_ge [of 4096 "unat x"] unfolding word_le_nat_alt u by simp
  show "page_round_up x \<le> y" if "page_is_aligned y" "x \<le> y"
    using ceil_mult_least [of 4096 "unat x"] that
    unfolding word_le_nat_alt u page_is_aligned_iff by fastforce
qed

lemma page_round_up_overflow_iff: "page_round_up x < x \<longleftrightarrow> 2 ^ 64 - 4096 < unat x"
proof (cases "2 ^ 64 - 4096 < unat x")
  case True
  moreover have "0 < x"
    using True unfolding word_less_nat_alt by simp
  ultimately show ?thesis
    by (simp add: page_round_up_wraps)
next
  case False
  then have "x = 0 \<or> x \<le> page_round_up x"
    using page_round_up_least(2) [of x] by auto
  with False show ?thesis
    by auto
qed

subsection \<open>Rounding\<close>

text \<open>
  Outside the last page of the address space \<^verbatim>\<open>Page::round_up\<close> of a non-zero size is
  the least page multiple that is at least the size, and for every size
  \<^verbatim>\<open>Page::round_down\<close> is the greatest page multiple that is at most the size.
\<close>

lemma page_rounding_correct:
  assumes "x \<noteq> 0" and "unat x \<le> 2 ^ 64 - 4096"
  shows "page_is_aligned (page_round_up x) \<and> x \<le> page_round_up x
    \<and> (\<forall>y. page_is_aligned y \<and> x \<le> y \<longrightarrow> page_round_up x \<le> y)
    \<and> page_is_aligned (page_round_down x) \<and> page_round_down x \<le> x
    \<and> (\<forall>y. page_is_aligned y \<and> y \<le> x \<longrightarrow> y \<le> page_round_down x)"
proof -
  have "y \<le> page_round_down x" if "page_is_aligned y" "y \<le> x" for y
    using that floor_mult_greatest [of 4096 _ "unat x"]
    unfolding word_le_nat_alt unat_page_round_down page_is_aligned_iff by fastforce
  then show ?thesis
    using page_round_up_least [OF assms] page_round_down_le by simp
qed

text \<open>
  \<^verbatim>\<open>BasicRange::aligned_to\<close> with a non-zero alignment keeps exactly the addresses
  from the first aligned address of the range on (none when the range has no aligned
  address, also when rounding its begin up leaves the address space), and a non-empty
  result begins at an aligned address.
\<close>

lemma aligned_to_correct:
  assumes "al \<noteq> 0"
  shows "\<exists>r'. aligned_to r al = Inr r' \<and> wf_range r'
     \<and> addrs r' = {a \<in> addrs r. \<exists>b \<in> addrs r. unat b mod unat al = 0 \<and> b \<le> a}
     \<and> (\<not> range_empty r' \<longrightarrow> unat (r_begin r') mod unat al = 0 \<and> r_end r' = r_end r)"
  using assms
proof (cases rule: aligned_to_cases [where r = r])
  case (some r')
  have "addrs r' = {a \<in> addrs r. \<exists>b \<in> addrs r. unat b mod unat al = 0 \<and> b \<le> a}"
    using some(2-5) by (auto simp: addrs_def intro: order.trans dest: some(6))
  with some show ?thesis
    by (auto simp: wf_range_def)
next
  case none
  then show ?thesis
    by (auto simp: range_defs)
qed

end
