(* ===== verification/Algorithms.thy ===== *)
theory Algorithms
  imports Kernel_Prelude
begin

text \<open>
  The generic algorithms of \<^verbatim>\<open>Kernel/Common/Utilities.h\<close> and
  \<^verbatim>\<open>Kernel/Common/Math.h\<close>: binary search, linear search, quick sort and insertion
  sort. The array between two iterators is a list, an iterator an index into it, the end
  iterator its length. Index arithmetic of \<^verbatim>\<open>lower_bound\<close> is in \<^verbatim>\<open>ssize_t\<close>,
  where the right end passes below zero, and is modelled in \<open>int\<close>; sizes divided
  by \<^verbatim>\<open>ceiling_divide\<close>, which never exceed its operand, are natural numbers. A comparator is
  a predicate; a transparent comparator (\<^verbatim>\<open>Less<>\<close>) is a pair of them, one per
  order of the operand types.
\<close>

subsection \<open>Searching\<close>

function lower_bound_loop ::
  "('k \<Rightarrow> 'a \<Rightarrow> bool) \<Rightarrow> ('a \<Rightarrow> 'k \<Rightarrow> bool) \<Rightarrow> 'a list \<Rightarrow> 'k \<Rightarrow> int \<Rightarrow> int \<Rightarrow> nat \<Rightarrow> nat" where
  "lower_bound_loop key_lt lt_key xs key left right result =
     (if left \<le> right
      then let pivot = left + (right - left) div 2; pivot_value = xs ! nat pivot
           in if key_lt key pivot_value
              then lower_bound_loop key_lt lt_key xs key left (pivot - 1) (nat pivot)
              else if lt_key pivot_value key
              then lower_bound_loop key_lt lt_key xs key (pivot + 1) right result
              else nat pivot
      else result)"
  by pat_completeness auto
termination
  by (relation "measure (\<lambda>(key_lt, lt_key, xs, key, left, right, result). nat (right - left + 1))")
    auto

declare lower_bound_loop.simps [simp del]

definition lower_bound ::
  "('k \<Rightarrow> 'a \<Rightarrow> bool) \<Rightarrow> ('a \<Rightarrow> 'k \<Rightarrow> bool) \<Rightarrow> 'a list \<Rightarrow> 'k \<Rightarrow> nat" where
  "lower_bound key_lt lt_key xs key =
     (if xs = [] then length xs
      else lower_bound_loop key_lt lt_key xs key 0 (int (length xs) - 1) (length xs))"

definition binary_search ::
  "('k \<Rightarrow> 'a \<Rightarrow> bool) \<Rightarrow> ('a \<Rightarrow> 'k \<Rightarrow> bool) \<Rightarrow> 'a list \<Rightarrow> 'k \<Rightarrow> nat" where
  "binary_search key_lt lt_key xs val =
     (let result = lower_bound key_lt lt_key xs val
      in if result = length xs then result
         else if key_lt val (xs ! result) then length xs else result)"

fun linear_search_for :: "('a \<Rightarrow> bool) \<Rightarrow> 'a list \<Rightarrow> nat" where
  "linear_search_for predicate [] = 0"
| "linear_search_for predicate (x # xs) =
     (if predicate x then 0 else Suc (linear_search_for predicate xs))"

definition linear_search :: "'a \<Rightarrow> 'a list \<Rightarrow> nat" where
  "linear_search val xs = linear_search_for (\<lambda>cont_val. cont_val = val) xs"

definition ceiling_divide :: "nat \<Rightarrow> nat \<Rightarrow> nat" where
  "ceiling_divide l r = of_bool (l \<noteq> 0) + (l - of_bool (l \<noteq> 0)) div r"

subsection \<open>Sorting\<close>

definition swap_at :: "nat \<Rightarrow> nat \<Rightarrow> 'a list \<Rightarrow> 'a list" where
  "swap_at i j xs = xs[i := xs ! j, j := xs ! i]"

fun insertion_sink :: "('a \<Rightarrow> 'a \<Rightarrow> bool) \<Rightarrow> nat \<Rightarrow> 'a list \<Rightarrow> 'a list" where
  "insertion_sink comparator 0 xs = xs"
| "insertion_sink comparator (Suc j) xs =
     (if comparator (xs ! Suc j) (xs ! j)
      then insertion_sink comparator j (swap_at (Suc j) j xs) else xs)"

definition insertion_sort :: "('a \<Rightarrow> 'a \<Rightarrow> bool) \<Rightarrow> 'a list \<Rightarrow> 'a list" where
  "insertion_sort comparator xs =
     (if length xs < 2 then xs
      else fold (insertion_sink comparator) [0..<length xs] xs)"

function partition_loop ::
  "('a \<Rightarrow> 'a \<Rightarrow> bool) \<Rightarrow> nat \<Rightarrow> nat \<Rightarrow> nat \<Rightarrow> 'a list \<Rightarrow> 'a list \<times> nat" where
  "partition_loop comparator last_index i below xs =
     (if i < last_index
      then if comparator (xs ! i) (xs ! last_index)
           then partition_loop comparator last_index (Suc i) (Suc below) (swap_at below i xs)
           else partition_loop comparator last_index (Suc i) below xs
      else (xs, below))"
  by pat_completeness auto
termination
  by (relation "measure (\<lambda>(comparator, last_index, i, below, xs). last_index - i)") auto

declare partition_loop.simps [simp del]

text \<open>
  \<^verbatim>\<open>do_partition\<close>: \<open>below\<close> is \<^verbatim>\<open>smallest_index + 1\<close>, the number of elements
  already moved in front; the result is the array and the final place of the pivot.
\<close>

definition do_partition :: "('a \<Rightarrow> 'a \<Rightarrow> bool) \<Rightarrow> 'a list \<Rightarrow> 'a list \<times> nat" where
  "do_partition comparator xs =
     (let last_index = length xs - 1; (ys, below) = partition_loop comparator last_index 0 0 xs
      in (swap_at below last_index ys, below))"

subsection \<open>Facts about swaps and the insertion loop\<close>

lemma length_swap_at [simp]: "length (swap_at i j xs) = length xs"
  by (simp add: swap_at_def)

lemma mset_swap_at: "i < length xs \<Longrightarrow> j < length xs \<Longrightarrow> mset (swap_at i j xs) = mset xs"
  by (simp add: swap_at_def mset_swap)

lemma nth_swap_at:
  "i < length xs \<Longrightarrow> j < length xs \<Longrightarrow> k < length xs \<Longrightarrow>
   swap_at i j xs ! k = (if k = j then xs ! i else if k = i then xs ! j else xs ! k)"
  by (simp add: swap_at_def nth_list_update)

text \<open>Insertion into a reversed sorted prefix: the reference for one pass of the loop.\<close>

fun ins_rev :: "('a \<Rightarrow> 'a \<Rightarrow> bool) \<Rightarrow> 'a \<Rightarrow> 'a list \<Rightarrow> 'a list" where
  "ins_rev lt x [] = [x]"
| "ins_rev lt x (y # r) = (if lt x y then y # ins_rev lt x r else x # y # r)"

lemma insertion_sink_ins_rev:
  "insertion_sink lt (length r) (rev r @ x # zs) = rev (ins_rev lt x r) @ zs"
proof (induction r arbitrary: zs)
  case (Cons y r)
  have at: "(rev r @ y # x # zs) ! Suc (length r) = x" "(rev r @ y # x # zs) ! length r = y"
    by (simp_all add: nth_append)
  have "swap_at (Suc (length r)) (length r) (rev r @ y # x # zs) = rev r @ x # y # zs"
    by (simp add: swap_at_def at list_update_append)
  then show ?case
    using Cons.IH [of "y # zs"] by (simp add: at)
qed simp

lemma length_ins_rev [simp]: "length (ins_rev lt x r) = Suc (length r)"
  by (induction r) auto

lemma insertion_passes:
  "n \<le> length xs \<Longrightarrow>
   fold (insertion_sink lt) [0..<n] xs = rev (fold (ins_rev lt) (take n xs) []) @ drop n xs"
proof (induction n)
  case (Suc n)
  let ?r = "fold (ins_rev lt) (take n xs) []"
  have len: "length ?r = n"
    using Suc.prems by (induction n) (auto simp: take_Suc_conv_app_nth)
  have "drop n xs = xs ! n # drop (Suc n) xs"
    using Suc.prems by (simp add: Cons_nth_drop_Suc)
  then have "fold (insertion_sink lt) [0..<Suc n] xs
      = insertion_sink lt (length ?r) (rev ?r @ xs ! n # drop (Suc n) xs)"
    using Suc len by simp
  also have "\<dots> = rev (ins_rev lt (xs ! n) ?r) @ drop (Suc n) xs"
    by (rule insertion_sink_ins_rev)
  finally show ?case
    using Suc.prems by (simp add: take_Suc_conv_app_nth)
qed simp

lemma insertion_sort_eq: "insertion_sort lt xs = rev (fold (ins_rev lt) xs [])"
proof (cases "length xs < 2")
  case True
  then show ?thesis
    by (cases xs; cases "tl xs") (auto simp: insertion_sort_def)
next
  case False
  then show ?thesis
    using insertion_passes [of "length xs" xs lt] by (simp add: insertion_sort_def)
qed

lemma mset_ins_rev [simp]: "mset (ins_rev lt x r) = add_mset x (mset r)"
  by (induction r) auto

lemma set_ins_rev [simp]: "set (ins_rev lt x r) = insert x (set r)"
  by (metis mset_ins_rev set_mset_add_mset_insert set_mset_mset)

lemma mset_fold_ins_rev: "mset (fold (ins_rev lt) xs r) = mset xs + mset r"
  by (induction xs arbitrary: r) auto

lemma sorted_ins_rev:
  "sorted_wrt (\<lambda>a b. f b \<le> f a) r \<Longrightarrow>
   sorted_wrt (\<lambda>a b. f b \<le> f a) (ins_rev (\<lambda>a b. f a < f b) x r)"
  for f :: "'a \<Rightarrow> 'b :: linorder"
  by (induction r) auto

lemma sorted_fold_ins_rev:
  "sorted_wrt (\<lambda>a b. f b \<le> f a) r \<Longrightarrow>
   sorted_wrt (\<lambda>a b. f b \<le> f a) (fold (ins_rev (\<lambda>a b. f a < f b)) xs r)"
  for f :: "'a \<Rightarrow> 'b :: linorder"
  by (induction xs arbitrary: r) (auto intro: sorted_ins_rev)

lemma stable_ins_rev:
  "sorted_wrt (\<lambda>a b. f b \<le> f a) r \<Longrightarrow>
   filter (\<lambda>y. f k = f y) (ins_rev (\<lambda>a b. f a < f b) x r) =
   filter (\<lambda>y. f k = f y) (x # r)"
  for f :: "'a \<Rightarrow> 'b :: linorder"
  by (induction r) (auto simp: filter_empty_conv)

lemma stable_fold_ins_rev:
  "sorted_wrt (\<lambda>a b. f b \<le> f a) r \<Longrightarrow>
   filter (\<lambda>y. f k = f y) (fold (ins_rev (\<lambda>a b. f a < f b)) xs r) =
   rev (filter (\<lambda>y. f k = f y) xs) @ filter (\<lambda>y. f k = f y) r"
  for f :: "'a \<Rightarrow> 'b :: linorder"
  by (induction xs arbitrary: r) (auto simp: stable_ins_rev sorted_ins_rev)

lemma mset_insertion_sort [simp]: "mset (insertion_sort lt xs) = mset xs"
  by (simp add: insertion_sort_eq mset_fold_ins_rev)

lemma insertion_sort_sort_key: "insertion_sort (\<lambda>a b. f a < f b) xs = sort_key f xs"
  for f :: "'a \<Rightarrow> 'b :: linorder"
proof (rule properties_for_sort_key [symmetric])
  show "mset (insertion_sort (\<lambda>a b. f a < f b) xs) = mset xs"
    by simp
  show "filter (\<lambda>x. f k = f x) (insertion_sort (\<lambda>a b. f a < f b) xs) = filter (\<lambda>x. f k = f x) xs"
    for k
    by (simp add: insertion_sort_eq stable_fold_ins_rev rev_filter [symmetric])
  have "sorted_wrt (\<lambda>a b. f a \<le> f b) (rev (fold (ins_rev (\<lambda>a b. f a < f b)) xs []))"
    using sorted_fold_ins_rev [of f "[]" xs] by (simp add: sorted_wrt_rev)
  then show "sorted (map f (insertion_sort (\<lambda>a b. f a < f b) xs))"
    by (simp add: insertion_sort_eq sorted_map)
qed

subsection \<open>Quick sort\<close>

lemma partition_loop_inv:
  assumes "partition_loop lt la i s xs = (ys, k)"
    and "s \<le> i" "i \<le> la" "la < length xs"
    and "\<forall>j < s. lt (xs ! j) (xs ! la)"
    and "\<forall>j. s \<le> j \<and> j < i \<longrightarrow> \<not> lt (xs ! j) (xs ! la)"
  shows "mset ys = mset xs \<and> length ys = length xs \<and> ys ! la = xs ! la \<and> k \<le> la
    \<and> (\<forall>j < k. lt (ys ! j) (xs ! la))
    \<and> (\<forall>j. k \<le> j \<and> j < la \<longrightarrow> \<not> lt (ys ! j) (xs ! la))"
  using assms
proof (induction lt la i s xs rule: partition_loop.induct)
  case (1 lt la i s xs)
  note eq = "1.prems"(1) [unfolded partition_loop.simps [of lt la i s xs]]
  consider (stop) "la \<le> i" | (move) "i < la" "lt (xs ! i) (xs ! la)"
    | (keep) "i < la" "\<not> lt (xs ! i) (xs ! la)"
    by linarith
  then show ?case
  proof cases
    case stop
    with eq "1.prems" show ?thesis
      by auto
  next
    case move
    let ?xs = "swap_at s i xs"
    have b: "s < length xs" "i < length xs"
      using move "1.prems" by simp_all
    have la: "?xs ! la = xs ! la"
      using move "1.prems" b by (simp add: nth_swap_at)
    have nth: "?xs ! j = (if j = i then xs ! s else if j = s then xs ! i else xs ! j)"
      if "j < length xs" for j
      using nth_swap_at [OF b that] by simp
    have "mset ys = mset ?xs \<and> length ys = length ?xs \<and> ys ! la = ?xs ! la \<and> k \<le> la
      \<and> (\<forall>j < k. lt (ys ! j) (?xs ! la))
      \<and> (\<forall>j. k \<le> j \<and> j < la \<longrightarrow> \<not> lt (ys ! j) (?xs ! la))"
    proof (rule "1.IH"(1))
      show "partition_loop lt la (Suc i) (Suc s) ?xs = (ys, k)"
        using eq move by simp
      show "\<forall>j < Suc s. lt (?xs ! j) (?xs ! la)"
        using "1.prems" move b by (auto simp: la nth less_Suc_eq)
      show "\<forall>j. Suc s \<le> j \<and> j < Suc i \<longrightarrow> \<not> lt (?xs ! j) (?xs ! la)"
        using "1.prems" move b by (auto simp: la nth less_Suc_eq)
    qed (use move "1.prems" in simp_all)
    then show ?thesis
      using b by (simp add: la mset_swap_at)
  next
    case keep
    show ?thesis
    proof (rule "1.IH"(2))
      show "\<forall>j. s \<le> j \<and> j < Suc i \<longrightarrow> \<not> lt (xs ! j) (xs ! la)"
        using "1.prems" keep by (auto simp: less_Suc_eq)
    qed (use eq keep "1.prems" in simp_all)
  qed
qed

lemma do_partition_correct:
  assumes "do_partition lt xs = (ys, k)" "xs \<noteq> []"
  shows "mset ys = mset xs \<and> k < length ys \<and> (\<forall>x \<in> set (take k ys). lt x (ys ! k))
    \<and> (\<forall>x \<in> set (drop (Suc k) ys). \<not> lt x (ys ! k))"
proof -
  let ?last = "length xs - 1"
  obtain zs where loop: "partition_loop lt ?last 0 0 xs = (zs, k)"
    and ys: "ys = swap_at k ?last zs"
    using assms(1) by (auto simp: do_partition_def Let_def split: prod.splits)
  have last: "?last < length xs"
    using assms(2) by simp
  have inv: "mset zs = mset xs" "length zs = length xs" "zs ! ?last = xs ! ?last" "k \<le> ?last"
    "\<And>j. j < k \<Longrightarrow> lt (zs ! j) (xs ! ?last)"
    "\<And>j. k \<le> j \<Longrightarrow> j < ?last \<Longrightarrow> \<not> lt (zs ! j) (xs ! ?last)"
    using partition_loop_inv [OF loop] last by auto
  have k: "k < length zs" "?last < length zs"
    using inv last by simp_all
  have nth: "ys ! j = (if j = ?last then zs ! k else if j = k then zs ! ?last else zs ! j)"
    if "j < length zs" for j
    using nth_swap_at [OF k that] ys by simp
  have piv: "ys ! k = xs ! ?last"
    using nth [OF k(1)] inv by auto
  have "lt x (ys ! k)" if x: "x \<in> set (take k ys)" for x
  proof -
    obtain j where "j < k" "x = ys ! j"
      using x by (auto simp: in_set_conv_nth)
    with inv nth [of j] k piv show ?thesis
      by auto
  qed
  moreover have "\<not> lt x (ys ! k)" if x: "x \<in> set (drop (Suc k) ys)" for x
  proof -
    obtain j where "j < length (drop (Suc k) ys)" "x = drop (Suc k) ys ! j"
      using x by (metis in_set_conv_nth)
    then have "Suc k + j < length ys" "x = ys ! (Suc k + j)"
      by simp_all
    then have j: "Suc k + j < length zs" "x = (if Suc k + j = ?last then zs ! k else zs ! (Suc k + j))"
      using nth [of "Suc k + j"] ys by auto
    show ?thesis
      using j inv(6) [of k] inv(6) [of "Suc k + j"] inv(2) piv by (auto split: if_splits)
  qed
  ultimately show ?thesis
    using inv(1) k ys by (simp add: mset_swap_at)
qed

lemma do_partition_length:
  "do_partition lt xs = (ys, k) \<Longrightarrow> xs \<noteq> [] \<Longrightarrow> length ys = length xs \<and> k < length xs"
  using do_partition_correct [of lt xs ys k] by (metis size_mset)

function quick_sort :: "('a \<Rightarrow> 'a \<Rightarrow> bool) \<Rightarrow> 'a list \<Rightarrow> 'a list" where
  "quick_sort comparator xs =
     (if length xs < 2 then xs
      else let (ys, pivot) = do_partition comparator xs
           in quick_sort comparator (take pivot ys) @ ys ! pivot #
              quick_sort comparator (drop (Suc pivot) ys))"
  by pat_completeness auto
termination
proof (relation "measure (\<lambda>(comparator, xs). length xs)", goal_cases)
  case (2 comparator xs p ys k)
  then show ?case
    using do_partition_length [of comparator xs ys k] by (cases xs) auto
next
  case (3 comparator xs p ys k)
  then show ?case
    using do_partition_length [of comparator xs ys k] by (cases xs) auto
qed simp

declare quick_sort.simps [simp del]

lemma mset_quick_sort [simp]: "mset (quick_sort lt xs) = mset xs"
proof (induction lt xs rule: quick_sort.induct)
  case (1 lt xs)
  show ?case
  proof (cases "length xs < 2")
    case False
    obtain ys k where p: "do_partition lt xs = (ys, k)"
      by fastforce
    then have "mset ys = mset xs" "k < length ys"
      using do_partition_correct [OF p] False by force+
    moreover have "mset (quick_sort lt xs) = mset (take k ys) + mset (ys ! k # drop (Suc k) ys)"
      using "1.IH" [OF False p [symmetric]] False p by (simp add: quick_sort.simps [of lt xs])
    ultimately show ?thesis
      by (metis id_take_nth_drop mset_append)
  qed (simp add: quick_sort.simps)
qed

lemma sorted_quick_sort: "sorted (map f (quick_sort (\<lambda>a b. f a < f b) xs))"
  for f :: "'a \<Rightarrow> 'b :: linorder"
proof (induction "\<lambda>a b. f a < f b" xs rule: quick_sort.induct)
  case (1 xs)
  let ?lt = "\<lambda>a b. f a < f b"
  show ?case
  proof (cases "length xs < 2")
    case True
    then show ?thesis
      by (cases xs; cases "tl xs") (auto simp: quick_sort.simps)
  next
    case False
    obtain ys k where p: "do_partition ?lt xs = (ys, k)"
      by fastforce
    have part: "\<forall>x \<in> set (take k ys). f x < f (ys ! k)" "\<forall>x \<in> set (drop (Suc k) ys). f (ys ! k) \<le> f x"
      using do_partition_correct [OF p] False by force+
    have set: "set (quick_sort ?lt zs) = set zs" for zs
      by (metis mset_quick_sort set_mset_mset)
    have "quick_sort ?lt xs
        = quick_sort ?lt (take k ys) @ ys ! k # quick_sort ?lt (drop (Suc k) ys)"
      using False p by (simp add: quick_sort.simps [of ?lt xs])
    then show ?thesis
      using "1" [OF False p [symmetric]] part
      by (fastforce simp: sorted_append set)
  qed
qed

subsection \<open>Binary search\<close>

text \<open>
  What \<^verbatim>\<open>lower_bound\<close> needs of its two comparators: both compare the key with the
  position \<open>pos\<close> of an element in one linear order.
\<close>

locale key_comparators =
  fixes key_lt :: "'k :: linorder \<Rightarrow> 'a \<Rightarrow> bool"
    and lt_key :: "'a \<Rightarrow> 'k \<Rightarrow> bool"
    and pos :: "'a \<Rightarrow> 'k"
  assumes key_lt_pos: "key_lt k x \<longleftrightarrow> k < pos x"
    and lt_key_pos: "lt_key x k \<longleftrightarrow> pos x < k"
begin

lemma lower_bound_loop_correct:
  assumes "sorted (map pos xs)"
    and "0 \<le> left" "left \<le> right + 1" "right < int (length xs)" "int result = right + 1"
    and "\<forall>j < nat left. pos (xs ! j) < k"
    and "\<forall>j < length xs. right < int j \<longrightarrow> k < pos (xs ! j)"
  shows "let i = lower_bound_loop key_lt lt_key xs k left right result in i \<le> length xs
    \<and> ((\<forall>j < i. pos (xs ! j) < k) \<and> (\<forall>j < length xs. i \<le> j \<longrightarrow> k < pos (xs ! j))
       \<or> (i < length xs \<and> pos (xs ! i) = k))"
  using assms(2-)
proof (induction "nat (right - left + 1)" arbitrary: left right result rule: less_induct)
  case less
  note eq = lower_bound_loop.simps [of key_lt lt_key xs k left right result]
  show ?case
  proof (cases "left \<le> right")
    case False
    then have "int result = left"
      using less.prems by simp
    then have "result = nat left" "result \<le> length xs"
      using less.prems by simp_all
    moreover have "lower_bound_loop key_lt lt_key xs k left right result = result"
      using False by (simp add: eq)
    ultimately show ?thesis
      using less.prems(1,4-6) by (auto simp: Let_def)
  next
    case True
    define p where "p = left + (right - left) div 2"
    have p: "left \<le> p" "p \<le> right" "0 \<le> p" "nat p < length xs"
      using True less.prems by (auto simp: p_def)
    have mono: "i \<le> j \<Longrightarrow> j < length xs \<Longrightarrow> pos (xs ! i) \<le> pos (xs ! j)" for i j
      using assms(1) by (simp add: sorted_iff_nth_mono)
    consider (down) "k < pos (xs ! nat p)" | (up) "pos (xs ! nat p) < k" | (here) "pos (xs ! nat p) = k"
      by fastforce
    then show ?thesis
    proof cases
      case down
      have "lower_bound_loop key_lt lt_key xs k left right result
          = lower_bound_loop key_lt lt_key xs k left (p - 1) (nat p)"
        using True down by (simp add: eq Let_def p_def key_lt_pos)
      moreover have "\<forall>j < length xs. p - 1 < int j \<longrightarrow> k < pos (xs ! j)"
      proof (intro allI impI)
        fix j assume j: "j < length xs" "p - 1 < int j"
        then have "pos (xs ! nat p) \<le> pos (xs ! j)"
          by (intro mono) auto
        with down show "k < pos (xs ! j)"
          by simp
      qed
      ultimately show ?thesis
        using less.hyps [of "p - 1" left "nat p"] less.prems p by simp
    next
      case up
      have "lower_bound_loop key_lt lt_key xs k left right result
          = lower_bound_loop key_lt lt_key xs k (p + 1) right result"
        using True up less_not_sym [OF up] by (simp add: eq Let_def p_def key_lt_pos lt_key_pos)
      moreover have "\<forall>j < nat (p + 1). pos (xs ! j) < k"
      proof (intro allI impI)
        fix j assume "j < nat (p + 1)"
        then have "pos (xs ! j) \<le> pos (xs ! nat p)"
          using p by (intro mono) auto
        with up show "pos (xs ! j) < k"
          by simp
      qed
      ultimately show ?thesis
        using less.hyps [of right "p + 1" result] less.prems p by simp
    next
      case here
      then have "lower_bound_loop key_lt lt_key xs k left right result = nat p"
        using True by (simp add: eq Let_def p_def key_lt_pos lt_key_pos)
      with here p show ?thesis
        by simp
    qed
  qed
qed

lemma lower_bound_correct:
  assumes "sorted (map pos xs)"
  shows "let i = lower_bound key_lt lt_key xs k in i \<le> length xs
    \<and> ((\<forall>j < i. pos (xs ! j) < k) \<and> (\<forall>j < length xs. i \<le> j \<longrightarrow> k < pos (xs ! j))
       \<or> (i < length xs \<and> pos (xs ! i) = k))"
  using lower_bound_loop_correct [OF assms, of 0 "int (length xs) - 1" "length xs" k]
  by (simp add: lower_bound_def)

lemma lower_bound_strict:
  assumes "sorted_wrt (<) (map pos xs)"
  shows "lower_bound key_lt lt_key xs k = length (takeWhile (\<lambda>x. pos x < k) xs)"
proof -
  let ?i = "lower_bound key_lt lt_key xs k"
  have strict: "i < j \<Longrightarrow> j < length xs \<Longrightarrow> pos (xs ! i) < pos (xs ! j)" for i j
    using assms by (simp add: sorted_wrt_iff_nth_less)
  have "sorted (map pos xs)"
    using assms by (rule strict_sorted_imp_sorted)
  from lower_bound_correct [OF this, of k]
  have "?i \<le> length xs \<and> (\<forall>j < ?i. pos (xs ! j) < k) \<and> (?i < length xs \<longrightarrow> \<not> pos (xs ! ?i) < k)"
    using strict unfolding Let_def by (metis linorder_not_less order_less_imp_le order_less_irrefl)
  then have "takeWhile (\<lambda>x. pos x < k) xs = take ?i xs"
    by (intro takeWhile_eq_take_P_nth) auto
  then show ?thesis
    using \<open>?i \<le> length xs \<and> _\<close> by simp
qed

lemma binary_search_correct:
  assumes "sorted (map pos xs)"
  shows "let i = binary_search key_lt lt_key xs k in
    (i < length xs \<and> pos (xs ! i) = k) \<or> (i = length xs \<and> k \<notin> pos ` set xs)"
proof (cases "lower_bound key_lt lt_key xs k = length xs \<or> k < pos (xs ! lower_bound key_lt lt_key xs k)")
  case True
  then have "\<forall>j < length xs. pos (xs ! j) \<noteq> k"
    using lower_bound_correct [OF assms, of k] unfolding Let_def
    by (metis linorder_not_le order_less_irrefl)
  moreover have "binary_search key_lt lt_key xs k = length xs"
    using True by (auto simp: binary_search_def Let_def key_lt_pos)
  ultimately show ?thesis
    by (auto simp: in_set_conv_nth)
next
  case False
  then have "binary_search key_lt lt_key xs k = lower_bound key_lt lt_key xs k"
    by (simp add: binary_search_def Let_def key_lt_pos)
  then show ?thesis
    using False lower_bound_correct [OF assms, of k] unfolding Let_def
    by (metis linorder_not_less nless_le order_refl)
qed

end

subsection \<open>Linear search and division\<close>

lemma linear_search_for_eq: "linear_search_for P xs = length (takeWhile (\<lambda>x. \<not> P x) xs)"
  by (induction xs) auto

lemma ceiling_divide_eq:
  assumes "0 < r"
  shows "ceiling_divide l r = (l + r - 1) div r"
proof (cases l)
  case 0
  with assms show ?thesis
    by (simp add: ceiling_divide_def)
next
  case (Suc m)
  then have "l + r - 1 = m + r"
    by simp
  with Suc assms show ?thesis
    by (simp add: ceiling_divide_def div_add_self2)
qed

subsection \<open>Properties\<close>

text \<open>
  \<^verbatim>\<open>insertion_sort\<close> with a comparator that compares a key is the stable sort by
  that key.
\<close>

theorem insertion_sort_is_stable_sort:
  "insertion_sort (\<lambda>a b. f a < f b) xs = sort_key (f :: 'a \<Rightarrow> 'b :: linorder) xs"
  by (rule insertion_sort_sort_key)

text \<open>
  \<^verbatim>\<open>quick_sort\<close> with a comparator that compares a key terminates, keeps exactly
  the elements of the array and leaves them sorted by the key.
\<close>

theorem quick_sort_sorts:
  "mset (quick_sort (\<lambda>a b. f a < f b) xs) = mset xs
   \<and> sorted (map (f :: 'a \<Rightarrow> 'b :: linorder) (quick_sort (\<lambda>a b. f a < f b) xs))"
  by (simp add: sorted_quick_sort)

end
