(* ===== verification/Bit_Array.thy ===== *)
theory Bit_Array
  imports Algorithms
begin

text \<open>
  \<^verbatim>\<open>Kernel/Common/DynamicBitArray.h\<close>: a bit array stored in 64-bit units, and
  \<^verbatim>\<open>Kernel/Interrupts/IVectorAllocator.cpp\<close>, the interrupt vector allocator built on
  it. The abstraction \<open>bits_of\<close> is the list of the array's bits. Sizes and bit
  indices are natural numbers: an index sum that would wrap is caught by the same
  assertion as one that is out of range, either at the check of the sum or at the first
  bit past the end. The locale \<open>bit_map\<close> states what the allocators rely on.
\<close>

subsection \<open>The array\<close>

record bit_array =
  m_bit_count :: nat
  m_bits :: "u64 list"

definition bits_per_unit :: nat where
  "bits_per_unit = 64"

definition location_of_bit :: "nat \<Rightarrow> nat \<times> nat" where
  "location_of_bit b = (b div bits_per_unit, b mod bits_per_unit)"

definition bit_as_mask :: "nat \<Rightarrow> u64" where
  "bit_as_mask b = push_bit b 1"

text \<open>\<^verbatim>\<open>DynamicArray::at\<close> asserts that the index is in range.\<close>

definition unit_at :: "bit_array \<Rightarrow> nat \<Rightarrow> u64 res" where
  "unit_at ba i = (if i < length (m_bits ba) then Inr (m_bits ba ! i) else Inl Assertion)"

text \<open>\<^verbatim>\<open>DynamicArray::expand_to\<close>, for units: new elements are zero.\<close>

definition expand_units :: "nat \<Rightarrow> u64 list \<Rightarrow> u64 list" where
  "expand_units cnt us = us @ replicate (cnt - length us) 0"

definition units_needed :: "nat \<Rightarrow> nat" where
  "units_needed bit_count = ceiling_divide bit_count bits_per_unit"

definition set_size :: "nat \<Rightarrow> bit_array \<Rightarrow> bit_array" where
  "set_size bit_count ba =
     ba\<lparr>m_bit_count := bit_count,
        m_bits := (if length (m_bits ba) < units_needed bit_count
                   then expand_units (units_needed bit_count) (m_bits ba) else m_bits ba)\<rparr>"

definition new_bit_array :: "nat \<Rightarrow> bit_array" where
  "new_bit_array initial_size = set_size initial_size \<lparr>m_bit_count = 0, m_bits = []\<rparr>"

definition bit_at :: "nat \<Rightarrow> bit_array \<Rightarrow> bool res" where
  "bit_at index ba =
     (let location = location_of_bit index
      in bind_res (unit_at ba (fst location)) (\<lambda>unit.
         Inr (unit AND bit_as_mask (snd location) \<noteq> 0)))"

definition set_bit_at :: "nat \<Rightarrow> bool \<Rightarrow> bit_array \<Rightarrow> bit_array res" where
  "set_bit_at index to ba =
     (if \<not> index < m_bit_count ba then Inl Assertion
      else let location = location_of_bit index
           in bind_res (unit_at ba (fst location)) (\<lambda>unit.
              Inr (ba\<lparr>m_bits := (m_bits ba)[fst location :=
                if to then unit OR bit_as_mask (snd location)
                else unit AND NOT (bit_as_mask (snd location))]\<rparr>)))"

text \<open>\<^verbatim>\<open>__builtin_ffsl\<close>: one plus the index of the lowest set bit, zero for zero.\<close>

definition ffsl :: "u64 \<Rightarrow> nat" where
  "ffsl w = (if w = 0 then 0 else Suc (length (takeWhile (\<lambda>i. \<not> bit w i) [0..<64])))"

text \<open>The inner loop of \<^verbatim>\<open>find_bit\<close>: \<open>None\<close> when it ends or breaks without a result.\<close>

function find_bit_pass :: "bool \<Rightarrow> bit_array \<Rightarrow> nat \<Rightarrow> nat \<Rightarrow> nat option res" where
  "find_bit_pass of_value ba index_of_unit end_unit =
     (if index_of_unit < end_unit
      then bind_res (unit_at ba index_of_unit) (\<lambda>unit.
        if unit = (if of_value then 0 else - 1)
        then find_bit_pass of_value ba (Suc index_of_unit) end_unit
        else let unit_value = (if of_value then unit else NOT unit);
                 target_bit = ffsl unit_value - 1 + index_of_unit * bits_per_unit
             in if target_bit \<ge> m_bit_count ba then Inr None else Inr (Some target_bit))
      else Inr None)"
  by pat_completeness auto
termination
  by (relation "measure (\<lambda>(of_value, ba, i, e). e - i)") auto

declare find_bit_pass.simps [simp del]

definition find_bit :: "bool \<Rightarrow> nat \<Rightarrow> bit_array \<Rightarrow> nat option res" where
  "find_bit of_value hint ba =
     (if \<not> hint < m_bit_count ba then Inl Assertion
      else let start = hint div bits_per_unit; end_unit = units_needed (m_bit_count ba)
           in bind_res (find_bit_pass of_value ba start end_unit) (\<lambda>first.
              case first of Some b \<Rightarrow> Inr (Some b)
              | None \<Rightarrow> find_bit_pass of_value ba 0 start))"

function find_from_offset :: "bool \<Rightarrow> nat \<Rightarrow> bit_array \<Rightarrow> nat option res" where
  "find_from_offset of_value index ba =
     (if index < m_bit_count ba
      then let loc = location_of_bit index
           in bind_res (unit_at ba (fst loc)) (\<lambda>unit.
              if unit AND push_bit (snd loc) 1 = of_bool of_value then Inr (Some index)
              else find_from_offset of_value (Suc index) ba)
      else Inr None)"
  by pat_completeness auto
termination
  by (relation "measure (\<lambda>(of_value, i, ba). m_bit_count ba - i)") auto

declare find_from_offset.simps [simp del]

definition find_bit_starting_at_offset :: "bool \<Rightarrow> nat \<Rightarrow> bit_array \<Rightarrow> nat option res" where
  "find_bit_starting_at_offset of_value offset ba =
     (if \<not> offset < m_bit_count ba then Inl Assertion else find_from_offset of_value offset ba)"

text \<open>
  \<^verbatim>\<open>find_range\<close>: \<open>first_bit\<close> is a \<^verbatim>\<open>ssize_t\<close> that starts at \<open>-1\<close> and is
  returned as a \<^verbatim>\<open>size_t\<close>.
\<close>

function find_range_loop ::
  "nat \<Rightarrow> bool \<Rightarrow> bit_array \<Rightarrow> nat \<Rightarrow> nat \<Rightarrow> int \<Rightarrow> size_t option res" where
  "find_range_loop len of_value ba i contiguous_bits first_bit =
     (if i < m_bit_count ba
      then bind_res (bit_at i ba) (\<lambda>b.
        let is_suitable = (of_value = b);
            contiguous_bits' = (if is_suitable then Suc contiguous_bits else 0);
            first_bit' = (if is_suitable then (if first_bit = -1 then int i else first_bit) else -1)
        in if contiguous_bits' = len then Inr (Some (word_of_int first_bit'))
           else find_range_loop len of_value ba (Suc i) contiguous_bits' first_bit')
      else Inr None)"
  by pat_completeness auto
termination
  by (relation "measure (\<lambda>(len, of_value, ba, i, c, f). m_bit_count ba - i)") auto

declare find_range_loop.simps [simp del]

definition find_range :: "nat \<Rightarrow> bool \<Rightarrow> bit_array \<Rightarrow> size_t option res" where
  "find_range len of_value ba = find_range_loop len of_value ba 0 0 (-1)"

fun set_bits_to :: "nat \<Rightarrow> bool list \<Rightarrow> bit_array \<Rightarrow> bit_array res" where
  "set_bits_to at_index [] ba = Inr ba"
| "set_bits_to at_index (v # vs) ba =
     bind_res (set_bit_at at_index v ba) (set_bits_to (Suc at_index) vs)"

definition set_range_to :: "nat \<Rightarrow> nat \<Rightarrow> bool \<Rightarrow> bit_array \<Rightarrow> bit_array res" where
  "set_range_to at_index cnt val ba =
     (if \<not> at_index + cnt \<le> m_bit_count ba then Inl Assertion
      else set_bits_to at_index (replicate cnt val) ba)"

definition set_range_to_number :: "nat \<Rightarrow> nat \<Rightarrow> u64 \<Rightarrow> bit_array \<Rightarrow> bit_array res" where
  "set_range_to_number at_index cnt number ba =
     (if \<not> at_index + cnt \<le> m_bit_count ba then Inl Assertion
      else if cnt > 64 then Inl Undefined
      else if \<not> (cnt = 64 \<or> number \<le> push_bit cnt 1 - 1) then Inl Assertion
      else set_bits_to at_index
        (map (\<lambda>i. drop_bit i (push_bit i 1 AND number) \<noteq> 0) [0..<cnt]) ba)"

fun range_number_loop :: "nat \<Rightarrow> nat list \<Rightarrow> bit_array \<Rightarrow> u64 \<Rightarrow> u64 res" where
  "range_number_loop index [] ba number = Inr number"
| "range_number_loop index (i # is) ba number =
     bind_res (bit_at (index + i) ba) (\<lambda>b.
       range_number_loop index is ba (number OR push_bit i (of_bool b)))"

definition range_as_number :: "nat \<Rightarrow> nat \<Rightarrow> bit_array \<Rightarrow> u64 res" where
  "range_as_number index len ba =
     (if \<not> index + len \<le> m_bit_count ba then Inl Assertion
      else if len > 64 then Inl Undefined
      else range_number_loop index [0..<len] ba 0)"

subsection \<open>The array as a list of bits\<close>

definition bits_of :: "bit_array \<Rightarrow> bool list" where
  "bits_of ba = map (\<lambda>i. bit (m_bits ba ! (i div 64)) (i mod 64)) [0..<m_bit_count ba]"

definition bit_array_inv :: "bit_array \<Rightarrow> bool" where
  "bit_array_inv ba \<longleftrightarrow> m_bit_count ba \<le> 64 * length (m_bits ba)"

lemma length_bits_of [simp]: "length (bits_of ba) = m_bit_count ba"
  by (simp add: bits_of_def)

lemma nth_bits_of: "i < m_bit_count ba \<Longrightarrow> bits_of ba ! i = bit (m_bits ba ! (i div 64)) (i mod 64)"
  by (simp add: bits_of_def)

lemma unit_index: "bit_array_inv ba \<Longrightarrow> i < m_bit_count ba \<Longrightarrow> i div 64 < length (m_bits ba)"
  by (simp add: bit_array_inv_def less_mult_imp_div_less mult.commute)

lemma unit_at_ok: "i < length (m_bits ba) \<Longrightarrow> unit_at ba i = Inr (m_bits ba ! i)"
  by (simp add: unit_at_def)

lemma units_needed_eq: "units_needed n = (n + 63) div 64"
  by (simp add: units_needed_def bits_per_unit_def ceiling_divide_eq)

lemma units_needed_ge: "n \<le> 64 * units_needed n"
  using ceil_mult_ge [of 64 n] by (simp add: units_needed_eq)

lemma units_needed_le: "bit_array_inv ba \<Longrightarrow> units_needed (m_bit_count ba) \<le> length (m_bits ba)"
  using ceil_mult_least [of 64 "m_bit_count ba" "length (m_bits ba)"]
  by (simp add: bit_array_inv_def units_needed_eq)

lemma bit_at_correct:
  assumes "bit_array_inv ba" "i < m_bit_count ba"
  shows "bit_at i ba = Inr (bits_of ba ! i)"
  using assms unit_index [OF assms]
  by (simp add: bit_at_def location_of_bit_def bits_per_unit_def unit_at_ok nth_bits_of
      bit_as_mask_def bit_iff_and_push_bit_not_eq_0)

lemma bit_of_updated_unit:
  "m < 64 \<Longrightarrow> k < 64 \<Longrightarrow>
   bit (if v then u OR push_bit k 1 else u AND NOT (push_bit k 1)) m = (if m = k then v else bit u m)"
  for u :: u64
  by (auto simp: bit_simps)

lemma same_location: "i div 64 = j div 64 \<Longrightarrow> i mod 64 = j mod 64 \<Longrightarrow> i = j" for i j :: nat
  by (metis div_mult_mod_eq)

lemma set_bit_at_correct:
  assumes "bit_array_inv ba" "i < m_bit_count ba"
  shows "\<exists>ba'. set_bit_at i v ba = Inr ba' \<and> bit_array_inv ba'
    \<and> m_bit_count ba' = m_bit_count ba \<and> bits_of ba' = (bits_of ba)[i := v]"
proof -
  let ?u = "m_bits ba ! (i div 64)" and ?m = "push_bit (i mod 64) (1 :: u64)"
  let ?ba = "ba\<lparr>m_bits := (m_bits ba)[i div 64 := if v then ?u OR ?m else ?u AND NOT ?m]\<rparr>"
  have len: "i div 64 < length (m_bits ba)"
    using assms by (rule unit_index)
  then have "set_bit_at i v ba = Inr ?ba"
    using assms
    by (simp add: set_bit_at_def location_of_bit_def bits_per_unit_def unit_at_ok bit_as_mask_def)
  moreover have "bits_of ?ba = (bits_of ba)[i := v]"
  proof (rule nth_equalityI)
    fix j assume "j < length (bits_of ?ba)"
    then have j: "j < m_bit_count ba"
      by simp
    have "bit (m_bits ?ba ! (j div 64)) (j mod 64)
        = (if j = i then v else bit (m_bits ba ! (j div 64)) (j mod 64))"
    proof (cases "j div 64 = i div 64")
      case True
      then have "m_bits ?ba ! (j div 64) = (if v then ?u OR ?m else ?u AND NOT ?m)"
        using len by simp
      moreover have "j mod 64 = i mod 64 \<longleftrightarrow> j = i"
        using same_location [OF True] by auto
      ultimately show ?thesis
        using bit_of_updated_unit [of "j mod 64" "i mod 64" v ?u] True by simp
    next
      case False
      then have "m_bits ?ba ! (j div 64) = m_bits ba ! (j div 64)" "j \<noteq> i"
        by auto
      then show ?thesis
        by simp
    qed
    then show "bits_of ?ba ! j = (bits_of ba)[i := v] ! j"
      using j assms(2) by (simp add: nth_bits_of nth_list_update)
  qed simp
  ultimately show ?thesis
    using assms by (simp add: bit_array_inv_def)
qed

lemma ffsl_lowest:
  assumes "w \<noteq> 0"
  shows "ffsl w - 1 < 64" "bit w (ffsl w - 1)" "j < ffsl w - 1 \<Longrightarrow> \<not> bit w j"
proof -
  let ?p = "\<lambda>i. \<not> bit w i"
  let ?t = "takeWhile ?p [0..<64]"
  have "w = 0" if "\<forall>i < 64. \<not> bit w i"
    using that by (intro bit_word_eqI) simp
  then have "?t \<noteq> [0..<64]"
    using assms by (force simp: takeWhile_eq_all_conv)
  then have len: "length ?t < 64"
    using length_takeWhile_le [of ?p "[0..<64]"] takeWhile_eq_take [of ?p "[0..<64]"]
    by (cases "length ?t = 64") auto
  then show "ffsl w - 1 < 64"
    using assms by (simp add: ffsl_def)
  show "bit w (ffsl w - 1)"
    using nth_length_takeWhile [of ?p "[0..<64]"] len assms by (simp add: ffsl_def)
  show "\<not> bit w j" if "j < ffsl w - 1"
  proof -
    have j: "j < length ?t"
      using that assms by (simp add: ffsl_def)
    then have "?t ! j = j"
      using takeWhile_nth [of j ?p "[0..<64]"] len by simp
    then show ?thesis
      using nth_mem [OF j] set_takeWhileD by metis
  qed
qed

lemma bit_unit_pattern: "j < 64 \<Longrightarrow> u = (if v then 0 else - 1) \<Longrightarrow> bit u j \<noteq> v"
  for u :: u64
  by (auto split: if_splits)

lemma find_bit_pass_correct:
  assumes "bit_array_inv ba" "e \<le> units_needed (m_bit_count ba)"
  shows "\<exists>r. find_bit_pass v ba i e = Inr r
    \<and> (case r of Some b \<Rightarrow> b < m_bit_count ba \<and> bits_of ba ! b = v
       | None \<Rightarrow> \<forall>b < m_bit_count ba. 64 * i \<le> b \<and> b < 64 * e \<longrightarrow> bits_of ba ! b \<noteq> v)"
  using assms
proof (induction v ba i e rule: find_bit_pass.induct)
  case (1 v ba i e)
  note eq = find_bit_pass.simps [of v ba i e]
  show ?case
  proof (cases "i < e")
    case False
    then show ?thesis
      by (auto simp: eq)
  next
    case True
    let ?u = "m_bits ba ! i"
    have i: "i < length (m_bits ba)"
      using True "1.prems" units_needed_le [of ba] by simp
    show ?thesis
    proof (cases "?u = (if v then 0 else - 1)")
      case skip: True
      have "\<exists>r. find_bit_pass v ba (Suc i) e = Inr r
        \<and> (case r of Some b \<Rightarrow> b < m_bit_count ba \<and> bits_of ba ! b = v
           | None \<Rightarrow> \<forall>b < m_bit_count ba. 64 * Suc i \<le> b \<and> b < 64 * e \<longrightarrow> bits_of ba ! b \<noteq> v)"
        using "1.IH" [OF True unit_at_ok [OF i] skip] "1.prems" by blast
      moreover have "bits_of ba ! b \<noteq> v"
        if "b < m_bit_count ba" "64 * i \<le> b" "b < 64 * Suc i" for b
      proof -
        have "b div 64 = i"
          using that by (intro div_nat_eqI) simp_all
        then show ?thesis
          using that bit_unit_pattern [of "b mod 64" ?u v] skip by (simp add: nth_bits_of)
      qed
      ultimately show ?thesis
        using True skip by (fastforce simp: eq unit_at_ok [OF i] not_le split: option.splits)
    next
      case hit: False
      define w where "w = (if v then ?u else NOT ?u)"
      define k where "k = ffsl w - 1"
      have "w \<noteq> 0"
        using hit by (metis (full_types) w_def bit.double_compl bit.compl_zero)
      then have k: "k < 64" "bit w k" "\<And>j. j < k \<Longrightarrow> \<not> bit w j"
        using ffsl_lowest by (simp_all add: k_def)
      have unit: "j < 64 \<Longrightarrow> bit w j \<longleftrightarrow> bit ?u j = v" for j
        by (auto simp: w_def bit_simps)
      have res: "find_bit_pass v ba i e
          = (if m_bit_count ba \<le> k + i * 64 then Inr None else Inr (Some (k + i * 64)))"
        using True hit by (simp add: eq unit_at_ok [OF i] Let_def w_def k_def bits_per_unit_def)
      show ?thesis
      proof (cases "m_bit_count ba \<le> k + i * 64")
        case True
        have "bits_of ba ! b \<noteq> v" if "b < m_bit_count ba" "64 * i \<le> b" for b
        proof -
          have d: "b div 64 = i"
            using that True k(1) by (intro div_nat_eqI) simp_all
          then have "b mod 64 < k"
            using div_mult_mod_eq [of b 64] that True by linarith
          with d show ?thesis
            using that k unit [of "b mod 64"] by (auto simp: nth_bits_of)
        qed
        then show ?thesis
          using res True by auto
      next
        case False
        have "(k + i * 64) div 64 = i" "(k + i * 64) mod 64 = k"
          using k(1) by simp_all
        then show ?thesis
          using res False k(2) unit [OF k(1)] by (simp add: nth_bits_of)
      qed
    qed
  qed
qed

lemma find_bit_correct:
  assumes "bit_array_inv ba" "hint < m_bit_count ba"
  shows "\<exists>r. find_bit v hint ba = Inr r
    \<and> (case r of Some b \<Rightarrow> b < m_bit_count ba \<and> bits_of ba ! b = v
       | None \<Rightarrow> v \<notin> set (bits_of ba))"
proof -
  let ?s = "hint div 64" and ?e = "units_needed (m_bit_count ba)"
  have s: "?s \<le> ?e"
    using assms(2) units_needed_ge [of "m_bit_count ba"] by (simp add: div_le_mono2 less_mult_imp_div_less
        less_imp_le mult.commute)
  obtain r1 where r1: "find_bit_pass v ba ?s ?e = Inr r1"
    "case r1 of Some b \<Rightarrow> b < m_bit_count ba \<and> bits_of ba ! b = v
       | None \<Rightarrow> \<forall>b < m_bit_count ba. 64 * ?s \<le> b \<and> b < 64 * ?e \<longrightarrow> bits_of ba ! b \<noteq> v"
    using find_bit_pass_correct [OF assms(1) order_refl] by blast
  obtain r2 where r2: "find_bit_pass v ba 0 ?s = Inr r2"
    "case r2 of Some b \<Rightarrow> b < m_bit_count ba \<and> bits_of ba ! b = v
       | None \<Rightarrow> \<forall>b < m_bit_count ba. 64 * 0 \<le> b \<and> b < 64 * ?s \<longrightarrow> bits_of ba ! b \<noteq> v"
    using find_bit_pass_correct [OF assms(1) s] by blast
  have res: "find_bit v hint ba = Inr (case r1 of Some b \<Rightarrow> Some b | None \<Rightarrow> r2)"
    using assms(2) r1(1) r2(1)
    by (simp add: find_bit_def bits_per_unit_def Let_def split: option.splits)
  have "v \<notin> set (bits_of ba)" if "r1 = None" "r2 = None"
  proof -
    have "bits_of ba ! b \<noteq> v" if b: "b < m_bit_count ba" for b
      using r1(2) r2(2) \<open>r1 = None\<close> \<open>r2 = None\<close> b units_needed_ge [of "m_bit_count ba"]
      by (cases "b < 64 * ?s") (auto simp: not_less)
    then show ?thesis
      by (auto simp: in_set_conv_nth)
  qed
  then show ?thesis
    using res r1(2) r2(2) by (auto split: option.splits)
qed

lemma find_from_offset_False:
  assumes "bit_array_inv ba"
  shows "find_from_offset False i ba =
    Inr (find (\<lambda>j. \<not> bits_of ba ! j) [i..<m_bit_count ba])"
  using assms
proof (induction "False" i ba rule: find_from_offset.induct)
  case (1 i ba)
  show ?case
  proof (cases "i < m_bit_count ba")
    case True
    note u = unit_at_ok [OF unit_index [OF "1.prems" True]]
    have b: "m_bits ba ! (i div 64) AND push_bit (i mod 64) 1 = of_bool False \<longleftrightarrow> \<not> bits_of ba ! i"
      using True by (simp add: nth_bits_of bit_iff_and_push_bit_not_eq_0)
    show ?thesis
      using True "1.prems" "1.hyps" [OF True refl] u b
      by (simp add: find_from_offset.simps [of False i ba] location_of_bit_def bits_per_unit_def
          upt_conv_Cons)
  next
    case False
    then show ?thesis
      by (simp add: find_from_offset.simps [of False i ba])
  qed
qed

lemma and_push_bit_one: "u AND push_bit k 1 = (if bit u k then push_bit k 1 else 0)" for u :: u64
  by (rule bit_word_eqI) (auto simp: bit_simps)

lemma push_bit_eq_1_iff: "k < 64 \<Longrightarrow> push_bit k 1 = (1 :: u64) \<longleftrightarrow> k = 0"
proof
  assume k: "k < 64" and eq: "push_bit k 1 = (1 :: u64)"
  have "bit (push_bit k 1 :: u64) k"
    using k by (simp add: bit_simps)
  then have "bit (1 :: u64) k"
    unfolding eq .
  then show "k = 0"
    by (simp add: bit_1_iff)
qed simp

lemma find_from_offset_True:
  assumes "bit_array_inv ba" "find_from_offset True i ba = Inr (Some j)"
  shows "64 dvd j"
  using assms
proof (induction True i ba rule: find_from_offset.induct)
  case (1 i ba)
  have i: "i < m_bit_count ba"
    using "1.prems"(2) by (cases "i < m_bit_count ba") (simp_all add: find_from_offset.simps [of True i ba])
  note u = unit_at_ok [OF unit_index [OF "1.prems"(1) i]]
  show ?case
  proof (cases "m_bits ba ! (i div 64) AND push_bit (i mod 64) 1 = 1")
    case True
    then have "push_bit (i mod 64) (1 :: u64) = 1"
      by (metis and_push_bit_one zero_neq_one)
    then have "i mod 64 = 0"
      using push_bit_eq_1_iff [of "i mod 64"] by linarith
    moreover have "i = j"
      using "1.prems"(2) i u True
      by (simp add: find_from_offset.simps [of True i ba] location_of_bit_def bits_per_unit_def)
    ultimately show ?thesis
      by (simp add: dvd_eq_mod_eq_0)
  next
    case False
    then show ?thesis
      using "1.hyps" [OF i refl, of "m_bits ba ! (i div 64)"] "1.prems" i u
      by (simp add: find_from_offset.simps [of True i ba] location_of_bit_def bits_per_unit_def)
  qed
qed

lemma set_bits_to_correct:
  "bit_array_inv ba \<Longrightarrow> at_index + length vs \<le> m_bit_count ba \<Longrightarrow>
   \<exists>ba'. set_bits_to at_index vs ba = Inr ba' \<and> bit_array_inv ba'
     \<and> m_bit_count ba' = m_bit_count ba
     \<and> bits_of ba' = take at_index (bits_of ba) @ vs @ drop (at_index + length vs) (bits_of ba)"
proof (induction vs arbitrary: at_index ba)
  case (Cons v vs)
  then obtain ba1 where ba1: "set_bit_at at_index v ba = Inr ba1" "bit_array_inv ba1"
    "m_bit_count ba1 = m_bit_count ba" "bits_of ba1 = (bits_of ba)[at_index := v]"
    using set_bit_at_correct [of ba at_index v] by auto
  then obtain ba' where ba': "set_bits_to (Suc at_index) vs ba1 = Inr ba'" "bit_array_inv ba'"
    "m_bit_count ba' = m_bit_count ba1"
    "bits_of ba' = take (Suc at_index) (bits_of ba1) @ vs @ drop (Suc at_index + length vs) (bits_of ba1)"
    using Cons.IH [of ba1 "Suc at_index"] Cons.prems by auto
  have "take (Suc at_index) ((bits_of ba)[at_index := v]) = take at_index (bits_of ba) @ [v]"
    using Cons.prems by (simp add: take_Suc_conv_app_nth)
  with ba1 ba' show ?case
    by simp
qed simp

lemma range_number_loop_bits:
  assumes "bit_array_inv ba" "\<forall>i \<in> set is. index + i < m_bit_count ba \<and> i < 64"
  shows "\<exists>n. range_number_loop index is ba acc = Inr n
     \<and> (\<forall>k. bit n k \<longleftrightarrow> bit acc k \<or> (k \<in> set is \<and> bits_of ba ! (index + k)))"
  using assms
proof (induction "is" arbitrary: acc)
  case (Cons i "is")
  have "bit (push_bit i (of_bool b) :: u64) k \<longleftrightarrow> k = i \<and> b" for b k
    using Cons.prems(2) by (auto simp: bit_simps)
  then show ?case
    using Cons.IH [of "acc OR push_bit i (of_bool (bits_of ba ! (index + i)))"] Cons.prems
    by (auto simp: bit_at_correct bit_or_iff)
qed simp

definition run_at :: "bool \<Rightarrow> bool list \<Rightarrow> nat \<Rightarrow> nat \<Rightarrow> bool" where
  "run_at v bs s len \<longleftrightarrow> s + len \<le> length bs \<and> (\<forall>j. s \<le> j \<and> j < s + len \<longrightarrow> bs ! j = v)"

lemma find_range_loop_correct:
  assumes "bit_array_inv ba" "m_bit_count ba < 2 ^ 64" "0 < len"
    and "c < len" "c \<le> i" "i \<le> m_bit_count ba" "run_at v (bits_of ba) (i - c) c"
    and "f = (if c = 0 then -1 else int (i - c))"
    and "i = c \<or> bits_of ba ! (i - c - 1) \<noteq> v"
    and "\<forall>s. s + len \<le> i \<longrightarrow> \<not> run_at v (bits_of ba) s len"
  shows "\<exists>r. find_range_loop len v ba i c f = Inr r
    \<and> (case r of Some w \<Rightarrow> run_at v (bits_of ba) (unat w) len
            \<and> (\<forall>s < unat w. \<not> run_at v (bits_of ba) s len)
       | None \<Rightarrow> \<forall>s. \<not> run_at v (bits_of ba) s len)"
  using assms
proof (induction len v ba i c f rule: find_range_loop.induct)
  case (1 len v ba i c f)
  note eq = find_range_loop.simps [of len v ba i c f]
  show ?case
  proof (cases "i < m_bit_count ba")
    case False
    with "1.prems" have "\<forall>s. \<not> run_at v (bits_of ba) s len"
      by (auto simp: run_at_def)
    then show ?thesis
      using False by (simp add: eq)
  next
    case i: True
    note b = bit_at_correct [OF "1.prems"(1) i]
    show ?thesis
    proof (cases "bits_of ba ! i = v")
      case True
      let ?f = "if f = -1 then int i else f"
      have f: "?f = int (i - c)"
        using "1.prems"(8) by auto
      have run: "run_at v (bits_of ba) (i - c) (Suc c)"
        using "1.prems"(5-7) True i by (auto simp: run_at_def less_Suc_eq)
      have none: "\<not> run_at v (bits_of ba) s len" if "s < i - c" for s
      proof
        assume r: "run_at v (bits_of ba) s len"
        show False
        proof (cases "s + len \<le> i")
          case True
          with r "1.prems"(10) show False
            by blast
        next
          case False
          then have "s \<le> i - c - 1 \<and> i - c - 1 < s + len"
            using that by linarith
          then have "bits_of ba ! (i - c - 1) = v"
            using r unfolding run_at_def by blast
          with "1.prems"(9) that show False
            by auto
        qed
      qed
      show ?thesis
      proof (cases "Suc c = len")
        case True
        have small: "i - c < 2 ^ 64"
          using i "1.prems"(2) by linarith
        have "find_range_loop len v ba i c f = Inr (Some (word_of_int ?f))"
          using i b \<open>bits_of ba ! i = v\<close> True by (simp add: eq Let_def)
        moreover have "unat (word_of_int ?f :: size_t) = i - c"
          using f unat_word_of_nat_64 [OF small] by simp
        ultimately show ?thesis
          using run none by (simp flip: True)
      next
        case False
        have "find_range_loop len v ba i c f = find_range_loop len v ba (Suc i) (Suc c) ?f"
          using i b \<open>bits_of ba ! i = v\<close> False by (simp add: eq Let_def)
        moreover have "\<not> run_at v (bits_of ba) s len" if "s + len \<le> Suc i" for s
          using none [of s] that False "1.prems"(4) by linarith
        ultimately show ?thesis
          using "1.IH" [OF i b refl refl refl] "1.prems" i f run True False by auto
      qed
    next
      case False
      have "find_range_loop len v ba i c f = find_range_loop len v ba (Suc i) 0 (-1)"
        using i b False "1.prems"(3) by (auto simp: eq Let_def)
      moreover have "\<not> run_at v (bits_of ba) s len" if "s + len \<le> Suc i" for s
      proof (cases "s + len = Suc i")
        case True
        then have "s \<le> i \<and> i < s + len"
          using "1.prems"(3) by linarith
        then show ?thesis
          using False unfolding run_at_def by blast
      next
        case le: False
        then show ?thesis
          using that "1.prems"(10) by simp
      qed
      ultimately show ?thesis
        using "1.IH" [OF i b refl refl refl] "1.prems" i False by (auto simp: run_at_def)
    qed
  qed
qed

lemma new_bit_array_correct:
  "bit_array_inv (new_bit_array n)" "bits_of (new_bit_array n) = replicate n False"
  "m_bit_count (new_bit_array n) = n"
proof -
  have le: "n \<le> 64 * units_needed n"
    by (rule units_needed_ge)
  have "bit (replicate (units_needed n) 0 ! (i div 64) :: u64) (i mod 64) = False" if "i < n" for i
  proof -
    have "i div 64 < units_needed n"
      using that le by (simp add: less_mult_imp_div_less mult.commute)
    then show ?thesis
      by simp
  qed
  then show "bits_of (new_bit_array n) = replicate n False"
    by (intro nth_equalityI) (auto simp: new_bit_array_def set_size_def expand_units_def nth_bits_of)
  show "bit_array_inv (new_bit_array n)" "m_bit_count (new_bit_array n) = n"
    using le by (auto simp: new_bit_array_def set_size_def expand_units_def bit_array_inv_def)
qed

subsection \<open>What allocators rely on\<close>

locale bit_map =
  fixes invar :: "'b \<Rightarrow> bool"
    and bits :: "'b \<Rightarrow> bool list"
    and set_at :: "nat \<Rightarrow> bool \<Rightarrow> 'b \<Rightarrow> 'b res"
    and search :: "bool \<Rightarrow> nat \<Rightarrow> 'b \<Rightarrow> nat option res"
  assumes set_at_ok: "invar b \<Longrightarrow> i < length (bits b) \<Longrightarrow>
      \<exists>b'. set_at i v b = Inr b' \<and> invar b' \<and> bits b' = (bits b)[i := v]"
    and search_ok: "invar b \<Longrightarrow> h < length (bits b) \<Longrightarrow>
      \<exists>r. search v h b = Inr r \<and> (case r of None \<Rightarrow> v \<notin> set (bits b)
        | Some i \<Rightarrow> i < length (bits b) \<and> bits b ! i = v)"
begin

lemma take_free:
  assumes "invar b" "h < length (bits b)" "False \<in> set (bits b)"
  obtains i b' where "search False h b = Inr (Some i)" "i < length (bits b)" "\<not> bits b ! i"
    "set_at i True b = Inr b'" "invar b'" "bits b' = (bits b)[i := True]"
    "Suc (count_list (bits b') False) = count_list (bits b) False"
proof -
  obtain i where i: "search False h b = Inr (Some i)" "i < length (bits b)" "\<not> bits b ! i"
    using search_ok [OF assms(1,2), of False] assms(3) by (auto split: option.splits)
  obtain b' where "set_at i True b = Inr b'" "invar b'" "bits b' = (bits b)[i := True]"
    using set_at_ok [OF assms(1) i(2)] by blast
  with i show thesis
    using that count_list_update_out [of i "bits b" False True] by simp
qed

lemma give_back:
  assumes "invar b" "i < length (bits b)" "bits b ! i"
  obtains b' where "set_at i False b = Inr b'" "invar b'" "bits b' = (bits b)[i := False]"
    "count_list (bits b') False = Suc (count_list (bits b) False)"
proof -
  obtain b' where "set_at i False b = Inr b'" "invar b'" "bits b' = (bits b)[i := False]"
    using set_at_ok [OF assms(1,2)] by blast
  with assms show thesis
    using that count_list_update_in [of i "bits b" False] by simp
qed

end

interpretation dba: bit_map bit_array_inv bits_of set_bit_at find_bit
proof unfold_locales
  fix b i v
  assume "bit_array_inv b" "i < length (bits_of b)"
  then show "\<exists>b'. set_bit_at i v b = Inr b' \<and> bit_array_inv b' \<and> bits_of b' = (bits_of b)[i := v]"
    using set_bit_at_correct [of b i v] by auto
next
  fix b h v
  assume "bit_array_inv b" "h < length (bits_of b)"
  then show "\<exists>r. find_bit v h b = Inr r \<and> (case r of None \<Rightarrow> v \<notin> set (bits_of b)
        | Some i \<Rightarrow> i < length (bits_of b) \<and> bits_of b ! i = v)"
    using find_bit_correct [of b h v] by (auto split: option.splits)
qed

subsection \<open>Interrupt vectors\<close>

definition idt_entry_count :: nat where
  "idt_entry_count = 256"

definition allocation_base :: nat where
  "allocation_base = 32 + 16"

definition ivector_allocator :: bit_array where
  "ivector_allocator = set_size idt_entry_count \<lparr>m_bit_count = 0, m_bits = []\<rparr>"

definition allocate_vector_at :: "nat \<Rightarrow> bit_array \<Rightarrow> bit_array res" where
  "allocate_vector_at vector ba =
     bind_res (bit_at vector ba) (\<lambda>b.
       let can_allocate = (\<not> b)
       in if \<not> can_allocate then Inl Assertion else set_bit_at vector True ba)"

definition allocate_vector :: "bit_array \<Rightarrow> (nat \<times> bit_array) res" where
  "allocate_vector ba =
     bind_res (find_bit_starting_at_offset False allocation_base ba) (\<lambda>found.
       case found of None \<Rightarrow> Inl Assertion
       | Some b \<Rightarrow> if \<not> b \<ge> allocation_base then Inl Assertion
           else bind_res (set_bit_at b True ba) (\<lambda>ba'. Inr (b, ba')))"

definition free_vector :: "nat \<Rightarrow> bit_array \<Rightarrow> bit_array res" where
  "free_vector vector ba =
     bind_res (bit_at vector ba) (\<lambda>b.
       if \<not> b then Inl Assertion else set_bit_at vector False ba)"

definition allocate_vector_range :: "nat \<Rightarrow> nat \<Rightarrow> bit_array \<Rightarrow> bit_array res" where
  "allocate_vector_range b e ba =
     fold (\<lambda>vector r. bind_res r (allocate_vector_at vector)) [b..<e] (Inr ba)"

definition free_vector_range :: "nat \<Rightarrow> nat \<Rightarrow> bit_array \<Rightarrow> bit_array res" where
  "free_vector_range b e ba =
     fold (\<lambda>vector r. bind_res r (free_vector vector)) [b..<e] (Inr ba)"

lemma allocate_vector_at_correct:
  assumes "bit_array_inv ba" "v < m_bit_count ba"
  shows "if bits_of ba ! v then allocate_vector_at v ba = Inl Assertion
    else \<exists>ba'. allocate_vector_at v ba = Inr ba' \<and> bit_array_inv ba'
      \<and> m_bit_count ba' = m_bit_count ba \<and> bits_of ba' = (bits_of ba)[v := True]"
  using set_bit_at_correct [OF assms, of True]
  by (simp add: allocate_vector_at_def bit_at_correct [OF assms])

lemma free_vector_correct:
  assumes "bit_array_inv ba" "v < m_bit_count ba"
  shows "if bits_of ba ! v
    then \<exists>ba'. free_vector v ba = Inr ba' \<and> bit_array_inv ba'
      \<and> m_bit_count ba' = m_bit_count ba \<and> bits_of ba' = (bits_of ba)[v := False]
    else free_vector v ba = Inl Assertion"
  using set_bit_at_correct [OF assms, of False]
  by (simp add: free_vector_def bit_at_correct [OF assms])

subsection \<open>Properties\<close>

text \<open>
  \<^verbatim>\<open>find_bit\<close> returns normally for a hint in range, and its result is an index
  of the wanted bit value if and only if the array has one, whatever the hint.
\<close>

theorem find_bit_complete:
  assumes "bit_array_inv ba" and "hint < m_bit_count ba"
  shows "\<exists>r. find_bit v hint ba = Inr r
    \<and> (case r of Some b \<Rightarrow> b < m_bit_count ba \<and> bits_of ba ! b = v
       | None \<Rightarrow> v \<notin> set (bits_of ba))"
  using assms by (rule find_bit_correct)

theorem find_bit_complete_witness:
  "\<exists>r. find_bit False 70 (new_bit_array 100) = Inr r
    \<and> (case r of Some b \<Rightarrow> b < m_bit_count (new_bit_array 100) \<and> bits_of (new_bit_array 100) ! b = False
       | None \<Rightarrow> False \<notin> set (bits_of (new_bit_array 100)))"
  by (rule find_bit_complete) (simp_all add: new_bit_array_correct)

text \<open>
  C31: \<^verbatim>\<open>find_range\<close> with a non-zero length returns the start of the first run of that
  many bits of the wanted value, and nothing exactly when there is no such run.
\<close>

theorem find_range_first_run:
  assumes "bit_array_inv ba" and "m_bit_count ba < 2 ^ 64" and "0 < len"
  shows "\<exists>r. find_range len v ba = Inr r
    \<and> (case r of Some w \<Rightarrow> run_at v (bits_of ba) (unat w) len
            \<and> (\<forall>s < unat w. \<not> run_at v (bits_of ba) s len)
       | None \<Rightarrow> \<forall>s. \<not> run_at v (bits_of ba) s len)"
  unfolding find_range_def
  using assms by (intro find_range_loop_correct) (auto simp: run_at_def)

theorem find_range_first_run_witness:
  "bit_array_inv (new_bit_array 100) \<and> (\<exists>r. find_range 3 False (new_bit_array 100) = Inr r
    \<and> (case r of Some w \<Rightarrow> run_at False (bits_of (new_bit_array 100)) (unat w) 3
            \<and> (\<forall>s < unat w. \<not> run_at False (bits_of (new_bit_array 100)) s 3)
       | None \<Rightarrow> \<forall>s. \<not> run_at False (bits_of (new_bit_array 100)) s 3))"
  using find_range_first_run [of "new_bit_array 100" 3 False] by (simp add: new_bit_array_correct)

text \<open>
  A number written over a range of bits by \<^verbatim>\<open>set_range_to_number\<close> is read back by
  \<^verbatim>\<open>range_as_number\<close>, and no bit outside the range changes.
\<close>

theorem range_number_round_trip:
  assumes "bit_array_inv ba" and "set_range_to_number at_index cnt number ba = Inr ba'"
  shows "range_as_number at_index cnt ba' = Inr number
    \<and> (\<forall>i < m_bit_count ba. i < at_index \<or> at_index + cnt \<le> i \<longrightarrow> bits_of ba' ! i = bits_of ba ! i)"
proof -
  let ?vs = "map (\<lambda>i. drop_bit i (push_bit i 1 AND number) \<noteq> 0) [0..<cnt]"
  have pre: "at_index + cnt \<le> m_bit_count ba" "cnt \<le> 64" "cnt = 64 \<or> number \<le> push_bit cnt 1 - 1"
    and run: "set_bits_to at_index ?vs ba = Inr ba'"
    using assms(2) by (auto simp: set_range_to_number_def split: if_splits)
  have len: "at_index + length ?vs \<le> m_bit_count ba"
    using pre(1) by simp
  have ba': "bit_array_inv ba'" "m_bit_count ba' = m_bit_count ba"
    "bits_of ba' = take at_index (bits_of ba) @ ?vs @ drop (at_index + cnt) (bits_of ba)"
    using set_bits_to_correct [OF assms(1) len] run by auto
  have vs: "?vs ! k \<longleftrightarrow> bit number k" if "k < cnt" for k
  proof -
    have "drop_bit k (push_bit k 1 AND number) = of_bool (bit number k)"
      using that pre(2) by (intro bit_word_eqI) (auto simp: bit_simps)
    then show ?thesis
      using that by simp
  qed
  have high: "\<not> bit number k" if "cnt \<le> k" for k
  proof (cases "cnt = 64")
    case True
    then show ?thesis
      using that bit_imp_le_length [of number k] by auto
  next
    case False
    then show ?thesis
      using high_bits_of_small [of number cnt k] that pre by simp
  qed
  obtain n where n: "range_number_loop at_index [0..<cnt] ba' 0 = Inr n"
    "\<And>k. bit n k \<longleftrightarrow> k < cnt \<and> bits_of ba' ! (at_index + k)"
    using range_number_loop_bits [OF ba'(1), of "[0..<cnt]" at_index 0] pre ba'(2) by auto
  have "bits_of ba' ! (at_index + k) \<longleftrightarrow> bit number k" if "k < cnt" for k
    using vs [OF that] that pre(1) by (simp add: ba'(3) nth_append)
  then have "n = number"
    using high by (intro bit_word_eqI) (metis n(2) linorder_not_less)
  moreover have "bits_of ba' ! i = bits_of ba ! i"
    if "i < m_bit_count ba" "i < at_index \<or> at_index + cnt \<le> i" for i
    using that pre(1) by (auto simp: ba'(3) nth_append)
  ultimately show ?thesis
    using n(1) pre ba'(2) by (simp add: range_as_number_def)
qed

theorem range_number_round_trip_witness:
  "\<exists>ba'. set_range_to_number 62 4 11 (new_bit_array 100) = Inr ba' \<and> range_as_number 62 4 ba' = Inr 11"
proof -
  have pre: "62 + length (map (\<lambda>i. drop_bit i (push_bit i 1 AND (11 :: u64)) \<noteq> 0) [0..<4])
      \<le> m_bit_count (new_bit_array 100)"
    by (simp add: new_bit_array_correct)
  obtain ba' where "set_range_to_number 62 4 11 (new_bit_array 100) = Inr ba'"
    using set_bits_to_correct [OF new_bit_array_correct(1) pre]
    by (auto simp: set_range_to_number_def new_bit_array_correct)
  then show ?thesis
    using range_number_round_trip [OF new_bit_array_correct(1)] by blast
qed

text \<open>
  \<^verbatim>\<open>find_bit_starting_at_offset\<close> compares the masked unit with a boolean, so when
  asked for a set bit it only ever returns the first bit of a storage unit: with bits 1
  and 64 set, a search from offset 1 returns 64.
\<close>

theorem find_set_bit_at_offset_skips:
  assumes "bit_array_inv ba" and "find_bit_starting_at_offset True offset ba = Inr (Some j)"
  shows "64 dvd j"
  using assms find_from_offset_True [of ba offset j]
  by (simp add: find_bit_starting_at_offset_def split: if_splits)

theorem find_set_bit_at_offset_skips_witness:
  "bits_of \<lparr>m_bit_count = 128, m_bits = [2, 1]\<rparr> ! 1
   \<and> find_bit_starting_at_offset True 1 \<lparr>m_bit_count = 128, m_bits = [2, 1]\<rparr> = Inr (Some 64)
   \<and> (64 :: nat) dvd 64"
proof -
  have run: "find_bit_starting_at_offset True 1 \<lparr>m_bit_count = 128, m_bits = [2, 1]\<rparr> = Inr (Some 64)"
    by code_simp
  have "bit_array_inv \<lparr>m_bit_count = 128, m_bits = [2, 1]\<rparr>"
    by (simp add: bit_array_inv_def)
  from find_set_bit_at_offset_skips [OF this run] run show ?thesis
    by (simp add: nth_bits_of bit_iff_odd)
qed

text \<open>
  For a vector table in a consistent state \<^verbatim>\<open>IVectorAllocator::allocate_vector\<close>
  returns the lowest free vector above the legacy interrupts and marks only it, and it
  asserts exactly when there is none.
\<close>

lemma allocate_vector_lowest_free:
  assumes "bit_array_inv ba" and "m_bit_count ba = idt_entry_count"
  shows "case find (\<lambda>v. \<not> bits_of ba ! v) [allocation_base..<idt_entry_count] of
      None \<Rightarrow> allocate_vector ba = Inl Assertion
    | Some v \<Rightarrow> \<exists>ba'. allocate_vector ba = Inr (v, ba') \<and> bit_array_inv ba'
        \<and> m_bit_count ba' = idt_entry_count \<and> bits_of ba' = (bits_of ba)[v := True]"
proof -
  let ?f = "find (\<lambda>v. \<not> bits_of ba ! v) [allocation_base..<idt_entry_count]"
  have search: "find_bit_starting_at_offset False allocation_base ba = Inr ?f"
    using assms find_from_offset_False [OF assms(1), of allocation_base]
    by (simp add: find_bit_starting_at_offset_def allocation_base_def idt_entry_count_def)
  show ?thesis
  proof (cases ?f)
    case None
    then show ?thesis
      by (simp add: allocate_vector_def search)
  next
    case (Some v)
    then have v: "allocation_base \<le> v" "v < m_bit_count ba"
      using assms(2) by (simp_all add: find_upt_Some)
    then show ?thesis
      using Some set_bit_at_correct [OF assms(1) v(2), of True] assms(2)
      by (auto simp: allocate_vector_def search)
  qed
qed

end
