(* ===== verification/Physical_Region.thy ===== *)
theory Physical_Region
  imports Page_Range Bit_Array
begin

text \<open>
  \<^verbatim>\<open>Kernel/Memory/PhysicalRegion.cpp\<close>: the allocator of the physical pages of one
  region, a bit array with one bit per page, a count of free pages and a hint for the next
  search. A page is its physical address. The operations run under the region's lock, so
  each is one step. The abstraction \<open>allocated_pages\<close> is the set of pages handed out.
\<close>

record physical_region =
  pr_range :: range
  pr_free_pages :: nat
  pr_next_hint :: nat
  pr_allocation_map :: bit_array

definition physical_region_new :: "range \<Rightarrow> physical_region res" where
  "physical_region_new r =
     (let pages = unat (range_length r div page_size);
          region = \<lparr>pr_range = r, pr_free_pages = pages, pr_next_hint = 0,
                    pr_allocation_map = new_bit_array pages\<rparr>
      in if \<not> page_is_aligned (r_begin r) then Inl Assertion
         else if \<not> page_is_aligned (range_length r) then Inl Assertion
         else Inr region)"

definition bit_as_physical_address :: "nat \<Rightarrow> physical_region \<Rightarrow> addr" where
  "bit_as_physical_address b pr = r_begin (pr_range pr) + word_of_nat b * page_size"

definition physical_address_as_bit :: "addr \<Rightarrow> physical_region \<Rightarrow> nat res" where
  "physical_address_as_bit address pr =
     (if \<not> page_is_aligned address then Inl Assertion
      else Inr (unat ((address - r_begin (pr_range pr)) div page_size)))"

definition allocate_page :: "physical_region \<Rightarrow> (addr option \<times> physical_region) res" where
  "allocate_page pr =
     (if pr_free_pages pr = 0 then Inr (None, pr)
      else bind_res (find_bit False (pr_next_hint pr) (pr_allocation_map pr)) (\<lambda>index.
        case index of
          None \<Rightarrow> Inr (None, pr)
        | Some i \<Rightarrow>
            let hint = Suc i;
                hint' = (if hint = m_bit_count (pr_allocation_map pr) then 0 else hint)
            in bind_res (set_bit_at i True (pr_allocation_map pr)) (\<lambda>am.
                 let pr' = pr\<lparr>pr_next_hint := hint', pr_allocation_map := am,
                              pr_free_pages := pr_free_pages pr - 1\<rparr>
                 in Inr (Some (bit_as_physical_address i pr'), pr'))))"

definition free_page :: "addr \<Rightarrow> physical_region \<Rightarrow> physical_region res" where
  "free_page page pr =
     (if \<not> contains_addr (pr_range pr) page then Inl Assertion
      else bind_res (physical_address_as_bit page pr) (\<lambda>b.
        bind_res (bit_at b (pr_allocation_map pr)) (\<lambda>is_set.
          if \<not> is_set then Inl Assertion
          else bind_res (set_bit_at b False (pr_allocation_map pr)) (\<lambda>am.
            Inr (pr\<lparr>pr_allocation_map := am, pr_free_pages := Suc (pr_free_pages pr)\<rparr>)))))"

subsection \<open>Invariant and abstraction\<close>

definition page_bits :: "physical_region \<Rightarrow> bool list" where
  "page_bits pr = bits_of (pr_allocation_map pr)"

definition region_inv :: "physical_region \<Rightarrow> bool" where
  "region_inv pr \<longleftrightarrow>
     wf_range (pr_range pr) \<and> page_is_aligned (r_begin (pr_range pr))
     \<and> page_is_aligned (range_length (pr_range pr))
     \<and> bit_array_inv (pr_allocation_map pr)
     \<and> 4096 * length (page_bits pr) = unat (range_length (pr_range pr))
     \<and> pr_free_pages pr = count_list (page_bits pr) False
     \<and> (pr_next_hint pr < length (page_bits pr) \<or> page_bits pr = [])"

definition region_pages :: "physical_region \<Rightarrow> addr set" where
  "region_pages pr = {a \<in> addrs (pr_range pr). page_is_aligned a}"

definition allocated_pages :: "physical_region \<Rightarrow> addr set" where
  "allocated_pages pr =
     (\<lambda>i. bit_as_physical_address i pr) ` {i. i < length (page_bits pr) \<and> page_bits pr ! i}"

lemma unat_bit_as_physical_address:
  assumes "region_inv pr" "i < length (page_bits pr)"
  shows "unat (bit_as_physical_address i pr) = unat (r_begin (pr_range pr)) + 4096 * i"
    "unat (r_begin (pr_range pr)) + 4096 * i < unat (r_end (pr_range pr))"
proof -
  let ?b = "unat (r_begin (pr_range pr))" and ?e = "unat (r_end (pr_range pr))"
  have "4096 * length (page_bits pr) = ?e - ?b" "?b \<le> ?e"
    using assms(1) by (simp_all add: region_inv_def range_length_def wf_range_def unat_sub word_le_nat_alt)
  then show lt: "?b + 4096 * i < ?e"
    using assms(2) by linarith
  have i: "i < 2 ^ 52"
    using lt unat_less_64 [of "r_end (pr_range pr)"] by simp
  then have "unat (word_of_nat i :: addr) = i"
    by (intro unat_word_of_nat_64) simp
  then have m: "unat (word_of_nat i * page_size :: addr) = 4096 * i"
    using i by (simp add: unat_word_ariths)
  show "unat (bit_as_physical_address i pr) = ?b + 4096 * i"
    using lt unat_less_64 [of "r_end (pr_range pr)"] m
    by (simp add: bit_as_physical_address_def unat_add_no_wrap)
qed

lemma bit_address_inj:
  assumes "region_inv pr" "i < length (page_bits pr)" "j < length (page_bits pr)"
  shows "bit_as_physical_address i pr = bit_as_physical_address j pr \<longleftrightarrow> i = j"
proof
  assume "bit_as_physical_address i pr = bit_as_physical_address j pr"
  then have "unat (bit_as_physical_address i pr) = unat (bit_as_physical_address j pr)"
    by simp
  then show "i = j"
    using unat_bit_as_physical_address(1) assms by simp
qed simp

lemma bit_address_in_region:
  assumes "region_inv pr" "i < length (page_bits pr)"
  shows "bit_as_physical_address i pr \<in> region_pages pr"
proof -
  have al: "unat (r_begin (pr_range pr)) mod 4096 = 0"
    using assms(1) by (simp add: region_inv_def page_is_aligned_iff)
  then have "(unat (r_begin (pr_range pr)) + 4096 * i) mod 4096 = 0"
    by simp
  then show ?thesis
    using unat_bit_as_physical_address [OF assms]
    by (simp add: region_pages_def addrs_def page_is_aligned_iff word_le_nat_alt word_less_nat_alt)
qed

lemma address_bit_inverse:
  assumes "region_inv pr" "i < length (page_bits pr)"
  shows "physical_address_as_bit (bit_as_physical_address i pr) pr = Inr i"
proof -
  let ?a = "bit_as_physical_address i pr" and ?b = "r_begin (pr_range pr)"
  have "page_is_aligned ?a" "?b \<le> ?a"
    using bit_address_in_region [OF assms] by (simp_all add: region_pages_def addrs_def)
  moreover have "unat ((?a - ?b) div page_size) = i"
    using \<open>?b \<le> ?a\<close> unat_bit_as_physical_address(1) [OF assms] by (simp add: unat_div_distrib unat_sub)
  ultimately show ?thesis
    by (simp add: physical_address_as_bit_def)
qed

lemma region_page_has_bit:
  assumes "region_inv pr" "a \<in> region_pages pr"
  obtains i where "i < length (page_bits pr)" "a = bit_as_physical_address i pr"
proof -
  let ?b = "unat (r_begin (pr_range pr))" and ?e = "unat (r_end (pr_range pr))"
  have ab: "?b \<le> unat a" "unat a < ?e" "unat a mod 4096 = 0" "?b mod 4096 = 0"
    using assms by (simp_all add: region_pages_def addrs_def word_le_nat_alt word_less_nat_alt
        page_is_aligned_iff region_inv_def)
  then have "4096 dvd unat a" "4096 dvd ?b"
    by (simp_all add: mod_eq_0_iff_dvd)
  then have "4096 dvd unat a - ?b"
    by (rule dvd_diff_nat)
  then obtain i where i: "unat a = ?b + 4096 * i"
    using ab(1) by (metis dvdE le_add_diff_inverse)
  have "4096 * length (page_bits pr) = ?e - ?b"
    using assms(1) by (simp add: region_inv_def range_length_def wf_range_def unat_sub)
  then have len: "i < length (page_bits pr)"
    using i ab(2) by linarith
  moreover have "a = bit_as_physical_address i pr"
    using unat_bit_as_physical_address(1) [OF assms(1) len] i by (simp add: word_unat_eq_iff)
  ultimately show thesis
    by (rule that)
qed

lemma page_bits_simps [simp]:
  "page_bits (pr\<lparr>pr_next_hint := h\<rparr>) = page_bits pr"
  "page_bits (pr\<lparr>pr_free_pages := n\<rparr>) = page_bits pr"
  "page_bits (pr\<lparr>pr_allocation_map := am\<rparr>) = bits_of am"
  by (simp_all add: page_bits_def)

lemma bit_address_cong: "pr_range pr = pr_range pr' \<Longrightarrow> bit_as_physical_address i pr = bit_as_physical_address i pr'"
  by (simp add: bit_as_physical_address_def)

lemma allocated_pages_update:
  assumes inv: "region_inv pr" and i: "i < length (page_bits pr)"
    and r: "pr_range pr' = pr_range pr" and b: "page_bits pr' = (page_bits pr)[i := v]"
  shows "allocated_pages pr' = (if v then insert (bit_as_physical_address i pr) (allocated_pages pr)
      else allocated_pages pr - {bit_as_physical_address i pr})"
proof -
  let ?A = "\<lambda>j. bit_as_physical_address j pr"
  let ?S = "{j. j < length (page_bits pr) \<and> page_bits pr ! j}"
  have S': "{j. j < length (page_bits pr') \<and> page_bits pr' ! j} = (if v then insert i ?S else ?S - {i})"
    using i by (auto simp: b nth_list_update split: if_splits)
  have addr: "(\<lambda>j. bit_as_physical_address j pr') = ?A"
    using r by (auto intro: bit_address_cong)
  have "?A ` (?S - {i}) = ?A ` ?S - {?A i}"
    using bit_address_inj [OF inv _ i] by fastforce
  then show ?thesis
    unfolding allocated_pages_def addr S' by (simp split: if_splits)
qed

lemma allocated_pages_subset: "region_inv pr \<Longrightarrow> allocated_pages pr \<subseteq> region_pages pr"
  using bit_address_in_region by (auto simp: allocated_pages_def)

lemma no_free_pages_iff:
  assumes "region_inv pr"
  shows "pr_free_pages pr = 0 \<longleftrightarrow> allocated_pages pr = region_pages pr"
proof -
  have "pr_free_pages pr = 0 \<longleftrightarrow> False \<notin> set (page_bits pr)"
    using assms by (simp add: region_inv_def count_list_0_iff)
  also have "\<dots> \<longleftrightarrow> (\<forall>i < length (page_bits pr). page_bits pr ! i)"
    by (metis (full_types) in_set_conv_nth)
  also have "\<dots> \<longleftrightarrow> region_pages pr \<subseteq> allocated_pages pr"
  proof
    assume "\<forall>i < length (page_bits pr). page_bits pr ! i"
    then show "region_pages pr \<subseteq> allocated_pages pr"
      by (auto simp: allocated_pages_def elim!: region_page_has_bit [OF assms])
  next
    assume sub: "region_pages pr \<subseteq> allocated_pages pr"
    show "\<forall>i < length (page_bits pr). page_bits pr ! i"
    proof (intro allI impI)
      fix i assume i: "i < length (page_bits pr)"
      then have "bit_as_physical_address i pr \<in> allocated_pages pr"
        using sub bit_address_in_region [OF assms] by blast
      then show "page_bits pr ! i"
        using bit_address_inj [OF assms i] by (auto simp: allocated_pages_def)
    qed
  qed
  finally show ?thesis
    using allocated_pages_subset [OF assms] by auto
qed

subsection \<open>The operations on the set of allocated pages\<close>

lemma allocate_page_step:
  assumes "region_inv pr"
  shows "\<exists>res pr'. allocate_page pr = Inr (res, pr') \<and> region_inv pr' \<and> pr_range pr' = pr_range pr
    \<and> (case res of
         None \<Rightarrow> allocated_pages pr = region_pages pr \<and> pr' = pr
       | Some page \<Rightarrow> page \<in> region_pages pr \<and> page \<notin> allocated_pages pr
           \<and> allocated_pages pr' = insert page (allocated_pages pr))"
proof (cases "pr_free_pages pr = 0")
  case True
  then show ?thesis
    using assms no_free_pages_iff [OF assms] by (simp add: allocate_page_def)
next
  case False
  let ?am = "pr_allocation_map pr"
  have am: "bit_array_inv ?am" "pr_next_hint pr < length (bits_of ?am)" "False \<in> set (bits_of ?am)"
    using assms False by (auto simp: region_inv_def page_bits_def count_list_0_iff)
  obtain i am' where i: "find_bit False (pr_next_hint pr) ?am = Inr (Some i)" "i < length (bits_of ?am)"
    "\<not> bits_of ?am ! i" and am': "set_bit_at i True ?am = Inr am'" "bit_array_inv am'"
    "bits_of am' = (bits_of ?am)[i := True]"
    "Suc (count_list (bits_of am') False) = count_list (bits_of ?am) False"
    using dba.take_free [OF am] by blast
  define h where "h = (if Suc i = m_bit_count ?am then 0 else Suc i)"
  let ?pr = "pr\<lparr>pr_next_hint := h, pr_allocation_map := am', pr_free_pages := pr_free_pages pr - 1\<rparr>"
  have res: "allocate_page pr = Inr (Some (bit_as_physical_address i pr), ?pr)"
    using False i(1) am'(1) by (simp add: allocate_page_def h_def Let_def bit_as_physical_address_def)
  have bits: "page_bits ?pr = (page_bits pr)[i := True]"
    by (simp add: am'(3) page_bits_def)
  have ib: "i < length (page_bits pr)" "\<not> page_bits pr ! i"
    using i by (simp_all add: page_bits_def)
  have "h < length (page_bits pr)"
    using i(2) by (auto simp: h_def page_bits_def)
  then have "region_inv ?pr"
    using assms am'(2,4) bits by (simp add: region_inv_def page_bits_def am'(3))
  moreover have "bit_as_physical_address i pr \<notin> allocated_pages pr"
    using bit_address_inj [OF assms ib(1)] ib(2) by (auto simp: allocated_pages_def)
  ultimately show ?thesis
    using res bit_address_in_region [OF assms ib(1)] allocated_pages_update [OF assms ib(1) _ bits]
    by simp
qed

lemma free_page_step:
  assumes "region_inv pr"
  shows "if page \<in> allocated_pages pr
    then \<exists>pr'. free_page page pr = Inr pr' \<and> region_inv pr' \<and> pr_range pr' = pr_range pr
       \<and> allocated_pages pr' = allocated_pages pr - {page}
    else free_page page pr = Inl Assertion"
proof (cases "page \<in> region_pages pr")
  case False
  then have "page \<notin> allocated_pages pr"
    using allocated_pages_subset [OF assms] by blast
  moreover have "free_page page pr = Inl Assertion"
    using False
    by (auto simp: free_page_def region_pages_def contains_addr_iff physical_address_as_bit_def)
  ultimately show ?thesis
    by simp
next
  case True
  then obtain i where i: "i < length (page_bits pr)" and page: "page = bit_as_physical_address i pr"
    using region_page_has_bit [OF assms] by blast
  have am: "bit_array_inv (pr_allocation_map pr)" "i < m_bit_count (pr_allocation_map pr)"
    using assms i by (simp_all add: region_inv_def page_bits_def)
  have alloc: "page \<in> allocated_pages pr \<longleftrightarrow> page_bits pr ! i"
    using i bit_address_inj [OF assms i] by (auto simp: allocated_pages_def page)
  have pre: "contains_addr (pr_range pr) page" "physical_address_as_bit page pr = Inr i"
    "bit_at i (pr_allocation_map pr) = Inr (page_bits pr ! i)"
    using True address_bit_inverse [OF assms i] bit_at_correct [OF am] page
    by (simp_all add: contains_addr_iff region_pages_def page_bits_def)
  show ?thesis
  proof (cases "page_bits pr ! i")
    case False
    then show ?thesis
      using pre alloc by (simp add: free_page_def)
  next
    case set: True
    obtain am' where am': "set_bit_at i False (pr_allocation_map pr) = Inr am'" "bit_array_inv am'"
      "bits_of am' = (bits_of (pr_allocation_map pr))[i := False]"
      "count_list (bits_of am') False = Suc (count_list (bits_of (pr_allocation_map pr)) False)"
      using dba.give_back [OF am(1), of i] am(2) set by (auto simp: page_bits_def)
    let ?pr = "pr\<lparr>pr_allocation_map := am', pr_free_pages := Suc (pr_free_pages pr)\<rparr>"
    have res: "free_page page pr = Inr ?pr"
      using pre set am'(1) by (simp add: free_page_def)
    have bits: "page_bits ?pr = (page_bits pr)[i := False]"
      by (simp add: am'(3) page_bits_def)
    have "region_inv ?pr"
      using assms am'(2-4) am(2) by (auto simp: region_inv_def page_bits_def)
    then show ?thesis
      using res alloc set allocated_pages_update [OF assms i _ bits] page by simp
  qed
qed

subsection \<open>Sequences of operations\<close>

text \<open>
  A run of a region: it is constructed on a range, pages are requested, and pages that
  are in use are returned. The set records the pages in use by the clients.
\<close>

inductive region_run :: "physical_region \<Rightarrow> addr set \<Rightarrow> bool" where
  start: "wf_range r \<Longrightarrow> physical_region_new r = Inr pr \<Longrightarrow> region_run pr {}"
| alloc: "region_run pr in_use \<Longrightarrow> allocate_page pr = Inr (Some page, pr') \<Longrightarrow>
    region_run pr' (insert page in_use)"
| alloc_none: "region_run pr in_use \<Longrightarrow> allocate_page pr = Inr (None, pr') \<Longrightarrow> region_run pr' in_use"
| free: "region_run pr in_use \<Longrightarrow> page \<in> in_use \<Longrightarrow> free_page page pr = Inr pr' \<Longrightarrow>
    region_run pr' (in_use - {page})"

lemma physical_region_new_inv:
  assumes "wf_range r" "physical_region_new r = Inr pr"
  shows "region_inv pr" "allocated_pages pr = {}"
proof -
  let ?n = "unat (range_length r div page_size)"
  have al: "page_is_aligned (r_begin r)" "page_is_aligned (range_length r)"
    and pr: "pr = \<lparr>pr_range = r, pr_free_pages = ?n, pr_next_hint = 0,
      pr_allocation_map = new_bit_array ?n\<rparr>"
    using assms(2) by (auto simp: physical_region_new_def Let_def split: if_splits)
  have "4096 * ?n = unat (range_length r)"
    using al(2) by (auto simp: page_is_aligned_iff unat_div_distrib)
  moreover have "count_list (replicate m False) False = m" for m
    by (induction m) simp_all
  ultimately show "region_inv pr"
    using assms(1) al by (auto simp: region_inv_def pr page_bits_def new_bit_array_correct)
  show "allocated_pages pr = {}"
    by (auto simp: allocated_pages_def pr page_bits_def new_bit_array_correct)
qed

lemma region_run_inv: "region_run pr in_use \<Longrightarrow> region_inv pr \<and> allocated_pages pr = in_use"
proof (induction rule: region_run.induct)
  case (start r pr)
  then show ?case
    using physical_region_new_inv by blast
next
  case (alloc pr in_use page pr')
  then show ?case
    using allocate_page_step [of pr] by fastforce
next
  case (alloc_none pr in_use pr')
  then show ?case
    using allocate_page_step [of pr] by fastforce
next
  case (free pr in_use page pr')
  then show ?case
    using free_page_step [of pr page] by simp
qed

subsection \<open>Properties\<close>

definition sample_region :: physical_region where
  "sample_region = \<lparr>pr_range = \<lparr>r_begin = 0x100000, r_end = 0x104000\<rparr>, pr_free_pages = 4,
     pr_next_hint = 0, pr_allocation_map = new_bit_array 4\<rparr>"

lemma sample_region_inv: "region_inv sample_region"
proof -
  have "count_list (replicate 4 False) False = 4"
    by (simp add: numeral_eq_Suc)
  then show ?thesis
    by (simp add: sample_region_def region_inv_def page_bits_def new_bit_array_correct wf_range_def
        range_length_def page_is_aligned_def page_size_def)
qed

text \<open>
  In every consistent state \<^verbatim>\<open>PhysicalRegion::allocate_page\<close> keeps the invariant;
  it hands out a page of the region that was not allocated and records exactly that page,
  or it returns nothing, which it does exactly when every page of the region is allocated.
\<close>

theorem allocate_page_correct:
  assumes "region_inv pr"
  shows "\<exists>res pr'. allocate_page pr = Inr (res, pr') \<and> region_inv pr' \<and> pr_range pr' = pr_range pr
    \<and> (case res of
         None \<Rightarrow> allocated_pages pr = region_pages pr \<and> pr' = pr
       | Some page \<Rightarrow> page \<in> region_pages pr \<and> page \<notin> allocated_pages pr
           \<and> allocated_pages pr' = insert page (allocated_pages pr))"
  using assms by (rule allocate_page_step)

theorem allocate_page_correct_witness:
  "region_inv sample_region \<and> (\<exists>res pr'. allocate_page sample_region = Inr (res, pr') \<and> region_inv pr'
    \<and> (case res of
         None \<Rightarrow> allocated_pages sample_region = region_pages sample_region \<and> pr' = sample_region
       | Some page \<Rightarrow> page \<in> region_pages sample_region \<and> page \<notin> allocated_pages sample_region
           \<and> allocated_pages pr' = insert page (allocated_pages sample_region)))"
  using allocate_page_correct [OF sample_region_inv] sample_region_inv by auto

text \<open>
  \<^verbatim>\<open>PhysicalRegion::free_page\<close> of an allocated page keeps the invariant and
  removes exactly that page; for every other address (outside the region, unaligned, or
  already free) it asserts.
\<close>

theorem free_page_correct:
  assumes "region_inv pr"
  shows "if page \<in> allocated_pages pr
    then \<exists>pr'. free_page page pr = Inr pr' \<and> region_inv pr' \<and> pr_range pr' = pr_range pr
       \<and> allocated_pages pr' = allocated_pages pr - {page}
    else free_page page pr = Inl Assertion"
  using assms by (rule free_page_step)

theorem free_page_correct_witness:
  "region_inv (sample_region\<lparr>pr_free_pages := 3, pr_next_hint := 1,
       pr_allocation_map := \<lparr>m_bit_count = 4, m_bits = [1]\<rparr>\<rparr>)
   \<and> free_page 0x101000 (sample_region\<lparr>pr_free_pages := 3, pr_next_hint := 1,
       pr_allocation_map := \<lparr>m_bit_count = 4, m_bits = [1]\<rparr>\<rparr>) = Inl Assertion"
proof -
  let ?pr = "sample_region\<lparr>pr_free_pages := 3, pr_next_hint := 1,
       pr_allocation_map := \<lparr>m_bit_count = 4, m_bits = [1]\<rparr>\<rparr>"
  have bits: "page_bits ?pr = [True, False, False, False]"
    by (simp add: bits_of_def bit_1_iff upt_conv_Cons)
  have inv: "region_inv ?pr"
    unfolding region_inv_def bits
    by (simp add: sample_region_def bit_array_inv_def wf_range_def range_length_def
        page_is_aligned_def page_size_def)
  have "{i. i < length [True, False, False, False] \<and> [True, False, False, False] ! i} = {0}"
    by (auto simp: less_Suc_eq)
  then have "allocated_pages ?pr = {0x100000}"
    unfolding allocated_pages_def bits by (simp add: sample_region_def bit_as_physical_address_def)
  then show ?thesis
    using inv free_page_correct [OF inv, of "0x101000"] by simp
qed

text \<open>
  C2: over every sequence of operations on a region, a page that is handed out is a page
  of the region that no client has in use, and freeing a page in use never fails.
\<close>

theorem no_page_handed_out_twice:
  assumes "region_run pr in_use"
  shows "(allocate_page pr = Inr (Some page, pr') \<longrightarrow> page \<in> region_pages pr - in_use)
    \<and> (page \<in> in_use \<longrightarrow> (\<exists>pr''. free_page page pr = Inr pr''))"
  using region_run_inv [OF assms] allocate_page_step [of pr] free_page_step [of pr page] by fastforce

theorem no_page_handed_out_twice_witness:
  "\<exists>pr page pr'. region_run pr {} \<and> allocate_page pr = Inr (Some page, pr')
     \<and> page \<in> region_pages pr - {}"
proof -
  have new: "physical_region_new \<lparr>r_begin = 0x100000, r_end = 0x104000\<rparr> = Inr sample_region"
    by (simp add: physical_region_new_def sample_region_def range_length_def page_is_aligned_def
        page_size_def)
  then have run: "region_run sample_region {}"
    by (intro region_run.start) (simp_all add: wf_range_def)
  obtain page pr' where p: "allocate_page sample_region = Inr (Some page, pr')"
    using allocate_page_step [OF sample_region_inv] no_free_pages_iff [OF sample_region_inv]
    by (auto simp: sample_region_def split: option.splits)
  then show ?thesis
    using no_page_handed_out_twice [OF run, of page pr'] run by blast
qed

end
