(* ===== verification/Memory_Map.thy ===== *)
theory Memory_Map
  imports Page_Range Algorithms
begin

text \<open>
  \<^verbatim>\<open>Kernel/Memory/MemoryMap.h\<close> and \<^verbatim>\<open>MemoryMap.cpp\<close>: the native memory map the
  kernel builds from the firmware's E820 map. Entries are copied, aligned and sorted, then
  overlapping entries are split so that the type with the larger number wins.
  The type of a range is kept as the 64 bit value of the enumeration, because the kernel
  casts it from whatever the firmware reports.
\<close>

subsection \<open>Physical ranges\<close>

definition type_FREE :: u64 where "type_FREE = 1"
definition type_RESERVED :: u64 where "type_RESERVED = 2"
definition type_RECLAIMABLE :: u64 where "type_RECLAIMABLE = 3"
definition type_NON_VOLATILE :: u64 where "type_NON_VOLATILE = 4"
definition type_BAD :: u64 where "type_BAD = 5"
definition type_KERNEL_IMAGE :: u64 where "type_KERNEL_IMAGE = 0xFFFFFFFF + 1"
definition type_KERNEL_MODULE :: u64 where "type_KERNEL_MODULE = type_KERNEL_IMAGE + 1"
definition type_INITIAL_HEAP_BLOCK :: u64 where "type_INITIAL_HEAP_BLOCK = type_KERNEL_MODULE + 1"
definition type_GENERIC_BOOTALLOC_RESERVED :: u64 where
  "type_GENERIC_BOOTALLOC_RESERVED = type_INITIAL_HEAP_BLOCK + 1"

text \<open>\<^verbatim>\<open>MemoryMap::PhysicalRange\<close>, a range with a type.\<close>

record phys_range = range +
  r_type :: u64

definition default_phys_range :: phys_range where
  "default_phys_range = \<lparr>r_begin = 0, r_end = 0, r_type = type_RESERVED\<rparr>"

definition mk_phys_range :: "addr \<Rightarrow> size_t \<Rightarrow> u64 \<Rightarrow> phys_range res" where
  "mk_phys_range start len t =
     bind_res (mk_range start len) (\<lambda>r. Inr \<lparr>r_begin = r_begin r, r_end = r_end r, r_type = t\<rparr>)"

definition is_free :: "phys_range \<Rightarrow> bool" where
  "is_free r \<longleftrightarrow> r_type r = type_FREE"

definition is_reserved :: "phys_range \<Rightarrow> bool" where
  "is_reserved r \<longleftrightarrow> \<not> is_free r"

definition type_as_string :: "phys_range \<Rightarrow> string" where
  "type_as_string r =
     (if r_type r = type_FREE then ''free''
      else if r_type r = type_RESERVED then ''reserved''
      else if r_type r = type_RECLAIMABLE then ''reclaimable''
      else if r_type r = type_NON_VOLATILE then ''ACPI non-volatile''
      else if r_type r = type_BAD then ''bad''
      else if r_type r = type_KERNEL_IMAGE then ''kernel image''
      else if r_type r = type_KERNEL_MODULE then ''kernel module''
      else if r_type r = type_INITIAL_HEAP_BLOCK then ''initial heap block''
      else if r_type r = type_GENERIC_BOOTALLOC_RESERVED then ''generic boot allocator reserved''
      else ''unknown'')"

definition phys_range_less :: "phys_range \<Rightarrow> phys_range \<Rightarrow> bool" where
  "phys_range_less r other \<longleftrightarrow> range_less r other"

definition phys_range_eq :: "phys_range \<Rightarrow> phys_range \<Rightarrow> bool" where
  "phys_range_eq r other \<longleftrightarrow> range_eq r other \<and> r_type r = r_type other"

definition phys_aligned_to :: "phys_range \<Rightarrow> size_t \<Rightarrow> phys_range res" where
  "phys_aligned_to r alignment =
     bind_res (aligned_to r alignment) (\<lambda>b.
       Inr ((reset_with_range b default_phys_range)\<lparr>r_type := r_type r\<rparr>))"

definition phys_constrained_by :: "phys_range \<Rightarrow> addr \<Rightarrow> addr \<Rightarrow> phys_range res" where
  "phys_constrained_by r lowest highest =
     bind_res (constrained_by (range.truncate r) lowest highest) (\<lambda>b.
       Inr ((reset_with_range b default_phys_range)\<lparr>r_type := r_type r\<rparr>))"

definition phys_create_empty_at :: "addr \<Rightarrow> phys_range" where
  "phys_create_empty_at address =
     reset_with_range (create_empty_at address) default_phys_range"

definition shatter_against :: "phys_range \<Rightarrow> phys_range \<Rightarrow> phys_range list res" where
  "shatter_against this other =
     (if \<not> contains_addr this (r_begin other) then Inl Assertion
      else
        let cut = set_end (r_begin other) this
        in if r_type this = r_type other
           then Inr [set_end (if r_end this > r_end other then r_end this else r_end other) cut,
                     default_phys_range, default_phys_range]
           else
             bind_res (if r_end other \<le> r_end this
                       then bind_res (reset_with_two_pointers (r_end other) (r_end this) default_phys_range)
                              (\<lambda>r. Inr (r\<lparr>r_type := r_type this\<rparr>))
                       else Inr default_phys_range) (\<lambda>tail.
               if r_type this > r_type other
               then let whole = set_end (r_end this) cut
                    in if r_end this \<le> r_end other
                       then Inr [whole, set_begin (r_end whole) other, tail]
                       else Inr [whole, default_phys_range, default_phys_range]
               else Inr [cut, other, tail]))"

subsection \<open>The map\<close>

text \<open>
  The entry buffer is the list of its first \<^verbatim>\<open>m_entry_count\<close> entries. Past the
  reserved capacity the code prints a warning and goes on, so the capacity does not
  restrict the operations.
\<close>

record memory_map =
  m_entries :: "phys_range list"
  m_capacity :: nat

definition set_range_buffer :: "nat \<Rightarrow> memory_map" where
  "set_range_buffer buffer_size = \<lparr>m_entries = [], m_capacity = buffer_size div 24\<rparr>"

definition highest_address :: "memory_map \<Rightarrow> addr res" where
  "highest_address mm =
     (if \<not> 0 < length (m_entries mm) then Inl Assertion
      else Inr (r_end (m_entries mm ! (length (m_entries mm) - 1))))"

definition map_at :: "nat \<Rightarrow> memory_map \<Rightarrow> phys_range res" where
  "map_at index mm =
     (if \<not> index < length (m_entries mm) then Inl Assertion else Inr (m_entries mm ! index))"

text \<open>
  Like the code, \<^verbatim>\<open>emplace_range\<close> does not compare the number of entries with the capacity of the
  buffer. The buffer is one page; what a write of more entries overwrites is not modelled.
\<close>

definition emplace_range :: "phys_range \<Rightarrow> memory_map \<Rightarrow> memory_map" where
  "emplace_range r mm = mm\<lparr>m_entries := m_entries mm @ [r]\<rparr>"

definition emplace_range_at :: "nat \<Rightarrow> phys_range \<Rightarrow> memory_map \<Rightarrow> memory_map res" where
  "emplace_range_at index r mm =
     (if \<not> index \<le> length (m_entries mm) then Inl Assertion
      else if index = length (m_entries mm) then Inr (emplace_range r mm)
      else Inr (mm\<lparr>m_entries := take index (m_entries mm) @ r # drop index (m_entries mm)\<rparr>))"

definition erase_range_at :: "nat \<Rightarrow> memory_map \<Rightarrow> memory_map res" where
  "erase_range_at index mm =
     (if \<not> index < length (m_entries mm) then Inl Assertion
      else if index = length (m_entries mm) - 1 then Inr (mm\<lparr>m_entries := butlast (m_entries mm)\<rparr>)
      else Inr (mm\<lparr>m_entries := take index (m_entries mm) @ drop (Suc index) (m_entries mm)\<rparr>))"

definition sort_by_address :: "memory_map \<Rightarrow> memory_map" where
  "sort_by_address mm = mm\<lparr>m_entries := insertion_sort phys_range_less (m_entries mm)\<rparr>"

definition trivially_mergeable :: "phys_range \<Rightarrow> phys_range \<Rightarrow> bool" where
  "trivially_mergeable l r \<longleftrightarrow> r_end l = r_begin r \<and> r_type l = r_type r"

text \<open>A free piece is trimmed to whole pages; a piece is kept if it is not empty.\<close>

definition trim_piece :: "phys_range \<Rightarrow> phys_range res" where
  "trim_piece r =
     (if is_free r
      then bind_res (phys_aligned_to r page_size) (\<lambda>a.
             Inr (set_length (page_round_down (range_length a)) a))
      else Inr r)"

definition is_valid_piece :: "phys_range \<Rightarrow> bool" where
  "is_valid_piece r \<longleftrightarrow> \<not> range_empty r \<and> (range_length r \<ge> page_size \<or> is_reserved r)"

fun trim_pieces :: "phys_range list \<Rightarrow> phys_range list res" where
  "trim_pieces [] = Inr []"
| "trim_pieces (r # rs) = bind_res (trim_piece r) (\<lambda>r'. bind_res (trim_pieces rs) (\<lambda>rs'. Inr (r' # rs')))"

fun place_pieces :: "nat \<Rightarrow> nat \<Rightarrow> phys_range list \<Rightarrow> memory_map \<Rightarrow> (nat \<times> memory_map) res" where
  "place_pieces i j [] mm = Inr (j, mm)"
| "place_pieces i j (r # rs) mm =
     (if \<not> is_valid_piece r then place_pieces i j rs mm
      else if j - i = 2 then bind_res (emplace_range_at j r mm) (\<lambda>mm'. Inr (Suc j, mm'))
      else place_pieces i (Suc j) rs (mm\<lparr>m_entries := (m_entries mm)[j := r]\<rparr>))"

definition merge_with_next :: "nat \<Rightarrow> memory_map \<Rightarrow> memory_map res" where
  "merge_with_next i mm =
     erase_range_at (i + 1)
       (mm\<lparr>m_entries := (m_entries mm)[i := set_end (r_end (m_entries mm ! (i + 1))) (m_entries mm ! i)]\<rparr>)"

definition resolve_overlap :: "nat \<Rightarrow> memory_map \<Rightarrow> memory_map res" where
  "resolve_overlap i mm =
     bind_res (shatter_against (m_entries mm ! i) (m_entries mm ! (i + 1))) (\<lambda>shattered.
     bind_res (trim_pieces shattered) (\<lambda>new_ranges.
     bind_res (place_pieces i i new_ranges mm) (\<lambda>(j, mm').
       if j = i then Inl Panic
       else if j - i = 1 then erase_range_at j mm'
       else Inr mm')))"

partial_function (option) correct_loop :: "nat \<Rightarrow> memory_map \<Rightarrow> memory_map res option" where
  "correct_loop i mm =
     (if i < length (m_entries mm) - 1
      then if overlaps (m_entries mm ! i) (m_entries mm ! (i + 1))
              \<or> trivially_mergeable (m_entries mm ! i) (m_entries mm ! (i + 1))
           then if trivially_mergeable (m_entries mm ! i) (m_entries mm ! (i + 1))
                then case merge_with_next i mm of
                       Inl e \<Rightarrow> Some (Inl e)
                     | Inr mm' \<Rightarrow> correct_loop i mm'
                else case resolve_overlap i mm of
                       Inl e \<Rightarrow> Some (Inl e)
                     | Inr mm' \<Rightarrow> correct_loop (if i \<noteq> 0 then i - 1 else i) mm'
           else correct_loop (i + 1) mm
      else Some (Inr mm))"

declare correct_loop.simps [code]

definition correct_overlapping_ranges :: "nat \<Rightarrow> memory_map \<Rightarrow> memory_map res option" where
  "correct_overlapping_ranges hint mm =
     (if \<not> length (m_entries mm) \<noteq> 0 then Some (Inl Assertion) else correct_loop hint mm)"

subsection \<open>Building the map from the firmware's\<close>

record e820_range =
  base_address :: u64
  e_length :: u64
  e_type :: u32

definition copy_entry :: "e820_range \<Rightarrow> memory_map \<Rightarrow> memory_map res" where
  "copy_entry dirty_entry mm =
     bind_res (mk_phys_range (base_address dirty_entry) (e_length dirty_entry) (ucast (e_type dirty_entry)))
       (\<lambda>new_range.
        if r_type new_range \<noteq> type_FREE then Inr (emplace_range new_range mm)
        else bind_res (phys_aligned_to new_range page_size) (\<lambda>new_range.
          if range_empty new_range \<or> range_length new_range < page_size then Inr mm
          else Inr (emplace_range (set_length (page_round_down (range_length new_range)) new_range) mm)))"

fun copy_aligned_from :: "e820_range list \<Rightarrow> memory_map \<Rightarrow> memory_map res" where
  "copy_aligned_from [] mm = Inr mm"
| "copy_aligned_from (dirty_entry # e820) mm =
     bind_res (copy_entry dirty_entry mm) (copy_aligned_from e820)"

text \<open>The entry buffer is one page; the loader must be the BIOS loader.\<close>

definition generate_from :: "bool \<Rightarrow> e820_range list \<Rightarrow> memory_map res option" where
  "generate_from is_bios raw_memory_map =
     (if \<not> is_bios then Some (Inl Assertion)
      else case copy_aligned_from raw_memory_map (set_range_buffer 4096) of
             Inl e \<Rightarrow> Some (Inl e)
           | Inr mm \<Rightarrow> correct_overlapping_ranges 0 (sort_by_address mm))"

subsection \<open>Which type an address has\<close>

text \<open>The strongest type the entries give to an address.\<close>

definition strongest :: "phys_range list \<Rightarrow> addr \<Rightarrow> u64 \<Rightarrow> bool" where
  "strongest es a t \<longleftrightarrow> (\<exists>e \<in> set es. a \<in> addrs e \<and> r_type e = t)
     \<and> (\<forall>e \<in> set es. a \<in> addrs e \<longrightarrow> r_type e \<le> t)"

text \<open>The non-empty entries are in ascending order and do not share an address.\<close>

definition separated :: "phys_range list \<Rightarrow> bool" where
  "separated es \<longleftrightarrow> sorted_wrt (\<lambda>l r. range_empty l \<or> range_empty r \<or> r_end l \<le> r_begin r) es"

lemmas shatter_defs =
  shatter_against_def Let_def contains_addr_def reset_with_two_pointers_def default_phys_range_def
  wf_range_def set_end_def set_begin_def bind_res_eq_Inr

lemma shatter_pieces:
  assumes "wf_range this" "wf_range other" "r_begin other \<in> addrs this"
  shows "\<exists>p0 p1 p2. shatter_against this other = Inr [p0, p1, p2]"
  using assms by (auto simp: shatter_against_def Let_def contains_addr_iff reset_with_two_pointers_def)

lemma shatter_InrD:
  assumes "shatter_against this other = Inr ps"
  shows "r_begin other \<in> addrs this" "length ps = 3"
  using assms by (auto simp: shatter_defs addrs_def split: if_splits)

lemma shatter_wf:
  assumes "wf_range this" "wf_range other" "shatter_against this other = Inr ps"
  shows "\<forall>p \<in> set ps. wf_range p" "separated ps"
    and "p \<in> set ps \<Longrightarrow> \<not> range_empty p \<Longrightarrow>
      r_begin this \<le> r_begin p \<and> r_begin p \<le> min (r_end this) (r_end other)
      \<and> r_begin p \<in> {r_begin this, r_begin other, r_end this, r_end other}
      \<and> r_end p \<in> {r_begin this, r_begin other, r_end this, r_end other}"
  using assms by (auto simp: shatter_defs separated_def range_empty_def split: if_splits)

lemma shatter_strongest:
  assumes "wf_range this" "wf_range other" "shatter_against this other = Inr ps"
  shows "strongest ps a t \<longleftrightarrow> strongest [this, other] a t"
  using assms by (auto simp: shatter_defs strongest_def addrs_def split: if_splits)

subsection \<open>Trimming\<close>

lemma aligned_length:
  assumes "page_is_aligned (r_begin r)" "page_is_aligned (r_end r)" "wf_range r"
  shows "page_is_aligned (range_length r)"
proof -
  have "unat (range_length r) = unat (r_end r) - unat (r_begin r)"
    using assms(3) by (simp add: range_length_def wf_range_def unat_diff_word)
  then show ?thesis
    using assms(1,2) by (simp add: page_is_aligned_iff mod_0_imp_dvd dvd_imp_mod_0)
qed

lemma aligned_length_page:
  assumes "page_is_aligned (range_length r)" "\<not> range_empty r"
  shows "page_size \<le> range_length r"
proof -
  have "range_length r \<noteq> 0"
    using assms(2) by (simp add: range_empty_def range_length_def)
  then have "0 < unat (range_length r)"
    by (simp add: unat_gt_0)
  then have "4096 \<le> unat (range_length r)"
    using assms(1) by (auto simp: page_is_aligned_iff elim!: dvdE)
  then show ?thesis
    by (simp add: word_le_nat_alt)
qed

lemma set_length_round_down:
  assumes "wf_range r"
  shows "wf_range (set_length (page_round_down (range_length r)) r)"
    and "r_end (set_length (page_round_down (range_length r)) r) \<le> r_end r"
proof -
  let ?d = "page_round_down (range_length r)"
  have "unat ?d \<le> unat (range_length r)"
    using page_round_down_le [of "range_length r"] by (simp add: word_le_nat_alt)
  moreover have "unat (range_length r) = unat (r_end r) - unat (r_begin r)" "unat (r_begin r) \<le> unat (r_end r)"
    using assms by (simp_all add: range_length_def wf_range_def unat_diff_word word_le_nat_alt)
  ultimately have "unat (r_begin r + ?d) = unat (r_begin r) + unat ?d" "unat (r_begin r) + unat ?d \<le> unat (r_end r)"
    using unat_less_64 [of "r_end r"] by (simp_all add: unat_add_no_wrap)
  then have "r_begin r \<le> r_begin r + ?d \<and> r_begin r + ?d \<le> r_end r"
    by (simp add: word_le_nat_alt)
  then show "wf_range (set_length (page_round_down (range_length r)) r)"
    "r_end (set_length (page_round_down (range_length r)) r) \<le> r_end r"
    by (simp_all add: set_length_def wf_range_def)
qed

lemma trim_piece_correct:
  assumes "wf_range r"
  obtains r' where "trim_piece r = Inr r'" "wf_range r'" "r_type r' = r_type r"
    "\<not> range_empty r' \<Longrightarrow> r_begin r \<le> r_begin r' \<and> r_end r' \<le> r_end r"
    "\<not> is_free r \<Longrightarrow> r' = r"
    "page_is_aligned (r_begin r) \<Longrightarrow> page_is_aligned (r_end r) \<Longrightarrow>
       if range_empty r then range_empty r' else r' = r"
proof (cases "is_free r")
  case False
  then show ?thesis
    using that [of r] assms by (simp add: trim_piece_def)
next
  case True
  note trim = trim_piece_def phys_aligned_to_def reset_with_range_def default_phys_range_def
  have "page_size \<noteq> 0"
    by simp
  then show ?thesis
  proof (cases rule: aligned_to_cases [where r = r])
    case (some a)
    let ?a = "\<lparr>r_begin = r_begin a, r_end = r_end a, r_type = r_type r\<rparr>"
    let ?b = "set_length (page_round_down (range_length ?a)) ?a"
    have a: "wf_range ?a"
      using some(4) by (simp add: wf_range_def)
    have al: "?b = r" if "page_is_aligned (r_begin r)" "page_is_aligned (r_end r)"
    proof -
      have "r_begin a = r_begin r"
        using some(3) some(6) [of "r_begin r"] that(1) by (simp add: page_is_aligned_iff)
      then have "?a = r"
        using some(2) by simp
      then show ?thesis
        using aligned_length [of r] that assms
        by (simp add: set_length_def range_length_def)
    qed
    show ?thesis
    proof (rule that [of ?b])
      show "trim_piece r = Inr ?b"
        using True some(1) by (simp add: trim)
      show "wf_range ?b"
        using set_length_round_down(1) [OF a] .
      show "r_begin r \<le> r_begin ?b \<and> r_end ?b \<le> r_end r"
        using set_length_round_down(2) [OF a] some(2,3) by (simp add: set_length_def)
      show "if range_empty r then range_empty ?b else ?b = r"
        if "page_is_aligned (r_begin r)" "page_is_aligned (r_end r)"
        using al [OF that] by (simp only: if_cancel) auto
    qed (use True in \<open>simp_all add: set_length_def\<close>)
  next
    case none
    let ?b = "\<lparr>r_begin = 0, r_end = 0, r_type = r_type r\<rparr>"
    have b: "trim_piece r = Inr ?b" 
      using True none(1) by (simp add: trim empty_range_def set_length_def range_length_def page_round_down_def round_down_custom_def)
    have "range_empty r" if "page_is_aligned (r_begin r)"
      using none(2) [of "r_begin r"] that assms by (auto simp: page_is_aligned_iff range_defs le_less)
    then show ?thesis
      using that [OF b] True by (simp add: range_defs)
  qed
qed

lemma is_valid_piece_iff:
  "page_is_aligned (r_begin r) \<Longrightarrow> page_is_aligned (r_end r) \<Longrightarrow> wf_range r \<Longrightarrow>
   is_valid_piece r \<longleftrightarrow> \<not> range_empty r"
  using aligned_length [of r] aligned_length_page [of r] by (auto simp: is_valid_piece_def)

definition trimmed :: "phys_range \<Rightarrow> phys_range \<Rightarrow> bool" where
  "trimmed p q \<longleftrightarrow> wf_range q \<and> r_type q = r_type p
     \<and> (\<not> range_empty q \<longrightarrow> r_begin p \<le> r_begin q \<and> r_end q \<le> r_end p)
     \<and> (\<not> is_free p \<longrightarrow> q = p)
     \<and> (page_is_aligned (r_begin p) \<and> page_is_aligned (r_end p) \<longrightarrow>
          (if range_empty p then range_empty q else q = p))"

lemma trim_piece_trimmed:
  assumes "wf_range p"
  shows "\<exists>q. trim_piece p = Inr q \<and> trimmed p q"
  by (rule trim_piece_correct [OF assms]) (unfold trimmed_def, blast)

lemma trim_pieces_correct:
  "\<forall>p \<in> set ps. wf_range p \<Longrightarrow> \<exists>qs. trim_pieces ps = Inr qs \<and> list_all2 trimmed ps qs"
proof (induction ps)
  case (Cons p ps)
  obtain qs where "trim_pieces ps = Inr qs" "list_all2 trimmed ps qs"
    using Cons by auto
  moreover obtain q where "trim_piece p = Inr q" "trimmed p q"
    using Cons.prems trim_piece_trimmed [of p] by auto
  ultimately show ?case
    by auto
qed simp

lemma trimmed_nonempty:
  "trimmed p q \<Longrightarrow> \<not> range_empty q \<Longrightarrow> \<not> range_empty p \<and> addrs q \<subseteq> addrs p"
  by (auto simp: trimmed_def range_defs)

lemma trimmed_separated:
  assumes "list_all2 trimmed ps qs" "separated ps"
  shows "separated qs"
  using assms(2) unfolding separated_def sorted_wrt_iff_nth_less
proof (intro allI impI)
  fix i j
  assume sep: "\<forall>i j. i < j \<longrightarrow> j < length ps \<longrightarrow>
      range_empty (ps ! i) \<or> range_empty (ps ! j) \<or> r_end (ps ! i) \<le> r_begin (ps ! j)"
    and ij: "i < j" "j < length qs"
  have "trimmed (ps ! i) (qs ! i)" "trimmed (ps ! j) (qs ! j)" "j < length ps"
    using assms(1) ij by (auto simp: list_all2_conv_all_nth)
  moreover have "range_empty (ps ! i) \<or> range_empty (ps ! j) \<or> r_end (ps ! i) \<le> r_begin (ps ! j)"
    using sep ij(1) \<open>j < length ps\<close> by blast
  ultimately show "range_empty (qs ! i) \<or> range_empty (qs ! j) \<or> r_end (qs ! i) \<le> r_begin (qs ! j)"
    using trimmed_nonempty [of "ps ! i" "qs ! i"] trimmed_nonempty [of "ps ! j" "qs ! j"]
    unfolding trimmed_def by (meson order.trans)
qed

lemma separated_filter: "separated es \<Longrightarrow> separated (filter P es)"
  unfolding separated_def by (rule sorted_wrt_filter)

lemma separated_card:
  assumes "separated es" "\<forall>e \<in> set es. wf_range e"
  shows "sum_list (map (card \<circ> addrs) es) = card (\<Union> (addrs ` set es))"
  using assms
proof (induction es)
  case (Cons e es)
  have "addrs e \<inter> addrs e' = {}" if "e' \<in> set es" for e'
    using Cons.prems that by (auto simp: separated_def range_defs)
  then have "addrs e \<inter> \<Union> (addrs ` set es) = {}"
    by blast
  with Cons show ?case
    by (simp add: separated_def card_Un_disjoint)
qed simp

subsection \<open>Resolving one overlap\<close>

lemma resolve_overlap_pieces:
  assumes "m_entries mm = pre @ x # y # post" "shatter_against x y = Inr ps"
    "trim_pieces ps = Inr qs" "length qs = 3"
  shows "resolve_overlap (length pre) mm =
    (if filter is_valid_piece qs = [] then Inl Panic
     else Inr (mm\<lparr>m_entries := pre @ filter is_valid_piece qs @ post\<rparr>))"
proof -
  obtain q0 q1 q2 where "qs = [q0, q1, q2]"
    using assms(4) by (auto simp: numeral_3_eq_3 length_Suc_conv)
  moreover have "butlast (y # post) = y # butlast post" if "post \<noteq> []"
    using that by simp
  ultimately show ?thesis
    using assms(1-3)
    by (cases "is_valid_piece q0"; cases "is_valid_piece q1"; cases "is_valid_piece q2"; cases post)
      (simp_all add: resolve_overlap_def nth_append list_update_append erase_range_at_def
        emplace_range_at_def emplace_range_def butlast_append)
qed

lemma merge_with_next_pieces:
  "m_entries mm = pre @ x # y # post \<Longrightarrow>
   merge_with_next (length pre) mm = Inr (mm\<lparr>m_entries := pre @ set_end (r_end y) x # post\<rparr>)"
  by (cases post) (simp_all add: merge_with_next_def nth_append list_update_append erase_range_at_def butlast_append)

subsection \<open>The strongest type over parts of the map\<close>

lemma strongest_unique: "strongest es a t \<Longrightarrow> strongest es a t' \<Longrightarrow> t = t'"
  by (auto simp: strongest_def intro: antisym)

lemma strongest_exists:
  assumes "e \<in> set es" "a \<in> addrs e"
  shows "\<exists>t. strongest es a t \<and> r_type e \<le> t"
proof -
  let ?T = "r_type ` {e \<in> set es. a \<in> addrs e}"
  have "finite ?T" "r_type e \<in> ?T"
    using assms by auto
  then have "Max ?T \<in> ?T" "\<forall>t \<in> ?T. t \<le> Max ?T"
    by (auto intro: Max_in)
  then have "strongest es a (Max ?T)"
    unfolding strongest_def by auto
  then show ?thesis
    using \<open>\<forall>t \<in> ?T. t \<le> Max ?T\<close> \<open>r_type e \<in> ?T\<close> by blast
qed

lemma strongest_append:
  "strongest (xs @ ys) a t \<longleftrightarrow>
     (strongest xs a t \<and> (\<forall>t'. strongest ys a t' \<longrightarrow> t' \<le> t))
     \<or> (strongest ys a t \<and> (\<forall>t'. strongest xs a t' \<longrightarrow> t' \<le> t))"
proof -
  have bound: "(\<forall>t'. strongest es a t' \<longrightarrow> t' \<le> t) \<longleftrightarrow> (\<forall>e \<in> set es. a \<in> addrs e \<longrightarrow> r_type e \<le> t)" for es
  proof
    assume "\<forall>t'. strongest es a t' \<longrightarrow> t' \<le> t"
    then show "\<forall>e \<in> set es. a \<in> addrs e \<longrightarrow> r_type e \<le> t"
      using strongest_exists [of _ es a] by (meson order.trans)
  qed (auto simp: strongest_def)
  show ?thesis
    unfolding bound by (auto simp: strongest_def)
qed

text \<open>
  The map keeps the types of another: a type stronger than free stays as it is, and no
  address becomes free.
\<close>

definition keeps_types :: "phys_range list \<Rightarrow> phys_range list \<Rightarrow> bool" where
  "keeps_types es es' \<longleftrightarrow>
     (\<forall>a t. type_FREE < t \<longrightarrow> (strongest es' a t \<longleftrightarrow> strongest es a t))
     \<and> (\<forall>a. strongest es' a type_FREE \<longrightarrow> strongest es a type_FREE)"

lemma keeps_types_refl [simp]: "keeps_types es es"
  by (simp add: keeps_types_def)

lemma keeps_types_trans: "keeps_types es es' \<Longrightarrow> keeps_types es' es'' \<Longrightarrow> keeps_types es es''"
  by (simp add: keeps_types_def)

lemma keeps_types_le:
  assumes "keeps_types es es'" "\<forall>t'. strongest es' a t' \<longrightarrow> t' \<le> t" "type_FREE \<le> t" "strongest es a t'"
  shows "t' \<le> t"
  using assms unfolding keeps_types_def by (meson leI order.strict_trans2 order.trans)

lemma keeps_types_append1:
  assumes "keeps_types es es'"
  shows "keeps_types (es @ post) (es' @ post)"
proof -
  have le: "(\<forall>t'. strongest es' a t' \<longrightarrow> t' \<le> t) \<longleftrightarrow> (\<forall>t'. strongest es a t' \<longrightarrow> t' \<le> t)"
    if "type_FREE < t" for a t
    using assms that unfolding keeps_types_def
    by (meson leI order.strict_trans order.strict_implies_order order.strict_trans2)
  have "(\<forall>t'. strongest es a t' \<longrightarrow> t' \<le> type_FREE)" if "\<forall>t'. strongest es' a t' \<longrightarrow> t' \<le> type_FREE" for a
    using keeps_types_le [OF assms that] by blast
  then show ?thesis
    using assms le unfolding keeps_types_def strongest_append by blast
qed

lemma keeps_types_append2: "keeps_types es es' \<Longrightarrow> keeps_types (pre @ es) (pre @ es')"
  using keeps_types_append1 [of es es' pre] by (simp add: keeps_types_def strongest_append conj_commute disj_commute)

lemma keeps_types_context: "keeps_types es es' \<Longrightarrow> keeps_types (pre @ es @ post) (pre @ es' @ post)"
  by (intro keeps_types_append1 keeps_types_append2)

lemma separated_unique:
  assumes "separated es" "e \<in> set es" "e' \<in> set es" "a \<in> addrs e" "a \<in> addrs e'"
  shows "e' = e"
proof -
  obtain i j where ij: "i < length es" "es ! i = e" "j < length es" "es ! j = e'"
    using assms(2,3) by (auto simp: in_set_conv_nth)
  have sep: "range_empty (es ! i) \<or> range_empty (es ! j) \<or> r_end (es ! i) \<le> r_begin (es ! j)"
    if "i < j" "j < length es" for i j
    using sorted_wrt_nth_less [OF assms(1) [unfolded separated_def] that] .
  have "\<not> i < j"
    using sep [of i j] assms(4,5) ij by (auto simp: range_defs)
  moreover have "\<not> j < i"
    using sep [of j i] assms(4,5) ij by (auto simp: range_defs)
  ultimately show ?thesis
    using ij by (metis linorder_neqE_nat)
qed

lemma strongest_separated:
  assumes "separated es" "e \<in> set es" "a \<in> addrs e"
  shows "strongest es a t \<longleftrightarrow> t = r_type e"
proof
  assume "strongest es a t"
  then obtain e' where "e' \<in> set es" "a \<in> addrs e'" "r_type e' = t"
    by (auto simp: strongest_def)
  then show "t = r_type e"
    using separated_unique [OF assms(1,2) _ assms(3)] by blast
next
  assume "t = r_type e"
  then show "strongest es a t"
    unfolding strongest_def using separated_unique [OF assms(1,2) _ assms(3)] assms(2,3) by blast
qed

lemma valid_pieces_wf:
  assumes "list_all2 trimmed ps qs" "v \<in> set (filter is_valid_piece qs)"
  obtains p where "p \<in> set ps" "trimmed p v" "wf_range v" "\<not> range_empty v" "addrs v \<subseteq> addrs p"
    "r_type v = r_type p"
proof -
  have v: "v \<in> set qs" "\<not> range_empty v"
    using assms(2) by (simp_all add: is_valid_piece_def)
  then obtain p where p: "p \<in> set ps" "trimmed p v"
    using list_all2_in2 [OF assms(1)] by blast
  moreover have "wf_range v" "r_type v = r_type p"
    using p(2) unfolding trimmed_def by blast+
  ultimately show ?thesis
    using that v(2) trimmed_nonempty [OF p(2)] by blast
qed

lemma trimmed_keeps_types:
  assumes "separated ps" "list_all2 trimmed ps qs"
  shows "keeps_types ps (filter is_valid_piece qs)"
proof -
  let ?vs = "filter is_valid_piece qs"
  have vs: "separated ?vs"
    using separated_filter trimmed_separated [OF assms(2,1)] .
  have "strongest ps a t" if st: "strongest ?vs a t" for a t
  proof -
    obtain v where v: "v \<in> set ?vs" "a \<in> addrs v" "r_type v = t"
      using st unfolding strongest_def by blast
    obtain p where "p \<in> set ps" "addrs v \<subseteq> addrs p" "r_type v = r_type p"
      using valid_pieces_wf [OF assms(2) v(1)] by blast
    then show ?thesis
      using strongest_separated [OF assms(1), of p a t] v by blast
  qed
  moreover have "strongest ?vs a t" if t: "type_FREE < t" "strongest ps a t" for a t
  proof -
    obtain p where p: "p \<in> set ps" "a \<in> addrs p" "r_type p = t"
      using t(2) unfolding strongest_def by blast
    then have nf: "\<not> is_free p" "\<not> range_empty p"
      using t(1) by (auto simp: is_free_def range_defs)
    obtain q where q: "q \<in> set qs" "trimmed p q"
      using list_all2_in1 [OF assms(2) p(1)] by blast
    then have "q = p"
      using nf(1) unfolding trimmed_def by blast
    then have "p \<in> set ?vs"
      using nf q(1) by (simp add: is_valid_piece_def is_reserved_def)
    then show ?thesis
      using strongest_separated [OF vs, of p a t] p by blast
  qed
  ultimately show ?thesis
    unfolding keeps_types_def by blast
qed

text \<open>One overlap resolved: what the pieces put in place of the two entries are.\<close>

lemma resolve_overlap_step:
  assumes "m_entries mm = pre @ x # y # post" "wf_range x" "wf_range y" "overlaps x y"
    "resolve_overlap (length pre) mm = Inr mm'"
  obtains vs where "mm' = mm\<lparr>m_entries := pre @ vs @ post\<rparr>" "\<forall>v \<in> set vs. wf_range v"
    "keeps_types [x, y] vs"
    "sum_list (map (card \<circ> addrs) vs) < card (addrs x) + card (addrs y)"
proof -
  obtain ps where ps: "shatter_against x y = Inr ps"
    using assms(1,5) by (auto simp: resolve_overlap_def bind_res_eq_Inr nth_append)
  note wf = shatter_wf(1,2) [OF assms(2,3) ps]
  obtain qs where qs: "trim_pieces ps = Inr qs" "list_all2 trimmed ps qs"
    using trim_pieces_correct wf(1) by blast
  let ?vs = "filter is_valid_piece qs"
  have "length qs = 3"
    using shatter_InrD(2) [OF ps] list_all2_lengthD [OF qs(2)] by simp
  then have mm': "mm' = mm\<lparr>m_entries := pre @ ?vs @ post\<rparr>"
    using resolve_overlap_pieces [OF assms(1) ps qs(1)] assms(5) by (simp split: if_splits)
  have vwf: "\<forall>v \<in> set ?vs. wf_range v"
    using valid_pieces_wf [OF qs(2)] by blast
  have "keeps_types ps ?vs"
    using trimmed_keeps_types [OF wf(2) qs(2)] .
  then have keep: "keeps_types [x, y] ?vs"
    using shatter_strongest [OF assms(2,3) ps] by (simp add: keeps_types_def)
  have "addrs v \<subseteq> addrs x \<union> addrs y" if "v \<in> set ?vs" for v
  proof -
    obtain p where p: "p \<in> set ps" "addrs v \<subseteq> addrs p"
      using valid_pieces_wf [OF qs(2) \<open>v \<in> set ?vs\<close>] by blast
    note p(2)
    also have "addrs p \<subseteq> addrs x \<union> addrs y"
    proof
      fix a assume "a \<in> addrs p"
      then obtain t where "strongest [x, y] a t"
        using strongest_exists [OF p(1)] shatter_strongest [OF assms(2,3) ps] by blast
      then show "a \<in> addrs x \<union> addrs y"
        by (auto simp: strongest_def)
    qed
    finally show ?thesis .
  qed
  then have "card (\<Union> (addrs ` set ?vs)) \<le> card (addrs x \<union> addrs y)"
    by (intro card_mono) auto
  moreover have "card (addrs x \<union> addrs y) < card (addrs x) + card (addrs y)"
    using assms(2-4) card_Un_Int [of "addrs x" "addrs y"] by (simp add: overlaps_iff card_gt_0_iff)
  moreover have "sum_list (map (card \<circ> addrs) ?vs) = card (\<Union> (addrs ` set ?vs))"
    using separated_card separated_filter [OF trimmed_separated [OF qs(2) wf(2)]] vwf by blast
  ultimately show ?thesis
    using that [OF mm' vwf keep] by linarith
qed

subsection \<open>The correction loop ends\<close>

definition map_wf :: "memory_map \<Rightarrow> bool" where
  "map_wf mm \<longleftrightarrow> (\<forall>e \<in> set (m_entries mm). wf_range e)"

abbreviation total_size :: "memory_map \<Rightarrow> nat" where
  "total_size mm \<equiv> sum_list (map (card \<circ> addrs) (m_entries mm))"

lemma merged_entry:
  assumes "wf_range x" "wf_range y" "trivially_mergeable x y"
  shows "wf_range (set_end (r_end y) x)"
    "addrs (set_end (r_end y) x) = addrs x \<union> addrs y" "addrs x \<inter> addrs y = {}"
    "strongest [set_end (r_end y) x] a t \<longleftrightarrow> strongest [x, y] a t"
  using assms by (auto simp: trivially_mergeable_def range_defs strongest_def)

lemma merged_size:
  assumes "wf_range x" "wf_range y" "trivially_mergeable x y"
  shows "card (addrs (set_end (r_end y) x)) = card (addrs x) + card (addrs y)"
  using merged_entry [OF assms] by (simp add: card_Un_disjoint)

lemma split_at_index:
  assumes "Suc i < length es"
  obtains pre x y post where "es = pre @ x # y # post" "length pre = i"
    "es ! i = x" "es ! Suc i = y"
  using that [of "take i es" "es ! i" "es ! Suc i" "drop (Suc (Suc i)) es"] assms
  by (simp add: Cons_nth_drop_Suc)

lemma correct_loop_induct [consumes 1, case_names finish advance merge fault split]:
  assumes "map_wf mm"
    and finish: "\<And>i mm. map_wf mm \<Longrightarrow> \<not> Suc i < length (m_entries mm) \<Longrightarrow>
      correct_loop i mm = Some (Inr mm) \<Longrightarrow> P i mm"
    and advance: "\<And>i mm pre x y post. map_wf mm \<Longrightarrow> m_entries mm = pre @ x # y # post \<Longrightarrow> length pre = i \<Longrightarrow>
      \<not> overlaps x y \<Longrightarrow> \<not> trivially_mergeable x y \<Longrightarrow>
      correct_loop i mm = correct_loop (Suc i) mm \<Longrightarrow> P (Suc i) mm \<Longrightarrow> P i mm"
    and merge: "\<And>i mm mm' pre x y post. map_wf mm \<Longrightarrow> m_entries mm = pre @ x # y # post \<Longrightarrow> length pre = i \<Longrightarrow>
      trivially_mergeable x y \<Longrightarrow> mm' = mm\<lparr>m_entries := pre @ set_end (r_end y) x # post\<rparr> \<Longrightarrow>
      correct_loop i mm = correct_loop i mm' \<Longrightarrow> map_wf mm' \<Longrightarrow> P i mm' \<Longrightarrow> P i mm"
    and fault: "\<And>i mm e pre x y post. map_wf mm \<Longrightarrow> m_entries mm = pre @ x # y # post \<Longrightarrow> length pre = i \<Longrightarrow>
      overlaps x y \<Longrightarrow> resolve_overlap i mm = Inl e \<Longrightarrow>
      correct_loop i mm = Some (Inl e) \<Longrightarrow> P i mm"
    and split: "\<And>i mm mm' pre x y post. map_wf mm \<Longrightarrow> m_entries mm = pre @ x # y # post \<Longrightarrow> length pre = i \<Longrightarrow>
      overlaps x y \<Longrightarrow> resolve_overlap i mm = Inr mm' \<Longrightarrow>
      correct_loop i mm = correct_loop (i - 1) mm' \<Longrightarrow> map_wf mm' \<Longrightarrow> P (i - 1) mm' \<Longrightarrow> P i mm"
  shows "P i mm"
  using assms(1)
proof (induction "(i, mm)" arbitrary: i mm rule: wf_induct_rule [OF wf_measures
      [of "[\<lambda>(i, mm). total_size mm, \<lambda>(i, mm). length (m_entries mm), \<lambda>(i, mm). length (m_entries mm) - i]"]])
  case (1 i mm)
  note IH = 1(1) and wf = 1(2)
  note loop = correct_loop.simps [of i mm]
  show ?case
  proof (cases "Suc i < length (m_entries mm)")
    case False
    then have "\<not> i < length (m_entries mm) - 1"
      by simp
    then have "correct_loop i mm = Some (Inr mm)"
      using loop by simp
    then show ?thesis
      using finish [OF wf False] by blast
  next
    case True
    obtain pre x y post where es: "m_entries mm = pre @ x # y # post" "length pre = i"
      and nth: "m_entries mm ! i = x" "m_entries mm ! Suc i = y"
      by (rule split_at_index [OF True])
    have i: "i < length (m_entries mm) - 1"
      using True by simp
    have wxy: "wf_range x" "wf_range y"
      using wf es(1) by (simp_all add: map_wf_def)
    consider (m) "trivially_mergeable x y" | (o) "\<not> trivially_mergeable x y" "overlaps x y"
      | (n) "\<not> trivially_mergeable x y" "\<not> overlaps x y"
      by blast
    then show ?thesis
    proof cases
      case m
      let ?mm = "mm\<lparr>m_entries := pre @ set_end (r_end y) x # post\<rparr>"
      have "map_wf ?mm"
        using wf es(1) merged_entry(1) [OF wxy m] by (auto simp: map_wf_def)
      moreover have "P i ?mm"
        using IH [of i ?mm] calculation merged_size [OF wxy m] es by simp
      moreover have "correct_loop i mm = correct_loop i ?mm"
        using loop i m nth merge_with_next_pieces [OF es(1)] es(2) by simp
      ultimately show ?thesis
        using merge [OF wf es m refl] by blast
    next
      case o
      show ?thesis
      proof (cases "resolve_overlap i mm")
        case (Inl e)
        then have "correct_loop i mm = Some (Inl e)"
          using loop i o nth by simp
        then show ?thesis
          using fault [OF wf es o(2) Inl] by blast
      next
        case (Inr mm')
        then obtain vs where vs: "mm' = mm\<lparr>m_entries := pre @ vs @ post\<rparr>" "\<forall>v \<in> set vs. wf_range v"
          "sum_list (map (card \<circ> addrs) vs) < card (addrs x) + card (addrs y)"
          using resolve_overlap_step [OF es(1) wxy o(2)] es(2) by metis
        have wf': "map_wf mm'"
          using vs(1,2) wf es(1) by (auto simp: map_wf_def)
        moreover have "P (i - 1) mm'"
          using IH [of "i - 1" mm'] wf' vs(1,3) es(1) by simp
        moreover have "correct_loop i mm = correct_loop (i - 1) mm'"
          using loop i o nth Inr by (cases "i = 0") simp_all
        ultimately show ?thesis
          using split [OF wf es o(2) Inr] by blast
      qed
    next
      case n
      have "P (Suc i) mm"
        using IH [of "Suc i" mm] wf i by simp
      moreover have "correct_loop i mm = correct_loop (Suc i) mm"
        using loop i n nth by simp
      ultimately show ?thesis
        using advance [OF wf es n(2,1)] by blast
    qed
  qed
qed

lemma correct_loop_returns:
  assumes "map_wf mm"
  shows "\<exists>r. correct_loop i mm = Some r
    \<and> (\<forall>mm'. r = Inr mm' \<longrightarrow> map_wf mm' \<and> keeps_types (m_entries mm) (m_entries mm'))"
  using assms
proof (induction i mm rule: correct_loop_induct)
  case (merge i mm mm' pre x y post)
  have "keeps_types (m_entries mm) (m_entries mm')"
    using merge keeps_types_context [of "[x, y]" "[set_end (r_end y) x]" pre post]
    by (simp add: merged_entry(4) map_wf_def keeps_types_def)
  then show ?case
    using merge by (auto intro: keeps_types_trans)
next
  case (split i mm mm' pre x y post)
  have "wf_range x" "wf_range y"
    using split(1,2) by (simp_all add: map_wf_def)
  then have "keeps_types (m_entries mm) (m_entries mm')"
    using resolve_overlap_step [OF split(2) _ _ split(4)] split(2,3,5) keeps_types_context [of "[x, y]" _ pre post]
    by fastforce
  then show ?case
    using split by (auto intro: keeps_types_trans)
qed simp_all

subsection \<open>Maps of whole pages in which no three entries share an address\<close>

definition entry_ok :: "phys_range \<Rightarrow> bool" where
  "entry_ok e \<longleftrightarrow> wf_range e \<and> \<not> range_empty e \<and> page_is_aligned (r_begin e) \<and> page_is_aligned (r_end e)"

definition cover :: "phys_range list \<Rightarrow> addr \<Rightarrow> nat" where
  "cover es a = length (filter (\<lambda>e. a \<in> addrs e) es)"

definition map_inv :: "phys_range list \<Rightarrow> bool" where
  "map_inv es \<longleftrightarrow> sorted (map r_begin es) \<and> (\<forall>e \<in> set es. entry_ok e) \<and> (\<forall>a. cover es a \<le> 2)"

abbreviation apart :: "phys_range \<Rightarrow> phys_range \<Rightarrow> bool" where
  "apart l r \<equiv> \<not> overlaps l r \<and> \<not> trivially_mergeable l r"

lemma cover_simps [simp]:
  "cover [] a = 0" "cover (e # es) a = (if a \<in> addrs e then 1 else 0) + cover es a"
  "cover (es @ es') a = cover es a + cover es' a"
  by (simp_all add: cover_def)

lemma cover_separated:
  assumes "separated es"
  shows "cover es a \<le> 1"
  using assms
proof (induction es)
  case (Cons e es)
  have "cover es a = 0" if "a \<in> addrs e"
  proof -
    have "a \<notin> addrs e'" if "e' \<in> set es" for e'
      using Cons.prems \<open>a \<in> addrs e\<close> \<open>e' \<in> set es\<close> by (auto simp: separated_def range_defs)
    then show ?thesis
      by (simp add: cover_def filter_empty_conv)
  qed
  moreover have "cover es a \<le> 1"
    using Cons by (simp add: separated_def)
  ultimately show ?case
    by simp
qed simp

lemma cover_pos: "0 < cover es a \<longleftrightarrow> (\<exists>t. strongest es a t)"
proof
  assume "0 < cover es a"
  then obtain e where "e \<in> set es" "a \<in> addrs e"
    by (auto simp: cover_def filter_empty_conv)
  then show "\<exists>t. strongest es a t"
    using strongest_exists by blast
qed (auto simp: cover_def filter_empty_conv strongest_def)

lemma valid_pieces_aligned:
  assumes "list_all2 trimmed ps qs"
    and "\<forall>p \<in> set ps. \<not> range_empty p \<longrightarrow> page_is_aligned (r_begin p) \<and> page_is_aligned (r_end p)"
  shows "filter is_valid_piece qs = filter (\<lambda>p. \<not> range_empty p) ps"
  using assms
proof (induction rule: list_all2_induct)
  case (Cons p ps q qs)
  have "is_valid_piece q \<longleftrightarrow> \<not> range_empty p" "\<not> range_empty p \<Longrightarrow> q = p"
  proof -
    show q: "q = p" if "\<not> range_empty p"
      using Cons(1,4) that unfolding trimmed_def by (meson list.set_intros(1))
    have "wf_range q"
      using Cons(1) by (simp add: trimmed_def)
    then have "is_valid_piece q" if "\<not> range_empty p"
      using q [OF that] that Cons(4) is_valid_piece_iff [of p] by simp
    then show "is_valid_piece q \<longleftrightarrow> \<not> range_empty p"
      using trimmed_nonempty [OF Cons(1)] is_valid_piece_def [of q] by blast
  qed
  then show ?case
    using Cons by auto
qed simp

text \<open>What replaces two overlapping entries of such a map.\<close>

definition resolved :: "phys_range \<Rightarrow> phys_range \<Rightarrow> phys_range list \<Rightarrow> bool" where
  "resolved x y vs \<longleftrightarrow> vs \<noteq> [] \<and> separated vs \<and> (\<forall>v \<in> set vs. entry_ok v)
     \<and> (\<forall>a t. strongest vs a t \<longleftrightarrow> strongest [x, y] a t)
     \<and> (\<forall>v \<in> set vs. r_begin x \<le> r_begin v \<and> r_begin v \<le> min (r_end x) (r_end y))"

lemma overlap_contains:
  "entry_ok x \<Longrightarrow> entry_ok y \<Longrightarrow> r_begin x \<le> r_begin y \<Longrightarrow> overlaps x y \<Longrightarrow> r_begin y \<in> addrs x"
  by (auto simp: entry_ok_def range_defs)

lemma shatter_resolved:
  assumes ok: "entry_ok x" "entry_ok y" and ps: "shatter_against x y = Inr ps"
  shows "resolved x y (filter (\<lambda>p. \<not> range_empty p) ps)"
    and "p \<in> set ps \<Longrightarrow> \<not> range_empty p \<Longrightarrow> page_is_aligned (r_begin p) \<and> page_is_aligned (r_end p)"
proof -
  let ?vs = "filter (\<lambda>p. \<not> range_empty p) ps"
  have wf: "wf_range x" "wf_range y"
    using ok by (simp_all add: entry_ok_def)
  note sw = shatter_wf [OF wf ps]
  have al: "page_is_aligned (r_begin p) \<and> page_is_aligned (r_end p)" if "p \<in> set ps" "\<not> range_empty p" for p
    using sw(3) [OF that] ok unfolding entry_ok_def by (elim conjE insertE emptyE) simp_all
  have st: "strongest ?vs a t \<longleftrightarrow> strongest [x, y] a t" for a t
  proof -
    have "a \<in> addrs p \<Longrightarrow> \<not> range_empty p" for p :: phys_range
      by (auto simp: range_defs)
    then have "strongest ?vs a t \<longleftrightarrow> strongest ps a t"
      unfolding strongest_def by auto
    then show ?thesis
      using shatter_strongest [OF wf ps] by blast
  qed
  obtain t where "strongest ?vs (r_begin y) t"
    using st [of "r_begin y"] strongest_exists [of x "[x, y]" "r_begin y"] shatter_InrD(1) [OF ps] by auto
  then have "?vs \<noteq> []"
    by (intro notI) (simp add: strongest_def)
  then show "resolved x y ?vs"
    unfolding resolved_def using st al sw separated_filter by (auto simp: entry_ok_def)
  show "p \<in> set ps \<Longrightarrow> \<not> range_empty p \<Longrightarrow> page_is_aligned (r_begin p) \<and> page_is_aligned (r_end p)"
    by (rule al)
qed

lemma resolve_overlap_aligned:
  assumes es: "m_entries mm = pre @ x # y # post" and ok: "entry_ok x" "entry_ok y"
    and "r_begin x \<le> r_begin y" "overlaps x y"
  obtains vs where "resolve_overlap (length pre) mm = Inr (mm\<lparr>m_entries := pre @ vs @ post\<rparr>)"
    "resolved x y vs"
proof -
  have wf: "wf_range x" "wf_range y"
    using ok by (simp_all add: entry_ok_def)
  obtain ps where ps: "shatter_against x y = Inr ps"
    using shatter_pieces [OF wf overlap_contains [OF ok assms(4,5)]] by blast
  obtain qs where qs: "trim_pieces ps = Inr qs" "list_all2 trimmed ps qs"
    using trim_pieces_correct shatter_wf(1) [OF wf ps] by blast
  let ?vs = "filter (\<lambda>p. \<not> range_empty p) ps"
  note res = shatter_resolved [OF ok ps]
  have eq: "filter is_valid_piece qs = ?vs"
    using valid_pieces_aligned [OF qs(2)] res(2) by blast
  have "?vs \<noteq> []"
    using res(1) unfolding resolved_def by blast
  then have "resolve_overlap (length pre) mm = Inr (mm\<lparr>m_entries := pre @ ?vs @ post\<rparr>)"
    using resolve_overlap_pieces [OF es ps qs(1)] shatter_InrD(2) [OF ps] list_all2_lengthD [OF qs(2)]
    unfolding eq by presburger
  then show ?thesis
    using that res(1) by blast
qed

lemma resolved_cover:
  assumes "resolved x y vs"
  shows "cover vs a \<le> cover [x, y] a"
proof -
  have "0 < cover vs a \<longleftrightarrow> 0 < cover [x, y] a"
    using assms unfolding resolved_def cover_pos by blast
  moreover have "cover vs a \<le> 1"
    using assms unfolding resolved_def by (intro cover_separated) blast
  ultimately show ?thesis
    by linarith
qed

lemma resolved_sorted:
  assumes inv: "map_inv (pre @ x # y # post)" and "resolved x y vs"
  shows "sorted (map r_begin (pre @ vs @ post))"
proof -
  have sorted: "sorted (map r_begin (pre @ x # y # post))" and ok: "\<forall>e \<in> set (x # y # post). entry_ok e"
    and two: "cover (pre @ x # y # post) a \<le> 2" for a
    using inv by (auto simp: map_inv_def)
  have "r_begin v \<le> r_begin z" if v: "v \<in> set vs" and z: "z \<in> set post" for v z
  proof -
    have "r_begin z \<in> addrs z" "r_begin x \<le> r_begin z" "r_begin y \<le> r_begin z"
      using ok z sorted by (auto simp: entry_ok_def sorted_append intro: begin_in_addrs)
    moreover have "0 < cover post (r_begin z)"
      using z \<open>r_begin z \<in> addrs z\<close> by (auto simp: cover_def filter_empty_conv)
    ultimately have "min (r_end x) (r_end y) \<le> r_begin z"
      using two [of "r_begin z"] by (auto simp: addrs_def min_le_iff_disj not_less split: if_splits)
    then show ?thesis
      using assms(2) v unfolding resolved_def by (meson order.trans)
  qed
  moreover have "r_begin p \<le> r_begin v" if "p \<in> set pre" "v \<in> set vs" for p v
    using that sorted assms(2) unfolding resolved_def
    by (auto simp: sorted_append) (meson order.trans)
  moreover have "sorted (map r_begin vs)"
  proof -
    have "sorted_wrt (\<lambda>l r. r_begin l \<le> r_begin r) vs"
    proof (rule sorted_wrt_mono_rel)
      show "sorted_wrt (\<lambda>l r. range_empty l \<or> range_empty r \<or> r_end l \<le> r_begin r) vs"
        using assms(2) by (simp add: resolved_def separated_def)
      show "r_begin l \<le> r_begin r" if "l \<in> set vs" "r \<in> set vs"
        "range_empty l \<or> range_empty r \<or> r_end l \<le> r_begin r" for l r
        using that assms(2) unfolding resolved_def entry_ok_def wf_range_def by (meson order.trans)
    qed
    then show ?thesis
      by (simp add: sorted_map)
  qed
  ultimately show ?thesis
    using sorted by (auto simp: sorted_append)
qed

lemma resolved_inv:
  assumes "map_inv (pre @ x # y # post)" "resolved x y vs"
  shows "map_inv (pre @ vs @ post)"
proof -
  have "cover (pre @ vs @ post) a \<le> 2" for a
    using assms(1) resolved_cover [OF assms(2), of a] by (auto simp: map_inv_def dest!: spec [of _ a])
  then show ?thesis
    using resolved_sorted [OF assms] assms unfolding map_inv_def resolved_def by auto
qed

lemma merged_inv:
  assumes inv: "map_inv (pre @ x # y # post)" and "trivially_mergeable x y"
  shows "map_inv (pre @ set_end (r_end y) x # post)"
proof -
  have ok: "entry_ok x" "entry_ok y"
    using inv by (simp_all add: map_inv_def)
  note m = merged_entry [OF _ _ assms(2)]
  have "cover [set_end (r_end y) x] a = cover [x, y] a" for a
    using m(2,3) ok by (auto simp: entry_ok_def)
  then have "cover (pre @ set_end (r_end y) x # post) a = cover (pre @ x # y # post) a" for a
    by simp
  then have "cover (pre @ set_end (r_end y) x # post) a \<le> 2" for a
    using inv unfolding map_inv_def by metis
  moreover have "entry_ok (set_end (r_end y) x)"
    using ok assms(2) by (auto simp: entry_ok_def range_defs trivially_mergeable_def)
  ultimately show ?thesis
    using inv by (auto simp: map_inv_def sorted_append set_end_def simp del: cover_simps)
qed

lemma strongest_context:
  assumes "\<And>a t. strongest es' a t \<longleftrightarrow> strongest es a t"
  shows "strongest (pre @ es' @ post) a t \<longleftrightarrow> strongest (pre @ es @ post) a t"
  using assms by (simp add: strongest_append)

lemma apart_merged:
  assumes "entry_ok p" "entry_ok x" "entry_ok y" "r_begin p \<le> r_begin x" "apart p x" "trivially_mergeable x y"
  shows "apart p (set_end (r_end y) x)"
  using assms by (auto simp: entry_ok_def range_defs trivially_mergeable_def)

lemma correct_loop_correct:
  assumes "map_wf mm" "map_inv (m_entries mm)" "successively apart (take (Suc i) (m_entries mm))"
  shows "\<exists>mm'. correct_loop i mm = Some (Inr mm') \<and> map_inv (m_entries mm')
    \<and> successively apart (m_entries mm')
    \<and> (\<forall>a t. strongest (m_entries mm') a t \<longleftrightarrow> strongest (m_entries mm) a t)"
  using assms
proof (induction i mm rule: correct_loop_induct)
  case (finish i mm)
  then show ?case
    by (intro exI [of _ mm]) simp
next
  case (advance i mm pre x y post)
  then show ?case
    by (simp add: successively_append_iff)
next
  case (merge i mm mm' pre x y post)
  have inv: "map_inv (pre @ x # y # post)"
    using merge(2,9) by simp
  have "successively apart (pre @ [set_end (r_end y) x])"
  proof (cases "pre = []")
    case False
    have "apart (last pre) x" "successively apart pre"
      using merge(2,3,10) False by (auto simp: successively_append_iff)
    moreover have "entry_ok (last pre)" "entry_ok x" "entry_ok y" "r_begin (last pre) \<le> r_begin x"
      using inv False by (auto simp: map_inv_def sorted_append)
    ultimately show ?thesis
      using apart_merged merge(4) by (simp add: successively_append_iff)
  qed simp
  then have "successively apart (take (Suc i) (m_entries mm'))"
    using merge(3,5) by simp
  moreover have "map_inv (m_entries mm')"
    using merged_inv [OF inv merge(4)] merge(5) by simp
  moreover have "strongest (m_entries mm') a t \<longleftrightarrow> strongest (m_entries mm) a t" for a t
    using strongest_context [of "[set_end (r_end y) x]" "[x, y]" pre post]
      merged_entry(4) [OF _ _ merge(4)] merge(1,2,5) by (simp add: map_wf_def)
  ultimately show ?case
    using merge(6,8) by simp
next
  case (fault i mm e pre x y post)
  have "entry_ok x" "entry_ok y" "r_begin x \<le> r_begin y"
    using fault(2,7) by (auto simp: map_inv_def sorted_append)
  then obtain vs where "resolve_overlap (length pre) mm = Inr (mm\<lparr>m_entries := pre @ vs @ post\<rparr>)"
    using resolve_overlap_aligned [OF fault(2)] fault(4) by blast
  then show ?case
    using fault(3,5) by simp
next
  case (split i mm mm' pre x y post)
  have inv: "map_inv (pre @ x # y # post)"
    using split(2,9) by simp
  then have "entry_ok x" "entry_ok y" "r_begin x \<le> r_begin y"
    by (auto simp: map_inv_def sorted_append)
  then obtain vs where vs: "resolve_overlap (length pre) mm = Inr (mm\<lparr>m_entries := pre @ vs @ post\<rparr>)"
    "resolved x y vs"
    using resolve_overlap_aligned [OF split(2)] split(4) by blast
  then have es': "m_entries mm' = pre @ vs @ post"
    using split(3,5) by auto
  have "successively apart (take (Suc (i - 1)) (m_entries mm'))"
  proof (cases i)
    case 0
    then show ?thesis
      by (cases "m_entries mm'") simp_all
  next
    case (Suc k)
    then show ?thesis
      using split(2,3,10) es' by (simp add: successively_append_iff)
  qed
  moreover have "map_inv (m_entries mm')"
    using resolved_inv [OF inv vs(2)] es' by simp
  moreover have "strongest (m_entries mm') a t \<longleftrightarrow> strongest (m_entries mm) a t" for a t
    using strongest_context [of vs "[x, y]" pre post] vs(2) es' split(2) by (simp add: resolved_def)
  ultimately show ?case
    using split(6,8) by simp
qed

text \<open>A sorted map without adjacent overlaps has no overlaps at all.\<close>

lemma apart_separated:
  assumes "map_inv es" "successively apart es"
  shows "separated es"
proof -
  have ok: "\<forall>e \<in> set es. entry_ok e"
    using assms(1) by (simp add: map_inv_def)
  have "successively (\<lambda>l r. entry_ok l \<and> entry_ok r \<and> r_end l \<le> r_begin r) es"
    using assms ok
  proof (induction es rule: induct_list012)
    case (3 x y es)
    have "cover (y # es) a \<le> 2" for a
      using 3(3) cover_simps(2) [of x "y # es" a] unfolding map_inv_def by (metis add_leD2)
    then have "map_inv (y # es)"
      using 3(3) by (simp add: map_inv_def del: cover_simps)
    with 3 have "successively (\<lambda>l r. entry_ok l \<and> entry_ok r \<and> r_end l \<le> r_begin r) (y # es)"
      by simp
    moreover have "r_begin x \<le> r_begin y"
      using 3(3) by (simp add: map_inv_def)
    ultimately show ?case
      using 3(4,5) by (auto simp: entry_ok_def range_defs)
  qed simp_all
  then have "sorted_wrt (\<lambda>l r. entry_ok l \<and> entry_ok r \<and> r_end l \<le> r_begin r) es"
    by (rule iffD1 [OF successively_conv_sorted_wrt, rotated])
      (auto simp: transp_def entry_ok_def wf_range_def)
  then show ?thesis
    unfolding separated_def by (rule sorted_wrt_mono_rel [rotated]) blast
qed

subsection \<open>Searching the map\<close>

definition range_lt_addr :: "phys_range \<Rightarrow> addr \<Rightarrow> bool" where
  "range_lt_addr l address \<longleftrightarrow> r_begin l < address"

definition addr_lt_range :: "addr \<Rightarrow> phys_range \<Rightarrow> bool" where
  "addr_lt_range l r \<longleftrightarrow> l < r_begin r"

interpretation map_search: key_comparators addr_lt_range range_lt_addr r_begin
  by unfold_locales (simp_all add: addr_lt_range_def range_lt_addr_def)

subsection \<open>Copying and sorting\<close>

definition e820_range_of :: "e820_range \<Rightarrow> phys_range" where
  "e820_range_of e = \<lparr>r_begin = base_address e, r_end = base_address e + e_length e, r_type = ucast (e_type e)\<rparr>"

lemma keeps_typesI:
  assumes "\<And>e'. e' \<in> set es' \<Longrightarrow> \<exists>e \<in> set es. addrs e' \<subseteq> addrs e \<and> r_type e' = r_type e"
    and "\<And>e. e \<in> set es \<Longrightarrow> r_type e \<noteq> type_FREE \<Longrightarrow> e \<in> set es'"
  shows "keeps_types es es'"
proof -
  have fwd: "strongest es a t" if t: "type_FREE \<le> t" "strongest es' a t" for a t
  proof -
    have "r_type e \<le> t" if "e \<in> set es" "a \<in> addrs e" for e
      using assms(2) [OF that(1)] t that(2) by (cases "r_type e = type_FREE") (auto simp: strongest_def)
    moreover obtain e' where "e' \<in> set es'" "a \<in> addrs e'" "r_type e' = t"
      using t(2) unfolding strongest_def by blast
    moreover obtain e where "e \<in> set es" "addrs e' \<subseteq> addrs e" "r_type e' = r_type e"
      using assms(1) [OF calculation(2)] by blast
    ultimately show ?thesis
      unfolding strongest_def by (metis subsetD)
  qed
  have "strongest es' a t" if t: "type_FREE < t" "strongest es a t" for a t
  proof -
    have "r_type e' \<le> t" if e': "e' \<in> set es'" "a \<in> addrs e'" for e'
    proof -
      obtain e where "e \<in> set es" "addrs e' \<subseteq> addrs e" "r_type e' = r_type e"
        using assms(1) [OF e'(1)] by blast
      then show ?thesis
        using t(2) e'(2) unfolding strongest_def by auto
    qed
    moreover obtain e where "e \<in> set es" "a \<in> addrs e" "r_type e = t"
      using t(2) unfolding strongest_def by blast
    ultimately show ?thesis
      using assms(2) [of e] t(1) unfolding strongest_def by (metis order.strict_iff_not order.refl)
  qed
  then show ?thesis
    using fwd order.refl order.strict_implies_order unfolding keeps_types_def by metis
qed

lemma phys_aligned_to_aligned:
  "entry_ok r \<Longrightarrow> phys_aligned_to r page_size = Inr r"
  by (cases r) (auto simp: entry_ok_def phys_aligned_to_def aligned_to_def aligned_begin_def page_is_aligned_def
      range_defs default_phys_range_def)

lemma trimmedD:
  assumes "trimmed p q"
  shows "wf_range q" "r_type q = r_type p" "addrs q \<subseteq> addrs p"
proof -
  show "wf_range q" "r_type q = r_type p"
    using assms unfolding trimmed_def by blast+
  show "addrs q \<subseteq> addrs p"
    using trimmed_nonempty [OF assms] by (cases "range_empty q") (auto simp: range_defs)
qed

lemma copy_entry_correct:
  assumes "copy_entry d mm = Inr mm'"
  shows "\<exists>ys. mm' = mm\<lparr>m_entries := m_entries mm @ ys\<rparr>
    \<and> (\<forall>y \<in> set ys. wf_range y \<and> addrs y \<subseteq> addrs (e820_range_of d) \<and> r_type y = r_type (e820_range_of d))
    \<and> (r_type (e820_range_of d) \<noteq> type_FREE \<longrightarrow> ys = [e820_range_of d])"
proof -
  let ?r = "e820_range_of d"
  have wf: "wf_range ?r"
    and mk: "mk_phys_range (base_address d) (e_length d) (ucast (e_type d)) = Inr ?r"
    using assms by (auto simp: copy_entry_def mk_phys_range_def mk_range_def Let_def e820_range_of_def
        wf_range_def bind_res_eq_Inr split: if_splits)
  show ?thesis
  proof (cases "is_free ?r")
    case False
    then show ?thesis
      using assms wf by (intro exI [of _ "[?r]"]) (auto simp: copy_entry_def mk is_free_def emplace_range_def)
  next
    case True
    obtain q where q: "trim_piece ?r = Inr q" "trimmed ?r q"
      using trim_piece_trimmed [OF wf] by blast
    then obtain a where a: "phys_aligned_to ?r page_size = Inr a"
      and qa: "q = set_length (page_round_down (range_length a)) a"
      using True by (auto simp: trim_piece_def bind_res_eq_Inr)
    have run: "mm' = mm\<lparr>m_entries := m_entries mm @ []\<rparr> \<or> mm' = mm\<lparr>m_entries := m_entries mm @ [q]\<rparr>"
      using assms True by (simp add: copy_entry_def mk a is_free_def qa emplace_range_def split: if_splits)
    note trimmedD [OF q(2)]
    then have "\<forall>y \<in> set ys. wf_range y \<and> addrs y \<subseteq> addrs ?r \<and> r_type y = r_type ?r"
      if "ys = [] \<or> ys = [q]" for ys
      using that by auto
    then show ?thesis
      using run True unfolding is_free_def by blast
  qed
qed

lemma copy_entry_ok:
  assumes "entry_ok (e820_range_of d)"
  shows "copy_entry d mm = Inr (emplace_range (e820_range_of d) mm)"
proof -
  let ?r = "e820_range_of d"
  have mk: "mk_phys_range (base_address d) (e_length d) (ucast (e_type d)) = Inr ?r"
    using assms by (simp add: entry_ok_def mk_phys_range_def mk_range_def e820_range_of_def wf_range_def)
  have al: "page_is_aligned (range_length ?r)"
    using assms aligned_length [of ?r] by (simp add: entry_ok_def)
  then have "page_size \<le> range_length ?r"
    using assms aligned_length_page [of ?r] by (simp add: entry_ok_def)
  moreover have "set_length (page_round_down (range_length ?r)) ?r = ?r"
    using al by (simp add: set_length_def range_length_def)
  ultimately show ?thesis
    using assms by (simp add: copy_entry_def mk phys_aligned_to_aligned entry_ok_def not_less)
qed

lemma copy_aligned_from_ok:
  "\<forall>d \<in> set raw. entry_ok (e820_range_of d) \<Longrightarrow>
   copy_aligned_from raw mm = Inr (mm\<lparr>m_entries := m_entries mm @ map e820_range_of raw\<rparr>)"
  by (induction raw arbitrary: mm) (simp_all add: copy_entry_ok emplace_range_def)

lemma copy_aligned_from_correct:
  "copy_aligned_from raw mm = Inr mm' \<Longrightarrow> \<exists>ys. mm' = mm\<lparr>m_entries := m_entries mm @ ys\<rparr>
    \<and> (\<forall>y \<in> set ys. wf_range y \<and> (\<exists>e \<in> set (map e820_range_of raw). addrs y \<subseteq> addrs e \<and> r_type y = r_type e))
    \<and> (\<forall>e \<in> set (map e820_range_of raw). r_type e \<noteq> type_FREE \<longrightarrow> e \<in> set ys)"
proof (induction raw arbitrary: mm)
  case (Cons d raw)
  then obtain mm1 where mm1: "copy_entry d mm = Inr mm1" "copy_aligned_from raw mm1 = Inr mm'"
    by (auto simp: bind_res_eq_Inr)
  obtain ys where ys: "mm1 = mm\<lparr>m_entries := m_entries mm @ ys\<rparr>"
    "\<forall>y \<in> set ys. wf_range y \<and> addrs y \<subseteq> addrs (e820_range_of d) \<and> r_type y = r_type (e820_range_of d)"
    "r_type (e820_range_of d) \<noteq> type_FREE \<longrightarrow> ys = [e820_range_of d]"
    using copy_entry_correct [OF mm1(1)] by blast
  obtain zs where zs: "mm' = mm1\<lparr>m_entries := m_entries mm1 @ zs\<rparr>"
    "\<forall>y \<in> set zs. wf_range y \<and> (\<exists>e \<in> set (map e820_range_of raw). addrs y \<subseteq> addrs e \<and> r_type y = r_type e)"
    "\<forall>e \<in> set (map e820_range_of raw). r_type e \<noteq> type_FREE \<longrightarrow> e \<in> set zs"
    using Cons.IH [OF mm1(2)] by blast
  have "mm' = mm\<lparr>m_entries := m_entries mm @ (ys @ zs)\<rparr>"
    using ys(1) zs(1) by simp
  moreover have "\<forall>y \<in> set (ys @ zs). wf_range y
      \<and> (\<exists>e \<in> set (map e820_range_of (d # raw)). addrs y \<subseteq> addrs e \<and> r_type y = r_type e)"
    using ys(2) zs(2) unfolding set_append list.map list.set by blast
  moreover have "\<forall>e \<in> set (map e820_range_of (d # raw)). r_type e \<noteq> type_FREE \<longrightarrow> e \<in> set (ys @ zs)"
    using ys(3) zs(3) by simp
  ultimately show ?case
    by blast
qed simp

lemma sort_by_address_simps:
  "mset (m_entries (sort_by_address mm)) = mset (m_entries mm)"
  "set (m_entries (sort_by_address mm)) = set (m_entries mm)"
  "sorted (map r_begin (m_entries (sort_by_address mm)))"
proof -
  have "insertion_sort phys_range_less es = sort_key r_begin es" for es
    using insertion_sort_sort_key [of r_begin es] unfolding phys_range_less_def range_less_def .
  then show "mset (m_entries (sort_by_address mm)) = mset (m_entries mm)"
    "set (m_entries (sort_by_address mm)) = set (m_entries mm)"
    "sorted (map r_begin (m_entries (sort_by_address mm)))"
    by (simp_all add: sort_by_address_def)
qed

lemma cover_mset: "mset es = mset es' \<Longrightarrow> cover es a = cover es' a"
  unfolding cover_def by (metis mset_filter size_mset)

lemma strongest_set: "set es = set es' \<Longrightarrow> strongest es a t \<longleftrightarrow> strongest es' a t"
  by (simp add: strongest_def)

lemma keeps_types_set: "set es' = set es'' \<Longrightarrow> keeps_types es es' \<longleftrightarrow> keeps_types es es''"
  unfolding keeps_types_def using strongest_set by metis

lemma correct_overlapping_ranges_inv:
  assumes "map_inv (m_entries mm)" "m_entries mm \<noteq> []"
    "successively apart (take (Suc hint) (m_entries mm))"
  shows "\<exists>mm'. correct_overlapping_ranges hint mm = Some (Inr mm') \<and> map_inv (m_entries mm')
    \<and> successively apart (m_entries mm') \<and> separated (m_entries mm')
    \<and> (\<forall>a t. strongest (m_entries mm') a t \<longleftrightarrow> strongest (m_entries mm) a t)"
proof -
  have "map_wf mm"
    using assms(1) by (simp add: map_inv_def map_wf_def entry_ok_def)
  from correct_loop_correct [OF this assms(1,3)] show ?thesis
    using apart_separated assms(2) by (auto simp: correct_overlapping_ranges_def)
qed

subsection \<open>Properties\<close>

text \<open>
  \<^verbatim>\<open>shatter_against\<close> on a range that contains the other's first address yields
  three pieces in ascending order that do not share an address, and every address keeps the
  larger of the types the two ranges give it; on any other range it asserts.
\<close>

theorem shatter_against_by_priority:
  assumes "wf_range this" and "wf_range other"
  shows "if r_begin other \<in> addrs this
    then \<exists>ps. shatter_against this other = Inr ps \<and> length ps = 3 \<and> (\<forall>p \<in> set ps. wf_range p)
      \<and> separated ps \<and> (\<forall>a t. strongest ps a t \<longleftrightarrow> strongest [this, other] a t)
    else shatter_against this other = Inl Assertion"
proof (cases "r_begin other \<in> addrs this")
  case True
  then obtain ps where ps: "shatter_against this other = Inr ps"
    using shatter_pieces [OF assms] by blast
  then show ?thesis
    using True shatter_InrD(2) [OF ps] shatter_wf(1,2) [OF assms ps] shatter_strongest [OF assms ps] by simp
next
  case False
  then show ?thesis
    by (simp add: shatter_against_def contains_addr_iff)
qed

theorem shatter_against_by_priority_witness:
  "\<exists>ps. shatter_against \<lparr>r_begin = 0x1000, r_end = 0x9000, r_type = 1\<rparr>
       \<lparr>r_begin = 0x3000, r_end = 0x5000, r_type = 2\<rparr> = Inr ps \<and> length ps = 3 \<and> separated ps"
  using shatter_against_by_priority [of "\<lparr>r_begin = 0x1000, r_end = 0x9000, r_type = 1\<rparr>"
      "\<lparr>r_begin = 0x3000, r_end = 0x5000, r_type = 2\<rparr>"]
  by (auto simp: wf_range_def addrs_def)

text \<open>
  C19: for every map of well-formed entries, sorted or not, \<^verbatim>\<open>correct_overlapping_ranges\<close>
  ends, and if it does not stop with a fault then every address keeps a type
  stronger than free and no address becomes free that was not free.
\<close>

theorem correct_overlapping_ranges_terminates:
  assumes "map_wf mm"
  shows "\<exists>r. correct_overlapping_ranges hint mm = Some r
    \<and> (\<forall>mm'. r = Inr mm' \<longrightarrow> map_wf mm' \<and> keeps_types (m_entries mm) (m_entries mm'))"
  using correct_loop_returns [OF assms] by (simp add: correct_overlapping_ranges_def)

theorem correct_overlapping_ranges_terminates_witness:
  "\<exists>r. correct_overlapping_ranges 0 \<lparr>m_entries = [\<lparr>r_begin = 0x1000, r_end = 0x9000, r_type = 1\<rparr>,
       \<lparr>r_begin = 0x3000, r_end = 0x5000, r_type = 2\<rparr>], m_capacity = 170\<rparr> = Some r"
  using correct_overlapping_ranges_terminates [of "\<lparr>m_entries = [\<lparr>r_begin = 0x1000, r_end = 0x9000, r_type = 1\<rparr>,
       \<lparr>r_begin = 0x3000, r_end = 0x5000, r_type = 2\<rparr>], m_capacity = 170\<rparr>" 0]
  by (auto simp: map_wf_def wf_range_def)

lemma generate_from_step:
  assumes "raw \<noteq> []" and "\<forall>d \<in> set raw. entry_ok (e820_range_of d)"
    and "\<forall>a. cover (map e820_range_of raw) a \<le> 2"
  shows "\<exists>mm. generate_from True raw = Some (Inr mm) \<and> map_inv (m_entries mm) \<and> m_entries mm \<noteq> []
    \<and> successively apart (m_entries mm) \<and> (\<forall>a t. strongest (m_entries mm) a t \<longleftrightarrow> strongest (map e820_range_of raw) a t)"
proof -
  let ?mm = "\<lparr>m_entries = map e820_range_of raw, m_capacity = 4096 div 24\<rparr>"
  let ?s = "sort_by_address ?mm"
  have gen: "generate_from True raw = correct_overlapping_ranges 0 ?s"
    using copy_aligned_from_ok [OF assms(2)] by (simp add: generate_from_def set_range_buffer_def)
  have set: "set (m_entries ?s) = set (map e820_range_of raw)"
    by (simp add: sort_by_address_simps(2))
  have "map_inv (m_entries ?s)"
    using assms(2,3) sort_by_address_simps(3) [of ?mm] cover_mset [OF sort_by_address_simps(1) [of ?mm]]
    unfolding map_inv_def set by simp
  moreover have "m_entries ?s \<noteq> []"
    using assms(1) set by (metis list.map_disc_iff set_empty)
  moreover have "successively apart (take (Suc 0) (m_entries ?s))"
    by (cases "m_entries ?s") simp_all
  ultimately obtain mm where mm: "correct_overlapping_ranges 0 ?s = Some (Inr mm)" "map_inv (m_entries mm)" "successively apart (m_entries mm)"
      "\<And>a t. strongest (m_entries mm) a t \<longleftrightarrow> strongest (map e820_range_of raw) a t"
    using correct_overlapping_ranges_inv [of ?s 0] strongest_set [OF set] by fastforce
  obtain d where d: "d \<in> set raw"
    using assms(1) by (cases raw) auto
  then have "r_begin (e820_range_of d) \<in> addrs (e820_range_of d)"
    using assms(2) by (auto simp: entry_ok_def addrs_def wf_range_def range_empty_def)
  then obtain t where "strongest (m_entries mm) (r_begin (e820_range_of d)) t"
    using strongest_exists d mm(4) by (metis image_eqI list.set_map)
  then have "m_entries mm \<noteq> []"
    by (auto simp: strongest_def)
  then show ?thesis
    using mm by (auto simp: gen)
qed

text \<open>
  C10: when the firmware reports whole pages and no three of its entries share an address,
  \<^verbatim>\<open>generate_from\<close> returns a map in ascending order, without overlaps and without
  neighbours that could be merged, in which every address has the strongest type the
  firmware reports for it.
\<close>

theorem generate_from_correct:
  assumes "raw \<noteq> []" and "\<forall>d \<in> set raw. entry_ok (e820_range_of d)"
    and "\<forall>a. cover (map e820_range_of raw) a \<le> 2"
  shows "\<exists>mm. generate_from True raw = Some (Inr mm) \<and> sorted (map r_begin (m_entries mm))
    \<and> separated (m_entries mm) \<and> successively apart (m_entries mm)
    \<and> (\<forall>a t. strongest (m_entries mm) a t \<longleftrightarrow> strongest (map e820_range_of raw) a t)"
  using generate_from_step [OF assms] apart_separated unfolding map_inv_def by blast

definition sample_e820 :: "e820_range list" where
  "sample_e820 = [\<lparr>base_address = 0, e_length = 0x80000, e_type = 1\<rparr>,
     \<lparr>base_address = 0x10000, e_length = 0x4000, e_type = 2\<rparr>,
     \<lparr>base_address = 0x20000, e_length = 0x4000, e_type = 4\<rparr>]"

theorem generate_from_correct_witness:
  "\<exists>mm. generate_from True sample_e820 = Some (Inr mm) \<and> separated (m_entries mm)"
proof -
  have "\<forall>d \<in> set sample_e820. entry_ok (e820_range_of d)"
    by (simp add: sample_e820_def entry_ok_def e820_range_of_def range_defs page_is_aligned_def page_size_def)
  moreover have "cover (map e820_range_of sample_e820) a \<le> 2" for a
  proof -
    have "\<not> (0x20000 \<le> a \<and> a < 0x14000)"
      using order.strict_trans1 [of "0x20000" a "0x14000"] by auto
    then show ?thesis
      by (simp add: sample_e820_def e820_range_of_def addrs_def)
  qed
  ultimately show ?thesis
    using generate_from_correct [of sample_e820] by (auto simp: sample_e820_def)
qed

definition stacked_map :: memory_map where
  "stacked_map = \<lparr>m_entries = [\<lparr>r_begin = 0, r_end = 0x50000, r_type = type_RESERVED\<rparr>,
     \<lparr>r_begin = 0x10000, r_end = 0x100000, r_type = type_FREE\<rparr>,
     \<lparr>r_begin = 0x20000, r_end = 0x30000, r_type = type_RESERVED\<rparr>,
     \<lparr>r_begin = 0x60000, r_end = 0x70000, r_type = type_BAD\<rparr>], m_capacity = 170\<rparr>"

definition corrected_stacked_map :: memory_map where
  "corrected_stacked_map = \<lparr>m_entries = [\<lparr>r_begin = 0, r_end = 0x50000, r_type = 2\<rparr>,
       \<lparr>r_begin = 0x50000, r_end = 0x100000, r_type = 1\<rparr>,
       \<lparr>r_begin = 0x20000, r_end = 0x30000, r_type = 2\<rparr>,
       \<lparr>r_begin = 0x60000, r_end = 0x70000, r_type = 5\<rparr>], m_capacity = 170\<rparr>"

lemma correct_stacked_map:
  "correct_overlapping_ranges 0 stacked_map =
     Some (Inr corrected_stacked_map)"
  by code_simp

text \<open>
  \<^verbatim>\<open>correct_overlapping_ranges\<close> is not correct for every sorted map, so that the
  bound of two entries on each address in \<open>map_inv\<close> is needed. In this one,
  three entries share the addresses from \<^verbatim>\<open>0x20000\<close> on; the piece cut from the free
  entry is put before an entry that starts below it, the order is lost, and the
  result keeps a free entry over memory the firmware reports as bad.
\<close>

lemma correct_overlapping_ranges_leaves_overlap:
  "sorted (map r_begin (m_entries stacked_map)) \<and> list_all entry_ok (m_entries stacked_map)
   \<and> (\<exists>mm l r. correct_overlapping_ranges 0 stacked_map = Some (Inr mm)
        \<and> \<not> sorted (map r_begin (m_entries mm))
        \<and> l \<in> set (m_entries mm) \<and> r \<in> set (m_entries mm)
        \<and> is_free l \<and> r_type r = type_BAD \<and> overlaps l r)"
proof (intro conjI exI)
  show "correct_overlapping_ranges 0 stacked_map = Some (Inr corrected_stacked_map)"
    by (rule correct_stacked_map)
  show "\<lparr>r_begin = 0x50000, r_end = 0x100000, r_type = 1\<rparr>
      \<in> set (m_entries corrected_stacked_map)"
    by (simp add: corrected_stacked_map_def)
  show "\<lparr>r_begin = 0x60000, r_end = 0x70000, r_type = 5\<rparr>
      \<in> set (m_entries corrected_stacked_map)"
    by (simp add: corrected_stacked_map_def)
qed (simp_all add: stacked_map_def corrected_stacked_map_def entry_ok_def range_defs page_is_aligned_def page_size_def
    is_free_def type_FREE_def type_BAD_def)

end
