(* ===== verification/Boot_Allocator.thy ===== *)
theory Boot_Allocator
  imports Memory_Map
begin

text \<open>
  \<^verbatim>\<open>Kernel/Memory/BootAllocator.h\<close> and \<^verbatim>\<open>BootAllocator.cpp\<close>: reserving contiguous
  pages out of the memory map before the memory manager exists. A reservation picks
  a free entry, splits it and corrects the map. The outer option is the value of
  \<open>correct_overlapping_ranges\<close>, whose loop is not structurally recursive.
\<close>

subsection \<open>The allocator\<close>

datatype tag = GENERIC | KERNEL_IMAGE | KERNEL_MODULE | HEAP_BLOCK

fun tag_to_string :: "tag \<Rightarrow> string" where
  "tag_to_string GENERIC = ''generic''"
| "tag_to_string KERNEL_IMAGE = ''kernel image''"
| "tag_to_string KERNEL_MODULE = ''kernel module''"
| "tag_to_string HEAP_BLOCK = ''heap block''"

fun native_type_from_tag :: "tag \<Rightarrow> u64" where
  "native_type_from_tag GENERIC = type_GENERIC_BOOTALLOC_RESERVED"
| "native_type_from_tag KERNEL_IMAGE = type_KERNEL_IMAGE"
| "native_type_from_tag KERNEL_MODULE = type_KERNEL_MODULE"
| "native_type_from_tag HEAP_BLOCK = type_INITIAL_HEAP_BLOCK"

record boot_allocator =
  m_did_release :: bool
  m_memory_map :: memory_map

definition boot_allocator_new :: "memory_map \<Rightarrow> boot_allocator" where
  "boot_allocator_new mm = \<lparr>m_did_release = False, m_memory_map = mm\<rparr>"

definition should_look_further :: "addr \<Rightarrow> size_t \<Rightarrow> phys_range \<Rightarrow> bool" where
  "should_look_further upper_limit bytes_to_allocate current_range =
     (if r_end current_range \<ge> upper_limit then False
      else let bytes_left_in_gap = upper_limit - r_end current_range
           in \<not> bytes_left_in_gap < bytes_to_allocate)"

definition is_bad_range :: "addr \<Rightarrow> addr \<Rightarrow> size_t \<Rightarrow> phys_range \<Rightarrow> bool" where
  "is_bad_range lower_limit upper_limit bytes_to_allocate picked_range =
     (if r_type picked_range \<noteq> type_FREE then True
      else let range_end = min (r_end picked_range) upper_limit;
               range_begin = max (r_begin picked_range) lower_limit
           in range_end - range_begin < bytes_to_allocate)"

text \<open>The first range to look at: the last one that starts at or below the lower limit.\<close>

definition first_picked :: "addr \<Rightarrow> phys_range list \<Rightarrow> nat res" where
  "first_picked lower_limit entries =
     (let picked = lower_bound addr_lt_range range_lt_addr entries lower_limit
      in if picked = length entries \<or> r_begin (entries ! picked) \<noteq> lower_limit
         then if picked = 0 then Inl Panic else Inr (picked - 1)
         else Inr picked)"

text \<open>The loop over the ranges from a position on; it may leave with the end position.\<close>

fun pick_range :: "addr \<Rightarrow> addr \<Rightarrow> size_t \<Rightarrow> nat \<Rightarrow> phys_range list \<Rightarrow> nat res" where
  "pick_range lower_limit upper_limit bytes_to_allocate picked [] = Inr picked"
| "pick_range lower_limit upper_limit bytes_to_allocate picked (r # rs) =
     (if is_bad_range lower_limit upper_limit bytes_to_allocate r
      then if should_look_further upper_limit bytes_to_allocate r
           then pick_range lower_limit upper_limit bytes_to_allocate (Suc picked) rs
           else Inl Panic
      else Inr picked)"

fun put_pieces :: "nat \<Rightarrow> nat \<Rightarrow> phys_range list \<Rightarrow> memory_map \<Rightarrow> memory_map res" where
  "put_pieces index_of_range current_index [] mm = Inr mm"
| "put_pieces index_of_range current_index (new_range # new_ranges) mm =
     (if \<not> is_valid_piece new_range then put_pieces index_of_range current_index new_ranges mm
      else if current_index = index_of_range
      then bind_res (map_at current_index mm) (\<lambda>_.
             put_pieces index_of_range (Suc current_index) new_ranges
               (mm\<lparr>m_entries := (m_entries mm)[current_index := new_range]\<rparr>))
      else bind_res (emplace_range_at current_index new_range mm)
             (put_pieces index_of_range (Suc current_index) new_ranges))"

text \<open>Splitting the picked range; dereferencing the end position is undefined.\<close>

definition reserve_in ::
  "addr \<Rightarrow> size_t \<Rightarrow> tag \<Rightarrow> nat \<Rightarrow> memory_map \<Rightarrow> (addr \<times> memory_map) res" where
  "reserve_in lower_limit bytes_to_allocate tg picked mm =
     (if \<not> picked < length (m_entries mm) then Inl Undefined
      else let picked_range = m_entries mm ! picked
           in bind_res (mk_phys_range (max lower_limit (r_begin picked_range)) bytes_to_allocate
                          (native_type_from_tag tg)) (\<lambda>allocated_range.
              bind_res (shatter_against picked_range allocated_range) (\<lambda>new_ranges.
              bind_res (put_pieces picked picked new_ranges mm) (\<lambda>mm'.
                Inr (r_begin allocated_range, mm')))))"

definition reserve_contiguous ::
  "size_t \<Rightarrow> addr \<Rightarrow> addr \<Rightarrow> tag \<Rightarrow> boot_allocator \<Rightarrow> (addr \<times> boot_allocator) res option" where
  "reserve_contiguous page_count lower_limit upper_limit tg ba =
     (let bytes_to_allocate = page_count * page_size; entries = m_entries (m_memory_map ba)
      in if m_did_release ba then Some (Inl Assertion)
         else if lower_limit \<ge> upper_limit then Some (Inl Panic)
         else if lower_limit + bytes_to_allocate > upper_limit then Some (Inl Panic)
         else if lower_limit + bytes_to_allocate < lower_limit then Some (Inl Panic)
         else case bind_res (first_picked lower_limit entries) (\<lambda>first.
                   bind_res (pick_range lower_limit upper_limit bytes_to_allocate first (drop first entries))
                     (\<lambda>picked. bind_res (reserve_in lower_limit bytes_to_allocate tg picked (m_memory_map ba))
                     (\<lambda>(address, mm). Inr (picked, address, mm)))) of
                Inl e \<Rightarrow> Some (Inl e)
              | Inr (index_of_range, address, mm) \<Rightarrow>
                  (case correct_overlapping_ranges
                          (if index_of_range \<noteq> 0 then index_of_range - 1 else index_of_range) mm of
                     None \<Rightarrow> None
                   | Some (Inl e) \<Rightarrow> Some (Inl e)
                   | Some (Inr mm') \<Rightarrow> Some (Inr (address, ba\<lparr>m_memory_map := mm'\<rparr>))))"

definition reserve_at ::
  "addr \<Rightarrow> size_t \<Rightarrow> tag \<Rightarrow> boot_allocator \<Rightarrow> (addr \<times> boot_allocator) res option" where
  "reserve_at address page_count tg ba =
     reserve_contiguous page_count address (address + page_count * page_size) tg ba"

definition boot_allocator_release :: "boot_allocator \<Rightarrow> memory_map \<times> boot_allocator" where
  "boot_allocator_release ba = (m_memory_map ba, ba\<lparr>m_did_release := True\<rparr>)"

subsection \<open>Maps the allocator works on\<close>

text \<open>What \<open>generate_from\<close> establishes and every reservation keeps.\<close>

definition map_good :: "phys_range list \<Rightarrow> bool" where
  "map_good es \<longleftrightarrow> map_inv es \<and> successively apart es"

text \<open>A block of free memory inside the limits.\<close>

definition fits :: "phys_range list \<Rightarrow> addr \<Rightarrow> addr \<Rightarrow> size_t \<Rightarrow> addr \<Rightarrow> bool" where
  "fits es lower upper bytes a \<longleftrightarrow> lower \<le> a \<and> unat a + unat bytes \<le> unat upper
     \<and> (\<forall>x. a \<le> x \<and> unat x < unat a + unat bytes \<longrightarrow> strongest es x type_FREE)"

text \<open>The map has an entry for every address of the window.\<close>

definition no_holes :: "phys_range list \<Rightarrow> addr \<Rightarrow> addr \<Rightarrow> bool" where
  "no_holes es lower upper \<longleftrightarrow> (\<forall>a. lower \<le> a \<and> a < upper \<longrightarrow> (\<exists>t. strongest es a t))"

lemma good_ok: "map_good es \<Longrightarrow> i < length es \<Longrightarrow> entry_ok (es ! i)"
  by (simp add: map_good_def map_inv_def)

lemma good_separated: "map_good es \<Longrightarrow> separated es"
  by (simp add: map_good_def apart_separated)

lemma good_nth_le:
  assumes "map_good es" "i < j" "j < length es"
  shows "r_end (es ! i) \<le> r_begin (es ! j)"
  using sorted_wrt_nth_less [OF good_separated [OF assms(1), unfolded separated_def] assms(2,3)]
    good_ok [OF assms(1)] assms(2,3) by (auto simp: entry_ok_def)

lemma entry_ok_less: "entry_ok e \<Longrightarrow> r_begin e < r_end e"
  by (auto simp: entry_ok_def wf_range_def range_empty_def)

lemma good_strict:
  assumes "map_good es"
  shows "sorted_wrt (<) (map r_begin es)"
proof -
  have "sorted_wrt (\<lambda>l r. r_begin l < r_begin r) es"
    unfolding sorted_wrt_iff_nth_less
  proof (intro allI impI)
    fix i j assume "i < j" "j < length es"
    with assms show "r_begin (es ! i) < r_begin (es ! j)"
      using good_nth_le [of es i j] entry_ok_less [OF good_ok [of es i]] by auto
  qed
  then show ?thesis
    by (simp add: sorted_wrt_map)
qed

lemma strongest_index:
  "strongest es a t \<Longrightarrow> \<exists>k < length es. a \<in> addrs (es ! k) \<and> r_type (es ! k) = t"
  unfolding strongest_def by (metis in_set_conv_nth)

lemma good_strongest:
  "map_good es \<Longrightarrow> k < length es \<Longrightarrow> a \<in> addrs (es ! k) \<Longrightarrow> strongest es a t \<longleftrightarrow> t = r_type (es ! k)"
  using strongest_separated [OF good_separated, of es "es ! k" a t] by simp

lemma good_next:
  assumes "map_good es" "k < length es" "strongest es (r_end (es ! k)) t"
  shows "Suc k < length es" "r_begin (es ! Suc k) = r_end (es ! k)" "r_type (es ! Suc k) = t"
proof -
  obtain j where j: "j < length es" "r_end (es ! k) \<in> addrs (es ! j)" "r_type (es ! j) = t"
    using strongest_index [OF assms(3)] by blast
  have "k < j"
  proof (rule ccontr)
    assume "\<not> k < j"
    then consider "j = k" | "j < k"
      by linarith
    then show False
    proof cases
      case 2
      then have "r_end (es ! j) \<le> r_end (es ! k)"
        using good_nth_le [OF assms(1) 2 assms(2)] entry_ok_less [OF good_ok [OF assms(1,2)]] by simp
      then show False
        using j(2) by (auto simp: addrs_def)
    qed (use j(2) in \<open>simp add: addrs_def\<close>)
  qed
  then show k: "Suc k < length es"
    using j(1) by simp
  have "j = Suc k"
  proof (rule ccontr)
    assume "j \<noteq> Suc k"
    then have "r_end (es ! Suc k) \<le> r_begin (es ! j)"
      using good_nth_le [OF assms(1) _ j(1), of "Suc k"] \<open>k < j\<close> by simp
    then show False
      using good_nth_le [OF assms(1) _ k, of k] entry_ok_less [OF good_ok [OF assms(1) k]] j(2)
      by (auto simp: addrs_def)
  qed
  then show "r_begin (es ! Suc k) = r_end (es ! k)" "r_type (es ! Suc k) = t"
    using j(2,3) good_nth_le [OF assms(1) _ k, of k] by (simp_all add: addrs_def)
qed

lemma first_picked_correct:
  assumes "map_good es" "k < length es" "lower \<in> addrs (es ! k)"
  shows "first_picked lower es = Inr k"
proof -
  let ?p = "lower_bound addr_lt_range range_lt_addr es lower"
  have p: "?p = length (takeWhile (\<lambda>x. r_begin x < lower) es)"
    by (rule map_search.lower_bound_strict [OF good_strict [OF assms(1)]])
  have before: "r_begin (es ! j) < lower" if "j < k" for j
    using good_nth_le [OF assms(1) that assms(2)] entry_ok_less [OF good_ok [OF assms(1), of j]]
      that assms(2,3) by (auto simp: addrs_def)
  have after: "\<not> r_begin (es ! j) \<le> lower" if "k < j" "j < length es" for j
    using good_nth_le [OF assms(1) that] assms(3) by (auto simp: addrs_def)
  show ?thesis
  proof (cases "r_begin (es ! k) = lower")
    case True
    then have "takeWhile (\<lambda>x. r_begin x < lower) es = take k es"
      using before assms(2) by (intro takeWhile_eq_take_P_nth) auto
    then show ?thesis
      using p True assms(2) by (simp add: first_picked_def)
  next
    case False
    then have le: "r_begin (es ! k) < lower"
      using assms(3) by (auto simp: addrs_def)
    have "takeWhile (\<lambda>x. r_begin x < lower) es = take (Suc k) es"
      using before le after [of "Suc k"] assms(2)
      by (intro takeWhile_eq_take_P_nth) (auto simp: less_Suc_eq)
    then have "?p = Suc k"
      using p assms(2) by simp
    then show ?thesis
      using after [of "Suc k"] assms(2) by (auto simp: first_picked_def Let_def)
  qed
qed

subsection \<open>Picking a range\<close>

definition fits_in :: "addr \<Rightarrow> addr \<Rightarrow> size_t \<Rightarrow> phys_range \<Rightarrow> addr \<Rightarrow> bool" where
  "fits_in lower upper bytes e a \<longleftrightarrow> r_type e = type_FREE \<and> lower \<le> a \<and> r_begin e \<le> a
     \<and> unat a + unat bytes \<le> unat upper \<and> unat a + unat bytes \<le> unat (r_end e)"

lemma is_bad_range_iff:
  assumes "r_begin e < upper" "lower < r_end e" "lower < upper" "entry_ok e"
  shows "is_bad_range lower upper bytes e \<longleftrightarrow> \<not> fits_in lower upper bytes e (max (r_begin e) lower)"
proof -
  have "max (r_begin e) lower \<le> min (r_end e) upper"
    using assms entry_ok_less [OF assms(4)] by auto
  then have "unat (min (r_end e) upper - max (r_begin e) lower) =
      unat (min (r_end e) upper) - unat (max (r_begin e) lower)"
    "unat (max (r_begin e) lower) \<le> unat (min (r_end e) upper)"
    by (simp_all add: unat_diff_word word_le_nat_alt)
  moreover have "unat (min (r_end e) upper) = min (unat (r_end e)) (unat upper)"
    by (simp add: min_def word_le_nat_alt)
  ultimately show ?thesis
    by (simp add: is_bad_range_def fits_in_def Let_def word_less_nat_alt) linarith
qed

lemma fits_in_max:
  "fits_in lower upper bytes e a \<Longrightarrow> fits_in lower upper bytes e (max (r_begin e) lower)"
  by (auto simp: fits_in_def max_def word_le_nat_alt)

lemma pick_range_correct:
  assumes "map_good es" "no_holes es lower upper" "lower < upper" "bytes \<noteq> 0"
    "i < length es" "r_begin (es ! i) < upper" "lower < r_end (es ! i)"
  shows "case pick_range lower upper bytes i (drop i es) of
      Inr k \<Rightarrow> k < length es \<and> fits_in lower upper bytes (es ! k) (max (r_begin (es ! k)) lower)
    | Inl e \<Rightarrow> e = Panic \<and> (\<forall>j a. i \<le> j \<and> j < length es \<longrightarrow> \<not> fits_in lower upper bytes (es ! j) a)"
  using assms(5-7)
proof (induction "length es - i" arbitrary: i)
  case (Suc n)
  let ?e = "es ! i"
  have d: "drop i es = ?e # drop (Suc i) es"
    using Suc.prems(1) by (simp add: Cons_nth_drop_Suc)
  have ok: "entry_ok ?e"
    using good_ok [OF assms(1) Suc.prems(1)] .
  note bad = is_bad_range_iff [OF Suc.prems(2,3) assms(3) ok, of bytes]
  show ?case
  proof (cases "is_bad_range lower upper bytes ?e")
    case False
    then show ?thesis
      using bad Suc.prems(1) by (simp add: d)
  next
    case True
    then have no_i: "\<not> fits_in lower upper bytes ?e a" for a
      using bad fits_in_max by blast
    show ?thesis
    proof (cases "should_look_further upper bytes ?e")
      case look: True
      then have "r_end ?e < upper"
        by (auto simp: should_look_further_def split: if_splits)
      then obtain t where "strongest es (r_end ?e) t"
        using assms(2) Suc.prems(3) unfolding no_holes_def by (meson order.strict_implies_order)
      note nx = good_next [OF assms(1) Suc.prems(1) this]
      have "r_begin (es ! Suc i) < upper" "lower < r_end (es ! Suc i)"
        using nx(2) \<open>r_end ?e < upper\<close> Suc.prems(3) entry_ok_less [OF good_ok [OF assms(1) nx(1)]] by simp_all
      with Suc.hyps(1) [of "Suc i"] Suc.hyps(2) nx(1)
      show ?thesis
        using no_i look True by (auto simp: d le_less Suc_le_eq split: sum.splits dest: Suc_lessI)
    next
      case False
      have "\<not> fits_in lower upper bytes (es ! j) a" if "i \<le> j" "j < length es" for j a
      proof (cases "i = j")
        case False
        then have "r_end ?e \<le> r_begin (es ! j)"
          using that good_nth_le [OF assms(1), of i j] by simp
        moreover have "\<not> (r_end ?e < upper \<and> unat bytes \<le> unat upper - unat (r_end ?e))"
          using \<open>\<not> should_look_further upper bytes ?e\<close>
          by (auto simp: should_look_further_def Let_def word_less_nat_alt word_le_nat_alt unat_diff_word
              split: if_splits)
        ultimately show ?thesis
          using assms(4) unfolding fits_in_def word_le_nat_alt word_less_nat_alt unat_gt_0 [symmetric] by linarith
      qed (use no_i in blast)
      then show ?thesis
        using True False by (simp add: d)
    qed
  qed
qed simp

subsection \<open>Splitting the picked range\<close>

lemma put_pieces_correct:
  assumes "m_entries mm = pre @ p # post" "filter is_valid_piece ps \<noteq> []"
  shows "put_pieces (length pre) (length pre) ps mm = Inr (mm\<lparr>m_entries := pre @ filter is_valid_piece ps @ post\<rparr>)"
proof -
  have rest: "put_pieces i (length pre') ps (mm\<lparr>m_entries := pre' @ post\<rparr>)
      = Inr (mm\<lparr>m_entries := pre' @ filter is_valid_piece ps @ post\<rparr>)"
    if "i < length pre'" for i pre' ps
    using that
  proof (induction ps arbitrary: pre')
    case (Cons r ps)
    have "emplace_range_at (length pre') r (mm\<lparr>m_entries := pre' @ post\<rparr>)
        = Inr (mm\<lparr>m_entries := (pre' @ [r]) @ post\<rparr>)"
      by (simp add: emplace_range_at_def emplace_range_def)
    then show ?case
      using Cons.IH [of "pre' @ [r]"] Cons.IH [of pre'] Cons.prems by simp
  qed simp
  show ?thesis
    using assms
  proof (induction ps)
    case (Cons r ps)
    then show ?case
      using rest [of "length pre" "pre @ [r]" ps]
      by (cases "is_valid_piece r") (simp_all add: map_at_def list_update_append)
  qed simp
qed

lemma native_type_strong: "type_FREE < native_type_from_tag tg"
  by (cases tg) (simp_all add: type_FREE_def type_GENERIC_BOOTALLOC_RESERVED_def type_INITIAL_HEAP_BLOCK_def
      type_KERNEL_MODULE_def type_KERNEL_IMAGE_def)

lemma page_multiple_aligned: "page_is_aligned (n * page_size)"
proof -
  have "unat (n * page_size) = unat n * 4096 mod 2 ^ 64"
    by (simp add: unat_word_ariths)
  moreover have "(4096 :: nat) dvd 2 ^ 64"
    by (rule dvdI [of _ _ "2 ^ 52"]) simp
  then have "unat n * 4096 mod 2 ^ 64 mod 4096 = unat n * 4096 mod 4096"
    by (rule mod_mod_cancel)
  ultimately show ?thesis
    by (simp add: page_is_aligned_iff)
qed

lemma page_aligned_add:
  assumes "page_is_aligned a" "page_is_aligned b" "unat a + unat b < 2 ^ 64"
  shows "page_is_aligned (a + b)"
  using assms by (simp add: page_is_aligned_iff unat_add_no_wrap flip: dvd_eq_mod_eq_0)

lemma allocated_range_ok:
  assumes "entry_ok p" "fits_in lower upper bytes p a" "page_is_aligned a" "page_is_aligned bytes" "bytes \<noteq> 0"
  shows "entry_ok \<lparr>r_begin = a, r_end = a + bytes, r_type = t\<rparr>"
    and "mk_phys_range a bytes t = Inr \<lparr>r_begin = a, r_end = a + bytes, r_type = t\<rparr>"
    and "addrs \<lparr>r_begin = a, r_end = a + bytes, r_type = t\<rparr> \<subseteq> addrs p" "a \<in> addrs p"
    and "unat (a + bytes) = unat a + unat bytes"
proof -
  have sum: "unat a + unat bytes \<le> unat (r_end p)"
    using assms(2) by (simp add: fits_in_def)
  then have lt: "unat a + unat bytes < 2 ^ 64"
    using unat_less_64 [of "r_end p"] by linarith
  then show ab: "unat (a + bytes) = unat a + unat bytes"
    by (simp add: unat_add_no_wrap)
  moreover have "0 < unat bytes"
    using assms(5) by (simp add: unat_gt_0)
  ultimately have less: "a < a + bytes" "a + bytes \<le> r_end p" "r_begin p \<le> a"
    using sum assms(2) by (simp_all add: word_less_nat_alt word_le_nat_alt fits_in_def)
  show "entry_ok \<lparr>r_begin = a, r_end = a + bytes, r_type = t\<rparr>"
    using less page_aligned_add [OF assms(3,4) lt] assms(3) by (auto simp: entry_ok_def wf_range_def range_empty_def)
  show "mk_phys_range a bytes t = Inr \<lparr>r_begin = a, r_end = a + bytes, r_type = t\<rparr>"
    using less by (simp add: mk_phys_range_def mk_range_def)
  show "addrs \<lparr>r_begin = a, r_end = a + bytes, r_type = t\<rparr> \<subseteq> addrs p" "a \<in> addrs p"
    using less by (auto simp: addrs_def)
qed

lemma reserve_in_correct:
  assumes "m_entries mm = pre @ p # post" "entry_ok p" "fits_in lower upper bytes p a"
    "a = max lower (r_begin p)" "page_is_aligned a" "page_is_aligned bytes" "bytes \<noteq> 0"
  obtains vs where "reserve_in lower bytes tg (length pre) mm = Inr (a, mm\<lparr>m_entries := pre @ vs @ post\<rparr>)"
    "resolved p \<lparr>r_begin = a, r_end = a + bytes, r_type = native_type_from_tag tg\<rparr> vs"
proof -
  let ?al = "\<lparr>r_begin = a, r_end = a + bytes, r_type = native_type_from_tag tg\<rparr>"
  note al = allocated_range_ok [OF assms(2,3,5-7)]
  have ok: "entry_ok ?al"
    by (rule al(1))
  then have wf: "wf_range p" "wf_range ?al"
    using assms(2) by (simp_all add: entry_ok_def)
  obtain ps where ps: "shatter_against p ?al = Inr ps"
    using shatter_pieces [OF wf] al(4) by auto
  note res = shatter_resolved [OF assms(2) ok ps]
  have eq: "filter is_valid_piece ps = filter (\<lambda>p. \<not> range_empty p) ps"
    using res(2) is_valid_piece_iff shatter_wf(1) [OF wf ps]
    by (intro filter_cong) (auto simp: is_valid_piece_def)
  then have "filter is_valid_piece ps \<noteq> []"
    using res(1) by (simp add: resolved_def)
  then have "reserve_in lower bytes tg (length pre) mm
      = Inr (a, mm\<lparr>m_entries := pre @ filter is_valid_piece ps @ post\<rparr>)"
    using put_pieces_correct [OF assms(1)] al(2) ps assms(4)
    by (simp add: reserve_in_def assms(1) nth_append Let_def)
  then show ?thesis
    using that res(1) unfolding eq by blast
qed

subsection \<open>The map after a reservation\<close>

lemma fits_iff:
  assumes "map_good es" "bytes \<noteq> 0"
  shows "fits es lower upper bytes a \<longleftrightarrow> (\<exists>j < length es. fits_in lower upper bytes (es ! j) a)"
proof
  assume fits: "fits es lower upper bytes a"
  have pos: "0 < unat bytes"
    using assms(2) by (simp add: unat_gt_0)
  then have "strongest es a type_FREE"
    using fits by (simp add: fits_def)
  then obtain j where j: "j < length es" "a \<in> addrs (es ! j)" "r_type (es ! j) = type_FREE"
    using strongest_index by blast
  have "unat a + unat bytes \<le> unat (r_end (es ! j))"
  proof (rule ccontr)
    assume "\<not> unat a + unat bytes \<le> unat (r_end (es ! j))"
    moreover have "a \<le> r_end (es ! j)"
      using j(2) by (auto simp: addrs_def)
    ultimately have "strongest es (r_end (es ! j)) type_FREE"
      using fits by (simp add: fits_def)
    note nx = good_next [OF assms(1) j(1) this]
    then have "trivially_mergeable (es ! j) (es ! Suc j)"
      using j(3) by (simp add: trivially_mergeable_def)
    then show False
      using assms(1) nx(1) by (auto simp: map_good_def successively_conv_nth)
  qed
  then show "\<exists>j < length es. fits_in lower upper bytes (es ! j) a"
    using fits j by (auto simp: fits_def fits_in_def addrs_def)
next
  assume "\<exists>j < length es. fits_in lower upper bytes (es ! j) a"
  then obtain j where j: "j < length es" "fits_in lower upper bytes (es ! j) a"
    by blast
  have "strongest es x type_FREE" if x: "a \<le> x" "unat x < unat a + unat bytes" for x
  proof -
    have "r_begin (es ! j) \<le> x"
      using j(2) x(1) by (auto simp: fits_in_def)
    moreover have "x < r_end (es ! j)"
      using j(2) x(2) by (simp add: fits_in_def word_less_nat_alt)
    ultimately have "x \<in> addrs (es ! j)"
      by (simp add: addrs_def)
    then show ?thesis
      using good_strongest [OF assms(1) j(1)] j(2) by (simp add: fits_in_def)
  qed
  then show "fits es lower upper bytes a"
    using j(2) by (simp add: fits_def fits_in_def)
qed

lemma alloc_inv:
  assumes good: "map_good (pre @ p # post)" and "entry_ok al" "addrs al \<subseteq> addrs p"
  shows "map_inv (pre @ p # al # post)"
proof -
  let ?es = "pre @ p # post"
  have inv: "sorted (map r_begin ?es)" "\<forall>e \<in> set ?es. entry_ok e"
    using good by (auto simp: map_good_def map_inv_def)
  have ab: "r_begin p \<le> r_begin al" "r_begin al < r_end p"
    using assms(2,3) begin_in_addrs [of al] by (auto simp: entry_ok_def addrs_def)
  have "r_end p \<le> r_begin z" if "z \<in> set post" for z
  proof -
    obtain k where "k < length post" "post ! k = z"
      using \<open>z \<in> set post\<close> by (auto simp: in_set_conv_nth)
    then show ?thesis
      using good_nth_le [OF good, of "length pre" "length pre + Suc k"] by (simp add: nth_append)
  qed
  then have "sorted (map r_begin (pre @ p # al # post))"
    using inv(1) ab by (fastforce simp: sorted_append)
  moreover have "cover (pre @ p # al # post) a \<le> 2" for a
    using cover_separated [OF good_separated [OF good], of a] by (auto split: if_splits)
  ultimately show ?thesis
    using inv(2) assms(2) by (simp add: map_inv_def del: cover_simps)
qed

lemma alloc_strongest:
  assumes good: "map_good (pre @ p # post)" and "r_type p < r_type al" "addrs al \<subseteq> addrs p"
  shows "strongest (pre @ p # al # post) x t \<longleftrightarrow>
    (if x \<in> addrs al then t = r_type al else strongest (pre @ p # post) x t)"
proof (cases "x \<in> addrs al")
  case True
  then have "x \<in> addrs p"
    using assms(3) by blast
  then have "e = p" if "e \<in> set (pre @ p # post)" "x \<in> addrs e" for e
    using separated_unique [OF good_separated [OF good], of p e x] that by simp
  then have only: "e \<in> {p, al}" if "e \<in> set (pre @ p # al # post)" "x \<in> addrs e" for e
    using that by auto
  show ?thesis
  proof (intro iffI)
    assume "strongest (pre @ p # al # post) x t"
    then show "if x \<in> addrs al then t = r_type al else strongest (pre @ p # post) x t"
      using only True assms(2) unfolding strongest_def by fastforce
  next
    assume "if x \<in> addrs al then t = r_type al else strongest (pre @ p # post) x t"
    then show "strongest (pre @ p # al # post) x t"
      using only True assms(2) unfolding strongest_def by fastforce
  qed
qed (auto simp: strongest_def)

lemma fits_bounds:
  assumes "fits es lower upper bytes a" "bytes \<noteq> 0"
  shows "lower < upper" "\<not> lower + bytes > upper" "\<not> lower + bytes < lower"
proof -
  have le: "unat lower + unat bytes \<le> unat upper" "0 < unat bytes"
    using assms by (auto simp: fits_def word_le_nat_alt unat_gt_0)
  then have "unat (lower + bytes) = unat lower + unat bytes"
    using unat_less_64 [of upper] by (intro unat_add_no_wrap) simp
  then show "lower < upper" "\<not> lower + bytes > upper" "\<not> lower + bytes < lower"
    using le by (simp_all add: word_less_nat_alt)
qed

lemma no_fit_before:
  assumes "map_good es" "k < length es" "lower \<in> addrs (es ! k)" "bytes \<noteq> 0" "j < k"
  shows "\<not> fits_in lower upper bytes (es ! j) a"
proof
  assume "fits_in lower upper bytes (es ! j) a"
  then have "unat lower + unat bytes \<le> unat (r_end (es ! j))"
    by (auto simp: fits_in_def word_le_nat_alt)
  moreover have "unat (r_end (es ! j)) \<le> unat lower"
    using good_nth_le [OF assms(1,5,2)] assms(3) by (auto simp: addrs_def word_le_nat_alt)
  ultimately show False
    using assms(4) by (simp add: unat_gt_0 [symmetric])
qed

lemma corrected_reservation:
  assumes good: "map_good (pre @ p # post)" and "m_entries mm = pre @ vs @ post"
    "resolved p al vs" "entry_ok al" "addrs al \<subseteq> addrs p" "r_type p < r_type al"
  shows "\<exists>mm'. correct_overlapping_ranges (if length pre \<noteq> 0 then length pre - 1 else length pre) mm = Some (Inr mm')
    \<and> map_good (m_entries mm')
    \<and> (\<forall>x t. strongest (m_entries mm') x t \<longleftrightarrow>
         (if x \<in> addrs al then t = r_type al else strongest (pre @ p # post) x t))"
proof -
  let ?h = "if length pre \<noteq> 0 then length pre - 1 else length pre"
  have "map_inv (m_entries mm)"
    using resolved_inv [OF alloc_inv [OF good assms(4,5)] assms(3)] assms(2) by simp
  moreover have "m_entries mm \<noteq> []"
    using assms(2,3) by (simp add: resolved_def)
  moreover have "successively apart (take (Suc ?h) (m_entries mm))"
  proof (cases "pre = []")
    case True
    then show ?thesis
      by (cases "m_entries mm") simp_all
  next
    case False
    then have "take (Suc ?h) (m_entries mm) = pre"
      using assms(2) by simp
    then show ?thesis
      using good by (simp add: map_good_def successively_append_iff)
  qed
  ultimately obtain mm' where mm': "correct_overlapping_ranges ?h mm = Some (Inr mm')" "map_good (m_entries mm')"
    "\<And>x t. strongest (m_entries mm') x t \<longleftrightarrow> strongest (m_entries mm) x t"
    using correct_overlapping_ranges_inv [of mm ?h] unfolding map_good_def by blast
  moreover have "strongest (m_entries mm) x t \<longleftrightarrow> strongest (pre @ p # al # post) x t" for x t
    using strongest_context [of vs "[p, al]" pre post x t] assms(2,3) by (simp add: resolved_def)
  ultimately show ?thesis
    using alloc_strongest [OF good assms(6,5)] by simp
qed

definition reserved_block :: "boot_allocator \<Rightarrow> addr \<Rightarrow> addr \<Rightarrow> size_t \<Rightarrow> tag \<Rightarrow> addr \<Rightarrow> boot_allocator \<Rightarrow> bool" where
  "reserved_block ba lower upper bytes tg a ba' \<longleftrightarrow> fits (m_entries (m_memory_map ba)) lower upper bytes a
     \<and> \<not> m_did_release ba' \<and> map_good (m_entries (m_memory_map ba'))
     \<and> (\<forall>x t. strongest (m_entries (m_memory_map ba')) x t \<longleftrightarrow>
          (if a \<le> x \<and> x < a + bytes then t = native_type_from_tag tg
           else strongest (m_entries (m_memory_map ba)) x t))"

text \<open>The search for a range, once the limits have been checked.\<close>

definition search_range :: "addr \<Rightarrow> addr \<Rightarrow> size_t \<Rightarrow> phys_range list \<Rightarrow> nat res" where
  "search_range lower upper bytes es =
     bind_res (first_picked lower es) (\<lambda>first. pick_range lower upper bytes first (drop first es))"

lemma reserve_contiguous_run:
  assumes "\<not> m_did_release ba" and bytes: "bytes = page_count * page_size"
    and True: "lower < upper \<and> \<not> lower + bytes > upper \<and> \<not> lower + bytes < lower"
  shows "reserve_contiguous page_count lower upper tg ba =
      (case bind_res (search_range lower upper bytes (m_entries (m_memory_map ba))) (\<lambda>picked.
              bind_res (reserve_in lower bytes tg picked (m_memory_map ba)) (\<lambda>(address, mm). Inr (picked, address, mm))) of
         Inl e \<Rightarrow> Some (Inl e)
       | Inr (index_of_range, address, mm) \<Rightarrow>
           (case correct_overlapping_ranges (if index_of_range \<noteq> 0 then index_of_range - 1 else index_of_range) mm of
              None \<Rightarrow> None
            | Some (Inl e) \<Rightarrow> Some (Inl e)
            | Some (Inr mm') \<Rightarrow> Some (Inr (address, ba\<lparr>m_memory_map := mm'\<rparr>))))"
  using assms by (simp only: reserve_contiguous_def search_range_def Let_def bind_res_assoc) auto

lemma reserve_contiguous_picked:
  assumes "\<not> m_did_release ba" "map_good (m_entries (m_memory_map ba))" "page_is_aligned lower"
    and bytes: "bytes = page_count * page_size" "bytes \<noteq> 0"
    and True: "lower < upper \<and> \<not> lower + bytes > upper \<and> \<not> lower + bytes < lower"
    and Inr: "search_range lower upper bytes (m_entries (m_memory_map ba)) = Inr i"
    and i: "i < length (m_entries (m_memory_map ba))"
    and fit0: "fits_in lower upper' bytes (m_entries (m_memory_map ba) ! i) (max (r_begin (m_entries (m_memory_map ba) ! i)) lower)"
  defines "a \<equiv> max lower (r_begin (m_entries (m_memory_map ba) ! i))"
  shows "\<exists>ba'. reserve_contiguous page_count lower upper tg ba = Some (Inr (a, ba')) \<and> reserved_block ba lower upper' bytes tg a ba'"
proof -
  let ?mm = "m_memory_map ba" let ?es = "m_entries ?mm"
  note run = reserve_contiguous_run [OF assms(1) bytes(1) True]
  let ?p = "?es ! i" let ?a = "max lower (r_begin ?p)"
  let ?al = "\<lparr>r_begin = ?a, r_end = ?a + bytes, r_type = native_type_from_tag tg\<rparr>"
  define pre post where "pre = take i ?es" and "post = drop (Suc i) ?es"
  have fit: "fits_in lower upper' bytes ?p ?a"
    using fit0 by (simp add: max.commute)
  have es: "?es = pre @ ?p # post" "length pre = i"
    using i by (simp_all add: pre_def post_def id_take_nth_drop)
  have ok: "entry_ok ?p"
    using good_ok [OF assms(2) i] .
  have "page_is_aligned ?a" "page_is_aligned bytes"
    using assms(3) ok bytes(1) by (simp_all add: max_def entry_ok_def page_multiple_aligned)
  note al = allocated_range_ok [OF ok fit this bytes(2)]
    and res = reserve_in_correct [OF es(1) ok fit refl this bytes(2)]
  obtain vs where vs: "reserve_in lower bytes tg i ?mm = Inr (?a, ?mm\<lparr>m_entries := pre @ vs @ post\<rparr>)"
    "resolved ?p ?al vs"
    using res es(2) by metis
  have good: "map_good (pre @ ?p # post)"
    using assms(2) es(1) by simp
  have lt: "r_type ?p < r_type ?al"
    using fit native_type_strong by (simp add: fits_in_def)
  obtain mm' where mm': "correct_overlapping_ranges (if i \<noteq> 0 then i - 1 else i)
      (?mm\<lparr>m_entries := pre @ vs @ post\<rparr>) = Some (Inr mm')" "map_good (m_entries mm')"
    "\<And>x t. strongest (m_entries mm') x t \<longleftrightarrow>
       (if x \<in> addrs ?al then t = r_type ?al else strongest (pre @ ?p # post) x t)"
    using corrected_reservation [OF good _ vs(2) al(1,3) lt, of "?mm\<lparr>m_entries := pre @ vs @ post\<rparr>"] es(2) by auto
  have "reserve_contiguous page_count lower upper tg ba = Some (Inr (?a, ba\<lparr>m_memory_map := mm'\<rparr>))"
    by (simp only: run Inr vs(1) mm'(1) bind_res_Inr prod.case sum.case option.case)
  moreover have "fits ?es lower upper' bytes ?a"
    using fits_iff [OF assms(2) bytes(2)] i fit by blast
  moreover have "strongest (m_entries mm') x t \<longleftrightarrow>
      (if ?a \<le> x \<and> x < ?a + bytes then t = native_type_from_tag tg else strongest ?es x t)" for x t
    using mm'(3) [of x t] unfolding es(1) [symmetric] addrs_def by simp
  ultimately show ?thesis
    using mm'(2) assms(1) by (auto simp: reserved_block_def a_def)
qed

lemma reserve_contiguous_step:
  assumes "\<not> m_did_release ba" "map_good (m_entries (m_memory_map ba))"
    "no_holes (m_entries (m_memory_map ba)) lower upper" "page_is_aligned lower"
    and bytes: "bytes = page_count * page_size" "bytes \<noteq> 0"
  shows "case reserve_contiguous page_count lower upper tg ba of
      Some (Inr (a, ba')) \<Rightarrow> reserved_block ba lower upper bytes tg a ba'
    | Some (Inl e) \<Rightarrow> e = Panic \<and> (\<forall>a. \<not> fits (m_entries (m_memory_map ba)) lower upper bytes a)
    | None \<Rightarrow> False"
proof (cases "lower < upper \<and> \<not> lower + bytes > upper \<and> \<not> lower + bytes < lower")
  case False
  then have "reserve_contiguous page_count lower upper tg ba = Some (Inl Panic)"
    using assms(1) bytes(1) by (auto simp: reserve_contiguous_def Let_def not_less not_le)
  then show ?thesis
    using False fits_bounds bytes(2) by auto
next
  case True
  let ?es = "m_entries (m_memory_map ba)"
  obtain k where k: "k < length ?es" "lower \<in> addrs (?es ! k)"
    using assms(3) True strongest_index unfolding no_holes_def by (meson order.refl)
  note first = first_picked_correct [OF assms(2) k]
  have lim: "r_begin (?es ! k) < upper" "lower < r_end (?es ! k)"
    using k(2) True by (auto simp: addrs_def)
  note pick = pick_range_correct [OF assms(2,3) _ bytes(2) k(1) lim]
  have search: "search_range lower upper bytes ?es = pick_range lower upper bytes k (drop k ?es)"
    by (simp add: search_range_def first)
  show ?thesis
  proof (cases "pick_range lower upper bytes k (drop k ?es)")
    case (Inl e)
    then have e: "e = Panic"
      using pick True by simp
    have "\<not> fits_in lower upper bytes (?es ! j) a" if "j < length ?es" for j a
      using pick True Inl no_fit_before [OF assms(2) k bytes(2), of j] that by (cases "j < k") auto
    then show ?thesis
      using e Inl search fits_iff [OF assms(2) bytes(2)] reserve_contiguous_run [OF assms(1) bytes(1) True] by auto
  next
    case (Inr i)
    then obtain a ba' where "reserve_contiguous page_count lower upper tg ba = Some (Inr (a, ba'))" "reserved_block ba lower upper bytes tg a ba'"
      using pick True reserve_contiguous_picked [OF assms(1,2,4) bytes True, of i upper tg] search by auto
    then show ?thesis
      by simp
  qed
qed

text \<open>
  Where no range begins above the upper limit and the lower limit itself lies in a range, what the
  search finds is a block inside the limits, holes or not.
\<close>

lemma pick_range_sound:
  assumes "map_good es" "\<forall>e \<in> set es. r_begin e < upper" "lower < upper"
    and "pick_range lower upper bytes i (drop i es) = Inr k" "\<forall>j. i \<le> j \<longrightarrow> j < length es \<longrightarrow> lower < r_end (es ! j)" "i \<le> length es"
  shows "k = length es \<or> k < length es \<and> fits_in lower upper bytes (es ! k) (max (r_begin (es ! k)) lower)"
  using assms(4-6)
proof (induction "length es - i" arbitrary: i)
  case (Suc n)
  then have i: "i < length es"
    by simp
  then have d: "drop i es = es ! i # drop (Suc i) es"
    by (simp add: Cons_nth_drop_Suc)
  have "is_bad_range lower upper bytes (es ! i) \<longleftrightarrow> \<not> fits_in lower upper bytes (es ! i) (max (r_begin (es ! i)) lower)"
    using assms(2) Suc.prems(2) i by (intro is_bad_range_iff assms(3) good_ok [OF assms(1)]) simp_all
  then show ?case
    using Suc.hyps(1) [of "Suc i"] Suc.hyps(2) Suc.prems i by (auto simp: d split: if_splits)
qed simp

lemma reserve_contiguous_below_sound:
  assumes ba: "\<not> m_did_release ba" "map_good (m_entries (m_memory_map ba))" "page_is_aligned lower"
    and bytes: "bytes = page_count * page_size" "bytes \<noteq> 0"
    and below: "\<forall>e \<in> set (m_entries (m_memory_map ba)). r_begin e < upper" "strongest (m_entries (m_memory_map ba)) lower t"
    and run: "reserve_contiguous page_count lower upper tg ba = Some (Inr (a, ba'))"
  shows "reserved_block ba lower upper bytes tg a ba'"
proof -
  let ?es = "m_entries (m_memory_map ba)"
  have lim: "lower < upper \<and> \<not> lower + bytes > upper \<and> \<not> lower + bytes < lower"
    using run ba(1) bytes(1) by (auto simp: reserve_contiguous_def Let_def split: if_splits)
  obtain k where k: "k < length ?es" "lower \<in> addrs (?es ! k)"
    using below(2) strongest_index by blast
  have after: "lower < r_end (?es ! j)" if "k \<le> j" "j < length ?es" for j
    using k(2) that good_nth_le [OF ba(2), of k j] entry_ok_less [OF good_ok [OF ba(2) that(2)]]
    by (cases "j = k") (auto simp: addrs_def)
  have search: "search_range lower upper bytes ?es = pick_range lower upper bytes k (drop k ?es)"
    by (simp add: search_range_def first_picked_correct [OF ba(2) k])
  note runs = reserve_contiguous_run [OF ba(1) bytes(1) lim, of tg]
  obtain i where i: "search_range lower upper bytes ?es = Inr i"
    using run runs by (cases "search_range lower upper bytes ?es") auto
  have "i < length ?es"
    using run runs i by (auto simp: reserve_in_def split: if_splits)
  moreover have "i = length ?es \<or> i < length ?es \<and> fits_in lower upper bytes (?es ! i) (max (r_begin (?es ! i)) lower)"
    using pick_range_sound [OF ba(2) below(1), of lower bytes k i] lim i search after k(1) by simp
  ultimately obtain ba'' where "reserve_contiguous page_count lower upper tg ba = Some (Inr (max lower (r_begin (?es ! i)), ba''))"
      "reserved_block ba lower upper bytes tg (max lower (r_begin (?es ! i))) ba''"
    using reserve_contiguous_picked [OF ba bytes lim i, of upper tg] by auto
  then show ?thesis
    using run by simp
qed

lemma pick_range_beyond:
  assumes good: "map_good es" and i: "Suc i < length es" and before: "r_end (es ! i) \<le> lower" "r_type (es ! i) \<noteq> type_FREE"
    and after: "r_type (es ! Suc i) = type_FREE" "lower + bytes < r_begin (es ! Suc i)"
    and bytes: "bytes \<noteq> 0" "lower \<le> lower + bytes"
  shows "search_range lower (lower + bytes) bytes es = Inr (Suc i)"
proof -
  have pos: "0 < unat bytes" and sum: "unat (lower + bytes) = unat lower + unat bytes"
    using bytes unat_less_64 [of bytes] by (auto simp: unat_gt_0 word_le_nat_alt unat_plus_if_size word_size split: if_splits)
  have le: "r_begin (es ! j) < lower" if "j \<le> i" for j
    using that good_nth_le [OF good, of j i] entry_ok_less [OF good_ok [OF good, of j]] entry_ok_less [OF good_ok [OF good, of i]] before(1) i
    by (cases "j = i") auto
  have "lower_bound addr_lt_range range_lt_addr es lower = length (takeWhile (\<lambda>x. r_begin x < lower) es)"
    by (rule map_search.lower_bound_strict [OF good_strict [OF good]])
  moreover have next_above: "lower < r_begin (es ! Suc i)"
    using after(2) bytes(2) by simp
  then have "takeWhile (\<lambda>x. r_begin x < lower) es = take (Suc i) es"
    using le i by (intro takeWhile_eq_take_P_nth) auto
  ultimately have first: "first_picked lower es = Inr i"
    using i next_above by (simp add: first_picked_def)
  have bad: "is_bad_range lower (lower + bytes) bytes (es ! i)"
    using before(2) by (simp add: is_bad_range_def)
  have "unat (r_end (es ! i)) \<le> unat lower"
    using before(1) by (simp add: word_le_nat_alt)
  then have look: "should_look_further (lower + bytes) bytes (es ! i)"
    using pos sum by (auto simp: should_look_further_def Let_def word_less_nat_alt word_le_nat_alt unat_diff_word)
  have "\<not> is_bad_range lower (lower + bytes) bytes (es ! Suc i)"
  proof -
    let ?b = "r_begin (es ! Suc i)"
    have "lower + bytes \<le> r_end (es ! Suc i)"
      using after(2) entry_ok_less [OF good_ok [OF good i]] by simp
    then have "min (r_end (es ! Suc i)) (lower + bytes) - max ?b lower = lower + bytes - ?b"
      using next_above by (auto simp: min_def max_def)
    moreover have "unat (lower + bytes - ?b) = 2 ^ 64 + unat (lower + bytes) - unat ?b"
      using after(2) unat_less_64 [of ?b] by (simp add: word_less_nat_alt unat_sub_if_size word_size)
    moreover have "unat bytes \<le> 2 ^ 64 + unat (lower + bytes) - unat ?b"
      using sum unat_less_64 [of ?b] by simp
    ultimately show ?thesis
      using after(1) by (simp add: is_bad_range_def Let_def word_less_nat_alt)
  qed
  then show ?thesis
    using first bad look i by (simp add: search_range_def Cons_nth_drop_Suc [symmetric])
qed

subsection \<open>Properties\<close>

text \<open>
  C13: on a map that is in order, aligned and free of overlaps and that has no holes in the
  requested window, \<^verbatim>\<open>reserve_contiguous\<close> reserves a block of free memory inside the
  window whenever there is one and panics exactly when there is none. The map stays in
  order, the block gets the type of the tag and no other address changes its type.
\<close>

theorem reserve_contiguous_correct:
  assumes "\<not> m_did_release ba" and "map_good (m_entries (m_memory_map ba))"
    and "no_holes (m_entries (m_memory_map ba)) lower upper" and "page_is_aligned lower"
    and "page_count * page_size \<noteq> 0"
  shows "case reserve_contiguous page_count lower upper tg ba of
      Some (Inr (a, ba')) \<Rightarrow> fits (m_entries (m_memory_map ba)) lower upper (page_count * page_size) a
        \<and> \<not> m_did_release ba' \<and> map_good (m_entries (m_memory_map ba'))
        \<and> (\<forall>x t. strongest (m_entries (m_memory_map ba')) x t \<longleftrightarrow>
             (if a \<le> x \<and> x < a + page_count * page_size then t = native_type_from_tag tg
              else strongest (m_entries (m_memory_map ba)) x t))
    | Some (Inl e) \<Rightarrow> e = Panic
        \<and> (\<forall>a. \<not> fits (m_entries (m_memory_map ba)) lower upper (page_count * page_size) a)
    | None \<Rightarrow> False"
  using reserve_contiguous_step [OF assms(1-4) refl assms(5)] unfolding reserved_block_def .

lemma boot_allocator_new_simps [simp]:
  "m_memory_map (boot_allocator_new mm) = mm" "\<not> m_did_release (boot_allocator_new mm)"
  by (simp_all add: boot_allocator_new_def)

definition sample_boot_map :: memory_map where
  "sample_boot_map = \<lparr>m_entries = [\<lparr>r_begin = 0, r_end = 0x10000, r_type = type_RESERVED\<rparr>,
     \<lparr>r_begin = 0x10000, r_end = 0x60000, r_type = type_FREE\<rparr>], m_capacity = 170\<rparr>"

lemma sample_boot_map_good:
  "map_good (m_entries sample_boot_map)" "no_holes (m_entries sample_boot_map) 0x8000 0x40000"
proof -
  have "\<not> (0x10000 \<le> a \<and> a < 0x10000)" for a :: addr
    by auto
  then show "map_good (m_entries sample_boot_map)"
    by (simp add: map_good_def map_inv_def sample_boot_map_def entry_ok_def range_defs page_is_aligned_def
        page_size_def trivially_mergeable_def type_RESERVED_def type_FREE_def)
  have "a < 0x60000" if "a < 0x40000" for a :: addr
    using order.strict_trans [OF that, of "0x60000"] by simp
  then have "\<exists>e \<in> set (m_entries sample_boot_map). a \<in> addrs e" if "a < 0x40000" for a
    using that by (cases "a < 0x10000") (auto simp: sample_boot_map_def addrs_def)
  then show "no_holes (m_entries sample_boot_map) 0x8000 0x40000"
    unfolding no_holes_def using strongest_exists by blast
qed

theorem reserve_contiguous_correct_witness:
  "\<exists>a ba'. reserve_contiguous 2 0x8000 0x40000 KERNEL_IMAGE (boot_allocator_new sample_boot_map)
       = Some (Inr (a, ba')) \<and> fits (m_entries sample_boot_map) 0x8000 0x40000 0x2000 a
     \<and> map_good (m_entries (m_memory_map ba'))"
proof -
  obtain a ba' where run: "reserve_contiguous 2 0x8000 0x40000 KERNEL_IMAGE (boot_allocator_new sample_boot_map)
      = Some (Inr (a, ba'))"
  proof -
    have "reserve_contiguous 2 0x8000 0x40000 KERNEL_IMAGE (boot_allocator_new sample_boot_map)
      = Some (Inr (0x10000, \<lparr>m_did_release = False, m_memory_map = \<lparr>m_entries =
         [\<lparr>r_begin = 0, r_end = 0x10000, r_type = 2\<rparr>,
          \<lparr>r_begin = 0x10000, r_end = 0x12000, r_type = 0x100000000\<rparr>,
          \<lparr>r_begin = 0x12000, r_end = 0x60000, r_type = 1\<rparr>], m_capacity = 170\<rparr>\<rparr>))"
      by code_simp
    then show ?thesis
      using that by blast
  qed
  show ?thesis
    using reserve_contiguous_correct [of "boot_allocator_new sample_boot_map" "0x8000" "0x40000" 2 KERNEL_IMAGE]
      sample_boot_map_good
    by (simp add: run page_is_aligned_def page_size_def)
qed

definition boot_map_with_hole :: memory_map where
  "boot_map_with_hole = \<lparr>m_entries = [\<lparr>r_begin = 0, r_end = 0x10000, r_type = type_RESERVED\<rparr>,
     \<lparr>r_begin = 0x50000, r_end = 0x60000, r_type = type_FREE\<rparr>], m_capacity = 170\<rparr>"

text \<open>
  C40: Without the condition on holes the limits are not respected. Whenever the memory asked for
  lies in a hole of the map, between an entry that is not free and a free entry which begins above
  it and has the room, \<^verbatim>\<open>reserve_at\<close> does not panic, although nothing fits in the window:
  the end of the window less the begin of the free entry wraps around and passes the size check.
  The call returns the begin of that entry in place of the address asked for, and the block there
  is what gets the type of the tag.
\<close>

theorem reserve_at_ignores_limits:
  fixes ba :: boot_allocator
  defines "es \<equiv> m_entries (m_memory_map ba)"
  assumes ba: "\<not> m_did_release ba" "map_good es" and address: "page_is_aligned address"
    and bytes: "bytes = page_count * page_size" "bytes \<noteq> 0" "address \<le> address + bytes"
    and i: "Suc i < length es" and before: "r_end (es ! i) \<le> address" "r_type (es ! i) \<noteq> type_FREE"
    and after: "r_type (es ! Suc i) = type_FREE" "address + bytes < r_begin (es ! Suc i)" "bytes \<le> range_length (es ! Suc i)"
  shows "(\<forall>a. \<not> fits es address (address + bytes) bytes a)
    \<and> (\<exists>ba'. reserve_at address page_count tg ba = Some (Inr (r_begin (es ! Suc i), ba')) \<and> map_good (m_entries (m_memory_map ba'))
        \<and> (\<forall>x t. strongest (m_entries (m_memory_map ba')) x t \<longleftrightarrow>
             (if r_begin (es ! Suc i) \<le> x \<and> x < r_begin (es ! Suc i) + bytes then t = native_type_from_tag tg else strongest es x t)))"
proof -
  let ?e = "es ! Suc i" and ?upper = "address + bytes"
  have ok: "entry_ok ?e"
    by (rule good_ok [OF ba(2) i])
  have above: "address < r_begin ?e"
    using after(2) bytes(3) by simp
  have "unat bytes \<le> unat (r_end ?e) - unat (r_begin ?e)"
    using after(3) unat_diff_word [OF less_imp_le [OF entry_ok_less [OF ok]]] by (simp add: range_length_def word_le_nat_alt)
  then have room: "unat (r_begin ?e) + unat bytes \<le> unat (r_end ?e)"
    using entry_ok_less [OF ok] by (simp add: word_less_nat_alt)
  have fit: "fits_in address (r_end ?e) bytes ?e (max (r_begin ?e) address)"
    using above room after(1) by (auto simp: fits_in_def max_def)
  have lim: "address < ?upper \<and> \<not> address + bytes > ?upper \<and> \<not> address + bytes < address"
    using bytes(2,3) by (auto simp: order.strict_iff_order)
  have search: "search_range address ?upper bytes es = Inr (Suc i)"
    by (rule pick_range_beyond [OF ba(2) i before after(1,2) bytes(2,3)])
  have "max address (r_begin ?e) = r_begin ?e"
    using above by (auto simp: max_def)
  then have "\<exists>ba'. reserve_contiguous page_count address ?upper tg ba = Some (Inr (r_begin ?e, ba'))
      \<and> reserved_block ba address (r_end ?e) bytes tg (r_begin ?e) ba'"
    using reserve_contiguous_picked [OF ba(1) ba(2) [unfolded es_def] address bytes(1,2) lim search [unfolded es_def] i [unfolded es_def]
        fit [unfolded es_def], of tg] unfolding es_def by simp
  then have run: "\<exists>ba'. reserve_at address page_count tg ba = Some (Inr (r_begin ?e, ba')) \<and> map_good (m_entries (m_memory_map ba'))
        \<and> (\<forall>x t. strongest (m_entries (m_memory_map ba')) x t \<longleftrightarrow>
             (if r_begin ?e \<le> x \<and> x < r_begin ?e + bytes then t = native_type_from_tag tg else strongest es x t))"
    unfolding reserve_at_def bytes(1) [symmetric] reserved_block_def es_def by blast
  have "\<not> fits es address ?upper bytes a" for a
  proof
    assume fits: "fits es address ?upper bytes a"
    then have a: "address \<le> a" "unat a + unat bytes \<le> unat ?upper" "strongest es a type_FREE"
      using bytes(2) by (simp_all add: fits_def unat_gt_0)
    then obtain j where j: "j < length es" "a \<in> addrs (es ! j)"
      using strongest_index by blast
    have "0 < unat bytes"
      using bytes(2) by (simp add: unat_gt_0)
    then have "a < ?upper"
      using a(2) unfolding word_less_nat_alt by linarith
    then have "j \<noteq> i" "j \<noteq> Suc i" "\<not> j < i" "\<not> Suc i < j"
      using j good_nth_le [OF ba(2), of j i] good_nth_le [OF ba(2), of "Suc i" j] a(1) before(1) after(2) entry_ok_less [OF ok]
        entry_ok_less [OF good_ok [OF ba(2), of i]] i by (auto simp: addrs_def)
    then show False
      by linarith
  qed
  with run show ?thesis
    by blast
qed

theorem reserve_at_ignores_limits_witness:
  "\<exists>ba'. reserve_at 0x20000 8 GENERIC (boot_allocator_new boot_map_with_hole) = Some (Inr (0x50000, ba'))
     \<and> strongest (m_entries (m_memory_map ba')) 0x50000 type_GENERIC_BOOTALLOC_RESERVED"
proof -
  have "map_good (m_entries boot_map_with_hole)"
    by (simp add: map_good_def map_inv_def boot_map_with_hole_def entry_ok_def range_defs page_is_aligned_def
        page_size_def trivially_mergeable_def type_RESERVED_def type_FREE_def)
  then have "\<exists>ba'. reserve_at 0x20000 8 GENERIC (boot_allocator_new boot_map_with_hole) = Some (Inr (0x50000, ba'))
     \<and> (\<forall>x t. strongest (m_entries (m_memory_map ba')) x t \<longleftrightarrow>
          (if 0x50000 \<le> x \<and> x < 0x58000 then t = native_type_from_tag GENERIC else strongest (m_entries boot_map_with_hole) x t))"
    using reserve_at_ignores_limits [of "boot_allocator_new boot_map_with_hole" "0x20000" "0x8000" 8 0 GENERIC]
    by (fastforce simp: boot_map_with_hole_def page_is_aligned_def page_size_def range_length_def type_RESERVED_def type_FREE_def)
  then show ?thesis
    by auto
qed

end
