(* ===== verification/Red_Black_Tree.thy ===== *)
theory Red_Black_Tree
  imports Algorithms
begin

text \<open>
  \<^verbatim>\<open>Kernel/Common/RedBlackTree.h\<close>, the tree behind \<^verbatim>\<open>Set\<close> and \<^verbatim>\<open>Map\<close>. The linked
  nodes are a tree value; a pointer to a node is a location in it: the subtree at the node
  and the path of its ancestors, the innermost first, which stands for the
  \<^verbatim>\<open>parent\<close> pointers (the empty path is the super root). Iterators and the cached
  left-most and right-most nodes are kept across modifications, so they are named by the
  value of their node (\<^verbatim>\<open>None\<close> is \<^verbatim>\<open>end()\<close>), which is unique in a tree without
  duplicates.
\<close>

subsection \<open>Nodes and locations\<close>

datatype color = RED | BLACK

datatype 'v tree = Null | Node "'v tree" color 'v "'v tree"

text \<open>
  A step of a path: the node is the left child of a parent with a colour, a value and a
  right child, or the right child of a parent with a left child, a colour and a value.
\<close>

datatype 'v frame = In_Left color 'v "'v tree" | In_Right "'v tree" color 'v

type_synonym 'v location = "'v frame list \<times> 'v tree"

fun node_color :: "'v tree \<Rightarrow> color" where
  "node_color Null = BLACK"
| "node_color (Node l c v r) = c"

fun left_child :: "'v tree \<Rightarrow> 'v tree" where
  "left_child Null = Null"
| "left_child (Node l c v r) = l"

fun right_child :: "'v tree \<Rightarrow> 'v tree" where
  "right_child Null = Null"
| "right_child (Node l c v r) = r"

fun set_color :: "color \<Rightarrow> 'v tree \<Rightarrow> 'v tree" where
  "set_color c Null = Null"
| "set_color c (Node l c' v r) = Node l c v r"

text \<open>The subtree at the parent, and the whole tree around a location.\<close>

fun fill :: "'v frame \<Rightarrow> 'v tree \<Rightarrow> 'v tree" where
  "fill (In_Left c v r) t = Node t c v r"
| "fill (In_Right l c v) t = Node l c v t"

fun plug :: "'v frame list \<Rightarrow> 'v tree \<Rightarrow> 'v tree" where
  "plug [] t = t"
| "plug (f # fs) t = plug fs (fill f t)"

fun parent_color :: "'v frame \<Rightarrow> color" where
  "parent_color (In_Left c v r) = c"
| "parent_color (In_Right l c v) = c"

fun parent_value :: "'v frame \<Rightarrow> 'v" where
  "parent_value (In_Left c v r) = v"
| "parent_value (In_Right l c v) = v"

fun sibling :: "'v frame \<Rightarrow> 'v tree" where
  "sibling (In_Left c v r) = r"
| "sibling (In_Right l c v) = l"

fun is_left_child :: "'v frame list \<Rightarrow> bool" where
  "is_left_child [] = True"
| "is_left_child (In_Left c v r # fs) = True"
| "is_left_child (In_Right l c v # fs) = False"

subsection \<open>Walking the tree\<close>

fun descend_left :: "'v frame list \<Rightarrow> 'v tree \<Rightarrow> 'v location" where
  "descend_left fs (Node (Node ll lc lv lr) c v r) = descend_left (In_Left c v r # fs) (Node ll lc lv lr)"
| "descend_left fs t = (fs, t)"

fun descend_right :: "'v frame list \<Rightarrow> 'v tree \<Rightarrow> 'v location" where
  "descend_right fs (Node l c v (Node rl rc rv rr)) = descend_right (In_Right l c v # fs) (Node rl rc rv rr)"
| "descend_right fs t = (fs, t)"

text \<open>Up to the first ancestor entered from the left; \<open>None\<close> is the super root.\<close>

fun ascend_right :: "'v frame list \<Rightarrow> 'v option" where
  "ascend_right [] = None"
| "ascend_right (In_Right l c v # fs) = ascend_right fs"
| "ascend_right (In_Left c v r # fs) = Some v"

fun ascend_left :: "'v frame list \<Rightarrow> 'v option" where
  "ascend_left [] = None"
| "ascend_left (In_Left c v r # fs) = ascend_left fs"
| "ascend_left (In_Right l c v # fs) = Some v"

fun node_value :: "'v tree \<Rightarrow> 'v option" where
  "node_value Null = None"
| "node_value (Node l c v r) = Some v"

fun inorder_successor_of :: "'v location \<Rightarrow> 'v option res" where
  "inorder_successor_of (fs, Null) = Inl Assertion"
| "inorder_successor_of (fs, Node l c v r) =
     Inr (if r \<noteq> Null then node_value (snd (descend_left (In_Right l c v # fs) r)) else ascend_right fs)"

fun inorder_predecessor_of :: "'v location \<Rightarrow> 'v option res" where
  "inorder_predecessor_of (fs, Null) = Inl Assertion"
| "inorder_predecessor_of (fs, Node l c v r) =
     Inr (if l \<noteq> Null then node_value (snd (descend_right (In_Left c v r # fs) l)) else ascend_left fs)"

subsection \<open>Searching\<close>

fun find_node :: "('k \<Rightarrow> 'v \<Rightarrow> bool) \<Rightarrow> ('v \<Rightarrow> 'k \<Rightarrow> bool) \<Rightarrow> 'k \<Rightarrow> 'v frame list \<Rightarrow> 'v tree \<Rightarrow> 'v location" where
  "find_node key_lt lt_key key fs Null = (fs, Null)"
| "find_node key_lt lt_key key fs (Node l c v r) =
     (if lt_key v key then find_node key_lt lt_key key (In_Right l c v # fs) r
      else if key_lt key v then find_node key_lt lt_key key (In_Left c v r # fs) l
      else (fs, Node l c v r))"

fun lower_bound_node :: "('v \<Rightarrow> 'k \<Rightarrow> bool) \<Rightarrow> 'k \<Rightarrow> 'v tree \<Rightarrow> 'v option \<Rightarrow> 'v option" where
  "lower_bound_node lt_key key Null result = result"
| "lower_bound_node lt_key key (Node l c v r) result =
     (if lt_key v key then lower_bound_node lt_key key r result
      else lower_bound_node lt_key key l (Some v))"

fun upper_bound_node :: "('k \<Rightarrow> 'v \<Rightarrow> bool) \<Rightarrow> 'k \<Rightarrow> 'v tree \<Rightarrow> 'v option \<Rightarrow> 'v option" where
  "upper_bound_node key_lt key Null result = result"
| "upper_bound_node key_lt key (Node l c v r) result =
     (if key_lt key v then upper_bound_node key_lt key l (Some v)
      else upper_bound_node key_lt key r result)"

subsection \<open>Rotations\<close>

text \<open>A rotation needs the child that moves up; the code dereferences it unchecked.\<close>

fun rotate_left :: "'v tree \<Rightarrow> 'v tree res" where
  "rotate_left (Node l c v (Node rl rc rv rr)) = Inr (Node (Node l c v rl) rc rv rr)"
| "rotate_left (Node l c v Null) = Inl Undefined"
| "rotate_left Null = Inl Assertion"

fun rotate_right :: "'v tree \<Rightarrow> 'v tree res" where
  "rotate_right (Node (Node ll lc lv lr) c v r) = Inr (Node ll lc lv (Node lr c v r))"
| "rotate_right (Node Null c v r) = Inl Undefined"
| "rotate_right Null = Inl Assertion"

subsection \<open>Insertion\<close>

text \<open>
  The rotation at the grandparent, with the parent's subtree \<open>p\<close> on its left or right and
  the aunt on the other side: the grandparent turns red, the parent black and the
  node red. The result is the location of the grandparent, where the loop goes on.
\<close>

fun fix_left_left :: "'v tree \<Rightarrow> 'v \<Rightarrow> 'v tree \<Rightarrow> 'v frame list \<Rightarrow> 'v location res" where
  "fix_left_left (Node node pc pv pr) gv aunt gs =
     bind_res (rotate_right (Node (Node (set_color RED node) BLACK pv pr) RED gv aunt)) (\<lambda>t.
       case t of Null \<Rightarrow> Inl Undefined | Node l c v r \<Rightarrow> Inr (In_Right l c v # gs, r))"
| "fix_left_left Null gv aunt gs = Inl Undefined"

fun fix_right_right :: "'v tree \<Rightarrow> 'v \<Rightarrow> 'v tree \<Rightarrow> 'v frame list \<Rightarrow> 'v location res" where
  "fix_right_right (Node pl pc pv node) gv aunt gs =
     bind_res (rotate_left (Node aunt RED gv (Node pl BLACK pv (set_color RED node)))) (\<lambda>t.
       case t of Null \<Rightarrow> Inl Undefined | Node l c v r \<Rightarrow> Inr (In_Left c v r # gs, l))"
| "fix_right_right Null gv aunt gs = Inl Undefined"

text \<open>One round of the loop, for a red node \<open>t\<close> with a red parent and its grandparent.\<close>

fun fix_insertion_round :: "'v frame \<Rightarrow> 'v frame \<Rightarrow> 'v frame list \<Rightarrow> 'v tree \<Rightarrow> 'v location res" where
  "fix_insertion_round f (In_Left gc gv aunt) gs t =
     (if node_color aunt = RED
      then Inr (gs, Node (set_color BLACK (fill f t)) (if gs \<noteq> [] then RED else gc) gv (set_color BLACK aunt))
      else case f of
             In_Right l pc pv \<Rightarrow> bind_res (rotate_left (fill f t)) (\<lambda>p. fix_left_left p gv aunt gs)
           | In_Left pc pv r \<Rightarrow> fix_left_left (fill f t) gv aunt gs)"
| "fix_insertion_round f (In_Right aunt gc gv) gs t =
     (if node_color aunt = RED
      then Inr (gs, Node (set_color BLACK aunt) (if gs \<noteq> [] then RED else gc) gv (set_color BLACK (fill f t)))
      else case f of
             In_Left pc pv r \<Rightarrow> bind_res (rotate_right (fill f t)) (\<lambda>p. fix_right_right p gv aunt gs)
           | In_Right l pc pv \<Rightarrow> fix_right_right (fill f t) gv aunt gs)"

lemma fix_insertion_round_shorter:
  "fix_insertion_round f g gs t = Inr (fs', t') \<Longrightarrow> length fs' \<le> Suc (length gs)"
proof -
  have "fix_left_left p gv aunt gs = Inr (fs', t') \<Longrightarrow> length fs' = Suc (length gs)" for p gv aunt
    by (cases "(p, gv, aunt, gs)" rule: fix_left_left.cases) (auto simp: bind_res_eq_Inr split: tree.splits)
  moreover have "fix_right_right p gv aunt gs = Inr (fs', t') \<Longrightarrow> length fs' = Suc (length gs)" for p gv aunt
    by (cases "(p, gv, aunt, gs)" rule: fix_right_right.cases) (auto simp: bind_res_eq_Inr split: tree.splits)
  ultimately show "fix_insertion_round f g gs t = Inr (fs', t') \<Longrightarrow> length fs' \<le> Suc (length gs)"
    by (cases "(f, g, gs, t)" rule: fix_insertion_round.cases)
      (auto simp: bind_res_eq_Inr split: if_splits frame.splits)
qed

function fix_insertion :: "'v frame list \<Rightarrow> 'v tree \<Rightarrow> 'v tree res" where
  "fix_insertion [] t = Inr t"
| "fix_insertion [f] t =
     (if parent_color f = BLACK \<or> node_color t = BLACK then Inr (plug [f] t) else Inl Undefined)"
| "fix_insertion (f # g # gs) t =
     (if parent_color f = BLACK \<or> node_color t = BLACK then Inr (plug (f # g # gs) t)
      else bind_res (fix_insertion_round f g gs t) (\<lambda>(fs', t'). fix_insertion fs' t'))"
  by pat_completeness auto
termination
  by (relation "measure (\<lambda>(fs, t). length fs)") (auto dest!: fix_insertion_round_shorter)

text \<open>The descent to the place of a new value.\<close>

fun insert_location :: "('v \<Rightarrow> 'v \<Rightarrow> bool) \<Rightarrow> 'v \<Rightarrow> 'v frame list \<Rightarrow> 'v tree \<Rightarrow> 'v frame list" where
  "insert_location lt new fs Null = fs"
| "insert_location lt new fs (Node l c v r) =
     (if lt v new then insert_location lt new (In_Right l c v # fs) r
      else insert_location lt new (In_Left c v r # fs) l)"

subsection \<open>Removal\<close>

text \<open>
  The fix-up for a black node that is gone from below a location. A node without children
  stays linked as a black leaf while the code fixes the tree and is unlinked afterwards;
  nothing but its colour and its side is read meanwhile, so the model puts \<open>Null\<close>,
  which counts as black, in its place at once. The cases are numbered as in the code.
\<close>

fun double_black_rank :: "'v frame list \<Rightarrow> nat" where
  "double_black_rank [] = 0"
| "double_black_rank (f # fs) = (if parent_color f = RED then 0 else Suc (Suc (length fs)))"

fun outer_nephew_black :: "'v frame list \<Rightarrow> nat" where
  "outer_nephew_black [] = 0"
| "outer_nephew_black (In_Left c v s # fs) = (if node_color (right_child s) = BLACK then 1 else 0)"
| "outer_nephew_black (In_Right s c v # fs) = (if node_color (left_child s) = BLACK then 1 else 0)"

lemma double_black_rank_less: "double_black_rank fs < Suc (Suc (length fs))"
  by (cases fs) simp_all

function (sequential) fix_double_black :: "'v frame list \<Rightarrow> 'v tree \<Rightarrow> 'v tree res" where
  "fix_double_black [] node = Inr (set_color BLACK node)"
| "fix_double_black (In_Left pc pv s # fs) node =
     (let sc = node_color s; slc = node_color (left_child s); src = node_color (right_child s)
      in if pc = BLACK \<and> sc = RED \<and> slc = BLACK \<and> src = BLACK
         then (case s of
                 Node sl _ sv sr \<Rightarrow> fix_double_black (In_Left RED pv sl # In_Left BLACK sv sr # fs) node
               | Null \<Rightarrow> Inl Undefined)
         else if pc = BLACK \<and> sc = BLACK \<and> slc = BLACK \<and> src = BLACK
         then fix_double_black fs (Node (set_color BLACK node) pc pv (set_color RED s))
         else if pc = RED \<and> sc = BLACK \<and> slc = BLACK \<and> src = BLACK
         then Inr (plug fs (Node (set_color BLACK node) BLACK pv (set_color RED s)))
         else if sc = BLACK \<and> slc = RED \<and> src = BLACK
         then (case s of
                 Node (Node sll _ slv slr) _ sv sr \<Rightarrow>
                   fix_double_black (In_Left pc pv (Node sll BLACK slv (Node slr RED sv sr)) # fs) node
               | _ \<Rightarrow> Inl Undefined)
         else if sc = BLACK \<and> src = RED
         then (case s of
                 Node sl _ sv sr \<Rightarrow>
                   Inr (plug fs (Node (Node (set_color BLACK node) BLACK pv sl) pc sv (set_color BLACK sr)))
               | Null \<Rightarrow> Inl Undefined)
         else Inl Assertion)"
| "fix_double_black (In_Right s pc pv # fs) node =
     (let sc = node_color s; slc = node_color (left_child s); src = node_color (right_child s)
      in if pc = BLACK \<and> sc = RED \<and> slc = BLACK \<and> src = BLACK
         then (case s of
                 Node sl _ sv sr \<Rightarrow> fix_double_black (In_Right sr RED pv # In_Right sl BLACK sv # fs) node
               | Null \<Rightarrow> Inl Undefined)
         else if pc = BLACK \<and> sc = BLACK \<and> slc = BLACK \<and> src = BLACK
         then fix_double_black fs (Node (set_color RED s) pc pv (set_color BLACK node))
         else if pc = RED \<and> sc = BLACK \<and> slc = BLACK \<and> src = BLACK
         then Inr (plug fs (Node (set_color RED s) BLACK pv (set_color BLACK node)))
         else if sc = BLACK \<and> slc = BLACK \<and> src = RED
         then (case s of
                 Node sl _ sv (Node srl _ srv srr) \<Rightarrow>
                   fix_double_black (In_Right (Node (Node sl RED sv srl) BLACK srv srr) pc pv # fs) node
               | _ \<Rightarrow> Inl Undefined)
         else if sc = BLACK \<and> slc = RED
         then (case s of
                 Node sl _ sv sr \<Rightarrow>
                   Inr (plug fs (Node (set_color BLACK sl) pc sv (Node sr BLACK pv (set_color BLACK node))))
               | Null \<Rightarrow> Inl Undefined)
         else Inl Assertion)"
  by pat_completeness auto
termination
  by (relation "measures [\<lambda>(fs, node). double_black_rank fs, \<lambda>(fs, node). outer_nephew_black fs]")
    (auto simp: double_black_rank_less)

definition fix_removal_violations_if_needed :: "'v frame list \<Rightarrow> 'v tree \<Rightarrow> color \<Rightarrow> 'v tree res" where
  "fix_removal_violations_if_needed fs child deleted_node_color =
     (if node_color child = RED \<or> deleted_node_color = RED then Inr (plug fs (set_color BLACK child))
      else fix_double_black fs child)"

text \<open>
  Exchanging a node with its successor moves the two nodes, each with the colour of its
  new place. In a tree of values the values change places.
\<close>

fun swap_node_with_successor :: "'v location \<Rightarrow> 'v location res" where
  "swap_node_with_successor (fs, Null) = Inl Assertion"
| "swap_node_with_successor (fs, Node l c v r) =
     (case descend_left [] r of
        (rfs, Null) \<Rightarrow> Inl Assertion
      | (rfs, Node sl sc sv sr) \<Rightarrow> Inr (rfs @ In_Right l c sv # fs, Node sl sc v sr))"

text \<open>\<^verbatim>\<open>remove_node\<close> for a node with at most one child; the second component is the new size.\<close>

fun unlink_node :: "nat \<Rightarrow> 'v location \<Rightarrow> ('v tree \<times> nat) res" where
  "unlink_node sz (fs, Null) = Inl Assertion"
| "unlink_node sz (fs, Node l c v r) =
     (let child = (if l \<noteq> Null then l else r)
      in if fs = [] then Inr (set_color BLACK child, if child \<noteq> Null then 1 else 0)
         else bind_res (fix_removal_violations_if_needed fs child c) (\<lambda>t. Inr (t, sz - 1)))"

fun remove_node :: "nat \<Rightarrow> 'v location \<Rightarrow> ('v tree \<times> nat) res" where
  "remove_node sz (fs, Node (Node ll lc lv lr) c v (Node rl rc rv rr)) =
     bind_res (swap_node_with_successor (fs, Node (Node ll lc lv lr) c v (Node rl rc rv rr))) (unlink_node sz)"
| "remove_node sz loc = unlink_node sz loc"

subsection \<open>The container\<close>

text \<open>
  \<^verbatim>\<open>RedBlackTree\<close>: the root, the two pointers of the super root and the size. The
  comparators are arguments: \<open>lt\<close> compares values, \<open>key_lt\<close> and \<open>lt_key\<close> a key with a value.
\<close>

record 'v rb_tree =
  rb_root :: "'v tree"
  rb_leftmost :: "'v option"
  rb_rightmost :: "'v option"
  rb_size :: nat

definition rb_new :: "'v rb_tree" where
  "rb_new = \<lparr>rb_root = Null, rb_leftmost = None, rb_rightmost = None, rb_size = 0\<rparr>"

definition rb_empty :: "'v rb_tree \<Rightarrow> bool" where
  "rb_empty t \<longleftrightarrow> rb_size t = 0"

definition left_most_node :: "'v rb_tree \<Rightarrow> 'v option" where
  "left_most_node t = (if rb_empty t then None else rb_leftmost t)"

definition right_most_node :: "'v rb_tree \<Rightarrow> 'v option" where
  "right_most_node t = (if rb_empty t then None else rb_rightmost t)"

definition rb_begin :: "'v rb_tree \<Rightarrow> 'v option" where
  "rb_begin t = left_most_node t"

definition rb_find :: "('k \<Rightarrow> 'v \<Rightarrow> bool) \<Rightarrow> ('v \<Rightarrow> 'k \<Rightarrow> bool) \<Rightarrow> 'k \<Rightarrow> 'v rb_tree \<Rightarrow> 'v option" where
  "rb_find key_lt lt_key key t =
     (if rb_empty t then None else node_value (snd (find_node key_lt lt_key key [] (rb_root t))))"

definition rb_contains :: "('k \<Rightarrow> 'v \<Rightarrow> bool) \<Rightarrow> ('v \<Rightarrow> 'k \<Rightarrow> bool) \<Rightarrow> 'k \<Rightarrow> 'v rb_tree \<Rightarrow> bool" where
  "rb_contains key_lt lt_key key t \<longleftrightarrow> rb_find key_lt lt_key key t \<noteq> None"

definition rb_get :: "('k \<Rightarrow> 'v \<Rightarrow> bool) \<Rightarrow> ('v \<Rightarrow> 'k \<Rightarrow> bool) \<Rightarrow> 'k \<Rightarrow> 'v rb_tree \<Rightarrow> 'v res" where
  "rb_get key_lt lt_key key t =
     (case rb_find key_lt lt_key key t of None \<Rightarrow> Inl Assertion | Some v \<Rightarrow> Inr v)"

definition rb_lower_bound :: "('v \<Rightarrow> 'k \<Rightarrow> bool) \<Rightarrow> 'k \<Rightarrow> 'v rb_tree \<Rightarrow> 'v option" where
  "rb_lower_bound lt_key key t =
     (if rb_empty t then None else lower_bound_node lt_key key (rb_root t) None)"

definition rb_upper_bound :: "('k \<Rightarrow> 'v \<Rightarrow> bool) \<Rightarrow> 'k \<Rightarrow> 'v rb_tree \<Rightarrow> 'v option" where
  "rb_upper_bound key_lt key t =
     (if rb_root t = Null then None else upper_bound_node key_lt key (rb_root t) None)"

text \<open>The location of the node with a value.\<close>

definition location_of :: "('v \<Rightarrow> 'v \<Rightarrow> bool) \<Rightarrow> 'v \<Rightarrow> 'v rb_tree \<Rightarrow> 'v location" where
  "location_of lt v t = find_node lt lt v [] (rb_root t)"

definition rb_next :: "('v \<Rightarrow> 'v \<Rightarrow> bool) \<Rightarrow> 'v option \<Rightarrow> 'v rb_tree \<Rightarrow> 'v option res" where
  "rb_next lt it t =
     (case it of None \<Rightarrow> Inl Assertion | Some v \<Rightarrow> inorder_successor_of (location_of lt v t))"

definition rb_prev :: "('v \<Rightarrow> 'v \<Rightarrow> bool) \<Rightarrow> 'v option \<Rightarrow> 'v rb_tree \<Rightarrow> 'v option res" where
  "rb_prev lt it t =
     (case it of None \<Rightarrow> Inr (rb_rightmost t) | Some v \<Rightarrow> inorder_predecessor_of (location_of lt v t))"

text \<open>The updates of the super root's pointers by \<^verbatim>\<open>emplace\<close>.\<close>

definition emplace_extremes ::
  "('v \<Rightarrow> 'v \<Rightarrow> bool) \<Rightarrow> 'v \<Rightarrow> 'v option \<Rightarrow> 'v option \<Rightarrow> 'v option \<times> 'v option" where
  "emplace_extremes lt new lm rm =
     (let smaller_than_left = (case lm of None \<Rightarrow> True | Some m \<Rightarrow> lt new m);
          lm' = (if smaller_than_left then Some new else lm);
          greater_than_right = (case rm of None \<Rightarrow> True | Some m \<Rightarrow> lt m new);
          rm' = (if greater_than_right then Some new else rm)
      in if \<not> smaller_than_left \<and> \<not> greater_than_right
         then (if \<not> lt (the lm') new then Some new else lm', if \<not> lt new (the rm') then Some new else rm')
         else (lm', rm'))"

definition rb_emplace ::
  "bool \<Rightarrow> ('v \<Rightarrow> 'v \<Rightarrow> bool) \<Rightarrow> 'v \<Rightarrow> 'v rb_tree \<Rightarrow> ('v option \<times> bool \<times> 'v rb_tree) res" where
  "rb_emplace allow_duplicates lt new t =
     (if \<not> allow_duplicates \<and> rb_find lt lt new t \<noteq> None then Inr (rb_find lt lt new t, False, t)
      else let (lm, rm) = emplace_extremes lt new (rb_leftmost t) (rb_rightmost t)
           in if rb_root t = Null
              then Inr (Some new, True, \<lparr>rb_root = Node Null BLACK new Null, rb_leftmost = lm,
                                         rb_rightmost = rm, rb_size = 1\<rparr>)
              else bind_res (fix_insertion (insert_location lt new [] (rb_root t)) (Node Null RED new Null)) (\<lambda>root.
                     Inr (Some new, True, \<lparr>rb_root = root, rb_leftmost = lm, rb_rightmost = rm,
                                           rb_size = rb_size t + 1\<rparr>)))"

definition rb_remove :: "('v \<Rightarrow> 'v \<Rightarrow> bool) \<Rightarrow> 'v option \<Rightarrow> 'v rb_tree \<Rightarrow> 'v rb_tree res" where
  "rb_remove lt it t =
     (case it of None \<Rightarrow> Inl Assertion
      | Some v \<Rightarrow>
          let loc = location_of lt v t
          in bind_res
               (if fst loc = [] \<and> rb_size t = 1 then Inr (None, None)
                else if it = left_most_node t
                then bind_res (inorder_successor_of loc) (\<lambda>lm. Inr (lm, rb_rightmost t))
                else if it = right_most_node t
                then bind_res (inorder_predecessor_of loc) (\<lambda>rm. Inr (rb_leftmost t, rm))
                else Inr (rb_leftmost t, rb_rightmost t)) (\<lambda>(lm, rm).
             bind_res (remove_node (rb_size t) loc) (\<lambda>(root, sz).
               Inr \<lparr>rb_root = root, rb_leftmost = lm, rb_rightmost = rm, rb_size = sz\<rparr>)))"

definition rb_remove_key ::
  "('v \<Rightarrow> 'v \<Rightarrow> bool) \<Rightarrow> ('k \<Rightarrow> 'v \<Rightarrow> bool) \<Rightarrow> ('v \<Rightarrow> 'k \<Rightarrow> bool) \<Rightarrow> 'k \<Rightarrow> 'v rb_tree \<Rightarrow> 'v rb_tree res" where
  "rb_remove_key lt key_lt lt_key key t =
     (case rb_find key_lt lt_key key t of None \<Rightarrow> Inr t | Some v \<Rightarrow> rb_remove lt (Some v) t)"

definition rb_clear :: "'v rb_tree \<Rightarrow> 'v rb_tree" where
  "rb_clear t = (if rb_empty t then t
     else \<lparr>rb_root = Null, rb_leftmost = None, rb_rightmost = None, rb_size = 0\<rparr>)"

fun recursive_copy_all :: "'v tree \<Rightarrow> 'v tree" where
  "recursive_copy_all Null = Null"
| "recursive_copy_all (Node l c v r) = Node (recursive_copy_all l) c v (recursive_copy_all r)"

text \<open>Copying another tree into one that is not the same object.\<close>

definition rb_become :: "('v \<Rightarrow> 'v \<Rightarrow> bool) \<Rightarrow> 'v rb_tree \<Rightarrow> 'v rb_tree \<Rightarrow> 'v rb_tree res" where
  "rb_become lt other t =
     (if rb_empty other then Inr (rb_clear t)
      else let root = recursive_copy_all (rb_root other);
               copied = \<lparr>rb_root = root, rb_leftmost = None, rb_rightmost = None, rb_size = rb_size other\<rparr>
           in case (rb_leftmost other, rb_rightmost other) of
                (Some lm, Some rm) \<Rightarrow>
                  if rb_find lt lt lm copied = None \<or> rb_find lt lt rm copied = None then Inl Assertion
                  else Inr (copied\<lparr>rb_leftmost := rb_find lt lt lm copied,
                                   rb_rightmost := rb_find lt lt rm copied\<rparr>)
              | _ \<Rightarrow> Inl Undefined)"

subsection \<open>The values in order\<close>

fun inorder :: "'v tree \<Rightarrow> 'v list" where
  "inorder Null = []"
| "inorder (Node l c v r) = inorder l @ v # inorder r"

text \<open>The values before and after a location.\<close>

fun before :: "'v frame list \<Rightarrow> 'v list" where
  "before [] = []"
| "before (In_Left c v r # fs) = before fs"
| "before (In_Right l c v # fs) = before fs @ inorder l @ [v]"

fun after :: "'v frame list \<Rightarrow> 'v list" where
  "after [] = []"
| "after (In_Left c v r # fs) = v # inorder r @ after fs"
| "after (In_Right l c v # fs) = after fs"

named_theorems rb_simps \<open>evaluation of locations and colours\<close>

lemma inorder_set_color [simp, rb_simps]: "inorder (set_color c t) = inorder t"
  by (cases t) simp_all

lemma inorder_plug [simp]: "inorder (plug fs t) = before fs @ inorder t @ after fs"
proof (induction fs t rule: plug.induct)
  case (2 f fs t)
  then show ?case
    by (cases f) simp_all
qed simp

lemma before_append [simp]: "before (fs @ gs) = before gs @ before fs"
  by (induction fs rule: before.induct) simp_all

lemma after_append [simp]: "after (fs @ gs) = after fs @ after gs"
  by (induction fs rule: after.induct) simp_all

lemma plug_append [simp]: "plug (fs @ gs) t = plug gs (plug fs t)"
  by (induction fs arbitrary: t) simp_all

subsection \<open>Colours and heights\<close>

fun invc :: "'v tree \<Rightarrow> bool" where
  "invc Null = True"
| "invc (Node l c v r) =
     ((c = RED \<longrightarrow> node_color l = BLACK \<and> node_color r = BLACK) \<and> invc l \<and> invc r)"

fun bheight :: "'v tree \<Rightarrow> nat" where
  "bheight Null = 0"
| "bheight (Node l c v r) = bheight l + (if c = BLACK then 1 else 0)"

fun invh :: "'v tree \<Rightarrow> bool" where
  "invh Null = True"
| "invh (Node l c v r) = (bheight l = bheight r \<and> invh l \<and> invh r)"

definition rb :: "'v tree \<Rightarrow> bool" where
  "rb t \<longleftrightarrow> invc t \<and> invh t \<and> node_color t = BLACK"

text \<open>
  The colour above a location, red at the root so that the root must be black, and the
  context: a subtree of black height \<open>n\<close> may stand at the end of the path.
\<close>

fun above :: "'v frame list \<Rightarrow> color" where
  "above [] = RED"
| "above (f # fs) = parent_color f"

fun ctx :: "'v frame list \<Rightarrow> nat \<Rightarrow> bool" where
  "ctx [] n = True"
| "ctx (f # fs) n = (invc (sibling f) \<and> invh (sibling f) \<and> bheight (sibling f) = n
     \<and> (parent_color f = RED \<longrightarrow> node_color (sibling f) = BLACK \<and> above fs = BLACK)
     \<and> ctx fs (n + (if parent_color f = BLACK then 1 else 0)))"

lemma color_neq [simp]: "c \<noteq> RED \<longleftrightarrow> c = BLACK" "c \<noteq> BLACK \<longleftrightarrow> c = RED"
  by (cases c; simp)+

lemma rb_plug_iff:
  "rb (plug fs t) \<longleftrightarrow> invc t \<and> invh t \<and> ctx fs (bheight t) \<and> (node_color t = RED \<longrightarrow> above fs = BLACK)"
proof (induction fs arbitrary: t)
  case Nil
  then show ?case
    by (auto simp: rb_def)
next
  case (Cons f fs)
  show ?case
    by (cases f) (auto simp: Cons.IH)
qed

lemma set_color_simps [simp]:
  "invh (set_color c t) = invh t" "invc t \<Longrightarrow> invc (set_color BLACK t)"
  "node_color (set_color BLACK t) = BLACK"
  "node_color t = BLACK \<Longrightarrow> set_color BLACK t = t"
  "set_color c t = Null \<longleftrightarrow> t = Null"
  by (cases t; simp)+

lemma not_Null_of_RED: "node_color t = RED \<Longrightarrow> \<exists>l v r. t = Node l RED v r"
  by (cases t) auto

subsection \<open>Insertion\<close>

definition repairable :: "'v frame list \<Rightarrow> 'v tree \<Rightarrow> bool" where
  "repairable fs t \<longleftrightarrow> invc t \<and> invh t \<and> ctx fs (bheight t) \<and> (fs = [] \<longrightarrow> node_color t = BLACK)"

lemma fix_insertion_round_correct:
  assumes "repairable (f # g # gs) t" "parent_color f = RED" "node_color t = RED"
  shows "\<exists>fs' t'. fix_insertion_round f g gs t = Inr (fs', t') \<and> repairable fs' t'
    \<and> before fs' @ inorder t' @ after fs' = before (f # g # gs) @ inorder t @ after (f # g # gs)"
proof -
  obtain tl tv tr where t: "t = Node tl RED tv tr"
    using not_Null_of_RED [OF assms(3)] by blast
  show ?thesis
  proof (cases "node_color (sibling g) = RED")
    case True
    then obtain al av ar where "sibling g = Node al RED av ar"
      using not_Null_of_RED by blast
    then show ?thesis
      using assms by (cases f; cases g) (auto simp: t repairable_def)
  next
    case False
    then show ?thesis
      using assms by (cases f; cases g) (auto simp: t repairable_def)
  qed
qed

lemma fix_insertion_correct:
  assumes "repairable fs t"
  shows "\<exists>t'. fix_insertion fs t = Inr t' \<and> rb t' \<and> inorder t' = before fs @ inorder t @ after fs"
  using assms
proof (induction fs t rule: fix_insertion.induct)
  case (1 t)
  then show ?case
    by (simp add: repairable_def rb_def)
next
  case (2 f t)
  then show ?case
    using rb_plug_iff [of "[f]" t] inorder_plug [of "[f]" t]
    by (auto simp: repairable_def simp del: inorder_plug)
next
  case (3 f g gs t)
  show ?case
  proof (cases "parent_color f = BLACK \<or> node_color t = BLACK")
    case True
    then show ?thesis
      using 3 rb_plug_iff [of "f # g # gs" t] inorder_plug [of "f # g # gs" t]
      by (auto simp: repairable_def simp del: inorder_plug plug.simps)
  next
    case False
    then obtain fs' t' where r: "fix_insertion_round f g gs t = Inr (fs', t')" "repairable fs' t'"
      "before fs' @ inorder t' @ after fs' = before (f # g # gs) @ inorder t @ after (f # g # gs)"
      using fix_insertion_round_correct [OF 3(2)] by auto
    then show ?thesis
      using 3(1) [OF False r(1) refl] False by auto
  qed
qed

subsection \<open>Removal\<close>

lemma sibling_cases:
  assumes "bheight s = Suc n"
  obtains (red) sl sv sr where "s = Node sl RED sv sr"
    | (black) sl sv sr where "s = Node sl BLACK sv sr"
  using assms by (cases s; cases "node_color s") auto

definition deficient :: "'v frame list \<Rightarrow> 'v tree \<Rightarrow> bool" where
  "deficient fs t \<longleftrightarrow> invc t \<and> invh t \<and> node_color t = BLACK \<and> ctx fs (Suc (bheight t))"

lemma fix_double_black_correct:
  assumes "deficient fs node"
  shows "\<exists>t'. fix_double_black fs node = Inr t' \<and> rb t' \<and> inorder t' = before fs @ inorder node @ after fs"
  using assms
proof (induction fs node rule: fix_double_black.induct)
  case (1 node)
  then show ?case
    by (simp add: deficient_def rb_def)
next
  case (2 pc pv s fs node)
  have d: "invc node" "invh node" "node_color node = BLACK" "invc s" "invh s" "bheight s = Suc (bheight node)"
    "pc = RED \<longrightarrow> node_color s = BLACK \<and> above fs = BLACK" "ctx fs (Suc (bheight node) + (if pc = BLACK then 1 else 0))"
    using 2(4) by (auto simp: deficient_def)
  from d(6) show ?case
  proof (cases rule: sibling_cases)
    case (red sl sv sr)
    then show ?thesis
      using d 2(1) by (auto simp: deficient_def)
  next
    case (black sl sv sr)
    show ?thesis
    proof (cases "node_color sl = BLACK \<and> node_color sr = BLACK")
      case True
      then show ?thesis
        using d 2(2) black by (cases pc) (auto simp: deficient_def rb_plug_iff)
    next
      case False
      then show ?thesis
        using d 2(3) black by (cases sl; cases sr) (auto simp: deficient_def rb_plug_iff)
    qed
  qed
next
  case (3 s pc pv fs node)
  have d: "invc node" "invh node" "node_color node = BLACK" "invc s" "invh s" "bheight s = Suc (bheight node)"
    "pc = RED \<longrightarrow> node_color s = BLACK \<and> above fs = BLACK" "ctx fs (Suc (bheight node) + (if pc = BLACK then 1 else 0))"
    using 3(4) by (auto simp: deficient_def)
  from d(6) show ?case
  proof (cases rule: sibling_cases)
    case (red sl sv sr)
    then show ?thesis
      using d 3(1) by (auto simp: deficient_def)
  next
    case (black sl sv sr)
    show ?thesis
    proof (cases "node_color sl = BLACK \<and> node_color sr = BLACK")
      case True
      then show ?thesis
        using d 3(2) black by (cases pc) (auto simp: deficient_def rb_plug_iff)
    next
      case False
      then show ?thesis
        using d 3(3) black by (cases sl; cases sr) (auto simp: deficient_def rb_plug_iff)
    qed
  qed
qed

lemma bheight_0:
  assumes "invc t" "invh t" "bheight t = 0"
  obtains (null) "t = Null" | (leaf) v where "t = Node Null RED v Null"
proof (cases t)
  case (Node l c v r)
  have null: "t = Null" if "bheight t = 0" "node_color t = BLACK" for t :: "'a tree"
    using that by (cases t) (auto split: if_splits)
  have "c = RED" "node_color l = BLACK" "node_color r = BLACK" "bheight l = 0" "bheight r = 0"
    using assms Node by (auto split: if_splits)
  then show ?thesis
    using that(2) Node null by blast
qed (rule that(1))

lemma fix_removal_correct:
  assumes "rb (plug fs (Node l c v r))" "l = Null \<or> r = Null" "child = (if l \<noteq> Null then l else r)"
  shows "\<exists>t'. fix_removal_violations_if_needed fs child c = Inr t' \<and> rb t'
    \<and> inorder t' = before fs @ inorder l @ inorder r @ after fs"
proof -
  have inv: "invc l" "invc r" "invh l" "invh r" "bheight l = bheight r" "ctx fs (bheight (Node l c v r))"
    "c = RED \<longrightarrow> node_color l = BLACK \<and> node_color r = BLACK \<and> above fs = BLACK"
    using assms(1) by (auto simp: rb_plug_iff)
  have io: "inorder child = inorder l @ inorder r"
    using assms(2,3) by (cases l) auto
  have "invc child" "invh child" "bheight child = 0"
    using inv assms(2,3) by auto
  then show ?thesis
  proof (cases rule: bheight_0)
    case null
    show ?thesis
    proof (cases c)
      case RED
      then show ?thesis
        using inv null io assms(2,3)
        by (auto simp: fix_removal_violations_if_needed_def rb_plug_iff split: if_splits)
    next
      case BLACK
      then have "deficient fs child"
        using inv null assms(2,3) by (auto simp: deficient_def split: if_splits)
      then show ?thesis
        using fix_double_black_correct [of fs child] io BLACK null
        by (simp add: fix_removal_violations_if_needed_def)
    qed
  next
    case (leaf u)
    then have "c = BLACK" "bheight l = 0"
      using inv assms(2,3) by (auto split: if_splits)
    then show ?thesis
      using leaf io inv by (auto simp: fix_removal_violations_if_needed_def rb_plug_iff)
  qed
qed

lemma unlink_node_correct:
  assumes "rb (plug fs (Node l c v r))" "l = Null \<or> r = Null" "sz = length (inorder (plug fs (Node l c v r)))"
  shows "\<exists>t'. unlink_node sz (fs, Node l c v r) = Inr (t', sz - 1) \<and> rb t'
    \<and> inorder t' = before fs @ inorder l @ inorder r @ after fs"
proof (cases "fs = []")
  case False
  then show ?thesis
    using fix_removal_correct [OF assms(1,2) refl] by auto
next
  case True
  let ?child = "if l \<noteq> Null then l else r"
  have "invc ?child" "invh ?child" "bheight ?child = 0"
    using assms(1,2) by (auto simp: rb_def True)
  then show ?thesis
  proof (cases rule: bheight_0)
    case null
    then have "l = Null" "r = Null"
      using assms(2) by (auto split: if_splits)
    then show ?thesis
      using True assms(3) by (simp add: rb_def)
  next
    case (leaf u)
    then have "l = Node Null RED u Null \<and> r = Null \<or> r = Node Null RED u Null \<and> l = Null"
      using assms(2) by (auto split: if_splits)
    then show ?thesis
      using True assms(3) by (auto simp: rb_def)
  qed
qed

lemma descend_left_append: "descend_left fs t = (fst (descend_left [] t) @ fs, snd (descend_left [] t))"
proof (induction t arbitrary: fs)
  case (Node l c v r)
  show ?case
  proof (cases l)
    case (Node ll lc lv lr)
    then show ?thesis
      using Node.IH(1) [of "In_Left c v r # fs"] Node.IH(1) [of "[In_Left c v r]"] by simp
  qed simp
qed simp

lemma descend_left_correct:
  assumes "t \<noteq> Null"
  obtains fs c v r where "descend_left [] t = (fs, Node Null c v r)" "plug fs (Node Null c v r) = t" "before fs = []"
proof -
  have "\<exists>fs c v r. descend_left [] t = (fs, Node Null c v r) \<and> plug fs (Node Null c v r) = t \<and> before fs = []"
    using assms
  proof (induction t)
    case (Node l c v r)
    show ?case
    proof (cases l)
      case (Node ll lc lv lr)
      then obtain fs c' v' r' where "descend_left [] l = (fs, Node Null c' v' r')"
        "plug fs (Node Null c' v' r') = l" "before fs = []"
        using Node.IH(1) by auto
      then show ?thesis
        using Node descend_left_append [of "[In_Left c v r]" l] by simp
    qed simp
  qed simp
  then show ?thesis
    using that by blast
qed

lemma descend_right_append: "descend_right fs t = (fst (descend_right [] t) @ fs, snd (descend_right [] t))"
proof (induction t arbitrary: fs)
  case (Node l c v r)
  show ?case
  proof (cases r)
    case (Node rl rc rv rr)
    then show ?thesis
      using Node.IH(2) [of "In_Right l c v # fs"] Node.IH(2) [of "[In_Right l c v]"] by simp
  qed simp
qed simp

lemma descend_right_correct:
  assumes "t \<noteq> Null"
  obtains fs l c v where "descend_right [] t = (fs, Node l c v Null)" "plug fs (Node l c v Null) = t" "after fs = []"
proof -
  have "\<exists>fs l c v. descend_right [] t = (fs, Node l c v Null) \<and> plug fs (Node l c v Null) = t \<and> after fs = []"
    using assms
  proof (induction t)
    case (Node l c v r)
    show ?case
    proof (cases r)
      case (Node rl rc rv rr)
      then obtain fs l' c' v' where "descend_right [] r = (fs, Node l' c' v' Null)"
        "plug fs (Node l' c' v' Null) = r" "after fs = []"
        using Node.IH(2) by auto
      then show ?thesis
        using Node descend_right_append [of "[In_Right l c v]" r] by simp
    qed simp
  qed simp
  then show ?thesis
    using that by blast
qed

text \<open>Colours and heights do not depend on the values.\<close>

lemma ctx_value: "ctx (rfs @ In_Right l c v # fs) n \<longleftrightarrow> ctx (rfs @ In_Right l c w # fs) n"
proof (induction rfs arbitrary: n)
  case (Cons f rfs)
  have "above (rfs @ In_Right l c v # fs) = above (rfs @ In_Right l c w # fs)"
    by (cases rfs) simp_all
  then show ?case
    by (simp add: Cons)
qed simp

lemma remove_node_correct:
  assumes "rb (plug fs (Node l c v r))" "sz = length (inorder (plug fs (Node l c v r)))"
  shows "\<exists>t'. remove_node sz (fs, Node l c v r) = Inr (t', sz - 1) \<and> rb t'
    \<and> inorder t' = before fs @ inorder l @ inorder r @ after fs"
proof (cases "l = Null \<or> r = Null")
  case True
  then have "remove_node sz (fs, Node l c v r) = unlink_node sz (fs, Node l c v r)"
    by (cases l; cases r) auto
  then show ?thesis
    using unlink_node_correct [OF assms(1) True assms(2)] by simp
next
  case False
  then obtain rfs sc sv sr where s: "descend_left [] r = (rfs, Node Null sc sv sr)"
    "plug rfs (Node Null sc sv sr) = r" "before rfs = []"
    using descend_left_correct by blast
  let ?fs = "rfs @ In_Right l c sv # fs"
  have swap: "remove_node sz (fs, Node l c v r) = unlink_node sz (?fs, Node Null sc v sr)"
    using False s(1) by (cases l; cases r) simp_all
  have r: "inorder r = sv # inorder sr @ after rfs"
    using s(2,3) inorder_plug [of rfs "Node Null sc sv sr"] by simp
  have "rb (plug (rfs @ In_Right l c v # fs) (Node Null sc sv sr))"
    using assms(1) s(2) by simp
  moreover have "above (rfs @ In_Right l c v # fs) = above ?fs"
    by (cases rfs) simp_all
  ultimately have "rb (plug ?fs (Node Null sc v sr))"
    using ctx_value [of rfs l c v fs _ sv] by (simp only: rb_plug_iff bheight.simps node_color.simps invc.simps invh.simps) simp
  moreover have "sz = length (inorder (plug ?fs (Node Null sc v sr)))"
    using assms(2) s(3) by (simp add: r)
  ultimately have "\<exists>t'. unlink_node sz (?fs, Node Null sc v sr) = Inr (t', sz - 1) \<and> rb t'
      \<and> inorder t' = before ?fs @ inorder Null @ inorder sr @ after ?fs"
    by (intro unlink_node_correct) simp_all
  then show ?thesis
    unfolding swap by (simp add: r s(3) del: unlink_node.simps)
qed

subsection \<open>Searching and walking in terms of the ordered values\<close>

definition head_of :: "'a list \<Rightarrow> 'a option" where
  "head_of xs = (if xs = [] then None else Some (hd xs))"

definition last_of :: "'a list \<Rightarrow> 'a option" where
  "last_of xs = (if xs = [] then None else Some (last xs))"

lemma head_of_simps [simp]: "head_of [] = None" "head_of (x # xs) = Some x"
  by (simp_all add: head_of_def)

lemma last_of_simps [simp]: "last_of [] = None" "last_of (xs @ [x]) = Some x"
  "ys \<noteq> [] \<Longrightarrow> last_of (xs @ ys) = last_of ys" "last_of [x] = Some x"
  by (simp_all add: last_of_def)

lemma head_of_append: "head_of (xs @ ys) = (if xs = [] then head_of ys else head_of xs)"
  by (simp add: head_of_def)

abbreviation ascending :: "('v \<Rightarrow> 'k :: linorder) \<Rightarrow> 'v list \<Rightarrow> bool" where
  "ascending pos xs \<equiv> sorted_wrt (\<lambda>a b. pos a < pos b) xs"

lemma ascending_distinct: "ascending pos xs \<Longrightarrow> distinct xs"
  by (induction xs) auto

lemma ascending_unique:
  "ascending pos xs \<Longrightarrow> a \<in> set xs \<Longrightarrow> b \<in> set xs \<Longrightarrow> pos a = pos b \<Longrightarrow> a = b"
  by (induction xs) fastforce+

lemma find_append: "find P (xs @ ys) = (case find P xs of None \<Rightarrow> find P ys | Some x \<Rightarrow> Some x)"
  by (induction xs) auto

lemma find_none: "(\<And>x. x \<in> set xs \<Longrightarrow> \<not> P x) \<Longrightarrow> find P xs = None"
  by (simp add: find_None_iff)

lemma node_value_find:
  assumes "ascending pos (inorder t)" "\<And>v. key_lt key v \<longleftrightarrow> k < pos v" "\<And>v. lt_key v key \<longleftrightarrow> pos v < k"
  shows "node_value (snd (find_node key_lt lt_key key fs t)) = find (\<lambda>v. pos v = k) (inorder t)"
  using assms(1)
proof (induction t arbitrary: fs)
  case (Node l c v r)
  then have a: "ascending pos (inorder l)" "ascending pos (inorder r)"
    and le: "\<And>x. x \<in> set (inorder l) \<Longrightarrow> pos x < pos v" "\<And>x. x \<in> set (inorder r) \<Longrightarrow> pos v < pos x"
    by (auto simp: sorted_wrt_append)
  consider "pos v < k" | "k < pos v" | "pos v = k"
    by fastforce
  then show ?case
  proof cases
    case 1
    then have "find (\<lambda>v. pos v = k) (inorder l) = None"
      using le(1) by (intro find_none) force
    then show ?thesis
      using 1 Node.IH(2) [OF a(2)] by (auto simp: assms(2,3) find_append)
  next
    case 2
    then have "find (\<lambda>v. pos v = k) (inorder r) = None"
      using le(2) by (intro find_none) force
    then show ?thesis
      using 2 less_not_sym [OF 2] Node.IH(1) [OF a(1)]
      by (auto simp: assms(2,3) find_append split: option.splits)
  next
    case 3
    then have "find (\<lambda>v. pos v = k) (inorder l) = None"
      using le(1) by (intro find_none) force
    then show ?thesis
      using 3 by (simp add: assms(2,3) find_append)
  qed
qed simp

lemma plug_find_node: "find_node key_lt lt_key key fs t = (fs', t') \<Longrightarrow> plug fs' t' = plug fs t"
  by (induction t arbitrary: fs) (auto split: if_splits)

lemma lower_bound_node_correct:
  assumes "ascending pos (inorder t)" "\<And>v. lt_key v key \<longleftrightarrow> pos v < k"
  shows "lower_bound_node lt_key key t res =
    (case find (\<lambda>v. k \<le> pos v) (inorder t) of None \<Rightarrow> res | Some v \<Rightarrow> Some v)"
  using assms(1)
proof (induction t arbitrary: res)
  case (Node l c v r)
  then have a: "ascending pos (inorder l)" "ascending pos (inorder r)"
    and le: "\<And>x. x \<in> set (inorder l) \<Longrightarrow> pos x < pos v"
    by (auto simp: sorted_wrt_append)
  show ?case
  proof (cases "pos v < k")
    case True
    then have "find (\<lambda>v. k \<le> pos v) (inorder l) = None"
      using le by (intro find_none) force
    then show ?thesis
      using True Node.IH(2) [OF a(2)] by (auto simp: assms(2) find_append)
  next
    case False
    then show ?thesis
      using Node.IH(1) [OF a(1)] by (auto simp: assms(2) find_append split: option.splits)
  qed
qed simp

lemma upper_bound_node_correct:
  assumes "ascending pos (inorder t)" "\<And>v. key_lt key v \<longleftrightarrow> k < pos v"
  shows "upper_bound_node key_lt key t res =
    (case find (\<lambda>v. k < pos v) (inorder t) of None \<Rightarrow> res | Some v \<Rightarrow> Some v)"
  using assms(1)
proof (induction t arbitrary: res)
  case (Node l c v r)
  then have a: "ascending pos (inorder l)" "ascending pos (inorder r)"
    and le: "\<And>x. x \<in> set (inorder l) \<Longrightarrow> pos x < pos v"
    by (auto simp: sorted_wrt_append)
  show ?case
  proof (cases "k < pos v")
    case False
    then have "find (\<lambda>v. k < pos v) (inorder l) = None"
      using le by (intro find_none) force
    then show ?thesis
      using False Node.IH(2) [OF a(2)] by (simp add: assms(2) find_append)
  next
    case True
    then show ?thesis
      using Node.IH(1) [OF a(1)] by (auto simp: assms(2) find_append split: option.splits)
  qed
qed simp

lemma ascend_right_eq: "ascend_right fs = head_of (after fs)"
  by (induction fs rule: ascend_right.induct) simp_all

lemma ascend_left_eq: "ascend_left fs = last_of (before fs)"
  by (induction fs rule: ascend_left.induct) (simp_all flip: append_assoc)

lemma successor_eq: "inorder_successor_of (fs, Node l c v r) = Inr (head_of (inorder r @ after fs))"
proof (cases "r = Null")
  case False
  then obtain dfs dc dv dr where "descend_left [] r = (dfs, Node Null dc dv dr)"
    "plug dfs (Node Null dc dv dr) = r" "before dfs = []"
    using descend_left_correct by blast
  then show ?thesis
    using False descend_left_append [of "In_Right l c v # fs" r] inorder_plug [of dfs "Node Null dc dv dr"]
    by simp
qed (simp add: ascend_right_eq)

lemma predecessor_eq: "inorder_predecessor_of (fs, Node l c v r) = Inr (last_of (before fs @ inorder l))"
proof (cases "l = Null")
  case False
  then obtain dfs dl dc dv where "descend_right [] l = (dfs, Node dl dc dv Null)"
    "plug dfs (Node dl dc dv Null) = l" "after dfs = []"
    using descend_right_correct by blast
  then show ?thesis
    using False descend_right_append [of "In_Left c v r # fs" l] inorder_plug [of dfs "Node dl dc dv Null"]
    by (simp flip: append_assoc)
qed (simp add: ascend_left_eq)

lemma insert_location_correct:
  assumes "ascending pos (inorder t)" "\<And>a b. lt a b \<longleftrightarrow> pos a < pos b"
  shows "plug (insert_location lt new fs t) Null = plug fs t
    \<and> before (insert_location lt new fs t) = before fs @ takeWhile (\<lambda>v. pos v < pos new) (inorder t)
    \<and> after (insert_location lt new fs t) = dropWhile (\<lambda>v. pos v < pos new) (inorder t) @ after fs"
  using assms(1)
proof (induction t arbitrary: fs)
  case (Node l c v r)
  have a: "ascending pos (inorder l)" "ascending pos (inorder r)"
    and le: "\<And>x. x \<in> set (inorder l) \<Longrightarrow> pos x < pos v"
    using Node.prems by (auto simp: sorted_wrt_append)
  show ?case
  proof (cases "pos v < pos new")
    case True
    then have "\<forall>x \<in> set (inorder l). pos x < pos new"
      using le by (meson order.strict_trans)
    then show ?thesis
      using True Node.IH(2) [OF a(2)] by (simp add: assms(2))
  next
    case False
    then show ?thesis
      using Node.IH(1) [OF a(1)] by (simp add: assms(2) takeWhile_tail dropWhile_append3)
  qed
qed simp

subsection \<open>The invariant of the container\<close>

abbreviation elems :: "'v rb_tree \<Rightarrow> 'v list" where
  "elems t \<equiv> inorder (rb_root t)"

definition rb_inv :: "('v \<Rightarrow> 'k :: linorder) \<Rightarrow> 'v rb_tree \<Rightarrow> bool" where
  "rb_inv pos t \<longleftrightarrow> rb (rb_root t) \<and> ascending pos (elems t) \<and> rb_size t = length (elems t)
     \<and> rb_leftmost t = head_of (elems t) \<and> rb_rightmost t = last_of (elems t)"

lemma rb_inv_new: "rb_inv pos rb_new" "elems rb_new = []"
  by (simp_all add: rb_inv_def rb_new_def rb_def)

lemma inorder_Nil [simp]: "inorder t = [] \<longleftrightarrow> t = Null"
  by (cases t) simp_all

lemma rb_empty_iff: "rb_inv pos t \<Longrightarrow> rb_empty t \<longleftrightarrow> elems t = []"
  by (simp add: rb_inv_def rb_empty_def)

lemma rb_begin_eq: "rb_inv pos t \<Longrightarrow> rb_begin t = head_of (elems t)"
  by (simp add: rb_begin_def left_most_node_def rb_empty_def rb_inv_def)

lemma rb_find_eq:
  assumes "rb_inv pos t" "\<And>v. key_lt key v \<longleftrightarrow> k < pos v" "\<And>v. lt_key v key \<longleftrightarrow> pos v < k"
  shows "rb_find key_lt lt_key key t = find (\<lambda>v. pos v = k) (elems t)"
  using assms node_value_find [of pos "rb_root t" key_lt key k lt_key "[]"] rb_empty_iff [OF assms(1)]
  by (auto simp: rb_find_def rb_inv_def)

lemma rb_lower_bound_eq:
  assumes "rb_inv pos t" "\<And>v. lt_key v key \<longleftrightarrow> pos v < k"
  shows "rb_lower_bound lt_key key t = find (\<lambda>v. k \<le> pos v) (elems t)"
  using assms lower_bound_node_correct [of pos "rb_root t" lt_key key k None] rb_empty_iff [OF assms(1)]
  by (auto simp: rb_lower_bound_def rb_inv_def split: option.splits)

lemma rb_upper_bound_eq:
  assumes "rb_inv pos t" "\<And>v. key_lt key v \<longleftrightarrow> k < pos v"
  shows "rb_upper_bound key_lt key t = find (\<lambda>v. k < pos v) (elems t)"
  using assms upper_bound_node_correct [of pos "rb_root t" key_lt key k None]
  by (auto simp: rb_upper_bound_def rb_inv_def split: option.splits)

lemma ascending_insert:
  assumes "ascending pos xs" "pos new \<notin> pos ` set xs"
  shows "ascending pos (takeWhile (\<lambda>v. pos v < pos new) xs @ new # dropWhile (\<lambda>v. pos v < pos new) xs)"
  using assms
proof (induction xs)
  case (Cons x xs)
  then show ?case
  proof (cases "pos x < pos new")
    case True
    then have "\<forall>y \<in> set (takeWhile (\<lambda>v. pos v < pos new) xs @ new # dropWhile (\<lambda>v. pos v < pos new) xs). pos x < pos y"
      using Cons.prems(1) by (auto dest: set_takeWhileD set_dropWhileD)
    then show ?thesis
      using Cons True by auto
  next
    case False
    then have "pos new < pos x"
      using Cons.prems(2) by auto
    then show ?thesis
      using False Cons.prems(1) by (auto intro: order.strict_trans)
  qed
qed simp

lemma ascending_last: "ascending pos xs \<Longrightarrow> x \<in> set xs \<Longrightarrow> pos x \<le> pos (last xs)"
  by (induction xs) (auto intro: order.strict_implies_order)

lemma last_insert:
  assumes "ascending pos xs" "xs \<noteq> []"
  shows "last (takeWhile (\<lambda>v. pos v < p) xs @ new # dropWhile (\<lambda>v. pos v < p) xs)
    = (if pos (last xs) < p then new else last xs)"
proof (cases "dropWhile (\<lambda>v. pos v < p) xs = []")
  case True
  then have "pos (last xs) < p"
    using assms(2) by simp
  then show ?thesis
    using True by simp
next
  case False
  then have "\<not> pos (hd (dropWhile (\<lambda>v. pos v < p) xs)) < p"
    using hd_dropWhile [OF False] by simp
  moreover have "hd (dropWhile (\<lambda>v. pos v < p) xs) \<in> set xs"
    using False by (meson hd_in_set set_dropWhileD)
  ultimately have "\<not> pos (last xs) < p"
    using ascending_last [OF assms(1)] by (meson leD leI order.strict_trans1)
  moreover have "last (dropWhile (\<lambda>v. pos v < p) xs) = last xs"
    using False by (metis last_appendR takeWhile_dropWhile_id)
  ultimately show ?thesis
    using False by auto
qed

lemma find_SomeD: "find P xs = Some x \<Longrightarrow> x \<in> set xs \<and> P x"
  by (auto simp: find_Some_iff)

lemma emplace_extremes_correct:
  assumes "ascending pos xs" "\<And>a b. lt a b \<longleftrightarrow> pos a < pos b" "pos new \<notin> pos ` set xs"
    "ys = takeWhile (\<lambda>v. pos v < pos new) xs @ new # dropWhile (\<lambda>v. pos v < pos new) xs"
  shows "emplace_extremes lt new (head_of xs) (last_of xs) = (head_of ys, last_of ys)"
proof (cases xs)
  case Nil
  then show ?thesis
    using assms(4) by (simp add: emplace_extremes_def)
next
  case (Cons x zs)
  then have ne: "xs \<noteq> []" "ys \<noteq> []"
    using assms(4) by simp_all
  have neq: "pos (hd xs) \<noteq> pos new" "pos (last xs) \<noteq> pos new"
    using assms(3) ne(1) by (metis hd_in_set imageI, metis last_in_set imageI)
  have "hd ys = (if pos (hd xs) < pos new then hd xs else new)"
    using Cons assms(4) by simp
  moreover have "last ys = (if pos (last xs) < pos new then new else last xs)"
    using last_insert [OF assms(1) ne(1), of "pos new" new] assms(4) by simp
  ultimately show ?thesis
    using neq by (auto simp: emplace_extremes_def head_of_def last_of_def ne assms(2) Let_def)
qed

subsection \<open>The operations on the ordered values\<close>

text \<open>
  What the container asks of its comparator: it compares a position in a linear order. The
  laws below are what the clients of \<^verbatim>\<open>Set\<close> and \<^verbatim>\<open>Map\<close> rely on.
\<close>

locale ordered_tree =
  fixes lt :: "'v \<Rightarrow> 'v \<Rightarrow> bool"
    and pos :: "'v \<Rightarrow> 'k :: linorder"
  assumes lt_pos: "lt a b \<longleftrightarrow> pos a < pos b"
begin

lemma location_of_member:
  assumes "rb_inv pos t" "elems t = xs @ v # ys"
  obtains fs l c r where "location_of lt v t = (fs, Node l c v r)" "plug fs (Node l c v r) = rb_root t"
    "before fs @ inorder l = xs" "inorder r @ after fs = ys"
proof -
  have asc: "ascending pos (elems t)"
    using assms(1) by (simp add: rb_inv_def)
  have v: "v \<in> set (elems t)"
    using assms(2) by simp
  obtain fs t' where loc: "location_of lt v t = (fs, t')"
    by fastforce
  have "node_value t' = find (\<lambda>x. pos x = pos v) (elems t)"
    using node_value_find [OF asc, of lt v "pos v" lt "[]"] loc by (simp add: location_of_def lt_pos)
  moreover have "find (\<lambda>x. pos x = pos v) (elems t) = Some v"
  proof -
    obtain x where "find (\<lambda>x. pos x = pos v) (elems t) = Some x"
      using v by (fastforce simp: find_None_iff)
    then show ?thesis
      using ascending_unique [OF asc _ v, of x] find_SomeD by fastforce
  qed
  ultimately obtain l c r where t': "t' = Node l c v r"
    by (cases t') auto
  then have plug: "plug fs (Node l c v r) = rb_root t"
    using plug_find_node [of lt lt v "[]" "rb_root t" fs t'] loc by (simp add: location_of_def)
  then have "xs @ v # ys = (before fs @ inorder l) @ v # (inorder r @ after fs)"
    using assms(2) inorder_plug [of fs "Node l c v r"] by simp
  moreover have "v \<notin> set xs" "v \<notin> set ys"
    using ascending_distinct [OF asc] assms(2) by auto
  ultimately have "xs = before fs @ inorder l \<and> ys = inorder r @ after fs"
    by (intro append_Cons_eq_iff [THEN iffD1]) auto
  then show ?thesis
    using that loc t' plug by simp
qed

lemma rb_find_value: "rb_inv pos t \<Longrightarrow> rb_find lt lt v t = find (\<lambda>x. pos x = pos v) (elems t)"
  by (rule rb_find_eq) (simp_all add: lt_pos)

lemma rb_next_eq:
  assumes "rb_inv pos t" "elems t = xs @ v # ys"
  shows "rb_next lt (Some v) t = Inr (head_of ys)"
  using assms by (rule location_of_member) (simp add: rb_next_def successor_eq del: inorder_successor_of.simps)

lemma rb_prev_eq:
  assumes "rb_inv pos t" "elems t = xs @ v # ys"
  shows "rb_prev lt (Some v) t = Inr (last_of xs)"
  using assms by (rule location_of_member) (simp add: rb_prev_def predecessor_eq del: inorder_predecessor_of.simps)

lemma rb_prev_end: "rb_inv pos t \<Longrightarrow> rb_prev lt None t = Inr (last_of (elems t))"
  by (simp add: rb_prev_def rb_inv_def)

lemma rb_emplace_new:
  assumes inv: "rb_inv pos t" and new: "pos v \<notin> pos ` set (elems t)"
  shows "\<exists>t'. rb_emplace False lt v t = Inr (Some v, True, t') \<and> rb_inv pos t'
    \<and> elems t' = takeWhile (\<lambda>x. pos x < pos v) (elems t) @ v # dropWhile (\<lambda>x. pos x < pos v) (elems t)"
proof -
  let ?xs = "elems t"
  let ?ys = "takeWhile (\<lambda>x. pos x < pos v) ?xs @ v # dropWhile (\<lambda>x. pos x < pos v) ?xs"
  have asc: "ascending pos ?xs" and rb: "rb (rb_root t)"
    using inv by (simp_all add: rb_inv_def)
  have ne: "rb_find lt lt v t = None"
    using new rb_find_value [OF inv] by (auto simp: find_None_iff image_iff)
  have ext: "emplace_extremes lt v (rb_leftmost t) (rb_rightmost t) = (head_of ?ys, last_of ?ys)"
    using emplace_extremes_correct [OF asc lt_pos new refl] inv by (simp add: rb_inv_def)
  have asc': "ascending pos ?ys"
    by (rule ascending_insert [OF asc new])
  have len: "length ?ys = Suc (length ?xs)"
    by (metis length_append length_Cons add_Suc_right takeWhile_dropWhile_id)
  show ?thesis
  proof (cases "rb_root t = Null")
    case True
    then show ?thesis
      using ne ext by (auto simp: rb_emplace_def rb_inv_def rb_def)
  next
    case False
    let ?fs = "insert_location lt v [] (rb_root t)"
    have loc: "plug ?fs Null = rb_root t" "before ?fs = takeWhile (\<lambda>x. pos x < pos v) ?xs"
      "after ?fs = dropWhile (\<lambda>x. pos x < pos v) ?xs"
      using insert_location_correct [OF asc lt_pos, of v "[]"] by simp_all
    have "?fs \<noteq> []"
      using loc(1) False by (cases ?fs) auto
    moreover have "ctx ?fs 0"
      using rb loc(1) rb_plug_iff [of ?fs Null] by simp
    ultimately have "repairable ?fs (Node Null RED v Null)"
      by (simp add: repairable_def)
    then obtain t' where t': "fix_insertion ?fs (Node Null RED v Null) = Inr t'" "rb t'" "inorder t' = ?ys"
      using fix_insertion_correct [of ?fs "Node Null RED v Null"] loc by auto
    then show ?thesis
      using ne ext False asc' len inv by (auto simp: rb_emplace_def rb_inv_def)
  qed
qed

lemma rb_emplace_present:
  assumes "rb_inv pos t" "x \<in> set (elems t)" "pos x = pos v"
  shows "rb_emplace False lt v t = Inr (Some x, False, t)"
proof -
  have "find (\<lambda>y. pos y = pos v) (elems t) \<noteq> None"
    using assms(2,3) by (auto simp: find_None_iff)
  then obtain y where y: "find (\<lambda>y. pos y = pos v) (elems t) = Some y"
    by blast
  then have "y \<in> set (elems t)" "pos y = pos v"
    by (auto simp: find_Some_iff)
  then have "y = x"
    using ascending_unique assms by (metis rb_inv_def)
  then show ?thesis
    using rb_find_value [OF assms(1), of v] y by (simp add: rb_emplace_def)
qed

lemma rb_remove_eq:
  assumes inv: "rb_inv pos t" and elems: "elems t = xs @ v # ys"
  shows "\<exists>t'. rb_remove lt (Some v) t = Inr t' \<and> rb_inv pos t' \<and> elems t' = xs @ ys"
proof -
  obtain fs l c r where loc: "location_of lt v t = (fs, Node l c v r)" "plug fs (Node l c v r) = rb_root t"
    "before fs @ inorder l = xs" "inorder r @ after fs = ys"
    using location_of_member [OF assms] .
  have rb: "rb (plug fs (Node l c v r))" and sz: "rb_size t = length (inorder (plug fs (Node l c v r)))"
    using inv loc(2) by (simp_all add: rb_inv_def)
  obtain root where root: "remove_node (rb_size t) (fs, Node l c v r) = Inr (root, rb_size t - 1)" "rb root"
    "inorder root = xs @ ys"
    using remove_node_correct [OF rb sz] loc(3,4) by auto
  have asc: "ascending pos (xs @ v # ys)"
    using inv elems by (simp add: rb_inv_def)
  have notin: "v \<notin> set xs" "v \<notin> set ys"
    using ascending_distinct [OF asc] by auto
  have one: "fs = [] \<and> rb_size t = 1 \<longleftrightarrow> xs = [] \<and> ys = []"
    using sz loc(3,4) inv elems by (cases fs rule: before.cases) (auto simp: rb_inv_def)
  have lm: "left_most_node t = head_of (xs @ v # ys)" "right_most_node t = last_of (xs @ v # ys)"
    using inv elems by (auto simp: left_most_node_def right_most_node_def rb_inv_def rb_empty_def)
  have ext: "rb_leftmost t = head_of (xs @ v # ys)" "rb_rightmost t = last_of (xs @ v # ys)"
    using inv elems by (auto simp: rb_inv_def)
  have succ: "inorder_successor_of (fs, Node l c v r) = Inr (head_of ys)"
    "inorder_predecessor_of (fs, Node l c v r) = Inr (last_of xs)"
    using loc(3,4) by (simp_all add: successor_eq predecessor_eq del: inorder_successor_of.simps inorder_predecessor_of.simps)
  have "Some v = head_of (xs @ v # ys) \<longleftrightarrow> xs = []" "Some v = last_of (xs @ v # ys) \<longleftrightarrow> ys = []"
    using notin by (cases xs; cases ys rule: rev_cases; auto simp: last_of_def)+
  then have run: "rb_remove lt (Some v) t = Inr \<lparr>rb_root = root, rb_leftmost = head_of (xs @ ys),
      rb_rightmost = last_of (xs @ ys), rb_size = rb_size t - 1\<rparr>"
    using root(1) one succ lm ext loc(1)
    by (auto simp: rb_remove_def Let_def head_of_append last_of_def
        simp del: inorder_successor_of.simps inorder_predecessor_of.simps)
  moreover have "ascending pos (xs @ ys)"
    using asc by (auto simp: sorted_wrt_append)
  moreover have "rb_size t = Suc (length (xs @ ys))"
    using inv elems by (simp add: rb_inv_def)
  ultimately show ?thesis
    using root(2,3) by (auto simp: rb_inv_def)
qed

end

subsection \<open>Moving a tree\<close>

text \<open>
  The move constructor takes the root and the size and leaves the super root of the new
  tree untouched; the moved-from tree keeps its super root.
\<close>

definition rb_move :: "'v rb_tree \<Rightarrow> 'v rb_tree \<times> 'v rb_tree" where
  "rb_move other =
     (\<lparr>rb_root = rb_root other, rb_leftmost = None, rb_rightmost = None, rb_size = rb_size other\<rparr>,
      other\<lparr>rb_root := Null, rb_size := 0\<rparr>)"

definition rb_move_assign :: "'v rb_tree \<Rightarrow> 'v rb_tree \<Rightarrow> 'v rb_tree \<times> 'v rb_tree" where
  "rb_move_assign t other =
     (t\<lparr>rb_root := rb_root other, rb_size := rb_size other\<rparr>,
      other\<lparr>rb_root := rb_root t, rb_size := rb_size t\<rparr>)"

lemma rb_move_loses_begin:
  assumes "rb_inv pos t" "elems t \<noteq> []"
  shows "elems (fst (rb_move t)) = elems t" "rb_begin (fst (rb_move t)) \<noteq> rb_begin t"
  using assms by (auto simp: rb_move_def rb_begin_eq [OF assms(1)] rb_begin_def left_most_node_def
      rb_empty_def rb_inv_def head_of_def)

lemma recursive_copy_all_id [simp]: "recursive_copy_all t = t"
  by (induction t) simp_all

lemma find_member:
  assumes "ascending pos xs" "x \<in> set xs"
  shows "find (\<lambda>y. pos y = pos x) xs = Some x"
proof -
  obtain y where y: "find (\<lambda>y. pos y = pos x) xs = Some y"
    using assms(2) by (fastforce simp: find_None_iff)
  then have "y = x"
    using ascending_unique [OF assms(1) _ assms(2)] find_SomeD by fastforce
  then show ?thesis
    using y by simp
qed

lemma rb_become_correct:
  assumes "\<And>a b. lt a b \<longleftrightarrow> pos a < pos b" "rb_inv pos other" "elems other \<noteq> []"
  shows "rb_become lt other t = Inr other"
proof -
  let ?copied = "\<lparr>rb_root = rb_root other, rb_leftmost = None, rb_rightmost = None, rb_size = rb_size other\<rparr>"
  have inv: "rb (rb_root other)" "ascending pos (elems other)" "rb_size other = length (elems other)"
    "rb_leftmost other = Some (hd (elems other))" "rb_rightmost other = Some (last (elems other))"
    using assms(2,3) by (auto simp: rb_inv_def head_of_def last_of_def)
  have "rb_find lt lt v ?copied = Some v" if "v \<in> set (elems other)" for v
    using node_value_find [OF inv(2), of lt v "pos v" lt "[]"] find_member [OF inv(2) that] assms(1,3) inv(3)
    by (simp add: rb_find_def rb_empty_def)
  then show ?thesis
    using inv assms(3) hd_in_set [OF assms(3)] last_in_set [OF assms(3)]
    by (cases other) (simp add: rb_become_def rb_empty_def)
qed

subsection \<open>Depth\<close>

fun depth :: "'v tree \<Rightarrow> nat" where
  "depth Null = 0"
| "depth (Node l c v r) = Suc (max (depth l) (depth r))"

lemma depth_le:
  "invc t \<Longrightarrow> invh t \<Longrightarrow> depth t \<le> 2 * bheight t + (if node_color t = RED then 1 else 0)"
  by (induction t) (auto split: if_splits)

lemma exp_bheight_le: "invh t \<Longrightarrow> 2 ^ bheight t \<le> Suc (length (inorder t))"
proof (induction t)
  case (Node l c v r)
  then show ?case
    by (auto simp: mult_2)
qed simp

subsection \<open>Properties\<close>

text \<open>
  C22: inserting into a tree with a comparator that compares positions never faults. A value
  whose position is free goes to its place in the ascending order of the values, and the
  tree stays a red-black tree with a correct size and correct left-most and right-most
  nodes; otherwise the tree is unchanged and the iterator is the node in the way.
\<close>

theorem rb_emplace_correct:
  assumes "\<forall>a b. lt a b \<longleftrightarrow> pos a < (pos b :: 'k :: linorder)" and "rb_inv pos t"
  shows "case find (\<lambda>x. pos x = pos v) (elems t) of
      Some x \<Rightarrow> rb_emplace False lt v t = Inr (Some x, False, t)
    | None \<Rightarrow> \<exists>t'. rb_emplace False lt v t = Inr (Some v, True, t') \<and> rb_inv pos t'
        \<and> elems t' = takeWhile (\<lambda>x. pos x < pos v) (elems t) @ v # dropWhile (\<lambda>x. pos x < pos v) (elems t)"
proof -
  have ord: "ordered_tree lt pos"
    using assms(1) by (simp add: ordered_tree_def)
  show ?thesis
  proof (cases "find (\<lambda>x. pos x = pos v) (elems t)")
    case None
    then have "pos v \<notin> pos ` set (elems t)"
      by (auto simp: find_None_iff image_iff)
    with None show ?thesis
      using ordered_tree.rb_emplace_new [OF ord assms(2)] by simp
  next
    case (Some x)
    then show ?thesis
      using ordered_tree.rb_emplace_present [OF ord assms(2), of x v] find_SomeD by fastforce
  qed
qed

theorem rb_emplace_correct_witness:
  "\<exists>t. rb_emplace False (<) (5 :: nat) rb_new = Inr (Some 5, True, t) \<and> rb_inv id t \<and> elems t = [5]"
  using rb_emplace_correct [of "(<)" "id :: nat \<Rightarrow> nat" rb_new 5] rb_inv_new(1) [where pos = "id :: nat \<Rightarrow> nat"]
  by (simp add: rb_new_def)

text \<open>
  C16: removing the node of an iterator removes exactly its value from the ascending order,
  and the result is again a red-black tree with a correct size and correct left-most and
  right-most nodes.
\<close>

theorem rb_remove_correct:
  assumes "\<forall>a b. lt a b \<longleftrightarrow> pos a < (pos b :: 'k :: linorder)" and "rb_inv pos t"
    and "elems t = xs @ v # ys"
  shows "\<exists>t'. rb_remove lt (Some v) t = Inr t' \<and> rb_inv pos t' \<and> elems t' = xs @ ys"
  using assms by (intro ordered_tree.rb_remove_eq) (simp_all add: ordered_tree_def)

theorem rb_remove_correct_witness:
  "\<exists>t'. rb_remove (<) (Some 7) \<lparr>rb_root = Node (Node Null RED 5 Null) BLACK (7 :: nat) Null,
       rb_leftmost = Some 5, rb_rightmost = Some 7, rb_size = 2\<rparr> = Inr t' \<and> rb_inv id t' \<and> elems t' = [5]"
  using rb_remove_correct [of "(<)" "id :: nat \<Rightarrow> nat" "\<lparr>rb_root = Node (Node Null RED 5 Null) BLACK 7 Null,
       rb_leftmost = Some 5, rb_rightmost = Some 7, rb_size = 2\<rparr>" "[5]" 7 "[]"]
  by (simp add: rb_inv_def rb_def last_of_def)

text \<open>
  C32: searching and walking agree with the ascending list of values: \<^verbatim>\<open>lower_bound\<close>
  is the first value not below the key, \<^verbatim>\<open>upper_bound\<close> the first above it,
  \<^verbatim>\<open>find\<close> the value at the key, and \<^verbatim>\<open>++\<close> and \<^verbatim>\<open>--\<close> go to the neighbours,
  from \<^verbatim>\<open>end()\<close> back to the last value.
\<close>

theorem rb_search_correct:
  assumes "\<forall>a b. lt a b \<longleftrightarrow> pos a < (pos b :: 'k :: linorder)"
    and "\<forall>v. key_lt key v \<longleftrightarrow> k < pos v" and "\<forall>v. lt_key v key \<longleftrightarrow> pos v < k" and "rb_inv pos t"
  shows "rb_find key_lt lt_key key t = find (\<lambda>v. pos v = k) (elems t)
    \<and> rb_lower_bound lt_key key t = find (\<lambda>v. k \<le> pos v) (elems t)
    \<and> rb_upper_bound key_lt key t = find (\<lambda>v. k < pos v) (elems t)
    \<and> rb_begin t = head_of (elems t) \<and> rb_prev lt None t = Inr (last_of (elems t))
    \<and> (\<forall>xs v ys. elems t = xs @ v # ys \<longrightarrow>
         rb_next lt (Some v) t = Inr (head_of ys) \<and> rb_prev lt (Some v) t = Inr (last_of xs))"
proof -
  have ord: "ordered_tree lt pos"
    using assms(1) by (simp add: ordered_tree_def)
  have srch: "rb_find key_lt lt_key key t = find (\<lambda>v. pos v = k) (elems t)"
    "rb_lower_bound lt_key key t = find (\<lambda>v. k \<le> pos v) (elems t)"
    "rb_upper_bound key_lt key t = find (\<lambda>v. k < pos v) (elems t)"
    using assms(2-4) by (auto intro!: rb_find_eq rb_lower_bound_eq rb_upper_bound_eq)
  show ?thesis
    using srch
      rb_begin_eq [OF assms(4)] ordered_tree.rb_prev_end [OF ord assms(4)]
      ordered_tree.rb_next_eq [OF ord assms(4)] ordered_tree.rb_prev_eq [OF ord assms(4)]
    by blast
qed

theorem rb_search_correct_witness:
  "rb_lower_bound (<) 6 \<lparr>rb_root = Node (Node Null RED 5 Null) BLACK (7 :: nat) Null,
       rb_leftmost = Some 5, rb_rightmost = Some 7, rb_size = 2\<rparr> = Some 7"
  using rb_search_correct [of "(<)" id "(<)" 6 6 "(<)" "\<lparr>rb_root = Node (Node Null RED 5 Null) BLACK (7 :: nat) Null,
       rb_leftmost = Some 5, rb_rightmost = Some 7, rb_size = 2\<rparr>"]
  by (simp add: rb_inv_def rb_def last_of_def)

lemma depth_bound:
  assumes "rb_inv pos t"
  shows "2 ^ ((depth (rb_root t) + 1) div 2) \<le> rb_size t + 1"
proof -
  have inv: "invc (rb_root t)" "invh (rb_root t)" "node_color (rb_root t) = BLACK"
    "rb_size t = length (elems t)"
    using assms by (simp_all add: rb_inv_def rb_def)
  have "(depth (rb_root t) + 1) div 2 \<le> bheight (rb_root t)"
    using depth_le [OF inv(1,2)] inv(3) by simp
  then have "(2 :: nat) ^ ((depth (rb_root t) + 1) div 2) \<le> 2 ^ bheight (rb_root t)"
    by (rule power_increasing) simp
  then show ?thesis
    using exp_bheight_le [OF inv(2)] unfolding inv(4) by linarith
qed

text \<open>Sequences of insertions and removals, and what they do to a set of values.\<close>

datatype 'v tree_call = Emplace 'v | Remove 'v

fun rb_run :: "('v \<Rightarrow> 'v \<Rightarrow> bool) \<Rightarrow> 'v tree_call list \<Rightarrow> 'v rb_tree \<Rightarrow> 'v rb_tree res" where
  "rb_run lt [] t = Inr t"
| "rb_run lt (Emplace v # cs) t = bind_res (rb_emplace False lt v t) (\<lambda>(it, inserted, t'). rb_run lt cs t')"
| "rb_run lt (Remove v # cs) t = bind_res (rb_remove_key lt lt lt v t) (rb_run lt cs)"

fun set_after :: "('v \<Rightarrow> 'k) \<Rightarrow> 'v tree_call list \<Rightarrow> 'v set \<Rightarrow> 'v set" where
  "set_after pos [] S = S"
| "set_after pos (Emplace v # cs) S = set_after pos cs (if pos v \<in> pos ` S then S else insert v S)"
| "set_after pos (Remove v # cs) S = set_after pos cs {x \<in> S. pos x \<noteq> pos v}"

lemma rb_run_inv:
  assumes ord: "ordered_tree lt pos" and "rb_inv pos t"
  shows "\<exists>t'. rb_run lt cs t = Inr t' \<and> rb_inv pos t' \<and> set (elems t') = set_after pos cs (set (elems t))"
  using assms(2)
proof (induction cs arbitrary: t)
  case Nil
  then show ?case
    by simp
next
  case (Cons c cs)
  have asc: "ascending pos (elems t)"
    using Cons.prems by (simp add: rb_inv_def)
  show ?case
  proof (cases c)
    case (Emplace v)
    show ?thesis
    proof (cases "pos v \<in> pos ` set (elems t)")
      case True
      then obtain x where "x \<in> set (elems t)" "pos x = pos v"
        by (metis imageE)
      then show ?thesis
        using ordered_tree.rb_emplace_present [OF ord Cons.prems] Cons.IH [OF Cons.prems] Emplace True by auto
    next
      case False
      obtain t' where t': "rb_emplace False lt v t = Inr (Some v, True, t')" "rb_inv pos t'"
          "elems t' = takeWhile (\<lambda>x. pos x < pos v) (elems t) @ v # dropWhile (\<lambda>x. pos x < pos v) (elems t)"
        using ordered_tree.rb_emplace_new [OF ord Cons.prems False] by blast
      then have "set (elems t') = insert v (set (elems t))"
        by (metis (no_types) list.simps(15) set_append takeWhile_dropWhile_id Un_insert_right)
      then show ?thesis
        using Cons.IH [OF t'(2)] Emplace False t'(1) by auto
    qed
  next
    case (Remove v)
    show ?thesis
    proof (cases "find (\<lambda>x. pos x = pos v) (elems t)")
      case None
      then have "{x \<in> set (elems t). pos x \<noteq> pos v} = set (elems t)"
        by (auto simp: find_None_iff)
      then show ?thesis
        using Cons.IH [OF Cons.prems] Remove None ordered_tree.rb_find_value [OF ord Cons.prems] by (simp add: rb_remove_key_def)
    next
      case (Some x)
      then have x: "x \<in> set (elems t)" "pos x = pos v"
        using find_SomeD by fastforce+
      then obtain xs ys where xs: "elems t = xs @ x # ys"
        by (meson split_list)
      then have "{y \<in> set (elems t). pos y \<noteq> pos v} = set (xs @ ys)"
        using asc x(2) by (auto simp: sorted_wrt_append)
      moreover obtain t1 where "rb_remove lt (Some x) t = Inr t1" "rb_inv pos t1" "elems t1 = xs @ ys"
        using ordered_tree.rb_remove_eq [OF ord Cons.prems xs] by blast
      ultimately show ?thesis
        using Cons.IH [of t1] Remove Some ordered_tree.rb_find_value [OF ord Cons.prems] by (simp add: rb_remove_key_def)
    qed
  qed
qed

text \<open>
  C30: any sequence of insertions and removals on a new tree, ordered by a strict order, ends
  without a fault in a tree with the red-black, order, size and end-pointer invariants. The tree holds the
  values that a set would hold, and its depth is at most twice the logarithm of its size plus
  one, so that every descent is logarithmic.
\<close>

theorem rb_run_refines_set:
  assumes "\<forall>a b. lt a b \<longleftrightarrow> pos a < (pos b :: 'k :: linorder)"
  shows "\<exists>t. rb_run lt calls rb_new = Inr t \<and> rb_inv pos t \<and> set (elems t) = set_after pos calls {}
    \<and> 2 ^ ((depth (rb_root t) + 1) div 2) \<le> rb_size t + 1"
proof -
  have "ordered_tree lt pos"
    using assms by (simp add: ordered_tree_def)
  then obtain t where "rb_run lt calls rb_new = Inr t" "rb_inv pos t" "set (elems t) = set_after pos calls {}"
    using rb_run_inv [of lt pos rb_new calls] rb_inv_new by (metis empty_set)
  then show ?thesis
    using depth_bound by blast
qed

theorem rb_run_refines_set_witness:
  "\<exists>t. rb_run (<) [Emplace 5, Emplace (7 :: nat), Emplace 9, Remove 7, Emplace 5] rb_new = Inr t \<and> rb_inv id t \<and> set (elems t) = {5, 9}"
proof -
  have "set_after id [Emplace 5, Emplace (7 :: nat), Emplace 9, Remove 7, Emplace 5] {} = {5, 9}"
    by auto
  then show ?thesis
    using rb_run_refines_set [of "(<)" "id :: nat \<Rightarrow> nat" "[Emplace 5, Emplace 7, Emplace 9, Remove 7, Emplace 5]"] by auto
qed

end
