(* ===== verification/Virtual_Allocator.thy ===== *)
theory Virtual_Allocator
  imports Page_Range Red_Black_Tree
begin

text \<open>
  \<^verbatim>\<open>Kernel/Memory/VirtualAllocator.cpp\<close>: the allocator of virtual address ranges. Its
  state is the base range and a \<^verbatim>\<open>Set<Range>\<close>, the red-black tree ordered by the
  begin of a range. The allocated addresses are the union of the ranges of the tree. The
  lock makes every operation atomic.
\<close>

subsection \<open>The allocator\<close>

record virtual_allocator =
  va_base :: range
  va_ranges :: "range rb_tree"

definition virtual_allocator_new :: "addr \<Rightarrow> addr \<Rightarrow> virtual_allocator res" where
  "virtual_allocator_new b e =
     bind_res (mk_range b (e - b)) (\<lambda>base. Inr \<lparr>va_base = base, va_ranges = rb_new\<rparr>)"

definition va_reset_with :: "addr \<Rightarrow> addr \<Rightarrow> virtual_allocator \<Rightarrow> virtual_allocator res" where
  "va_reset_with b e va =
     bind_res (reset_with_two_pointers b e (va_base va)) (\<lambda>base.
       Inr (va\<lparr>va_base := base, va_ranges := rb_clear (va_ranges va)\<rparr>))"

definition va_contains_addr :: "addr \<Rightarrow> virtual_allocator \<Rightarrow> bool" where
  "va_contains_addr address va = contains_addr (va_base va) address"

definition va_contains :: "range \<Rightarrow> virtual_allocator \<Rightarrow> bool" where
  "va_contains r va \<longleftrightarrow> contains_addr (va_base va) (r_begin r) \<and> contains_addr (va_base va) (r_end r - 1)"

text \<open>The comparison of a range of the tree with an address, and of two ranges.\<close>

definition range_before_addr :: "range \<Rightarrow> addr \<Rightarrow> bool" where
  "range_before_addr r address \<longleftrightarrow> r_begin r < address"

text \<open>Dereferencing an iterator that is not \<^verbatim>\<open>end()\<close>.\<close>

definition deref :: "range option \<Rightarrow> range res" where
  "deref it = (case it of None \<Rightarrow> Inl Assertion | Some r \<Rightarrow> Inr r)"

definition is_allocated :: "addr \<Rightarrow> virtual_allocator \<Rightarrow> bool res" where
  "is_allocated address va =
     (if \<not> contains_addr (va_base va) address then Inr False
      else if rb_empty (va_ranges va) then Inr False
      else let it = rb_lower_bound range_before_addr address (va_ranges va)
           in bind_res (if it = None \<or> r_begin (the it) \<noteq> address
                        then if it = rb_begin (va_ranges va) then Inr None
                             else bind_res (rb_prev range_less it (va_ranges va)) (\<lambda>p. Inr (Some p))
                        else Inr (Some it)) (\<lambda>found.
              case found of
                None \<Rightarrow> Inr False
              | Some it' \<Rightarrow> bind_res (deref it') (\<lambda>r. Inr (contains_addr r address))))"

definition emplace_range_in :: "range \<Rightarrow> virtual_allocator \<Rightarrow> virtual_allocator res" where
  "emplace_range_in r va =
     bind_res (rb_emplace False range_less r (va_ranges va)) (\<lambda>(it, inserted, t). Inr (va\<lparr>va_ranges := t\<rparr>))"

definition remove_range_in :: "range option \<Rightarrow> virtual_allocator \<Rightarrow> virtual_allocator res" where
  "remove_range_in it va =
     bind_res (rb_remove range_less it (va_ranges va)) (\<lambda>t. Inr (va\<lparr>va_ranges := t\<rparr>))"

definition merge_and_emplace ::
  "range option \<Rightarrow> range option \<Rightarrow> range \<Rightarrow> virtual_allocator \<Rightarrow> virtual_allocator res" where
  "merge_and_emplace bef aft new_range va =
     (let before_mergeable = (case bef of None \<Rightarrow> False | Some b \<Rightarrow> r_end b = r_begin new_range);
          after_mergeable = (case aft of None \<Rightarrow> False | Some a \<Rightarrow> r_begin a = r_end new_range)
      in if before_mergeable \<and> after_mergeable
         then bind_res (from_two_pointers (r_begin (the bef)) (r_end (the aft))) (\<lambda>merged_range.
              bind_res (remove_range_in bef va) (\<lambda>va.
              bind_res (remove_range_in aft va) (emplace_range_in merged_range)))
         else if before_mergeable
         then bind_res (from_two_pointers (r_begin (the bef)) (r_end new_range)) (\<lambda>merged_range.
              bind_res (remove_range_in bef va) (emplace_range_in merged_range))
         else if after_mergeable
         then bind_res (from_two_pointers (r_begin new_range) (r_end (the aft))) (\<lambda>merged_range.
              bind_res (remove_range_in aft va) (emplace_range_in merged_range))
         else emplace_range_in new_range va)"

text \<open>
  The search for a gap, from the iterator \<open>aft\<close> on. The fuel bounds the number of steps of
  the iterator; the size of the tree is enough. The result is the allocated range, if
  there is one, the iterators around the gap and the begin of the last gap.
\<close>

fun find_gap ::
  "nat \<Rightarrow> size_t \<Rightarrow> size_t \<Rightarrow> range option \<Rightarrow> range option \<Rightarrow> addr \<Rightarrow> range rb_tree \<Rightarrow>
   (range option \<times> range option \<times> range option \<times> addr) res" where
  "find_gap fuel len alignment bef None gap_begin t = Inr (None, bef, None, gap_begin)"
| "find_gap 0 len alignment bef (Some r) gap_begin t = Inl Undefined"
| "find_gap (Suc fuel) len alignment bef (Some r) gap_begin t =
     bind_res (from_two_pointers gap_begin (r_begin r)) (\<lambda>gap.
     bind_res (aligned_to gap alignment) (\<lambda>potential_range.
       if range_empty potential_range \<or> range_length potential_range < len
       then bind_res (rb_next range_less (Some r) t) (\<lambda>nx.
              find_gap fuel len alignment (Some r) nx (r_end r) t)
       else Inr (Some (set_length len potential_range), bef, Some r, gap_begin)))"

definition va_allocate ::
  "size_t \<Rightarrow> size_t \<Rightarrow> virtual_allocator \<Rightarrow> (range \<times> virtual_allocator) res" where
  "va_allocate len alignment0 va =
     (let alignment = (if alignment0 < page_size then page_size else alignment0);
          rounded_up_length = page_round_up len;
          t = va_ranges va
      in if len = 0 then Inl Assertion
         else if alignment AND NOT page_alignment_mask \<noteq> 0 then Inl Assertion
         else if rounded_up_length < len then Inl Panic
         else if rb_empty t
         then bind_res (aligned_to (va_base va) alignment) (\<lambda>allocated_range.
                if range_empty allocated_range \<or> range_length allocated_range < rounded_up_length then Inl Panic
                else let r = set_length rounded_up_length allocated_range
                     in bind_res (emplace_range_in r va) (\<lambda>va'. Inr (r, va')))
         else bind_res (find_gap (rb_size t) rounded_up_length alignment None (rb_begin t) (r_begin (va_base va)) t)
           (\<lambda>(found, bef, aft, gap_begin).
             case found of
               Some r \<Rightarrow> bind_res (merge_and_emplace bef aft r va) (\<lambda>va'. Inr (r, va'))
             | None \<Rightarrow>
                 bind_res (from_two_pointers gap_begin (r_end (va_base va))) (\<lambda>gap.
                 bind_res (aligned_to gap alignment) (\<lambda>potential_range.
                   if range_empty potential_range \<or> range_length potential_range < rounded_up_length
                   then Inl Panic
                   else bind_res (rb_prev range_less None t) (\<lambda>bef'.
                        let r = set_length rounded_up_length potential_range
                        in bind_res (merge_and_emplace bef' aft r va) (\<lambda>va'. Inr (r, va')))))))"

definition va_allocate_range :: "range \<Rightarrow> virtual_allocator \<Rightarrow> (range \<times> virtual_allocator) res" where
  "va_allocate_range r0 va =
     (let b = page_round_down (r_begin r0);
          len = page_round_up (range_length r0 + r_begin r0 - b);
          t = va_ranges va
      in if range_empty r0 then Inl Assertion
         else if \<not> va_contains r0 va then Inl Assertion
         else bind_res (mk_range b len) (\<lambda>r.
           if rb_empty t then bind_res (emplace_range_in r va) (\<lambda>va'. Inr (r, va'))
           else
             let lb = rb_lower_bound range_less r t
             in bind_res
                  (if lb = None \<or> r_begin (the lb) \<noteq> r_begin r
                   then if lb \<noteq> rb_begin t
                        then bind_res (rb_prev range_less lb t) (\<lambda>p. Inr (p, lb))
                        else Inr (None, lb)
                   else bind_res (rb_next range_less lb t) (\<lambda>nx. Inr (lb, nx))) (\<lambda>(it, aft).
                if aft \<noteq> None \<and> contains_addr (the aft) (r_end r - 1) then Inl Panic
                else if it \<noteq> None \<and> (r_begin (the it) = r_begin r \<or> contains_addr (the it) (r_begin r))
                then Inl Panic
                else bind_res (merge_and_emplace it aft r va) (\<lambda>va'. Inr (r, va')))))"

definition va_deallocate :: "range \<Rightarrow> virtual_allocator \<Rightarrow> virtual_allocator res" where
  "va_deallocate r va =
     (let t = va_ranges va
      in if \<not> page_is_aligned (r_begin r) then Inl Assertion
         else if \<not> page_is_aligned (range_length r) then Inl Assertion
         else if \<not> va_contains r va then Inl Panic
         else if rb_empty t then Inl Panic
         else let lb = rb_lower_bound range_less r t
              in bind_res (if lb = None \<or> r_begin (the lb) \<noteq> r_begin r
                           then if lb = rb_begin t then Inl Panic else rb_prev range_less lb t
                           else Inr lb) (\<lambda>it.
                 if it = None \<or> \<not> contains_range (the it) r then Inl Panic
                 else bind_res (clipped_with_end (the it) (r_begin r)) (\<lambda>range_before.
                      bind_res (clipped_with_begin (the it) (r_end r)) (\<lambda>range_after.
                      bind_res (remove_range_in it va) (\<lambda>va1.
                      bind_res (if \<not> range_empty range_before then emplace_range_in range_before va1 else Inr va1)
                        (\<lambda>va2. if \<not> range_empty range_after then emplace_range_in range_after va2 else Inr va2))))))"

subsection \<open>The tree of ranges\<close>

text \<open>
  The allocator's set orders its ranges by their begin, so it is an ordered tree. Three
  facts on positions in such a tree carry the proofs below.
\<close>

context ordered_tree
begin

lemma rb_emplace_between:
  assumes "rb_inv pos t" "elems t = xs @ ys"
    and "\<And>x. x \<in> set xs \<Longrightarrow> pos x < pos v" "\<And>y. y \<in> set ys \<Longrightarrow> pos v < pos y"
  shows "\<exists>t'. rb_emplace False lt v t = Inr (Some v, True, t') \<and> rb_inv pos t' \<and> elems t' = xs @ v # ys"
proof -
  have "pos v \<notin> pos ` set (elems t)"
    using assms(2-4) by (metis Un_iff imageE less_irrefl set_append)
  moreover have "takeWhile (\<lambda>x. pos x < pos v) (elems t) = xs"
    "dropWhile (\<lambda>x. pos x < pos v) (elems t) = ys"
    using assms(2-4) by (cases ys; fastforce simp: takeWhile_append2 dropWhile_append2)+
  ultimately show ?thesis
    using rb_emplace_new [OF assms(1), of v] by simp
qed

lemma rb_lower_bound_split:
  assumes "rb_inv pos t" "\<And>v. lt_key v key \<longleftrightarrow> pos v < k"
  obtains xs ys where "elems t = xs @ ys" "rb_lower_bound lt_key key t = head_of ys"
    "\<And>x. x \<in> set xs \<Longrightarrow> pos x < k" "\<And>y. y \<in> set ys \<Longrightarrow> k \<le> pos y"
proof
  let ?xs = "takeWhile (\<lambda>v. pos v < k) (elems t)" and ?ys = "dropWhile (\<lambda>v. pos v < k) (elems t)"
  have asc: "ascending pos (elems t)"
    using assms(1) by (simp add: rb_inv_def)
  show "elems t = ?xs @ ?ys"
    by simp
  have "find (\<lambda>v. k \<le> pos v) zs = head_of (dropWhile (\<lambda>v. pos v < k) zs)" for zs
    by (induction zs) auto
  then show "rb_lower_bound lt_key key t = head_of ?ys"
    using rb_lower_bound_eq [of pos t lt_key key k] assms by simp
  show "x \<in> set ?xs \<Longrightarrow> pos x < k" for x
    by (auto dest: set_takeWhileD)
  have "k \<le> pos y" if "ascending pos zs" "y \<in> set (dropWhile (\<lambda>v. pos v < k) zs)" for y zs
    using that by (induction zs) (auto split: if_splits dest: order.strict_trans1 [OF leI])
  then show "y \<in> set ?ys \<Longrightarrow> k \<le> pos y" for y
    using asc by blast
qed

lemma rb_prev_split:
  assumes "rb_inv pos t" "elems t = xs @ ys"
  shows "rb_prev lt (head_of ys) t = Inr (last_of xs)"
  using rb_prev_eq [OF assms(1), of xs "hd ys" "tl ys"] rb_prev_end [OF assms(1)] assms(2)
  by (cases ys) simp_all

lemma rb_begin_split:
  assumes "rb_inv pos t" "elems t = xs @ ys"
  shows "head_of ys = rb_begin t \<longleftrightarrow> xs = []"
proof -
  have "distinct (xs @ ys)"
    using assms ascending_distinct [of pos "xs @ ys"] by (simp add: rb_inv_def)
  then show ?thesis
    using assms(2) rb_begin_eq [OF assms(1)] by (cases xs; cases ys) auto
qed

end

interpretation va_tree: ordered_tree "range_less :: range \<Rightarrow> range \<Rightarrow> bool" r_begin
  by unfold_locales (simp add: range_less_def)

subsection \<open>The invariant\<close>

text \<open>
  The ranges of the tree are non-empty, page aligned, inside the base range and separated
  by gaps: neighbours are always merged.
\<close>

definition range_ok :: "range \<Rightarrow> range \<Rightarrow> bool" where
  "range_ok base r \<longleftrightarrow> r_begin r < r_end r \<and> page_is_aligned (r_begin r) \<and> page_is_aligned (r_end r)
     \<and> r_begin base \<le> r_begin r \<and> r_end r \<le> r_end base"

definition gapped :: "range list \<Rightarrow> bool" where
  "gapped xs \<longleftrightarrow> sorted_wrt (\<lambda>l r. r_end l < r_begin r) xs"

definition va_inv :: "virtual_allocator \<Rightarrow> bool" where
  "va_inv va \<longleftrightarrow> wf_range (va_base va) \<and> rb_inv r_begin (va_ranges va)
     \<and> gapped (elems (va_ranges va)) \<and> list_all (range_ok (va_base va)) (elems (va_ranges va))"

definition addrs_of :: "range list \<Rightarrow> addr set" where
  "addrs_of xs = (\<Union>r \<in> set xs. addrs r)"

definition allocated_addrs :: "virtual_allocator \<Rightarrow> addr set" where
  "allocated_addrs va = addrs_of (elems (va_ranges va))"

lemma gapped_append:
  "gapped (xs @ ys) \<longleftrightarrow> gapped xs \<and> gapped ys \<and> (\<forall>x \<in> set xs. \<forall>y \<in> set ys. r_end x < r_begin y)"
  by (simp add: gapped_def sorted_wrt_append)

lemma gapped_Cons: "gapped (x # xs) \<longleftrightarrow> (\<forall>y \<in> set xs. r_end x < r_begin y) \<and> gapped xs"
  by (simp add: gapped_def)

lemma gapped_Nil [simp]: "gapped []"
  by (simp add: gapped_def)

lemma addrs_of_simps [simp]:
  "addrs_of [] = {}" "addrs_of (x # xs) = addrs x \<union> addrs_of xs"
  "addrs_of (xs @ ys) = addrs_of xs \<union> addrs_of ys"
  by (auto simp: addrs_of_def)

lemma range_ok_lt: "range_ok base r \<Longrightarrow> r_begin r < r_end r"
  by (simp add: range_ok_def)

lemma emplace_range_in_between:
  assumes "rb_inv r_begin (va_ranges va)" "elems (va_ranges va) = xs @ ys"
    and "\<And>x. x \<in> set xs \<Longrightarrow> r_begin x < r_begin r" "\<And>y. y \<in> set ys \<Longrightarrow> r_begin r < r_begin y"
  shows "\<exists>t'. emplace_range_in r va = Inr (va\<lparr>va_ranges := t'\<rparr>) \<and> rb_inv r_begin t' \<and> elems t' = xs @ r # ys"
  using va_tree.rb_emplace_between [OF assms] by (auto simp: emplace_range_in_def)

lemma remove_range_in_eq:
  assumes "rb_inv r_begin (va_ranges va)" "elems (va_ranges va) = xs @ r # ys"
  shows "\<exists>t'. remove_range_in (Some r) va = Inr (va\<lparr>va_ranges := t'\<rparr>) \<and> rb_inv r_begin t' \<and> elems t' = xs @ ys"
  using va_tree.rb_remove_eq [OF assms] by (auto simp: remove_range_in_def)

text \<open>Replacing the ranges \<open>ms\<close> in the middle of the list by one range that covers them.\<close>

lemma va_inv_replace:
  assumes "va_inv va" "elems (va_ranges va) = xs @ ms @ ys" "rb_inv r_begin t'" "elems t' = xs @ r # ys"
    and "range_ok (va_base va) r"
    and "\<And>x. x \<in> set xs \<Longrightarrow> r_end x < r_begin r" "\<And>y. y \<in> set ys \<Longrightarrow> r_end r < r_begin y"
    and "addrs r = addrs n \<union> addrs_of ms"
  shows "va_inv (va\<lparr>va_ranges := t'\<rparr>)" "allocated_addrs (va\<lparr>va_ranges := t'\<rparr>) = allocated_addrs va \<union> addrs n"
  using assms by (auto simp: va_inv_def gapped_append gapped_Cons allocated_addrs_def)

text \<open>What an operation that adds the addresses \<open>A\<close> leaves behind.\<close>

definition va_adds :: "virtual_allocator \<Rightarrow> addr set \<Rightarrow> virtual_allocator \<Rightarrow> bool" where
  "va_adds va A va' \<longleftrightarrow> va_inv va' \<and> va_base va' = va_base va \<and> allocated_addrs va' = allocated_addrs va \<union> A"

lemma emplace_merged:
  assumes inv: "va_inv va" and el: "elems (va_ranges va) = xs @ ms @ ys"
    and t: "rb_inv r_begin t" "elems t = xs @ ys"
    and ok: "range_ok (va_base va) r"
    and ord: "\<And>x. x \<in> set xs \<Longrightarrow> r_end x < r_begin r" "\<And>y. y \<in> set ys \<Longrightarrow> r_end r < r_begin y"
    and cover: "addrs r = addrs n \<union> addrs_of ms"
  shows "\<exists>va'. emplace_range_in r (va\<lparr>va_ranges := t\<rparr>) = Inr va' \<and> va_adds va (addrs n) va'"
proof -
  have lt: "r_begin x < r_end x" if "x \<in> set xs" for x
    using inv el that by (auto simp: va_inv_def range_ok_def list_all_iff)
  have "r_begin x < r_begin r" if "x \<in> set xs" for x
    using lt [OF that] ord(1) [OF that] by (rule order.strict_trans)
  moreover have "r_begin r < r_begin y" if "y \<in> set ys" for y
    using range_ok_lt [OF ok] ord(2) [OF that] by (rule order.strict_trans)
  ultimately obtain t' where t': "emplace_range_in r (va\<lparr>va_ranges := t\<rparr>) = Inr (va\<lparr>va_ranges := t'\<rparr>)"
    "rb_inv r_begin t'" "elems t' = xs @ r # ys"
    using emplace_range_in_between [of "va\<lparr>va_ranges := t\<rparr>" xs ys r] t by auto
  with va_inv_replace [OF inv el t'(2,3) ok ord cover] show ?thesis
    by (simp add: va_adds_def)
qed

lemma touching_before:
  assumes "gapped xs" "\<forall>x \<in> set xs. r_begin x < r_end x" "\<forall>x \<in> set xs. r_end x \<le> r_begin n"
  obtains (touch) xs' b where "xs = xs' @ [b]" "r_end b = r_begin n" "\<And>x. x \<in> set xs' \<Longrightarrow> r_end x < r_begin b"
    | (apart) "\<And>x. x \<in> set xs \<Longrightarrow> r_end x < r_begin n" "\<And>b. last_of xs = Some b \<Longrightarrow> r_end b \<noteq> r_begin n"
proof (cases xs rule: rev_cases)
  case Nil
  then show ?thesis
    using apart by simp
next
  case (snoc xs' b)
  have *: "r_end x < r_begin b" if "x \<in> set xs'" for x
    using assms(1) that snoc by (simp add: gapped_append)
  have b: "r_begin b < r_end b" "r_end b \<le> r_begin n"
    using assms(2,3) snoc by simp_all
  show ?thesis
  proof (cases "r_end b = r_begin n")
    case True
    then show ?thesis
      using touch snoc * by blast
  next
    case False
    have "r_end x < r_begin n" if "x \<in> set xs" for x
      using that snoc b False * [of x] by auto
    then show ?thesis
      using apart False snoc by simp
  qed
qed

lemma touching_after:
  assumes "gapped ys" "\<forall>y \<in> set ys. r_begin y < r_end y" "\<forall>y \<in> set ys. r_end n \<le> r_begin y"
  obtains (touch) ys' a where "ys = a # ys'" "r_begin a = r_end n" "\<And>y. y \<in> set ys' \<Longrightarrow> r_end a < r_begin y"
    | (apart) "\<And>y. y \<in> set ys \<Longrightarrow> r_end n < r_begin y" "\<And>a. head_of ys = Some a \<Longrightarrow> r_begin a \<noteq> r_end n"
proof (cases ys)
  case Nil
  then show ?thesis
    using apart by simp
next
  case (Cons a ys')
  have *: "r_end a < r_begin y" if "y \<in> set ys'" for y
    using assms(1) that Cons by (simp add: gapped_Cons)
  have a: "r_begin a < r_end a" "r_end n \<le> r_begin a"
    using assms(2,3) Cons by simp_all
  show ?thesis
  proof (cases "r_begin a = r_end n")
    case True
    then show ?thesis
      using touch Cons * by blast
  next
    case False
    have "r_end n < r_begin y" if "y \<in> set ys" for y
      using that Cons a False * [of y] by auto
    then show ?thesis
      using apart False Cons by auto
  qed
qed

lemma addrs_join:
  "b \<le> m \<Longrightarrow> m \<le> e \<Longrightarrow> addrs \<lparr>r_begin = b, r_end = e\<rparr> = addrs \<lparr>r_begin = b, r_end = m\<rparr> \<union> addrs \<lparr>r_begin = m, r_end = e\<rparr>"
  by (auto simp: addrs_def)

lemma merge_and_emplace_adds:
  assumes inv: "va_inv va" and el: "elems (va_ranges va) = xs @ ys" and ok: "range_ok (va_base va) n"
    and ord: "\<forall>x \<in> set xs. r_end x \<le> r_begin n" "\<forall>y \<in> set ys. r_end n \<le> r_begin y"
  shows "\<exists>va'. merge_and_emplace (last_of xs) (head_of ys) n va = Inr va' \<and> va_adds va (addrs n) va'"
proof -
  have rb: "rb_inv r_begin (va_ranges va)" and g: "gapped xs" "gapped ys"
    and cross: "\<And>x y. x \<in> set xs \<Longrightarrow> y \<in> set ys \<Longrightarrow> r_end x < r_begin y"
    and oks: "\<And>x. x \<in> set xs \<union> set ys \<Longrightarrow> range_ok (va_base va) x"
    using inv el by (auto simp: va_inv_def gapped_append list_all_iff)
  have lt: "\<forall>x \<in> set xs. r_begin x < r_end x" "\<forall>x \<in> set ys. r_begin x < r_end x"
    using oks range_ok_lt by blast+
  note n = range_ok_lt [OF ok]
  from g(1) lt(1) ord(1) show ?thesis
  proof (cases rule: touching_before)
    case before: (touch xs' b)
    then have b: "range_ok (va_base va) b" "r_begin b < r_end b"
      using oks lt by auto
    obtain t1 where t1: "remove_range_in (Some b) va = Inr (va\<lparr>va_ranges := t1\<rparr>)" "rb_inv r_begin t1"
      "elems t1 = xs' @ ys"
      using remove_range_in_eq [OF rb, of xs' b ys] el before by auto
    from g(2) lt(2) ord(2) show ?thesis
    proof (cases rule: touching_after)
      case after: (touch ys' a)
      then have a: "range_ok (va_base va) a" "r_begin a < r_end a"
        using oks lt by auto
      obtain t2 where t2: "remove_range_in (Some a) (va\<lparr>va_ranges := t1\<rparr>) = Inr (va\<lparr>va_ranges := t2\<rparr>)"
        "rb_inv r_begin t2" "elems t2 = xs' @ ys'"
        using remove_range_in_eq [of "va\<lparr>va_ranges := t1\<rparr>" xs' a ys'] t1 after by auto
      let ?m = "\<lparr>r_begin = r_begin b, r_end = r_end a\<rparr>"
      have "range_ok (va_base va) ?m" "addrs ?m = addrs n \<union> addrs_of [b, a]"
        using a b n before(2) after(2) by (auto simp: range_ok_def addrs_def)
      from emplace_merged [OF inv _ t2(2,3) this(1) _ _ this(2)] show ?thesis
        using el before after t1 t2 a b n by (auto simp: merge_and_emplace_def from_two_pointers_def)
    next
      case after: apart
      let ?m = "\<lparr>r_begin = r_begin b, r_end = r_end n\<rparr>"
      have "range_ok (va_base va) ?m" "addrs ?m = addrs n \<union> addrs_of [b]"
        using b n ok before(2) by (auto simp: range_ok_def addrs_def)
      from emplace_merged [OF inv _ t1(2,3) this(1) _ _ this(2)] show ?thesis
        using el before after t1 b n by (auto simp: merge_and_emplace_def from_two_pointers_def split: option.splits)
    qed
  next
    case before: apart
    from g(2) lt(2) ord(2) show ?thesis
    proof (cases rule: touching_after)
      case after: (touch ys' a)
      then have a: "range_ok (va_base va) a" "r_begin a < r_end a"
        using oks lt by auto
      obtain t1 where t1: "remove_range_in (Some a) va = Inr (va\<lparr>va_ranges := t1\<rparr>)"
        "rb_inv r_begin t1" "elems t1 = xs @ ys'"
        using remove_range_in_eq [OF rb, of xs a ys'] el after by auto
      let ?m = "\<lparr>r_begin = r_begin n, r_end = r_end a\<rparr>"
      have "range_ok (va_base va) ?m" "addrs ?m = addrs n \<union> addrs_of [a]"
        using a n ok after(2) by (auto simp: range_ok_def addrs_def)
      from emplace_merged [OF inv _ t1(2,3) this(1) _ _ this(2)] show ?thesis
        using el before after t1 a n by (auto simp: merge_and_emplace_def from_two_pointers_def split: option.splits)
    next
      case after: apart
      have "addrs n = addrs n \<union> addrs_of []"
        by simp
      from emplace_merged [OF inv _ rb el ok before(1) after(1) this] show ?thesis
        using el before(2) after(2) by (auto simp: merge_and_emplace_def split: option.splits)
    qed
  qed
qed

subsection \<open>The search for a gap\<close>

text \<open>A block of \<open>len\<close> bytes at \<open>c\<close> lies between the addresses \<open>lo\<close> and \<open>hi\<close>.\<close>

definition block_in :: "addr \<Rightarrow> addr \<Rightarrow> size_t \<Rightarrow> addr \<Rightarrow> bool" where
  "block_in lo hi len c \<longleftrightarrow> lo \<le> c \<and> unat c + unat len \<le> unat hi"

definition aligned_at :: "size_t \<Rightarrow> addr \<Rightarrow> bool" where
  "aligned_at al c \<longleftrightarrow> unat c mod unat al = 0"

lemma set_length_block:
  assumes "r_end p = e" "r_begin p < r_end p" "\<not> range_length p < len"
  shows "block_in (r_begin p) e len (r_begin p)" "unat (r_end (set_length len p)) = unat (r_begin p) + unat len"
proof -
  have "unat len \<le> unat e - unat (r_begin p)"
    using assms unat_diff_word [OF less_imp_le, of "r_begin p" e]
    by (simp add: range_length_def not_less word_le_nat_alt)
  moreover have "unat (r_begin p) < unat e"
    using assms by (simp add: word_less_nat_alt)
  ultimately have *: "unat (r_begin p) + unat len \<le> unat e"
    by linarith
  then show "block_in (r_begin p) e len (r_begin p)"
    by (simp add: block_in_def)
  have "unat (r_begin p) + unat len < 2 ^ 64"
    using * unat_less_64 [of e] by linarith
  then show "unat (r_end (set_length len p)) = unat (r_begin p) + unat len"
    by (simp add: set_length_def unat_add_no_wrap)
qed

lemma gap_cases:
  assumes "al \<noteq> 0" "len \<noteq> 0" "lo \<le> hi"
  obtains (no) p where "aligned_to \<lparr>r_begin = lo, r_end = hi\<rparr> al = Inr p" "range_empty p \<or> range_length p < len"
      "\<And>c. aligned_at al c \<Longrightarrow> \<not> block_in lo hi len c"
    | (yes) p where "aligned_to \<lparr>r_begin = lo, r_end = hi\<rparr> al = Inr p" "\<not> (range_empty p \<or> range_length p < len)"
      "aligned_at al (r_begin p)" "block_in lo hi len (r_begin p)"
      "unat (r_end (set_length len p)) = unat (r_begin p) + unat len"
  using assms(1)
proof (cases rule: aligned_to_cases [where r = "\<lparr>r_begin = lo, r_end = hi\<rparr>"])
  case (some p)
  note p = some(2-4) [simplified]
  show ?thesis
  proof (cases "range_length p < len")
    case True
    have "\<not> block_in lo hi len c" if "aligned_at al c" for c
    proof
      assume blk: "block_in lo hi len c"
      then have "r_begin p \<le> c"
        using some(6) [of c] that by (simp add: block_in_def aligned_at_def)
      moreover have "unat (range_length p) = unat hi - unat (r_begin p)"
        using p unat_diff_word [of "r_begin p" hi] by (simp add: range_length_def)
      ultimately show False
        using True blk p by (auto simp: block_in_def word_less_nat_alt word_le_nat_alt)
    qed
    with True some(1) show ?thesis
      using no by blast
  next
    case False
    have "\<not> range_empty p"
      using p by (auto simp: range_empty_def)
    moreover note set_length_block [OF p(1) some(4) False]
    ultimately show ?thesis
      using yes [OF some(1)] some(5) p False by (simp add: block_in_def aligned_at_def)
  qed
next
  case none
  have "\<not> block_in lo hi len c" if "aligned_at al c" for c
    using none(2) [of c] that assms(2)
    by (auto simp: block_in_def aligned_at_def addrs_def word_less_nat_alt unat_gt_0 [symmetric])
  with none(1) show ?thesis
    using no [of empty_range] by (simp add: range_defs)
qed

text \<open>The begin of the gap after the ranges \<open>xs\<close>.\<close>

definition gap_begin_of :: "range \<Rightarrow> range list \<Rightarrow> addr" where
  "gap_begin_of base xs = (if xs = [] then r_begin base else r_end (last xs))"

definition va_ok :: "range \<Rightarrow> range list \<Rightarrow> bool" where
  "va_ok base xs \<longleftrightarrow> wf_range base \<and> gapped xs \<and> list_all (range_ok base) xs"

lemma gap_begin_of_ge:
  assumes "va_ok base (xs @ ys)" "x \<in> set xs"
  shows "r_end x \<le> gap_begin_of base xs"
proof (cases xs rule: rev_cases)
  case (snoc zs z)
  then have "range_ok base z" "x \<in> set zs \<Longrightarrow> r_end x < r_begin z"
    using assms by (auto simp: va_ok_def gapped_append)
  then show ?thesis
    using assms(2) snoc by (auto simp: gap_begin_of_def dest: range_ok_lt)
qed (use assms in simp)

lemma gap_begin_of_bounds:
  assumes "va_ok base (xs @ ys)"
  shows "r_begin base \<le> gap_begin_of base xs" "gap_begin_of base xs \<le> r_end base"
    and "y \<in> set ys \<Longrightarrow> gap_begin_of base xs \<le> r_begin y"
proof -
  have oks: "range_ok base x" if "x \<in> set xs \<union> set ys" for x
    using assms that by (auto simp: va_ok_def list_all_iff)
  have wf: "r_begin base \<le> r_end base"
    using assms by (simp add: va_ok_def wf_range_def)
  show "r_begin base \<le> gap_begin_of base xs" "gap_begin_of base xs \<le> r_end base"
    using oks [of "last xs"] wf by (auto simp: gap_begin_of_def range_ok_def)
  show "gap_begin_of base xs \<le> r_begin y" if "y \<in> set ys"
    using oks [of y] that assms
    by (auto simp: gap_begin_of_def range_ok_def va_ok_def gapped_append intro: less_imp_le)
qed

lemma find_gap_correct:
  assumes inv: "rb_inv r_begin t" and ok: "va_ok base (elems t)" and al: "al \<noteq> 0" "len \<noteq> 0"
    and "elems t = xs @ ys" "length ys \<le> fuel"
  obtains (found) r xs' y ys' where
      "find_gap fuel len al (last_of xs) (head_of ys) (gap_begin_of base xs) t
         = Inr (Some r, last_of xs', Some y, gap_begin_of base xs')"
      "elems t = xs' @ y # ys'" "aligned_at al (r_begin r)" "block_in (gap_begin_of base xs') (r_begin y) len (r_begin r)"
      "unat (r_end r) = unat (r_begin r) + unat len"
    | (none) "find_gap fuel len al (last_of xs) (head_of ys) (gap_begin_of base xs) t
         = Inr (None, last_of (elems t), None, gap_begin_of base (elems t))"
      "\<And>xs' y ys' c. ys = xs' @ y # ys' \<Longrightarrow> aligned_at al c \<Longrightarrow>
         \<not> block_in (gap_begin_of base (xs @ xs')) (r_begin y) len c"
  using assms(5,6)
proof (induction ys arbitrary: xs fuel thesis)
  case Nil
  then show ?case
    by simp
next
  case (Cons y ys)
  obtain fuel' where fuel: "fuel = Suc fuel'" "length ys \<le> fuel'"
    using Cons.prems(4) by (cases fuel) auto
  have le: "gap_begin_of base xs \<le> r_begin y"
    using gap_begin_of_bounds(3) [of base xs "y # ys" y] ok Cons.prems(3) by simp
  from al le show ?case
  proof (cases rule: gap_cases)
    case (yes p)
    then show ?thesis
      using Cons.prems(1) [of "set_length len p" xs y ys] Cons.prems(3) fuel le
      by (simp add: from_two_pointers_def set_length_def)
  next
    case (no p)
    have nx: "rb_next range_less (Some y) t = Inr (head_of ys)"
      using va_tree.rb_next_eq [OF inv Cons.prems(3)] .
    have run: "find_gap fuel len al (last_of xs) (head_of (y # ys)) (gap_begin_of base xs) t
       = find_gap fuel' len al (last_of (xs @ [y])) (head_of ys) (gap_begin_of base (xs @ [y])) t"
      using no fuel le nx by (simp add: from_two_pointers_def gap_begin_of_def)
    show ?thesis
    proof (rule Cons.IH [of fuel' "xs @ [y]"], goal_cases)
      case (1 r xs' y' ys')
      then show ?case
        using Cons.prems(1) [of r xs' y' ys'] run by simp
    next
      case 2
      have "\<not> block_in (gap_begin_of base (xs @ xs')) (r_begin z) len c"
        if "y # ys = xs' @ z # ys'" "aligned_at al c" for xs' z ys' c
        using that no(3) 2(2) [of "tl xs'" z ys' c] by (cases xs') auto
      then show ?case
        using Cons.prems(2) run 2(1) by simp
    qed (use Cons.prems(3) fuel in simp_all)
  qed
qed

lemma va_inv_ok: "va_inv va \<Longrightarrow> va_ok (va_base va) (elems (va_ranges va))"
  by (simp add: va_inv_def va_ok_def)

lemma va_lower_bound:
  assumes "va_inv va" "\<And>r. lt_key r key \<longleftrightarrow> r_begin r < c"
  shows "\<exists>xs ys. elems (va_ranges va) = xs @ ys \<and> rb_lower_bound lt_key key (va_ranges va) = head_of ys
    \<and> (\<forall>x \<in> set xs. r_begin x < c) \<and> (\<forall>y \<in> set ys. c \<le> r_begin y)"
proof -
  have "rb_inv r_begin (va_ranges va)"
    using assms(1) by (simp add: va_inv_def)
  then show ?thesis
    using assms(2) by (rule va_tree.rb_lower_bound_split [of "va_ranges va" lt_key key c]) blast
qed

text \<open>A block of \<open>len\<close> bytes at \<open>c\<close> that is inside the base range and not allocated.\<close>

definition free_block :: "virtual_allocator \<Rightarrow> size_t \<Rightarrow> addr \<Rightarrow> bool" where
  "free_block va len c \<longleftrightarrow> block_in (r_begin (va_base va)) (r_end (va_base va)) len c
     \<and> (\<forall>a. c \<le> a \<and> unat a < unat c + unat len \<longrightarrow> a \<notin> allocated_addrs va)"

lemma free_block_in_gap:
  assumes inv: "va_inv va" and len: "len \<noteq> 0" and free: "free_block va len c"
  obtains (inner) xs y ys where "elems (va_ranges va) = xs @ y # ys"
      "block_in (gap_begin_of (va_base va) xs) (r_begin y) len c"
    | (outer) "block_in (gap_begin_of (va_base va) (elems (va_ranges va))) (r_end (va_base va)) len c"
proof -
  let ?es = "elems (va_ranges va)"
  obtain xs ys where es: "?es = xs @ ys" and bef: "\<forall>x \<in> set xs. r_begin x < c"
    and aft: "\<forall>y \<in> set ys. c \<le> r_begin y"
    using va_lower_bound [OF inv, of range_before_addr c c] by (auto simp: range_before_addr_def)
  have c: "unat c < unat c + unat len"
    using len by (simp add: unat_gt_0)
  have out: "a \<notin> addrs x" if "x \<in> set ?es" "c \<le> a" "unat a < unat c + unat len" for a x
    using free that by (auto simp: free_block_def allocated_addrs_def addrs_of_def)
  have lo: "gap_begin_of (va_base va) xs \<le> c"
  proof (cases "xs = []")
    case True
    then show ?thesis
      using free by (simp add: gap_begin_of_def free_block_def block_in_def)
  next
    case False
    then have "r_begin (last xs) < c"
      using bef by simp
    then show ?thesis
      using out [of "last xs" c] False c es by (auto simp: gap_begin_of_def addrs_def)
  qed
  show ?thesis
  proof (cases ys)
    case Nil
    then show ?thesis
      using outer lo free es by (simp add: block_in_def free_block_def)
  next
    case (Cons y zs)
    have "range_ok (va_base va) y"
      using inv es Cons by (simp add: va_inv_def)
    then have "r_begin y \<in> addrs y"
      by (auto simp: addrs_def dest: range_ok_lt)
    then have "unat c + unat len \<le> unat (r_begin y)"
      using out [of y "r_begin y"] aft es Cons by (auto intro: leI)
    then show ?thesis
      using inner es Cons lo by (simp add: block_in_def)
  qed
qed

lemma addrs_of_disjoint:
  assumes "\<forall>x \<in> set xs. r_end x \<le> r_begin n" "\<forall>y \<in> set ys. r_end n \<le> r_begin y"
  shows "addrs n \<inter> addrs_of (xs @ ys) = {}"
  using assms by (fastforce simp: addrs_def addrs_of_def)

lemma page_aligned_multiple:
  assumes "al AND NOT page_alignment_mask = 0" "aligned_at al c"
  shows "page_is_aligned c"
proof -
  have "unat al mod 4096 = 0"
    using assms(1) unat_and_mask [of al 12] by (simp add: page_mask_eq)
  then have "4096 dvd unat al"
    by auto
  moreover have "unat al dvd unat c"
    using assms(2) by (auto simp: aligned_at_def)
  ultimately have "4096 dvd unat c"
    by (rule dvd_trans)
  then show ?thesis
    by (simp add: page_is_aligned_iff)
qed

lemma page_aligned_sum:
  assumes "page_is_aligned a" "page_is_aligned b" "unat c = unat a + unat b"
  shows "page_is_aligned c"
  using assms by (simp add: page_is_aligned_iff mod_add_eq [symmetric])

lemma page_round_up_ok:
  assumes "len \<noteq> 0" "\<not> page_round_up len < len"
  shows "page_is_aligned (page_round_up len)" "page_round_up len \<noteq> 0"
proof -
  have "unat len \<le> 2 ^ 64 - 4096"
    using assms(2) page_round_up_overflow_iff [of len] by linarith
  then show "page_is_aligned (page_round_up len)"
    using assms(1) by (rule page_round_up_least(1) [rotated])
  show "page_round_up len \<noteq> 0"
    using assms by (metis word_gt_0)
qed

text \<open>The contract of an allocation: what a returned range and a failure mean.\<close>

definition allocation_ok :: "virtual_allocator \<Rightarrow> size_t \<Rightarrow> size_t \<Rightarrow> range \<Rightarrow> virtual_allocator \<Rightarrow> bool" where
  "allocation_ok va len al r va' \<longleftrightarrow> range_length r = len \<and> aligned_at al (r_begin r)
     \<and> addrs r \<subseteq> addrs (va_base va) \<and> addrs r \<inter> allocated_addrs va = {} \<and> va_adds va (addrs r) va'"

lemma allocation_merges:
  assumes inv: "va_inv va" and es: "elems (va_ranges va) = xs @ ys"
    and al: "al AND NOT page_alignment_mask = 0" "aligned_at al (r_begin r)"
    and len: "page_is_aligned len" "len \<noteq> 0" "unat (r_end r) = unat (r_begin r) + unat len"
    and lo: "gap_begin_of (va_base va) xs \<le> r_begin r"
    and hi: "r_end r \<le> r_end (va_base va)" "\<forall>y \<in> set ys. r_end r \<le> r_begin y"
  shows "\<exists>va'. merge_and_emplace (last_of xs) (head_of ys) r va = Inr va' \<and> allocation_ok va len al r va'"
proof -
  note ok = va_inv_ok [OF inv, unfolded es]
  have lt: "r_begin r < r_end r"
    using len(2,3) by (simp add: word_less_nat_alt unat_gt_0)
  have base: "r_begin (va_base va) \<le> r_begin r"
    using gap_begin_of_bounds(1) [OF ok] lo by simp
  have xs: "\<forall>x \<in> set xs. r_end x \<le> r_begin r"
    using gap_begin_of_ge [OF ok] lo order.trans by blast
  have al_r: "page_is_aligned (r_begin r)"
    using al by (rule page_aligned_multiple)
  have "range_ok (va_base va) r"
    using lt base hi(1) al_r page_aligned_sum [OF al_r len(1,3)] by (simp add: range_ok_def)
  moreover have "range_length r = len"
    using len(3) lt by (simp add: range_length_def word_unat_eq_iff unat_diff_word less_imp_le)
  moreover have "addrs r \<inter> allocated_addrs va = {}"
    using addrs_of_disjoint [OF xs hi(2)] es by (simp add: allocated_addrs_def)
  moreover have "addrs r \<subseteq> addrs (va_base va)"
    using base hi(1) by (auto simp: addrs_def)
  ultimately show ?thesis
    using merge_and_emplace_adds [OF inv es _ xs hi(2)] al(2) by (auto simp: allocation_ok_def)
qed

lemma below_first:
  assumes "va_ok base (xs @ y # ys)" "e \<le> r_begin y"
  shows "\<forall>z \<in> set (y # ys). e \<le> r_begin z" "e \<le> r_end base"
proof -
  have y: "e < r_end y" "r_end y \<le> r_end base"
    using assms by (auto simp: va_ok_def range_ok_def intro: order_le_less_trans)
  moreover have "r_end y < r_begin z" if "z \<in> set ys" for z
    using assms(1) that by (simp add: va_ok_def gapped_append gapped_Cons)
  ultimately show "\<forall>z \<in> set (y # ys). e \<le> r_begin z" "e \<le> r_end base"
    using assms(2) by (auto intro: less_imp_le less_trans)
qed

lemma va_inv_emplace_first:
  assumes "va_inv va" "elems (va_ranges va) = []" "range_ok (va_base va) r"
  shows "\<exists>va'. emplace_range_in r va = Inr va' \<and> va_adds va (addrs r) va'"
  using merge_and_emplace_adds [of va "[]" "[]" r] assms by (simp add: merge_and_emplace_def)

lemma va_allocate_run:
  assumes inv: "va_inv va" and al: "page_size \<le> al" "al AND NOT page_alignment_mask = 0"
    and len: "len \<noteq> 0" "\<not> page_round_up len < len"
  shows "(\<exists>r va'. va_allocate len al va = Inr (r, va') \<and> allocation_ok va (page_round_up len) al r va')
    \<or> va_allocate len al va = Inl Panic \<and> (\<forall>c. aligned_at al c \<longrightarrow> \<not> free_block va (page_round_up len) c)"
proof -
  let ?len = "page_round_up len" and ?es = "elems (va_ranges va)" and ?base = "va_base va"
  note rounded = page_round_up_ok [OF len]
  note ok = va_inv_ok [OF inv]
  have rb: "rb_inv r_begin (va_ranges va)" and base: "?base = \<lparr>r_begin = r_begin ?base, r_end = r_end ?base\<rparr>"
    using inv by (simp_all add: va_inv_def)
  have al0: "al \<noteq> 0" and nal: "\<not> al < page_size"
    using al(1) by auto
  have last: "gap_begin_of ?base ?es \<le> r_end ?base"
    using gap_begin_of_bounds(2) [of ?base ?es "[]"] ok by simp
  note outer = allocation_merges [OF inv, of ?es "[]" al _ ?len, OF _ al(2) _ rounded]
  show ?thesis
  proof (cases "?es = []")
    case True
    then have e: "rb_empty (va_ranges va)" and g: "gap_begin_of ?base ?es = r_begin ?base"
      using rb_empty_iff [OF rb] by (simp_all add: gap_begin_of_def)
    from al0 rounded(2) last show ?thesis
    proof (cases rule: gap_cases)
      case (yes p)
      then obtain va' where "merge_and_emplace None None (set_length ?len p) va = Inr va'"
        "allocation_ok va ?len al (set_length ?len p) va'"
        using outer [of "set_length ?len p"] True by (auto simp: block_in_def set_length_def word_le_nat_alt)
      then show ?thesis
        using yes(1,2) e nal al(2) len g base by (auto simp: va_allocate_def Let_def merge_and_emplace_def)
    next
      case (no p)
      have "\<not> free_block va ?len c" if "aligned_at al c" for c
        using no(3) [OF that] g by (simp add: free_block_def)
      then show ?thesis
        using no(1,2) e nal al(2) len g base by (auto simp: va_allocate_def Let_def)
    qed
  next
    case False
    then have e: "\<not> rb_empty (va_ranges va)"
      using rb_empty_iff [OF rb] by simp
    have start: "rb_begin (va_ranges va) = head_of ?es" "rb_size (va_ranges va) = length ?es"
      "rb_prev range_less None (va_ranges va) = Inr (last_of ?es)"
      using rb rb_begin_eq [OF rb] va_tree.rb_prev_end [OF rb] by (simp_all add: rb_inv_def)
    have "elems (va_ranges va) = [] @ ?es" "length ?es \<le> length ?es"
      by simp_all
    with rb ok al0 rounded(2) show ?thesis
    proof (cases rule: find_gap_correct)
      case (found r xs y ys)
      have "r_end r \<le> r_begin y"
        using found(4,5) by (simp add: block_in_def word_le_nat_alt)
      note below_first [OF ok [unfolded found(2)] this]
      then obtain va' where "merge_and_emplace (last_of xs) (Some y) r va = Inr va'" "allocation_ok va ?len al r va'"
        using allocation_merges [OF inv found(2) al(2) found(3) rounded found(5)] found(4)
        by (auto simp: block_in_def)
      then show ?thesis
        using e nal al(2) len start found(1) by (simp add: va_allocate_def Let_def gap_begin_of_def)
    next
      case none
      have inner: "\<not> block_in (gap_begin_of ?base xs) (r_begin y) ?len c"
        if "?es = xs @ y # ys" "aligned_at al c" for xs y ys c
        using none(2) [OF that] by simp
      from al0 rounded(2) last show ?thesis
      proof (cases rule: gap_cases)
        case (yes p)
        then obtain va' where "merge_and_emplace (last_of ?es) None (set_length ?len p) va = Inr va'"
          "allocation_ok va ?len al (set_length ?len p) va'"
          using outer [of "set_length ?len p"] by (auto simp: block_in_def set_length_def word_le_nat_alt)
        then show ?thesis
          using yes(1,2) e nal al(2) len start none(1) last
          by (simp add: va_allocate_def Let_def gap_begin_of_def from_two_pointers_def)
      next
        case (no p)
        have "\<not> free_block va ?len c" if "aligned_at al c" for c
          using free_block_in_gap [OF inv rounded(2)] no(3) [OF that] inner [OF _ that] by blast
        then show ?thesis
          using no(1,2) e nal al(2) len start none(1) last
          by (simp add: va_allocate_def Let_def gap_begin_of_def from_two_pointers_def)
      qed
    qed
  qed
qed

subsection \<open>Looking up an address\<close>

lemma covering_cases:
  assumes inv: "va_inv va" and es: "elems (va_ranges va) = xs @ ys"
    and bef: "\<forall>x \<in> set xs. r_begin x < c" and aft: "\<forall>y \<in> set ys. c \<le> r_begin y"
    and z: "z \<in> set (xs @ ys)" "c \<in> addrs z"
  obtains (head) zs where "ys = z # zs" "r_begin z = c" | (last) us where "xs = us @ [z]" "c < r_end z"
proof -
  have g: "gapped (xs @ ys)" and ok: "\<And>r. r \<in> set (xs @ ys) \<Longrightarrow> r_begin r < r_end r"
    using inv es by (auto simp: va_inv_def list_all_iff dest: range_ok_lt)
  have c: "r_begin z \<le> c" "c < r_end z"
    using z(2) by (simp_all add: addrs_def)
  show thesis
  proof (cases "z \<in> set ys")
    case True
    then obtain y zs where ys: "ys = y # zs"
      by (cases ys) auto
    have "z = y"
    proof (rule ccontr)
      assume "z \<noteq> y"
      then have "r_end y < r_begin z"
        using True g ys by (auto simp: gapped_append gapped_Cons)
      moreover have "c \<le> r_begin y" "r_begin y < r_end y"
        using aft ok ys by simp_all
      ultimately show False
        using c(1) by (meson leD order_le_less_trans order_less_trans)
    qed
    then show thesis
      using head ys aft c(1) by auto
  next
    case False
    then have "z \<in> set xs"
      using z(1) by simp
    then obtain us x where xs: "xs = us @ [x]"
      by (cases xs rule: rev_cases) auto
    have "z = x"
    proof (rule ccontr)
      assume "z \<noteq> x"
      then have "r_end z < r_begin x"
        using \<open>z \<in> set xs\<close> g xs by (auto simp: gapped_append)
      moreover have "r_begin x < c"
        using bef xs by simp
      ultimately show False
        using c(2) by (meson less_trans less_irrefl)
    qed
    then show thesis
      using last xs c(2) by blast
  qed
qed

lemma allocated_memberE:
  assumes "a \<in> allocated_addrs va"
  obtains z where "z \<in> set (elems (va_ranges va))" "a \<in> addrs z"
  using assms by (auto simp: allocated_addrs_def addrs_of_def)

lemma allocated_memberI: "z \<in> set (elems (va_ranges va)) \<Longrightarrow> a \<in> addrs z \<Longrightarrow> a \<in> allocated_addrs va"
  by (auto simp: allocated_addrs_def addrs_of_def)

lemma allocated_in_base: "va_inv va \<Longrightarrow> allocated_addrs va \<subseteq> addrs (va_base va)"
  by (fastforce simp: va_inv_def allocated_addrs_def addrs_of_def list_all_iff range_ok_def addrs_def)

lemma is_allocated_eq:
  assumes inv: "va_inv va"
  shows "is_allocated address va = Inr (address \<in> allocated_addrs va)"
proof (cases "contains_addr (va_base va) address \<and> \<not> rb_empty (va_ranges va)")
  case False
  have rb: "rb_inv r_begin (va_ranges va)"
    using inv by (simp add: va_inv_def)
  have "address \<notin> allocated_addrs va"
    using False allocated_in_base [OF inv] rb_empty_iff [OF rb]
    by (auto simp: contains_addr_iff elim: allocated_memberE)
  with False show ?thesis
    by (auto simp: is_allocated_def)
next
  case True
  have rb: "rb_inv r_begin (va_ranges va)"
    using inv by (simp add: va_inv_def)
  obtain xs ys where es: "elems (va_ranges va) = xs @ ys"
    and lb: "rb_lower_bound range_before_addr address (va_ranges va) = head_of ys"
    and ord: "\<forall>x \<in> set xs. r_begin x < address" "\<forall>y \<in> set ys. address \<le> r_begin y"
    using va_lower_bound [OF inv, of range_before_addr address address] by (auto simp: range_before_addr_def)
  note split = va_tree.rb_begin_split [OF rb es] va_tree.rb_prev_split [OF rb es]
  show ?thesis
  proof (cases "\<exists>y zs. ys = y # zs \<and> r_begin y = address")
    case found: True
    then obtain y zs where y: "ys = y # zs" "r_begin y = address"
      by blast
    have "r_begin y < r_end y"
      using inv es y by (auto simp: va_inv_def dest: range_ok_lt)
    then have "address \<in> addrs y"
      using y by (simp add: addrs_def)
    then show ?thesis
      using True lb y allocated_memberI [of y va address] es
      by (simp add: is_allocated_def deref_def contains_addr_iff)
  next
    case False
    then have miss: "head_of ys = None \<or> r_begin (the (head_of ys)) \<noteq> address"
      by (cases ys) auto
    have "address \<in> allocated_addrs va \<longleftrightarrow> (\<exists>us x. xs = us @ [x] \<and> address < r_end x)"
    proof
      assume "address \<in> allocated_addrs va"
      then obtain z where "z \<in> set (xs @ ys)" "address \<in> addrs z"
        using es by (auto elim: allocated_memberE)
      from inv es ord this show "\<exists>us x. xs = us @ [x] \<and> address < r_end x"
        by (cases rule: covering_cases) (use False in blast)+
    next
      assume "\<exists>us x. xs = us @ [x] \<and> address < r_end x"
      then show "address \<in> allocated_addrs va"
        using es ord(1) by (auto intro!: allocated_memberI simp: addrs_def intro: less_imp_le)
    qed
    then show ?thesis
      using True lb miss split ord(1)
      by (cases xs rule: rev_cases) (auto simp: is_allocated_def deref_def contains_addr_def less_imp_le)
  qed
qed

subsection \<open>Allocating a given range\<close>

definition rounded_range :: "range \<Rightarrow> range" where
  "rounded_range r0 = (let b = page_round_down (r_begin r0)
     in \<lparr>r_begin = b, r_end = b + page_round_up (range_length r0 + r_begin r0 - b)\<rparr>)"

lemma rounded_range_covers:
  assumes "r_begin r0 < r_end r0" "r_begin (rounded_range r0) < r_end (rounded_range r0)"
  shows "page_is_aligned (r_begin (rounded_range r0))" "page_is_aligned (r_end (rounded_range r0))"
    "addrs r0 \<subseteq> addrs (rounded_range r0)"
proof -
  let ?b = "page_round_down (r_begin r0)" and ?len = "page_round_up (r_end r0 - page_round_down (r_begin r0))"
  have rr: "rounded_range r0 = \<lparr>r_begin = ?b, r_end = ?b + ?len\<rparr>"
    by (simp add: rounded_range_def Let_def range_length_def)
  show al: "page_is_aligned (r_begin (rounded_range r0))"
    by (simp add: rr)
  have b: "?b \<le> r_begin r0" "?b < r_end r0"
    using page_round_down_le [of "r_begin r0"] assms(1) by auto
  have len: "?len \<noteq> 0"
    using assms(2) by (auto simp: rr)
  then have nz: "r_end r0 - ?b \<noteq> 0" and fit: "unat (r_end r0 - ?b) \<le> 2 ^ 64 - 4096"
    using b(2) page_round_up_wraps [of "r_end r0 - ?b"] by (auto simp: not_less [symmetric])
  note up = page_round_up_least(1,2) [OF nz fit]
  have "unat (?b + ?len) = unat ?b + unat ?len"
    using assms(2) unat_add_no_wrap [of ?b ?len] unat_add_wrap_64 [of ?b ?len] unat_less_64 [of ?len]
    unfolding rr word_less_nat_alt by (cases "unat ?b + unat ?len < 2 ^ 64") simp_all
  then show "page_is_aligned (r_end (rounded_range r0))"
    using page_aligned_sum [of ?b ?len "?b + ?len"] up al by (simp add: rr)
  have "unat (r_end r0) - unat ?b \<le> unat ?len"
    using up(2) unat_diff_word [OF less_imp_le [OF b(2)]] by (simp add: word_le_nat_alt)
  then have "r_end r0 \<le> ?b + ?len"
    using \<open>unat (?b + ?len) = _\<close> by (simp add: word_le_nat_alt)
  with b show "addrs r0 \<subseteq> addrs (rounded_range r0)"
    by (auto simp: rr addrs_def intro: order.trans order_less_le_trans)
qed

lemma allocate_range_guards:
  assumes r0: "r_begin r0 < r_end r0" and r: "r_begin r < r_end r" "r = rounded_range r0"
    and base: "addrs r \<subseteq> addrs (va_base va)"
  shows "\<not> range_empty r0" "va_contains r0 va" "mk_range (page_round_down (r_begin r0))
      (page_round_up (range_length r0 + r_begin r0 - page_round_down (r_begin r0))) = Inr r"
proof -
  have "r_begin r0 \<in> addrs r0" "r_end r0 - 1 \<in> addrs r0"
    using r0 by (simp_all add: addrs_def) unat_arith
  then show "va_contains r0 va"
    using base rounded_range_covers(3) [OF r0] r by (auto simp: va_contains_def contains_addr_iff)
  show "\<not> range_empty r0"
    using r0 by (auto simp: range_empty_def)
  show "mk_range (page_round_down (r_begin r0))
      (page_round_up (range_length r0 + r_begin r0 - page_round_down (r_begin r0))) = Inr r"
    using r by (auto simp: mk_range_def rounded_range_def Let_def)
qed

text \<open>The run of the function up to the choice of the neighbours.\<close>

lemma va_allocate_range_run:
  assumes inv: "va_inv va" and r0: "r_begin r0 < r_end r0" and r: "r_begin r < r_end r" "r = rounded_range r0"
    and base: "addrs r \<subseteq> addrs (va_base va)"
    and es: "elems (va_ranges va) = xs @ ys" "xs @ ys \<noteq> []" "rb_lower_bound range_less r (va_ranges va) = head_of ys"
  shows "va_allocate_range r0 va =
    (case ys of y # zs \<Rightarrow> if r_begin y = r_begin r then Inl Panic else
        if contains_addr y (r_end r - 1) \<or> xs \<noteq> [] \<and> (r_begin (last xs) = r_begin r \<or> contains_addr (last xs) (r_begin r))
        then Inl Panic else bind_res (merge_and_emplace (last_of xs) (head_of ys) r va) (\<lambda>va'. Inr (r, va'))
     | [] \<Rightarrow> if xs \<noteq> [] \<and> (r_begin (last xs) = r_begin r \<or> contains_addr (last xs) (r_begin r))
        then Inl Panic else bind_res (merge_and_emplace (last_of xs) (head_of ys) r va) (\<lambda>va'. Inr (r, va')))"
proof -
  have rb: "rb_inv r_begin (va_ranges va)"
    using inv by (simp add: va_inv_def)
  note split = va_tree.rb_begin_split [OF rb es(1)] va_tree.rb_prev_split [OF rb es(1)]
  have ne: "\<not> rb_empty (va_ranges va)"
    using rb_empty_iff [OF rb] es by simp
  have run: "va_allocate_range r0 va = bind_res
     (if head_of ys = None \<or> r_begin (the (head_of ys)) \<noteq> r_begin r
      then if head_of ys \<noteq> rb_begin (va_ranges va)
           then bind_res (rb_prev range_less (head_of ys) (va_ranges va)) (\<lambda>p. Inr (p, head_of ys))
           else Inr (None, head_of ys)
      else bind_res (rb_next range_less (head_of ys) (va_ranges va)) (\<lambda>nx. Inr (head_of ys, nx)))
     (\<lambda>(it, aft). if aft \<noteq> None \<and> contains_addr (the aft) (r_end r - 1) then Inl Panic
        else if it \<noteq> None \<and> (r_begin (the it) = r_begin r \<or> contains_addr (the it) (r_begin r)) then Inl Panic
        else bind_res (merge_and_emplace it aft r va) (\<lambda>va'. Inr (r, va')))"
    using allocate_range_guards [OF r0 r base] ne es(3)
    by (simp add: va_allocate_range_def Let_def split del: if_split cong: if_cong)
  show ?thesis
  proof (cases ys)
    case Nil
    then show ?thesis
      using run split es(2) by (auto simp: last_of_def)
  next
    case (Cons y zs)
    then show ?thesis
      using run split va_tree.rb_next_eq [OF rb, of xs y zs] es(1) by (auto simp: last_of_def split: if_splits)
  qed
qed

lemma va_allocate_range_free:
  assumes inv: "va_inv va" and r0: "r_begin r0 < r_end r0" and r: "r_begin r < r_end r" "r = rounded_range r0"
    and base: "addrs r \<subseteq> addrs (va_base va)" and free: "addrs r \<inter> allocated_addrs va = {}"
  shows "\<exists>va'. va_allocate_range r0 va = Inr (r, va') \<and> va_adds va (addrs r) va'"
proof -
  obtain xs ys where es: "elems (va_ranges va) = xs @ ys"
    and lb: "rb_lower_bound range_less r (va_ranges va) = head_of ys"
    and ord: "\<forall>x \<in> set xs. r_begin x < r_begin r" "\<forall>y \<in> set ys. r_begin r \<le> r_begin y"
    using va_lower_bound [OF inv, of range_less r "r_begin r"] by (auto simp: range_less_def)
  have ends: "r_begin r \<in> addrs r" "r_end r - 1 \<in> addrs r"
    using r(1) by (simp_all add: addrs_def) unat_arith
  have "r_begin r \<in> addrs (va_base va)" "r_end r - 1 \<in> addrs (va_base va)"
    using base ends by blast+
  then have "r_begin (va_base va) \<le> r_begin r" "r_end r - 1 < r_end (va_base va)"
    by (simp_all add: addrs_def)
  moreover from this(2) r(1) have "r_end r \<le> r_end (va_base va)"
    by unat_arith
  ultimately have ok: "range_ok (va_base va) r"
    using rounded_range_covers(1,2) [OF r0] r by (simp add: range_ok_def)
  have out: "addrs r \<inter> addrs x = {}" "r_begin x < r_end x" if "x \<in> set (xs @ ys)" for x
    using free that es inv by (auto simp: allocated_addrs_def addrs_of_def va_inv_def list_all_iff dest: range_ok_lt)
  have xs: "\<forall>x \<in> set xs. r_end x \<le> r_begin r"
    using out ord(1) ends(1) by (force simp: addrs_def)
  have ys: "\<forall>y \<in> set ys. r_end r \<le> r_begin y"
  proof (intro ballI leI notI)
    fix y assume y: "y \<in> set ys" "r_begin y < r_end r"
    then have "r_begin y \<in> addrs r \<inter> addrs y"
      using ord(2) out(2) [of y] by (simp add: addrs_def)
    then show False
      using out(1) [of y] y by simp
  qed
  obtain va' where va': "merge_and_emplace (last_of xs) (head_of ys) r va = Inr va'" "va_adds va (addrs r) va'"
    using merge_and_emplace_adds [OF inv es ok xs ys] by blast
  show ?thesis
  proof (cases "xs @ ys = []")
    case True
    then have "rb_empty (va_ranges va)"
      using inv es rb_empty_iff [of r_begin "va_ranges va"] by (simp add: va_inv_def)
    then show ?thesis
      using True va' allocate_range_guards [OF r0 r base]
      by (simp add: va_allocate_range_def merge_and_emplace_def)
  next
    case False
    have "r_begin (last xs) \<noteq> r_begin r" "\<not> contains_addr (last xs) (r_begin r)" if "xs \<noteq> []"
      using xs ord(1) last_in_set [OF that] by (auto simp: contains_addr_def)
    moreover have "r_begin y \<noteq> r_begin r" "\<not> contains_addr y (r_end r - 1)" if "y \<in> set ys" for y
      using ys that r(1) ends(2) out(1) [of y] by (auto simp: contains_addr_iff)
    ultimately show ?thesis
      using va_allocate_range_run [OF inv r0 r base es False lb] va' by (auto split: list.split)
  qed
qed

lemma va_allocate_range_taken:
  assumes inv: "va_inv va" and r0: "r_begin r0 < r_end r0" and r: "r_begin r < r_end r" "r = rounded_range r0"
    and base: "addrs r \<subseteq> addrs (va_base va)" and taken: "r_begin r \<in> allocated_addrs va"
  shows "va_allocate_range r0 va = Inl Panic"
proof -
  obtain xs ys where es: "elems (va_ranges va) = xs @ ys"
    and lb: "rb_lower_bound range_less r (va_ranges va) = head_of ys"
    and ord: "\<forall>x \<in> set xs. r_begin x < r_begin r" "\<forall>y \<in> set ys. r_begin r \<le> r_begin y"
    using va_lower_bound [OF inv, of range_less r "r_begin r"] by (auto simp: range_less_def)
  obtain z where z: "z \<in> set (xs @ ys)" "r_begin r \<in> addrs z"
    using taken es by (auto elim: allocated_memberE)
  then have ne: "xs @ ys \<noteq> []"
    by auto
  note run = va_allocate_range_run [OF inv r0 r base es ne lb]
  from inv es ord z show ?thesis
  proof (cases rule: covering_cases)
    case (last us)
    then show ?thesis
      using run z(2) by (simp add: contains_addr_iff split: list.split)
  qed (use run in simp)
qed

text \<open>
  A range around an allocated one: the neighbour that is looked at ends before the requested
  range does, and the new range is put into the tree although they overlap.
\<close>

lemma merge_and_emplace_around:
  assumes inv: "va_inv va" and el: "elems (va_ranges va) = xs @ z # zs" and n: "r_begin n < r_end n"
    and xs: "\<forall>x \<in> set xs. r_end x \<le> r_begin n" and z: "r_begin n < r_begin z" "r_end z < r_end n"
  shows "\<exists>va'. merge_and_emplace (last_of xs) (Some z) n va = Inr va' \<and> \<not> va_inv va'"
proof -
  have rb: "rb_inv r_begin (va_ranges va)" and g: "gapped xs" "gapped (z # zs)"
    and lt: "\<forall>x \<in> set xs. r_begin x < r_end x" "r_begin z < r_end z" "\<forall>x \<in> set zs. r_begin x < r_end x"
    using inv el by (auto simp: va_inv_def gapped_append list_all_iff dest: range_ok_lt)
  have zn: "r_begin z < r_end n" "r_begin z \<noteq> r_end n"
    using lt(2) z(2) by auto
  have zs: "r_begin z < r_begin y" if "y \<in> set zs" for y
    using g(2) lt(2) that by (auto simp: gapped_Cons intro: order.strict_trans)
  have bad: "\<not> va_inv (va\<lparr>va_ranges := t\<rparr>)" if "elems t = us @ m # z # zs" "r_end m = r_end n" for t us m
    using that zn by (auto simp: va_inv_def gapped_append gapped_Cons)
  from g(1) lt(1) xs show ?thesis
  proof (cases rule: touching_before)
    case (touch xs' b)
    let ?m = "\<lparr>r_begin = r_begin b, r_end = r_end n\<rparr>"
    have b: "r_begin b < r_end b" "r_begin b < r_begin n"
      using lt(1) touch by auto
    obtain t1 where t1: "remove_range_in (Some b) va = Inr (va\<lparr>va_ranges := t1\<rparr>)" "rb_inv r_begin t1" "elems t1 = xs' @ z # zs"
      using remove_range_in_eq [OF rb, of xs' b "z # zs"] el touch(1) by auto
    have "r_begin x < r_begin ?m" if "x \<in> set xs'" for x
      using lt(1) touch(1,3) that by (auto intro: order.strict_trans)
    moreover have "r_begin ?m < r_begin y" if "y \<in> set (z # zs)" for y
      using that b z(1) zs [of y] by auto
    ultimately obtain t' where "emplace_range_in ?m (va\<lparr>va_ranges := t1\<rparr>) = Inr (va\<lparr>va_ranges := t'\<rparr>)" "elems t' = xs' @ ?m # z # zs"
      using emplace_range_in_between [of "va\<lparr>va_ranges := t1\<rparr>" xs' "z # zs" ?m] t1 by auto
    then show ?thesis
      using t1(1) touch zn b n bad [of t' xs' ?m] by (auto simp: merge_and_emplace_def from_two_pointers_def last_of_def)
  next
    case apart
    have "r_begin x < r_begin n" if "x \<in> set xs" for x
      using lt(1) apart(1) that by (auto intro: order.strict_trans)
    moreover have "r_begin n < r_begin y" if "y \<in> set (z # zs)" for y
      using that z(1) zs [of y] by auto
    ultimately obtain t' where "emplace_range_in n va = Inr (va\<lparr>va_ranges := t'\<rparr>)" "elems t' = xs @ n # z # zs"
      using emplace_range_in_between [of va xs "z # zs" n] rb el by auto
    then show ?thesis
      using zn apart(2) bad [of t' xs n] by (auto simp: merge_and_emplace_def split: option.splits)
  qed
qed

text \<open>An allocated range lies strictly inside the given one.\<close>

definition encloses_allocated :: "range \<Rightarrow> virtual_allocator \<Rightarrow> bool" where
  "encloses_allocated r va \<longleftrightarrow> (\<exists>z \<in> set (elems (va_ranges va)). r_begin r < r_begin z \<and> r_end z < r_end r)"

lemma va_allocate_range_first:
  assumes inv: "va_inv va" and r0: "r_begin r0 < r_end r0" and r: "r_begin r < r_end r" "r = rounded_range r0"
    and base: "addrs r \<subseteq> addrs (va_base va)" and free: "r_begin r \<notin> allocated_addrs va" and meet: "addrs r \<inter> allocated_addrs va \<noteq> {}"
  obtains xs y zs where "elems (va_ranges va) = xs @ y # zs" "\<forall>x \<in> set xs. r_end x \<le> r_begin r" "r_begin r < r_begin y" "r_begin y < r_end r"
    "va_allocate_range r0 va = (if r_end y < r_end r then bind_res (merge_and_emplace (last_of xs) (Some y) r va) (\<lambda>va'. Inr (r, va')) else Inl Panic)"
proof -
  obtain xs ys where es: "elems (va_ranges va) = xs @ ys"
    and lb: "rb_lower_bound range_less r (va_ranges va) = head_of ys"
    and ord: "\<forall>x \<in> set xs. r_begin x < r_begin r" "\<forall>y \<in> set ys. r_begin r \<le> r_begin y"
    using va_lower_bound [OF inv, of range_less r "r_begin r"] by (auto simp: range_less_def)
  have lt: "r_begin x < r_end x" "r_begin r \<notin> addrs x" if "x \<in> set (xs @ ys)" for x
    using inv that es free allocated_memberI [of x va "r_begin r"] by (auto simp: va_inv_def list_all_iff dest: range_ok_lt)
  have xs: "\<forall>x \<in> set xs. r_end x \<le> r_begin r"
    using lt(2) ord(1) by (force simp: addrs_def)
  obtain a where a: "a \<in> addrs r" "a \<in> allocated_addrs va"
    using meet by blast
  then obtain z where z: "a \<in> addrs r" "z \<in> set (xs @ ys)" "a \<in> addrs z"
    using es allocated_memberE [OF a(2)] by metis
  have "z \<notin> set xs"
    using z xs by (auto simp: addrs_def)
  then obtain y zs where ys: "ys = y # zs"
    using z(2) by (cases ys) auto
  have g: "gapped (xs @ y # zs)"
    using inv es ys by (simp add: va_inv_def)
  have "r_begin y \<le> r_begin z"
    using \<open>z \<notin> set xs\<close> z(2) ys g lt(1) [of y] by (auto simp: gapped_append gapped_Cons)
  then have yr: "r_begin y < r_end r"
    using z by (auto simp: addrs_def)
  have ry: "r_begin r < r_begin y"
    using ord(2) ys lt [of y] by (force simp: addrs_def)
  have "contains_addr y (r_end r - 1) \<longleftrightarrow> \<not> r_end y < r_end r"
    using yr ry r(1) lt(1) [of y] ys unfolding contains_addr_def by auto unat_arith+
  moreover have "r_begin (last xs) \<noteq> r_begin r \<and> \<not> contains_addr (last xs) (r_begin r)" if "xs \<noteq> []"
    using bspec [OF ord(1) last_in_set [OF that]] bspec [OF xs last_in_set [OF that]] by (auto simp: contains_addr_def)
  ultimately have "va_allocate_range r0 va = (if r_end y < r_end r then bind_res (merge_and_emplace (last_of xs) (Some y) r va) (\<lambda>va'. Inr (r, va')) else Inl Panic)"
    using va_allocate_range_run [OF inv r0 r base es _ lb] ry by (auto simp: ys)
  then show thesis
    using that es ys xs ry yr by blast
qed

lemma va_allocate_range_cases:
  assumes inv: "va_inv va" and r0: "r_begin r0 < r_end r0" and r: "r_begin r < r_end r" "r = rounded_range r0"
    and base: "addrs r \<subseteq> addrs (va_base va)"
  shows "if addrs r \<inter> allocated_addrs va = {} then \<exists>va'. va_allocate_range r0 va = Inr (r, va') \<and> va_adds va (addrs r) va'
    else if r_begin r \<notin> allocated_addrs va \<and> encloses_allocated r va then \<exists>va'. va_allocate_range r0 va = Inr (r, va') \<and> \<not> va_inv va'
    else va_allocate_range r0 va = Inl Panic"
proof (cases "addrs r \<inter> allocated_addrs va = {} \<or> r_begin r \<in> allocated_addrs va")
  case True
  then show ?thesis
    using va_allocate_range_free [OF assms] va_allocate_range_taken [OF assms] by auto
next
  case False
  then have f: "r_begin r \<notin> allocated_addrs va" "addrs r \<inter> allocated_addrs va \<noteq> {}"
    by simp_all
  from assms f obtain xs y zs where y: "elems (va_ranges va) = xs @ y # zs" "\<forall>x \<in> set xs. r_end x \<le> r_begin r" "r_begin r < r_begin y" "r_begin y < r_end r"
      and run: "va_allocate_range r0 va = (if r_end y < r_end r then bind_res (merge_and_emplace (last_of xs) (Some y) r va) (\<lambda>va'. Inr (r, va')) else Inl Panic)"
    by (rule va_allocate_range_first)
  have lt: "r_begin x < r_end x" if "x \<in> set (xs @ y # zs)" for x
    using inv that y(1) by (auto simp: va_inv_def list_all_iff dest: range_ok_lt)
  have g: "gapped (xs @ y # zs)"
    using inv y(1) by (simp add: va_inv_def)
  have "encloses_allocated r va \<longleftrightarrow> r_end y < r_end r"
  proof
    assume "encloses_allocated r va"
    then obtain z where z: "z \<in> set (xs @ y # zs)" "r_begin r < r_begin z" "r_end z < r_end r"
      using y(1) by (auto simp: encloses_allocated_def)
    have "z \<notin> set xs"
      using z(2) y(2) lt [of z] z(1) by force
    then have "r_end y \<le> r_end z"
      using z(1) g lt [of z] by (auto simp: gapped_append gapped_Cons intro: less_imp_le order.strict_trans)
    then show "r_end y < r_end r"
      using z(3) by simp
  qed (use y in \<open>auto simp: encloses_allocated_def\<close>)
  then show ?thesis
    using run False merge_and_emplace_around [OF inv y(1) r(1) y(2,3)] by auto
qed

lemma rounded_in_base:
  assumes r0: "r_begin r0 < r_end r0" and c: "va_contains r0 va"
    and al: "page_is_aligned (r_begin (va_base va))" "page_is_aligned (r_end (va_base va))"
  shows "r_begin (rounded_range r0) < r_end (rounded_range r0)" "addrs (rounded_range r0) \<subseteq> addrs (va_base va)"
proof -
  let ?b = "page_round_down (r_begin r0)" and ?len = "page_round_up (r_end r0 - page_round_down (r_begin r0))"
  have rr: "rounded_range r0 = \<lparr>r_begin = ?b, r_end = ?b + ?len\<rparr>"
    by (simp add: rounded_range_def Let_def range_length_def)
  have in_base: "r_begin (va_base va) \<le> r_begin r0" "r_end r0 - 1 < r_end (va_base va)"
    using c by (simp_all add: va_contains_def contains_addr_def)
  then have top: "r_end r0 \<le> r_end (va_base va)"
    using r0 by unat_arith
  have b: "?b \<le> r_begin r0" "?b < r_end r0"
    using page_round_down_le [of "r_begin r0"] r0 by auto
  obtain k m where km: "unat (r_begin (va_base va)) = 4096 * k" "unat (r_end (va_base va)) = 4096 * m"
    using al by (auto simp: page_is_aligned_iff elim!: dvdE)
  have ub: "unat ?b = 4096 * (unat (r_begin r0) div 4096)"
    by (simp add: unat_page_round_down minus_mod_eq_mult_div)
  have "m < 2 ^ 52"
    using km(2) unat_less_64 [of "r_end (va_base va)"] by simp
  have x: "unat (r_end r0 - ?b) = unat (r_end r0) - unat ?b" "unat (r_end (va_base va) - ?b) = 4096 * (m - unat (r_begin r0) div 4096)"
    using b top by (simp_all add: unat_diff_word km(2) ub diff_mult_distrib2)
  have nz: "r_end r0 - ?b \<noteq> 0" and fit: "unat (r_end r0 - ?b) \<le> 2 ^ 64 - 4096"
    using b top km(2) \<open>m < 2 ^ 52\<close> by (auto simp: x(1) word_le_nat_alt)
  have "r_end r0 - ?b \<le> r_end (va_base va) - ?b"
    using x top b km by (simp add: word_le_nat_alt ub diff_mult_distrib2 diff_le_mono)
  moreover have "page_is_aligned (r_end (va_base va) - ?b)"
    by (simp add: page_is_aligned_iff x(2))
  ultimately have "?len \<le> r_end (va_base va) - ?b" "r_end r0 - ?b \<le> ?len"
    using page_round_up_least(2,3) [OF nz fit] by blast+
  then have "unat (r_end r0 - ?b) \<le> unat ?len" "unat (r_end r0 - ?b) \<noteq> 0" "unat ?len \<le> unat (r_end (va_base va) - ?b)"
    using nz by (simp_all add: word_le_nat_alt unat_eq_0)
  then have len: "unat ?len \<le> unat (r_end (va_base va)) - unat ?b" "0 < unat ?len"
    using x(2) km(2) ub by (simp_all add: diff_mult_distrib2)
  then have sum: "unat (?b + ?len) = unat ?b + unat ?len" "unat ?b + unat ?len \<le> unat (r_end (va_base va))"
    using unat_less_64 [of "r_end (va_base va)"] by (simp_all add: unat_add_no_wrap)
  then show "r_begin (rounded_range r0) < r_end (rounded_range r0)"
    using len by (simp add: rr word_less_nat_alt)
  have "k \<le> unat (r_begin r0) div 4096"
    using in_base(1) km(1) by (simp add: word_le_nat_alt less_eq_div_iff_mult_less_eq mult.commute)
  then have "r_begin (va_base va) \<le> ?b"
    by (simp add: word_le_nat_alt km(1) ub)
  then show "addrs (rounded_range r0) \<subseteq> addrs (va_base va)"
    using sum by (auto simp: rr addrs_def word_le_nat_alt word_less_nat_alt)
qed

subsection \<open>Deallocating a range\<close>

lemma gapped_trichotomy:
  "gapped xs \<Longrightarrow> y \<in> set xs \<Longrightarrow> z \<in> set xs \<Longrightarrow> y = z \<or> r_end y < r_begin z \<or> r_end z < r_begin y"
  by (induction xs) (auto simp: gapped_Cons)

text \<open>A non-empty range of allocated addresses lies in one range of the tree.\<close>

lemma allocated_subset_one:
  assumes inv: "va_inv va" and r: "r_begin r < r_end r" and sub: "addrs r \<subseteq> allocated_addrs va"
    and z: "z \<in> set (elems (va_ranges va))" "r_begin r \<in> addrs z"
  shows "r_end r \<le> r_end z"
proof (rule leI, rule notI)
  assume lt: "r_end z < r_end r"
  have c: "r_begin z \<le> r_begin r" "r_begin r < r_end z"
    using z(2) by (simp_all add: addrs_def)
  with lt have "r_end z \<in> addrs r"
    by (simp add: addrs_def)
  with sub obtain y where y: "y \<in> set (elems (va_ranges va))" "r_end z \<in> addrs y"
    by (blast elim: allocated_memberE)
  then have d: "r_begin y \<le> r_end z" "r_end z < r_end y"
    by (simp_all add: addrs_def)
  have "y = z \<or> r_end y < r_begin z \<or> r_end z < r_begin y"
    using inv y(1) z(1) gapped_trichotomy by (auto simp: va_inv_def)
  with c d show False
    by (meson leD less_irrefl less_trans order_le_less_trans)
qed

lemma addrs_minus:
  assumes "r_begin z \<le> b" "b \<le> e" "e \<le> r_end z"
  shows "addrs z - addrs \<lparr>r_begin = b, r_end = e\<rparr>
    = addrs \<lparr>r_begin = r_begin z, r_end = b\<rparr> \<union> addrs \<lparr>r_begin = e, r_end = r_end z\<rparr>"
  using assms by (auto simp: addrs_def)

text \<open>What an operation that takes the addresses \<open>A\<close> away leaves behind.\<close>

definition va_drops :: "virtual_allocator \<Rightarrow> addr set \<Rightarrow> virtual_allocator \<Rightarrow> bool" where
  "va_drops va A va' \<longleftrightarrow> va_inv va' \<and> va_base va' = va_base va \<and> allocated_addrs va' = allocated_addrs va - A"

lemma gapped_split_range:
  assumes "gapped (us @ z # vs)" "list_all (range_ok base) (us @ z # vs)"
    and "r_begin z \<le> b" "b < e" "e \<le> r_end z" "page_is_aligned b" "page_is_aligned e"
    and ps: "ps = (if r_begin z = b then [] else [\<lparr>r_begin = r_begin z, r_end = b\<rparr>])
                @ (if e = r_end z then [] else [\<lparr>r_begin = e, r_end = r_end z\<rparr>])"
  shows "gapped (us @ ps @ vs)" "list_all (range_ok base) (us @ ps @ vs)"
    "addrs_of (us @ ps @ vs) = addrs_of (us @ z # vs) - addrs \<lparr>r_begin = b, r_end = e\<rparr>"
proof -
  have uz: "\<And>u. u \<in> set us \<Longrightarrow> r_end u < r_begin z" "\<And>v. v \<in> set vs \<Longrightarrow> r_end z < r_begin v"
    and uv: "gapped us" "gapped vs" "\<And>u v. u \<in> set us \<Longrightarrow> v \<in> set vs \<Longrightarrow> r_end u < r_begin v"
    and z: "range_ok base z"
    using assms(1,2) by (auto simp: gapped_append gapped_Cons)
  have b: "r_end u < b" "r_end u < e" if "u \<in> set us" for u
    using uz(1) [OF that] assms(3,4) by auto
  have e: "b < r_begin v" "e < r_begin v" if "v \<in> set vs" for v
    using uz(2) [OF that] assms(4,5) by auto
  show "gapped (us @ ps @ vs)"
    using uv uz b e assms(4) by (auto simp: ps gapped_append gapped_Cons)
  have "list_all (range_ok base) ps"
    using z assms(3-7) by (auto simp: ps range_ok_def)
  then show "list_all (range_ok base) (us @ ps @ vs)"
    using assms(2) by simp
  have "addrs z - addrs \<lparr>r_begin = b, r_end = e\<rparr> = addrs_of ps"
    using addrs_minus [of z b e] assms(3-5) by (auto simp: ps addrs_def)
  moreover have "addrs u \<inter> addrs \<lparr>r_begin = b, r_end = e\<rparr> = {}" if "u \<in> set us \<union> set vs" for u
    using that uz assms(3,5) by (fastforce simp: addrs_def)
  then have "(addrs_of us \<union> addrs_of vs) \<inter> addrs \<lparr>r_begin = b, r_end = e\<rparr> = {}"
    by (auto simp: addrs_of_def)
  ultimately show "addrs_of (us @ ps @ vs) = addrs_of (us @ z # vs) - addrs \<lparr>r_begin = b, r_end = e\<rparr>"
    by auto
qed

lemma emplace_leftovers:
  assumes rb: "rb_inv r_begin (va_ranges va)" and es: "elems (va_ranges va) = us @ vs"
    and us: "\<forall>u \<in> set us. r_begin u < r_begin p" "\<forall>u \<in> set us. r_begin u < r_begin q"
    and vs: "\<forall>v \<in> set vs. r_begin p < r_begin v" "\<forall>v \<in> set vs. r_begin q < r_begin v"
    and pq: "\<not> range_empty p \<longrightarrow> r_begin p < r_begin q"
  shows "\<exists>t'. bind_res (if \<not> range_empty p then emplace_range_in p va else Inr va)
      (\<lambda>va2. if \<not> range_empty q then emplace_range_in q va2 else Inr va2) = Inr (va\<lparr>va_ranges := t'\<rparr>)
    \<and> rb_inv r_begin t'
    \<and> elems t' = us @ ((if range_empty p then [] else [p]) @ (if range_empty q then [] else [q])) @ vs"
proof -
  have "\<exists>t1. (if \<not> range_empty p then emplace_range_in p va else Inr va) = Inr (va\<lparr>va_ranges := t1\<rparr>)
    \<and> rb_inv r_begin t1 \<and> elems t1 = (us @ (if range_empty p then [] else [p])) @ vs"
    using emplace_range_in_between [OF rb es, of p] us vs rb es
    by (cases "range_empty p") (auto intro: exI [of _ "va_ranges va"])
  then obtain t1 where t1: "(if \<not> range_empty p then emplace_range_in p va else Inr va) = Inr (va\<lparr>va_ranges := t1\<rparr>)"
    "rb_inv r_begin t1" "elems t1 = (us @ (if range_empty p then [] else [p])) @ vs"
    by blast
  moreover have "r_begin x < r_begin q" if "x \<in> set (us @ (if range_empty p then [] else [p]))" for x
    using us pq that by (auto split: if_splits)
  ultimately show ?thesis
    using emplace_range_in_between [of "va\<lparr>va_ranges := t1\<rparr>" "us @ (if range_empty p then [] else [p])" vs q]
      vs by auto
qed

lemma va_deallocate_from:
  assumes inv: "va_inv va" and es: "elems (va_ranges va) = us @ z # vs"
    and r: "r_begin r < r_end r" "page_is_aligned (r_begin r)" "page_is_aligned (r_end r)"
    and z: "r_begin z \<le> r_begin r" "r_end r \<le> r_end z"
  shows "\<exists>va'. bind_res (clipped_with_end z (r_begin r)) (\<lambda>range_before.
       bind_res (clipped_with_begin z (r_end r)) (\<lambda>range_after.
       bind_res (remove_range_in (Some z) va) (\<lambda>va1.
       bind_res (if \<not> range_empty range_before then emplace_range_in range_before va1 else Inr va1)
         (\<lambda>va2. if \<not> range_empty range_after then emplace_range_in range_after va2 else Inr va2)))) = Inr va'
    \<and> va_drops va (addrs r) va'"
proof -
  let ?p = "\<lparr>r_begin = r_begin z, r_end = r_begin r\<rparr>" and ?q = "\<lparr>r_begin = r_end r, r_end = r_end z\<rparr>"
  let ?ps = "(if r_begin z = r_begin r then [] else [?p]) @ (if r_end r = r_end z then [] else [?q])"
  have rb: "rb_inv r_begin (va_ranges va)" and g: "gapped (us @ z # vs)" "list_all (range_ok (va_base va)) (us @ z # vs)"
    using inv es by (simp_all add: va_inv_def)
  note pieces = gapped_split_range [OF g z(1) r(1) z(2) r(2,3) refl]
  have clip: "clipped_with_end z (r_begin r) = Inr ?p" "clipped_with_begin z (r_end r) = Inr ?q"
    using z r(1) by (auto simp: range_defs)
  obtain t where t: "remove_range_in (Some z) va = Inr (va\<lparr>va_ranges := t\<rparr>)" "rb_inv r_begin t" "elems t = us @ vs"
    using remove_range_in_eq [OF rb es] by blast
  have "\<forall>u \<in> set us. r_begin u < r_begin z" "\<forall>v \<in> set vs. r_end z < r_begin v"
    using g by (auto simp: gapped_append gapped_Cons list_all_iff dest!: range_ok_lt intro: less_trans)
  then have ord: "\<forall>u \<in> set us. r_begin u < r_begin ?p" "\<forall>u \<in> set us. r_begin u < r_begin ?q"
    "\<forall>v \<in> set vs. r_begin ?p < r_begin v" "\<forall>v \<in> set vs. r_begin ?q < r_begin v"
    "\<not> range_empty ?p \<longrightarrow> r_begin ?p < r_begin ?q"
    using z r(1) by auto
  have "rb_inv r_begin (va_ranges (va\<lparr>va_ranges := t\<rparr>))" "elems (va_ranges (va\<lparr>va_ranges := t\<rparr>)) = us @ vs"
    using t by simp_all
  from emplace_leftovers [OF this ord]
  obtain t' where t': "bind_res (if \<not> range_empty ?p then emplace_range_in ?p (va\<lparr>va_ranges := t\<rparr>) else Inr (va\<lparr>va_ranges := t\<rparr>))
      (\<lambda>va2. if \<not> range_empty ?q then emplace_range_in ?q va2 else Inr va2) = Inr (va\<lparr>va_ranges := t'\<rparr>)"
    "rb_inv r_begin t'" "elems t' = us @ ?ps @ vs"
    by (auto simp: range_empty_def simp del: bind_res_Inr)
  have "addrs \<lparr>r_begin = r_begin r, r_end = r_end r\<rparr> = addrs r"
    by (simp add: addrs_def)
  then have "va_drops va (addrs r) (va\<lparr>va_ranges := t'\<rparr>)"
    using pieces inv t' es by (simp add: va_drops_def va_inv_def allocated_addrs_def)
  with t t' clip show ?thesis
    by auto
qed

text \<open>The range of the tree that holds the first address to free.\<close>

definition lookup_holder :: "addr \<Rightarrow> range option \<Rightarrow> range rb_tree \<Rightarrow> range option res" where
  "lookup_holder c lb t = (if lb = None \<or> r_begin (the lb) \<noteq> c
     then if lb = rb_begin t then Inl Panic else rb_prev range_less lb t else Inr lb)"

lemma lookup_holder_found:
  assumes inv: "va_inv va" and es: "elems (va_ranges va) = xs @ ys"
    and ord: "\<forall>x \<in> set xs. r_begin x < c" "\<forall>y \<in> set ys. c \<le> r_begin y"
    and z: "z \<in> set (xs @ ys)" "c \<in> addrs z"
  shows "(\<exists>us vs. elems (va_ranges va) = us @ z # vs) \<and> lookup_holder c (head_of ys) (va_ranges va) = Inr (Some z)"
  using inv es ord z
proof (cases rule: covering_cases)
  case (head zs)
  then show ?thesis
    using es by (auto simp: lookup_holder_def)
next
  case (last us)
  have rb: "rb_inv r_begin (va_ranges va)"
    using inv by (simp add: va_inv_def)
  have "r_begin y \<noteq> c" if "y \<in> set ys" for y
    using inv es last that by (auto simp: va_inv_def gapped_append gapped_Cons dest: less_trans)
  then have "head_of ys = None \<or> r_begin (the (head_of ys)) \<noteq> c"
    by (cases ys) auto
  then show ?thesis
    using es last va_tree.rb_begin_split [OF rb es] va_tree.rb_prev_split [OF rb es]
    by (auto simp: lookup_holder_def)
qed

lemma lookup_holder_none:
  assumes inv: "va_inv va" and es: "elems (va_ranges va) = xs @ ys" and free: "c \<notin> allocated_addrs va"
  shows "lookup_holder c (head_of ys) (va_ranges va) = Inl Panic
    \<or> (\<exists>z. lookup_holder c (head_of ys) (va_ranges va) = Inr (Some z) \<and> c \<notin> addrs z)"
proof -
  have rb: "rb_inv r_begin (va_ranges va)"
    using inv by (simp add: va_inv_def)
  note split = va_tree.rb_begin_split [OF rb es] va_tree.rb_prev_split [OF rb es]
  have out: "c \<notin> addrs z" if "z \<in> set xs \<union> set ys" for z
    using free that es allocated_memberI [of z va c] by auto
  show ?thesis
  proof (cases "head_of ys = None \<or> r_begin (the (head_of ys)) \<noteq> c")
    case True
    then show ?thesis
      using split out by (cases xs rule: rev_cases) (simp_all add: lookup_holder_def)
  next
    case False
    then show ?thesis
      using out by (cases ys) (auto simp: lookup_holder_def)
  qed
qed

lemma va_deallocate_lookup:
  "va_deallocate r va =
     (let t = va_ranges va
      in if \<not> page_is_aligned (r_begin r) then Inl Assertion
         else if \<not> page_is_aligned (range_length r) then Inl Assertion
         else if \<not> va_contains r va then Inl Panic
         else if rb_empty t then Inl Panic
         else bind_res (lookup_holder (r_begin r) (rb_lower_bound range_less r t) t) (\<lambda>it.
                 if it = None \<or> \<not> contains_range (the it) r then Inl Panic
                 else bind_res (clipped_with_end (the it) (r_begin r)) (\<lambda>range_before.
                      bind_res (clipped_with_begin (the it) (r_end r)) (\<lambda>range_after.
                      bind_res (remove_range_in it va) (\<lambda>va1.
                      bind_res (if \<not> range_empty range_before then emplace_range_in range_before va1 else Inr va1)
                        (\<lambda>va2. if \<not> range_empty range_after then emplace_range_in range_after va2 else Inr va2))))))"
  unfolding va_deallocate_def lookup_holder_def Let_def by (rule refl)

lemma va_deallocate_cases:
  assumes inv: "va_inv va" and r: "r_begin r < r_end r" "page_is_aligned (r_begin r)" "page_is_aligned (range_length r)"
    and base: "addrs r \<subseteq> addrs (va_base va)"
  shows "if addrs r \<subseteq> allocated_addrs va then \<exists>va'. va_deallocate r va = Inr va' \<and> va_drops va (addrs r) va'
    else va_deallocate r va = Inl Panic"
proof -
  have rb: "rb_inv r_begin (va_ranges va)"
    using inv by (simp add: va_inv_def)
  have ends: "r_begin r \<in> addrs r" "r_end r - 1 \<in> addrs r"
    using r(1) by (simp_all add: addrs_def) unat_arith
  then have con: "va_contains r va"
    using base by (auto simp: va_contains_def contains_addr_iff)
  have al: "page_is_aligned (r_end r)"
    using page_aligned_sum [OF r(2,3)] r(1) unat_diff_word [OF less_imp_le [OF r(1)]]
    by (simp add: range_length_def word_less_nat_alt)
  obtain xs ys where es: "elems (va_ranges va) = xs @ ys"
    and lb: "rb_lower_bound range_less r (va_ranges va) = head_of ys"
    and ord: "\<forall>x \<in> set xs. r_begin x < r_begin r" "\<forall>y \<in> set ys. r_begin r \<le> r_begin y"
    using va_lower_bound [OF inv, of range_less r "r_begin r"] by (auto simp: range_less_def)
  note run = va_deallocate_lookup [of r va] Let_def lb
  show ?thesis
  proof (cases "r_begin r \<in> allocated_addrs va")
    case True
    then obtain z where z: "z \<in> set (xs @ ys)" "r_begin r \<in> addrs z"
      using es by (auto elim: allocated_memberE)
    then have ne: "\<not> rb_empty (va_ranges va)"
      using rb_empty_iff [OF rb] es by auto
    have zb: "r_begin z \<le> r_begin r"
      using z(2) by (simp add: addrs_def)
    obtain us vs where zs: "elems (va_ranges va) = us @ z # vs" and
      it: "lookup_holder (r_begin r) (head_of ys) (va_ranges va) = Inr (Some z)"
      using lookup_holder_found [OF inv es ord z] by blast
    show ?thesis
    proof (cases "r_end r \<le> r_end z")
      case True
      then have "addrs r \<subseteq> addrs z"
        using zb by (auto simp: addrs_def intro: order.trans order_less_le_trans)
      then have "addrs r \<subseteq> allocated_addrs va"
        using zs by (auto simp: allocated_addrs_def)
      then show ?thesis
        using va_deallocate_from [OF inv zs r(1,2) al zb True] it r con ne z(2) True
        by (simp add: run contains_range_def contains_addr_iff split del: if_split)
    next
      case False
      then have "\<not> addrs r \<subseteq> allocated_addrs va"
        using allocated_subset_one [OF inv r(1)] z es by auto
      then show ?thesis
        using it r con ne False by (simp add: run contains_range_def split del: if_split)
    qed
  next
    case False
    then have "\<not> addrs r \<subseteq> allocated_addrs va"
      using ends(1) by blast
    then show ?thesis
      using lookup_holder_none [OF inv es False] con r by (auto simp: run contains_range_def contains_addr_iff)
  qed
qed

lemma va_inv_empty: "wf_range base \<Longrightarrow> va_inv \<lparr>va_base = base, va_ranges = rb_new\<rparr>"
  by (simp add: va_inv_def rb_inv_new)

lemma va_allocate_small_alignment:
  "va_allocate len al va = va_allocate len (max al page_size) va"
proof -
  have "(if al < page_size then page_size else al) = max al page_size"
    "(if max al page_size < page_size then page_size else max al page_size) = max al page_size"
    by (auto simp: max_def)
  then show ?thesis
    by (simp only: va_allocate_def)
qed

lemma va_allocate_ok:
  assumes inv: "va_inv va" and run: "va_allocate len al va = Inr (r, va')"
  shows "allocation_ok va (page_round_up len) (max al page_size) r va'"
proof -
  let ?al = "max al page_size"
  have guards: "?al AND NOT page_alignment_mask = 0" "len \<noteq> 0" "\<not> page_round_up len < len"
    using run unfolding va_allocate_small_alignment [of len al]
    by (auto simp: va_allocate_def Let_def split: if_splits)
  have "page_size \<le> ?al"
    by simp
  from va_allocate_run [OF inv this guards] run show ?thesis
    by (simp add: va_allocate_small_alignment [of len al])
qed

lemma va_deallocate_ok:
  assumes inv: "va_inv va" and r: "r_begin r < r_end r" and run: "va_deallocate r va = Inr va'"
  shows "addrs r \<subseteq> allocated_addrs va \<and> va_drops va (addrs r) va'"
proof -
  have guards: "page_is_aligned (r_begin r)" "page_is_aligned (range_length r)" "va_contains r va"
    using run by (auto simp: va_deallocate_def Let_def split: if_splits)
  then have "r_begin (va_base va) \<le> r_begin r" "r_end r - 1 < r_end (va_base va)"
    by (simp_all add: va_contains_def contains_addr_def)
  moreover from this(2) r have "r_end r \<le> r_end (va_base va)"
    by unat_arith
  ultimately have "addrs r \<subseteq> addrs (va_base va)"
    by (auto simp: addrs_def)
  from va_deallocate_cases [OF inv r guards(1,2) this] run show ?thesis
    by (auto split: if_splits)
qed

subsection \<open>Runs of the allocator\<close>

text \<open>The calls of a client, one after the other; a call that panics or fails an assertion ends the run.\<close>

datatype va_call = Allocate size_t size_t | Allocate_range range | Deallocate range

fun va_step :: "va_call \<Rightarrow> virtual_allocator \<Rightarrow> virtual_allocator res" where
  "va_step (Allocate len al) va = map_sum id snd (va_allocate len al va)"
| "va_step (Allocate_range r) va = map_sum id snd (va_allocate_range r va)"
| "va_step (Deallocate r) va = va_deallocate r va"

fun va_run :: "va_call list \<Rightarrow> virtual_allocator \<Rightarrow> virtual_allocator res" where
  "va_run [] va = Inr va"
| "va_run (c # cs) va = bind_res (va_step c va) (va_run cs)"

text \<open>
  What the client has to see to: no request for a given range goes around an allocated range,
  and no empty range is freed. \<^verbatim>\<open>allocate(Range)\<close> does not notice the first.
\<close>

fun requests_ok :: "va_call list \<Rightarrow> virtual_allocator \<Rightarrow> bool" where
  "requests_ok [] va \<longleftrightarrow> True"
| "requests_ok (c # cs) va \<longleftrightarrow>
     (case c of Allocate len al \<Rightarrow> True
      | Allocate_range r0 \<Rightarrow> r_begin r0 \<le> r_end r0 \<and> \<not> encloses_allocated (rounded_range r0) va
      | Deallocate r \<Rightarrow> r_begin r < r_end r)
     \<and> (case va_step c va of Inl f \<Rightarrow> True | Inr va' \<Rightarrow> requests_ok cs va')"

definition va_aligned :: "virtual_allocator \<Rightarrow> bool" where
  "va_aligned va \<longleftrightarrow> va_inv va \<and> page_is_aligned (r_begin (va_base va)) \<and> page_is_aligned (r_end (va_base va))"

lemma va_allocate_range_ok:
  assumes inv: "va_aligned va" and r0: "r_begin r0 \<le> r_end r0" "\<not> encloses_allocated (rounded_range r0) va"
    and run: "va_allocate_range r0 va = Inr (r, va')"
  shows "r = rounded_range r0 \<and> addrs r \<inter> allocated_addrs va = {} \<and> va_adds va (addrs r) va'"
proof -
  have va: "va_inv va" "page_is_aligned (r_begin (va_base va))" "page_is_aligned (r_end (va_base va))"
    using inv by (simp_all add: va_aligned_def)
  have g: "\<not> range_empty r0" "va_contains r0 va"
    using run by (auto simp: va_allocate_range_def Let_def split: if_splits)
  then have lt: "r_begin r0 < r_end r0"
    using r0(1) by (auto simp: range_empty_def)
  note b = rounded_in_base [OF lt g(2) va(2,3)]
  from va_allocate_range_cases [OF va(1) lt b(1) refl b(2)] show ?thesis
    using run r0(2) by (auto split: if_splits)
qed

lemma va_step_aligned:
  assumes "va_aligned va" "requests_ok (c # cs) va" "va_step c va = Inr va'"
  shows "va_aligned va' \<and> requests_ok cs va'"
proof (cases c)
  case (Allocate len al)
  then obtain r where "va_allocate len al va = Inr (r, va')"
    using assms(3) by (cases "va_allocate len al va") auto
  then show ?thesis
    using va_allocate_ok [of va len al r va'] assms Allocate by (auto simp: va_aligned_def allocation_ok_def va_adds_def)
next
  case (Allocate_range r0)
  then obtain r where "va_allocate_range r0 va = Inr (r, va')"
    using assms(3) by (cases "va_allocate_range r0 va") auto
  then show ?thesis
    using va_allocate_range_ok [of va r0 r va'] assms Allocate_range by (auto simp: va_aligned_def va_adds_def)
next
  case (Deallocate r)
  then show ?thesis
    using va_deallocate_ok [of va r va'] assms by (auto simp: va_aligned_def va_drops_def)
qed

lemma va_run_aligned:
  assumes "va_aligned va" "requests_ok cs va" "va_run cs va = Inr va'"
  shows "va_aligned va'"
  using assms
proof (induction cs arbitrary: va)
  case (Cons c cs)
  then obtain va1 where "va_step c va = Inr va1" "va_run cs va1 = Inr va'"
    by (auto simp: bind_res_eq_Inr)
  then show ?case
    using Cons.IH va_step_aligned [OF Cons.prems(1,2)] by blast
qed simp

lemma virtual_allocator_new_aligned:
  assumes "virtual_allocator_new b e = Inr va" "page_is_aligned b" "page_is_aligned e"
  shows "va_aligned va"
  using assms by (auto simp: va_aligned_def virtual_allocator_new_def mk_range_def Let_def wf_range_def bind_res_eq_Inr
      intro!: va_inv_empty split: if_splits)

subsection \<open>Properties\<close>

text \<open>
  C8: \<^verbatim>\<open>allocate(length, alignment)\<close> is a complete first fit. The range it returns has the
  length rounded up to pages, begins at a multiple of the alignment (of the page size, when
  the alignment is smaller), lies in the base range, was free before and is exactly what is
  allocated in addition afterwards; the invariant is kept. It panics only when the rounded
  length overflows or no free aligned block of that length exists.
\<close>

theorem va_allocate_correct:
  assumes "va_inv va" and "len \<noteq> 0" and "max al page_size AND NOT page_alignment_mask = 0"
  shows "case va_allocate len al va of
      Inr (r, va') \<Rightarrow> allocation_ok va (page_round_up len) (max al page_size) r va'
    | Inl f \<Rightarrow> f = Panic \<and> (page_round_up len < len
        \<or> (\<forall>c. aligned_at (max al page_size) c \<longrightarrow> \<not> free_block va (page_round_up len) c))"
proof (cases "page_round_up len < len")
  case True
  then have "va_allocate len (max al page_size) va = Inl Panic"
    using assms(2,3) by (simp add: va_allocate_def)
  with True show ?thesis
    by (simp add: va_allocate_small_alignment [of len al])
next
  case False
  have "page_size \<le> max al page_size"
    by simp
  from va_allocate_run [OF assms(1) this assms(3,2) False] show ?thesis
    by (auto simp: va_allocate_small_alignment [of len al])
qed

definition va_example :: virtual_allocator where
  "va_example = \<lparr>va_base = \<lparr>r_begin = 0x1000, r_end = 0x10000\<rparr>,
     va_ranges = \<lparr>rb_root = Node Null BLACK \<lparr>r_begin = 0x3000, r_end = 0x4000\<rparr> Null,
       rb_leftmost = Some \<lparr>r_begin = 0x3000, r_end = 0x4000\<rparr>,
       rb_rightmost = Some \<lparr>r_begin = 0x3000, r_end = 0x4000\<rparr>, rb_size = 1\<rparr>\<rparr>"

lemma addrs_mono: "r_begin s \<le> r_begin r \<Longrightarrow> r_end r \<le> r_end s \<Longrightarrow> addrs r \<subseteq> addrs s"
  by (auto simp: addrs_def)

lemma va_example_inv: "va_inv va_example"
  by (simp add: va_inv_def va_example_def rb_inv_def rb_def gapped_def range_ok_def wf_range_def
      page_is_aligned_def page_size_def)

theorem va_allocate_correct_witness:
  "va_inv va_example \<and> (\<exists>va'. va_allocate 0x1800 0 va_example = Inr (\<lparr>r_begin = 0x1000, r_end = 0x3000\<rparr>, va')
     \<and> allocation_ok va_example 0x2000 0x1000 \<lparr>r_begin = 0x1000, r_end = 0x3000\<rparr> va')"
proof -
  have "max 0 page_size AND NOT page_alignment_mask = 0" "page_round_up 0x1800 = 0x2000" "max 0 page_size = 0x1000"
    by (simp_all add: page_size_def page_alignment_mask_def page_round_up_def round_up_custom_def)
  moreover have "map_sum id fst (va_allocate 0x1800 0 va_example) = Inr \<lparr>r_begin = 0x1000, r_end = 0x3000\<rparr>"
    by code_simp
  then obtain va' where "va_allocate 0x1800 0 va_example = Inr (\<lparr>r_begin = 0x1000, r_end = 0x3000\<rparr>, va')"
    by (cases "va_allocate 0x1800 0 va_example") auto
  ultimately show ?thesis
    using va_allocate_correct [OF va_example_inv, of "0x1800" 0] va_example_inv by simp
qed

text \<open>
  C14: \<^verbatim>\<open>deallocate\<close> of a non-empty page aligned range of the base takes exactly the
  addresses of the range out of the allocated ones and keeps the invariant, also when it
  splits a range in the middle; it panics exactly when some address of the range is not
  allocated.
\<close>

theorem va_deallocate_correct:
  assumes "va_inv va" and "r_begin r < r_end r" and "page_is_aligned (r_begin r)" "page_is_aligned (range_length r)"
    and "addrs r \<subseteq> addrs (va_base va)"
  shows "if addrs r \<subseteq> allocated_addrs va
    then \<exists>va'. va_deallocate r va = Inr va' \<and> va_inv va' \<and> va_base va' = va_base va
           \<and> allocated_addrs va' = allocated_addrs va - addrs r
    else va_deallocate r va = Inl Panic"
  using va_deallocate_cases [OF assms] by (simp add: va_drops_def split: if_splits)

theorem va_deallocate_correct_witness:
  "va_inv va_example \<and> (\<exists>va'. va_deallocate \<lparr>r_begin = 0x3000, r_end = 0x4000\<rparr> va_example = Inr va'
     \<and> allocated_addrs va' = {}) \<and> va_deallocate \<lparr>r_begin = 0x3000, r_end = 0x5000\<rparr> va_example = Inl Panic"
proof -
  have a: "allocated_addrs va_example = addrs \<lparr>r_begin = 0x3000 :: addr, r_end = 0x4000\<rparr>"
    by (simp add: allocated_addrs_def va_example_def)
  have sub: "addrs \<lparr>r_begin = 0x3000 :: addr, r_end = 0x4000\<rparr> \<subseteq> addrs (va_base va_example)"
    "addrs \<lparr>r_begin = 0x3000 :: addr, r_end = 0x5000\<rparr> \<subseteq> addrs (va_base va_example)"
    by (simp_all add: addrs_mono va_example_def)
  have al: "page_is_aligned (0x3000 :: addr)" "page_is_aligned (0x1000 :: addr)" "page_is_aligned (0x2000 :: addr)"
    by (simp_all add: page_is_aligned_def page_size_def)
  have "(0x4000 :: addr) \<in> addrs \<lparr>r_begin = 0x3000, r_end = 0x5000\<rparr>" "(0x4000 :: addr) \<notin> addrs \<lparr>r_begin = 0x3000, r_end = 0x4000\<rparr>"
    by (simp_all add: addrs_def)
  then have "\<not> addrs \<lparr>r_begin = 0x3000 :: addr, r_end = 0x5000\<rparr> \<subseteq> allocated_addrs va_example"
    unfolding a by blast
  then show ?thesis
    using va_deallocate_correct [OF va_example_inv, of "\<lparr>r_begin = 0x3000, r_end = 0x4000\<rparr>"]
      va_deallocate_correct [OF va_example_inv, of "\<lparr>r_begin = 0x3000, r_end = 0x5000\<rparr>"] va_example_inv sub al a
    by (auto simp: range_length_def)
qed

text \<open>
  C33: \<^verbatim>\<open>allocate(Range)\<close> rounds a non-empty range outwards to pages. For a rounded range in the
  base, when it is free, exactly its addresses become allocated and it is returned. When it is not,
  the call should panic, and it does when the first address is taken or when no allocated range
  lies strictly inside. When one does and the first address is free, the call returns the range
  although it overlaps allocated memory, and the invariant is lost.
\<close>

theorem va_allocate_range_outcome:
  assumes "va_inv va" and "r_begin r0 < r_end r0" and "r = rounded_range r0" and "r_begin r < r_end r"
    and "addrs r \<subseteq> addrs (va_base va)"
  shows "addrs r0 \<subseteq> addrs r \<and> page_is_aligned (r_begin r) \<and> page_is_aligned (r_end r)
    \<and> (if addrs r \<inter> allocated_addrs va = {} then \<exists>va'. va_allocate_range r0 va = Inr (r, va') \<and> va_adds va (addrs r) va'
       else if r_begin r \<notin> allocated_addrs va \<and> encloses_allocated r va then \<exists>va'. va_allocate_range r0 va = Inr (r, va') \<and> \<not> va_inv va'
       else va_allocate_range r0 va = Inl Panic)"
  using rounded_range_covers [OF assms(2)] va_allocate_range_cases [OF assms(1,2,4,3,5)] assms(3,4) by simp

lemma rounded_examples:
  "rounded_range \<lparr>r_begin = 0x3800, r_end = 0x3900\<rparr> = \<lparr>r_begin = 0x3000, r_end = 0x4000\<rparr>"
  "rounded_range \<lparr>r_begin = 0x1800, r_end = 0x5900\<rparr> = \<lparr>r_begin = 0x1000, r_end = 0x6000\<rparr>"
  by (simp_all add: rounded_range_def page_round_down_def page_round_up_def round_down_custom_def round_up_custom_def
      page_alignment_mask_def page_size_def range_length_def)

theorem va_allocate_range_outcome_witness:
  "va_allocate_range \<lparr>r_begin = 0x3800, r_end = 0x3900\<rparr> va_example = Inl Panic
   \<and> (\<exists>va'. va_allocate_range \<lparr>r_begin = 0x1800, r_end = 0x5900\<rparr> va_example = Inr (\<lparr>r_begin = 0x1000, r_end = 0x6000\<rparr>, va') \<and> \<not> va_inv va')"
proof -
  have a: "allocated_addrs va_example = addrs \<lparr>r_begin = 0x3000 :: addr, r_end = 0x4000\<rparr>"
    by (simp add: allocated_addrs_def va_example_def)
  have sub: "addrs \<lparr>r_begin = 0x3000 :: addr, r_end = 0x4000\<rparr> \<subseteq> addrs (va_base va_example)"
    "addrs \<lparr>r_begin = 0x1000 :: addr, r_end = 0x6000\<rparr> \<subseteq> addrs (va_base va_example)"
    by (simp_all add: addrs_mono va_example_def)
  have i: "0x3000 \<in> addrs \<lparr>r_begin = 0x3000 :: addr, r_end = 0x4000\<rparr>" "0x3000 \<in> addrs \<lparr>r_begin = 0x1000 :: addr, r_end = 0x6000\<rparr>"
    "0x1000 \<notin> addrs \<lparr>r_begin = 0x3000 :: addr, r_end = 0x4000\<rparr>"
    by (simp_all add: addrs_def)
  then have "addrs \<lparr>r_begin = 0x3000 :: addr, r_end = 0x4000\<rparr> \<noteq> {}"
    "addrs \<lparr>r_begin = 0x1000 :: addr, r_end = 0x6000\<rparr> \<inter> addrs \<lparr>r_begin = 0x3000, r_end = 0x4000\<rparr> \<noteq> {}"
    by blast+
  moreover have "encloses_allocated \<lparr>r_begin = 0x1000, r_end = 0x6000\<rparr> va_example"
    by (simp add: encloses_allocated_def va_example_def)
  ultimately show ?thesis
    using va_allocate_range_outcome [OF va_example_inv, of "\<lparr>r_begin = 0x3800, r_end = 0x3900\<rparr>", OF _ rounded_examples(1) [symmetric]]
      va_allocate_range_outcome [OF va_example_inv, of "\<lparr>r_begin = 0x1800, r_end = 0x5900\<rparr>", OF _ rounded_examples(2) [symmetric]] sub i
    unfolding a by simp
qed

text \<open>
  C15: take an allocator over a page aligned range and any sequence of calls in which no request for a given
  range goes around an allocated range and no empty range is freed. As long as no call
  panics, the allocated ranges are non-empty, page aligned, inside the base range and
  separated by gaps, in a valid red-black tree, and \<^verbatim>\<open>is_allocated\<close> answers for every
  address whether it lies in one of them.
\<close>

theorem va_run_states:
  assumes "virtual_allocator_new b e = Inr va0" and "page_is_aligned b" and "page_is_aligned e"
    and "requests_ok calls va0" and "va_run calls va0 = Inr va"
  shows "va_inv va \<and> is_allocated address va = Inr (address \<in> allocated_addrs va)"
  using va_run_aligned [OF virtual_allocator_new_aligned [OF assms(1-3)] assms(4,5)] is_allocated_eq by (auto simp: va_aligned_def)

theorem va_run_states_witness:
  "let calls = [Allocate_range \<lparr>r_begin = 0x3800, r_end = 0x3900\<rparr>, Allocate 0x1800 0, Allocate 0x1000 0x4000,
       Deallocate \<lparr>r_begin = 0x2000, r_end = 0x3000\<rparr>]
   in \<exists>va0 va. virtual_allocator_new 0x1000 0x10000 = Inr va0 \<and> requests_ok calls va0 \<and> va_run calls va0 = Inr va
        \<and> va_inv va \<and> is_allocated 0x2000 va = Inr False \<and> is_allocated 0x3fff va = Inr True"
proof -
  let ?calls = "[Allocate_range \<lparr>r_begin = 0x3800, r_end = 0x3900\<rparr>, Allocate 0x1800 0, Allocate 0x1000 0x4000,
       Deallocate \<lparr>r_begin = 0x2000, r_end = 0x3000\<rparr>]"
  let ?va0 = "\<lparr>va_base = \<lparr>r_begin = 0x1000, r_end = 0x10000\<rparr>, va_ranges = rb_new\<rparr>"
  have new: "virtual_allocator_new 0x1000 0x10000 = Inr ?va0"
    by (simp add: virtual_allocator_new_def mk_range_def)
  have ok: "requests_ok ?calls ?va0"
    by code_simp
  have "bind_res (va_run ?calls ?va0) (is_allocated 0x2000) = Inr False" "bind_res (va_run ?calls ?va0) (is_allocated 0x3fff) = Inr True"
    by code_simp+
  then obtain va where va: "va_run ?calls ?va0 = Inr va" "is_allocated 0x2000 va = Inr False" "is_allocated 0x3fff va = Inr True"
    by (cases "va_run ?calls ?va0") auto
  have "page_is_aligned (0x1000 :: addr)" "page_is_aligned (0x10000 :: addr)"
    by (simp_all add: page_is_aligned_def page_size_def)
  then show ?thesis
    using va_run_states [OF new _ _ ok va(1), of 0] new ok va by (auto simp: Let_def)
qed

end
