(* ===== verification/Heap_Allocator.thy ===== *)
theory Heap_Allocator
  imports Kernel_Prelude
begin

text \<open>
  \<^verbatim>\<open>Kernel/Memory/HeapAllocator.cpp\<close>: the kernel heap. A heap block is cut into chunks;
  its bitmap has two bits per chunk, zero for a free chunk and otherwise an id that differs
  from the ids of the allocations next to it, so that an allocation is a maximal run of
  chunks with one id and needs no header. The bitmap is a list of bytes and an access past
  its end is undefined behaviour. Bit indices are natural numbers: they stay below twice
  the number of chunks of a block, far below the width of \<^verbatim>\<open>size_t\<close>.
\<close>

subsection \<open>Heap blocks\<close>

text \<open>
  \<^verbatim>\<open>HeapBlockHeader\<close>. The blocks of the heap form a list (the field \<^verbatim>\<open>next\<close>); the bitmap
  lies behind the header in memory.
\<close>

record heap_block =
  hb_data :: addr
  hb_chunk_count :: size_t
  hb_chunk_size :: size_t
  hb_free_chunks :: size_t
  hb_bitmap :: "u8 list"

definition header_size :: size_t where
  "header_size = 40"

definition upper_allocation_threshold :: size_t where
  "upper_allocation_threshold = 2 * 1024 * 1024"

definition default_chunk_size :: size_t where
  "default_chunk_size = 32"

definition hb_end :: "heap_block \<Rightarrow> addr" where
  "hb_end h = hb_data h + hb_chunk_count h * hb_chunk_size h"

definition which_bit :: "addr \<Rightarrow> heap_block \<Rightarrow> nat" where
  "which_bit ptr h = unat ((ptr - hb_data h) div hb_chunk_size h) * 2"

definition hb_free_bytes :: "heap_block \<Rightarrow> size_t" where
  "hb_free_bytes h = hb_free_chunks h * hb_chunk_size h"

definition hb_contains :: "addr \<Rightarrow> heap_block \<Rightarrow> bool" where
  "hb_contains ptr h \<longleftrightarrow> ptr \<le> hb_end h \<and> ptr \<ge> hb_data h"

record heap =
  hp_blocks :: "heap_block list"
  hp_total_free_bytes :: size_t
  hp_calls_to_allocate :: size_t
  hp_calls_to_free :: size_t
  hp_is_being_refilled :: bool

definition heap_new :: heap where
  "heap_new = \<lparr>hp_blocks = [], hp_total_free_bytes = 0, hp_calls_to_allocate = 0, hp_calls_to_free = 0,
     hp_is_being_refilled = False\<rparr>"

text \<open>
  \<^verbatim>\<open>feed_block\<close>: the first block becomes the head of the list, every later one its
  second element.
\<close>

definition make_block :: "addr \<Rightarrow> size_t \<Rightarrow> size_t \<Rightarrow> heap_block" where
  "make_block ptr sz chunk_size_in_bytes =
     (let pure_size = sz - header_size;
          chunk_count = pure_size div chunk_size_in_bytes;
          bitmap_bytes = 1 + ((chunk_count - 1) div 4);
          data_ptr = ptr + header_size + bitmap_bytes;
          alignment_overhead =
            (if data_ptr mod chunk_size_in_bytes \<noteq> 0
             then chunk_size_in_bytes - data_ptr mod chunk_size_in_bytes else 0);
          bitmap_bytes = bitmap_bytes + alignment_overhead;
          pure_size = pure_size - bitmap_bytes;
          pure_size = (if pure_size mod chunk_size_in_bytes \<noteq> 0
                       then pure_size - pure_size mod chunk_size_in_bytes else pure_size);
          count = pure_size div chunk_size_in_bytes
      in \<lparr>hb_data = ptr + header_size + bitmap_bytes, hb_chunk_count = count,
          hb_chunk_size = chunk_size_in_bytes, hb_free_chunks = count,
          hb_bitmap = replicate (unat bitmap_bytes) 0\<rparr>)"

definition link_block :: "heap_block \<Rightarrow> heap_block list \<Rightarrow> heap_block list" where
  "link_block new_heap blocks = (case blocks of [] \<Rightarrow> [new_heap] | h # hs \<Rightarrow> h # new_heap # hs)"

definition feed_block :: "addr \<Rightarrow> size_t \<Rightarrow> size_t \<Rightarrow> heap \<Rightarrow> heap res" where
  "feed_block ptr sz chunk_size_in_bytes hp =
     (if chunk_size_in_bytes = 0 then Inl Divide_Error
      else let new_heap = make_block ptr sz chunk_size_in_bytes
           in Inr (hp\<lparr>hp_blocks := link_block new_heap (hp_blocks hp),
                      hp_total_free_bytes := hp_total_free_bytes hp
                        + hb_chunk_count new_heap * chunk_size_in_bytes\<rparr>))"

text \<open>
  \<^verbatim>\<open>refill_if_needed\<close>. The argument \<open>mm\<close> stands for the memory manager: \<open>None\<close> before it
  is initialised, afterwards the allocation of a kernel region, which gives the region and
  the heap as it is then (the memory manager allocates its own objects from it).
\<close>

type_synonym region_source = "(heap \<Rightarrow> ((addr \<times> size_t) \<times> heap) res) option"

definition refill_if_needed :: "region_source \<Rightarrow> size_t \<Rightarrow> heap \<Rightarrow> heap res" where
  "refill_if_needed mm bytes_left hp =
     (if bytes_left > upper_allocation_threshold then Inr hp
      else let hp = hp\<lparr>hp_is_being_refilled := True\<rparr>
           in case mm of
                None \<Rightarrow> if bytes_left = 0 then Inl Panic else Inr hp
              | Some allocate_region \<Rightarrow>
                  bind_res (allocate_region hp) (\<lambda>((b, len), hp).
                  bind_res (feed_block b len default_chunk_size hp) (\<lambda>hp.
                    Inr (hp\<lparr>hp_is_being_refilled := False\<rparr>))))"

subsection \<open>Allocation\<close>

definition count_set_bits :: "size_t \<Rightarrow> nat" where
  "count_set_bits number = length (filter (bit number) [0..<64])"

definition control_byte :: "u8 list \<Rightarrow> nat \<Rightarrow> u8 res" where
  "control_byte bm i = (if i div 8 < length bm then Inr (bm ! (i div 8)) else Inl Undefined)"

text \<open>The mask of the two bits of a chunk, and the id in them.\<close>

definition allocation_mask :: "nat \<Rightarrow> u8" where
  "allocation_mask i = (let byte_index = i div 8; bit_index = i - 8 * byte_index
     in push_bit (bit_index + 1) 1 OR push_bit bit_index 1)"

definition read_id :: "u8 list \<Rightarrow> nat \<Rightarrow> u8 res" where
  "read_id bm i = bind_res (control_byte bm i) (\<lambda>b. Inr (drop_bit (i - 8 * (i div 8)) (b AND allocation_mask i)))"

text \<open>Skipping ahead to the next aligned position; the loop adds two afterwards.\<close>

definition skip_alignment_bits :: "nat \<Rightarrow> nat \<Rightarrow> nat \<Rightarrow> nat" where
  "skip_alignment_bits bits_per_aligned_block aligned_offset i =
     (let i = (word_of_nat i :: size_t) - word_of_nat aligned_offset;
          i = (i + word_of_nat bits_per_aligned_block) AND NOT (word_of_nat bits_per_aligned_block - 1);
          i = i + word_of_nat aligned_offset
      in unat (i - 2))"

text \<open>
  The search of one block for \<open>needed\<close> free chunks in a row. The fuel bounds the number of
  iterations; one more than the number of chunks is enough.
\<close>

fun find_free_run :: "nat \<Rightarrow> heap_block \<Rightarrow> nat \<Rightarrow> nat \<Rightarrow> nat \<Rightarrow> nat \<Rightarrow> nat \<Rightarrow> nat \<Rightarrow> nat option res" where
  "find_free_run 0 h needed bits_per_aligned_block aligned_offset i current_free_block at_bit = Inl Undefined"
| "find_free_run (Suc fuel) h needed bits_per_aligned_block aligned_offset i current_free_block at_bit =
     (if \<not> i < unat (hb_chunk_count h) * 2 then Inr None
      else bind_res (control_byte (hb_bitmap h) i) (\<lambda>b.
        if b AND allocation_mask i = 0
        then let current_free_block = current_free_block + 1;
                 at_bit = (if current_free_block = 1 then i else at_bit)
             in if current_free_block = needed then Inr (Some at_bit)
                else find_free_run fuel h needed bits_per_aligned_block aligned_offset (i + 2)
                       current_free_block at_bit
        else let i = (if bits_per_aligned_block > 2
                      then skip_alignment_bits bits_per_aligned_block aligned_offset i else i)
             in find_free_run fuel h needed bits_per_aligned_block aligned_offset (i + 2) 0 0))"

text \<open>The id of a new allocation: the first one that is not zero nor an id of a neighbour.\<close>

fun unique_id :: "nat \<Rightarrow> u8 \<Rightarrow> u8 \<Rightarrow> u8 \<Rightarrow> u8 res" where
  "unique_id 0 this_id left_neighbor right_neighbor = Inl Undefined"
| "unique_id (Suc fuel) this_id left_neighbor right_neighbor =
     (if this_id = left_neighbor \<or> this_id = right_neighbor \<or> this_id = 0
      then unique_id fuel (this_id + 1) left_neighbor right_neighbor else Inr this_id)"

fun mark_allocated :: "nat \<Rightarrow> u8 \<Rightarrow> nat \<Rightarrow> u8 list \<Rightarrow> u8 list res" where
  "mark_allocated 0 this_id true_index bm = Inr bm"
| "mark_allocated (Suc n) this_id true_index bm =
     bind_res (control_byte bm true_index) (\<lambda>b.
       mark_allocated n this_id (true_index + 2)
         (bm[true_index div 8 := b OR push_bit (true_index - 8 * (true_index div 8)) this_id]))"

definition aligned_offset_of :: "size_t \<Rightarrow> heap_block \<Rightarrow> nat" where
  "aligned_offset_of alignment h =
     (if alignment > hb_chunk_size h
      then let rem = hb_data h mod alignment
           in if rem \<noteq> 0 then unat ((alignment - rem) div hb_chunk_size h) * 2 else 0
      else 0)"

text \<open>One iteration of the loop over the blocks; \<open>None\<close> is \<^verbatim>\<open>continue\<close>.\<close>

definition allocate_in_block :: "size_t \<Rightarrow> size_t \<Rightarrow> heap_block \<Rightarrow> (addr \<times> size_t \<times> heap_block) option res" where
  "allocate_in_block bytes alignment h =
     (if hb_free_bytes h < bytes then Inr None
      else if hb_chunk_size h = 0 then Inl Divide_Error
      else
        let chunks_needed = 1 + ((bytes - 1) div hb_chunk_size h);
            bits_per_aligned_block = max (unat (alignment div hb_chunk_size h) * 2) 2;
            aligned_offset = aligned_offset_of alignment h
        in bind_res (find_free_run (unat (hb_chunk_count h) + 1) h (unat chunks_needed) bits_per_aligned_block
                       aligned_offset aligned_offset 0 0) (\<lambda>found.
           case found of
             None \<Rightarrow> Inr None
           | Some at_bit \<Rightarrow>
               bind_res (if at_bit \<noteq> 0 then read_id (hb_bitmap h) (at_bit - 2) else Inr 0) (\<lambda>left_neighbor.
               bind_res (if at_bit div 2 < unat (hb_chunk_count h)
                         then read_id (hb_bitmap h) (at_bit + unat chunks_needed * 2) else Inr 0) (\<lambda>right_neighbor.
               bind_res (unique_id 4 0 left_neighbor right_neighbor) (\<lambda>this_id.
               bind_res (mark_allocated (unat chunks_needed) this_id at_bit (hb_bitmap h)) (\<lambda>bm.
                 Inr (Some (hb_data h + word_of_nat (at_bit div 2) * hb_chunk_size h,
                            chunks_needed * hb_chunk_size h,
                            h\<lparr>hb_bitmap := bm, hb_free_chunks := hb_free_chunks h - chunks_needed\<rparr>))))))))"

fun allocate_in_blocks :: "size_t \<Rightarrow> size_t \<Rightarrow> heap_block list \<Rightarrow> (addr \<times> size_t \<times> heap_block list) res" where
  "allocate_in_blocks bytes alignment [] = Inl Panic"
| "allocate_in_blocks bytes alignment (h # hs) =
     bind_res (allocate_in_block bytes alignment h) (\<lambda>r.
       case r of
         Some (data, taken, h') \<Rightarrow> Inr (data, taken, h' # hs)
       | None \<Rightarrow> bind_res (allocate_in_blocks bytes alignment hs) (\<lambda>(data, taken, hs'). Inr (data, taken, h # hs')))"

definition heap_allocate_locked :: "size_t \<Rightarrow> size_t \<Rightarrow> heap \<Rightarrow> (addr \<times> heap) res" where
  "heap_allocate_locked bytes alignment hp =
     (let hp = hp\<lparr>hp_calls_to_allocate := hp_calls_to_allocate hp + 1\<rparr>
      in bind_res (allocate_in_blocks bytes alignment (hp_blocks hp)) (\<lambda>(data, taken, blocks).
           Inr (data, hp\<lparr>hp_blocks := blocks, hp_total_free_bytes := hp_total_free_bytes hp - taken\<rparr>)))"

text \<open>\<open>did_acquire\<close> is the outcome of \<^verbatim>\<open>try_lock\<close> on the refill lock.\<close>

definition heap_allocate :: "region_source \<Rightarrow> bool \<Rightarrow> size_t \<Rightarrow> size_t \<Rightarrow> heap \<Rightarrow> (addr \<times> heap) res" where
  "heap_allocate mm did_acquire bytes alignment hp =
     (if bytes = 0 \<or> bytes > upper_allocation_threshold then Inl Panic
      else if count_set_bits alignment \<noteq> 1 \<or> alignment > 4096 then Inl Panic
      else bind_res
        (if did_acquire
         then let bytes_left = hp_total_free_bytes hp;
                  bytes_left_after_allocation = (if bytes > bytes_left then 0 else bytes_left - bytes)
              in refill_if_needed mm bytes_left_after_allocation hp
         else Inr hp) (heap_allocate_locked bytes alignment))"

subsection \<open>Freeing\<close>

text \<open>
  The loop that marks chunks as free: it reads the id of the first chunk and goes on while
  the id stays the same. The result is the bitmap and the number of chunks.
\<close>

function free_run :: "u8 \<Rightarrow> nat \<Rightarrow> u8 list \<Rightarrow> (u8 list \<times> nat) res" where
  "free_run allocation_id i bm =
     (if \<not> i div 8 < length bm then Inl Undefined
      else let b = bm ! (i div 8); bit_index = i - 8 * (i div 8)
           in if allocation_id = 0
              then let scaled_id = b AND allocation_mask i;
                       allocation_id = drop_bit bit_index scaled_id
                   in if allocation_id = 0 then Inl Panic
                      else bind_res (free_run allocation_id (i + 2) (bm[i div 8 := b XOR scaled_id]))
                             (\<lambda>(bm', n). Inr (bm', n + 1))
              else let scaled_id = push_bit bit_index allocation_id
                   in if b AND push_bit bit_index 3 \<noteq> scaled_id then Inr (bm, 0)
                      else bind_res (free_run allocation_id (i + 2) (bm[i div 8 := b XOR scaled_id]))
                             (\<lambda>(bm', n). Inr (bm', n + 1)))"
  by auto

termination free_run
  by (relation "measure (\<lambda>(_, i, bm). 8 * length bm - i)") (auto simp: less_mult_imp_div_less)

fun free_in_blocks :: "addr \<Rightarrow> heap_block list \<Rightarrow> (size_t \<times> heap_block list) res" where
  "free_in_blocks ptr [] = Inl Panic"
| "free_in_blocks ptr (h # hs) =
     (if \<not> hb_contains ptr h
      then bind_res (free_in_blocks ptr hs) (\<lambda>(freed, hs'). Inr (freed, h # hs'))
      else if hb_chunk_size h = 0 then Inl Divide_Error
      else bind_res (free_run 0 (which_bit ptr h) (hb_bitmap h)) (\<lambda>(bm, n).
             Inr (word_of_nat n * hb_chunk_size h,
                  h\<lparr>hb_bitmap := bm, hb_free_chunks := hb_free_chunks h + word_of_nat n\<rparr> # hs)))"

definition heap_free :: "addr \<Rightarrow> heap \<Rightarrow> heap res" where
  "heap_free ptr hp =
     (if ptr = 0 then Inr hp
      else let hp = hp\<lparr>hp_calls_to_free := hp_calls_to_free hp + 1\<rparr>
           in bind_res (free_in_blocks ptr (hp_blocks hp)) (\<lambda>(freed, blocks).
                Inr (hp\<lparr>hp_blocks := blocks, hp_total_free_bytes := hp_total_free_bytes hp + freed\<rparr>)))"

record heap_stats =
  st_heap_blocks :: size_t
  st_free_bytes :: size_t
  st_total_bytes :: size_t
  st_calls_to_free :: size_t
  st_calls_to_allocate :: size_t

definition stats_step :: "heap_stats \<Rightarrow> heap_block \<Rightarrow> heap_stats" where
  "stats_step st h = st\<lparr>st_heap_blocks := st_heap_blocks st + 1,
     st_free_bytes := st_free_bytes st + hb_free_bytes h,
     st_total_bytes := st_total_bytes st + hb_chunk_count h * hb_chunk_size h\<rparr>"

definition stats_of_heap :: "heap \<Rightarrow> heap_stats res" where
  "stats_of_heap hp =
     (if hp_blocks hp = [] then Inl Assertion
      else Inr ((foldl stats_step
                  \<lparr>st_heap_blocks = 0, st_free_bytes = 0, st_total_bytes = 0, st_calls_to_free = 0,
                   st_calls_to_allocate = 0\<rparr> (hp_blocks hp))
                \<lparr>st_calls_to_allocate := hp_calls_to_allocate hp, st_calls_to_free := hp_calls_to_free hp\<rparr>))"

subsection \<open>Chunk ids\<close>

text \<open>The id of the chunk \<open>k\<close>; zero past the end of the bitmap.\<close>

definition chunk_id :: "u8 list \<Rightarrow> nat \<Rightarrow> u8" where
  "chunk_id bm k = (if k div 4 < length bm then drop_bit (2 * (k mod 4)) (bm ! (k div 4)) AND 3 else 0)"

definition small_id :: "u8 \<Rightarrow> bool" where
  "small_id v \<longleftrightarrow> v AND 3 = v"

lemma bit_3_int: "bit (3 :: int) i \<longleftrightarrow> i < 2"
proof -
  have "(3 :: int) = mask 2"
    by (simp add: mask_eq_exp_minus_1)
  then have "bit (3 :: int) i = bit (mask 2 :: int) i"
    by (rule arg_cong)
  then show ?thesis
    by (simp only: bit_mask_iff) simp
qed

lemma bit_3_u8: "bit (3 :: u8) i \<longleftrightarrow> i < 2"
  by (auto simp: bit_3_int)

lemma small_id_bit: "small_id v \<Longrightarrow> bit v j \<Longrightarrow> j < 2"
  unfolding small_id_def by (metis bit_3_u8 bit_and_iff)

lemma small_id_chunk [simp]: "small_id (chunk_id bm k)"
  by (simp add: small_id_def chunk_id_def and.assoc)

lemma field_same:
  assumes "m < 4" "small_id v"
  shows "drop_bit (2 * m) (push_bit (2 * m) v :: u8) AND 3 = v"
proof (rule bit_eqI)
  fix i
  show "bit (drop_bit (2 * m) (push_bit (2 * m) v :: u8) AND 3) i \<longleftrightarrow> bit v i"
    using assms small_id_bit [OF assms(2), of i]
    by (auto simp: bit_simps bit_3_int)
qed

lemma field_other:
  assumes "m \<noteq> n" "small_id v"
  shows "drop_bit (2 * m) (push_bit (2 * n) v :: u8) AND 3 = 0"
proof (rule bit_eqI)
  fix i
  have "\<not> (bit v (2 * m + i - 2 * n) \<and> 2 * n \<le> 2 * m + i \<and> i < 2)"
    using small_id_bit [OF assms(2), of "2 * m + i - 2 * n"] assms(1) by auto
  then show "bit (drop_bit (2 * m) (push_bit (2 * n) v :: u8) AND 3) i \<longleftrightarrow> bit (0 :: u8) i"
    by (auto simp: bit_simps bit_3_int)
qed

lemma bit_index_chunk: "2 * k div 8 = k div 4" "2 * k - 8 * (k div 4) = 2 * (k mod 4)" for k :: nat
proof -
  show "2 * k div 8 = k div 4"
    by simp
  show "2 * k - 8 * (k div 4) = 2 * (k mod 4)"
    using div_mult_mod_eq [of k 4] by linarith
qed

lemma allocation_mask_eq: "allocation_mask (2 * k) = push_bit (2 * (k mod 4)) 3"
proof -
  have "push_bit (n + 1) 1 OR push_bit n 1 = push_bit n (3 :: u8)" for n
    by (rule bit_eqI) (auto simp: bit_simps bit_3_int)
  then show ?thesis
    by (simp add: allocation_mask_def Let_def bit_index_chunk del: push_bit_of_1)
qed

lemma masked_field:
  assumes "m < 4"
  shows "(b :: u8) AND push_bit (2 * m) 3 = push_bit (2 * m) (drop_bit (2 * m) b AND 3)"
  by (rule bit_eqI) (auto simp: bit_simps bit_3_int)

lemma chunk_id_byte:
  assumes "k div 4 < length bm"
  shows "bm ! (k div 4) AND push_bit (2 * (k mod 4)) 3 = push_bit (2 * (k mod 4)) (chunk_id bm k)"
  using assms masked_field [of "k mod 4"] by (simp add: chunk_id_def)

lemma push_field_eq_iff:
  assumes "m < 4" "small_id v" "small_id w"
  shows "push_bit (2 * m) v = (push_bit (2 * m) w :: u8) \<longleftrightarrow> v = w"
  using field_same [OF assms(1,2)] field_same [OF assms(1,3)] by metis

lemma small_id_0 [simp]: "small_id 0"
  by (simp add: small_id_def)

lemma chunk_id_update:
  assumes "k div 4 < length bm" "small_id v"
    and "\<And>m. drop_bit (2 * m) c AND 3 = f (drop_bit (2 * m) (bm ! (k div 4)) AND 3)
                                          (drop_bit (2 * m) (push_bit (2 * (k mod 4)) v) AND 3)"
    and "\<And>x. f x 0 = x"
  shows "chunk_id (bm[k div 4 := c]) j = (if j = k then f (chunk_id bm k) v else chunk_id bm j)"
proof (cases "j div 4 = k div 4")
  case True
  show ?thesis
  proof (cases "j = k")
    case True
    then show ?thesis
      using assms field_same [of "k mod 4" v] by (simp add: chunk_id_def)
  next
    case False
    then have "j mod 4 \<noteq> k mod 4"
      using True by (metis div_mult_mod_eq)
    then show ?thesis
      using assms field_other [of "j mod 4" "k mod 4" v] True False by (simp add: chunk_id_def)
  qed
next
  case False
  then show ?thesis
    by (auto simp: chunk_id_def)
qed

lemma chunk_id_or:
  assumes "k div 4 < length bm" "small_id v"
  shows "chunk_id (bm[k div 4 := bm ! (k div 4) OR push_bit (2 * (k mod 4)) v]) j
    = (if j = k then chunk_id bm k OR v else chunk_id bm j)"
  by (rule chunk_id_update [OF assms]) (simp_all add: drop_bit_or bit.conj_disj_distrib2)

lemma chunk_id_xor:
  assumes "k div 4 < length bm" "small_id v"
  shows "chunk_id (bm[k div 4 := bm ! (k div 4) XOR push_bit (2 * (k mod 4)) v]) j
    = (if j = k then chunk_id bm k XOR v else chunk_id bm j)"
  by (rule chunk_id_update [OF assms]) (simp_all add: drop_bit_xor bit.conj_xor_distrib2)

lemma read_id_eq: "k div 4 < length bm \<Longrightarrow> read_id bm (2 * k) = Inr (chunk_id bm k)"
proof -
  assume k: "k div 4 < length bm"
  have "drop_bit (2 * (k mod 4)) (push_bit (2 * (k mod 4)) (chunk_id bm k)) = chunk_id bm k"
  proof (rule bit_eqI)
    fix i
    have "k mod 4 < 4"
      by simp
    then show "bit (drop_bit (2 * (k mod 4)) (push_bit (2 * (k mod 4)) (chunk_id bm k))) i = bit (chunk_id bm k) i"
      using small_id_bit [OF small_id_chunk, of bm k i] by (auto simp: bit_simps)
  qed
  then show ?thesis
    using k chunk_id_byte [OF k]
    by (simp add: read_id_def control_byte_def bit_index_chunk allocation_mask_eq del: drop_bit_and)
qed

subsection \<open>Allocations are runs of chunks\<close>

text \<open>A maximal run of \<open>n\<close> chunks with one id that is not zero.\<close>

definition is_run :: "(nat \<Rightarrow> u8) \<Rightarrow> nat \<Rightarrow> nat \<Rightarrow> bool" where
  "is_run f s n \<longleftrightarrow> 0 < n \<and> f s \<noteq> 0 \<and> list_all (\<lambda>k. f k = f s) [s..<s + n]
     \<and> (s = 0 \<or> f (s - 1) \<noteq> f s) \<and> f (s + n) \<noteq> f s"

definition set_run :: "nat \<Rightarrow> nat \<Rightarrow> u8 \<Rightarrow> (nat \<Rightarrow> u8) \<Rightarrow> nat \<Rightarrow> u8" where
  "set_run a n v f = (\<lambda>k. if a \<le> k \<and> k < a + n then v else f k)"

lemma set_run_in: "a \<le> k \<Longrightarrow> k < a + n \<Longrightarrow> set_run a n v f k = v"
  by (simp add: set_run_def)

lemma set_run_out: "\<not> (a \<le> k \<and> k < a + n) \<Longrightarrow> set_run a n v f k = f k"
  by (auto simp: set_run_def)

lemma is_run_all: "is_run f s n \<Longrightarrow> s \<le> k \<Longrightarrow> k < s + n \<Longrightarrow> f k = f s"
  unfolding is_run_def list_all_iff by (metis atLeastLessThan_iff set_upt)

lemma is_runI:
  assumes "0 < n" "f s \<noteq> 0" "\<And>k. s \<le> k \<Longrightarrow> k < s + n \<Longrightarrow> f k = f s" "s = 0 \<or> f (s - 1) \<noteq> f s" "f (s + n) \<noteq> f s"
  shows "is_run f s n"
proof -
  have "list_all (\<lambda>k. f k = f s) [s..<s + n]"
    unfolding list_all_iff using assms(3) by (metis atLeastLessThan_iff set_upt)
  then show ?thesis
    unfolding is_run_def using assms(1,2,4,5) by blast
qed

lemma is_run_set_run_old:
  assumes free: "\<And>k. a \<le> k \<Longrightarrow> k < a + n \<Longrightarrow> f k = 0"
    and ids: "a = 0 \<or> f (a - 1) \<noteq> v" "f (a + n) \<noteq> v" and run: "is_run f s m"
  shows "is_run (set_run a n v f) s m"
proof -
  note all = is_run_all [OF run]
  have run': "0 < m" "f s \<noteq> 0" "s = 0 \<or> f (s - 1) \<noteq> f s" "f (s + m) \<noteq> f s"
    using run by (simp_all add: is_run_def)
  have out: "\<not> (a \<le> k \<and> k < a + n)" if "s \<le> k" "k < s + m" for k
    using all [OF that] free [of k] run'(2) by auto
  have same: "set_run a n v f k = f s" if "s \<le> k" "k < s + m" for k
    using out [OF that] all [OF that] by (simp add: set_run_out)
  have "set_run a n v f (s - 1) \<noteq> f s" if "s \<noteq> 0"
  proof (cases "a \<le> s - 1 \<and> s - 1 < a + n")
    case True
    then have "s = a + n"
      using out [of s] run'(1) that by linarith
    then show ?thesis
      using True ids(2) by (simp add: set_run_in)
  next
    case False
    then show ?thesis
      using run'(3) that by (simp add: set_run_out)
  qed
  moreover have "set_run a n v f (s + m) \<noteq> f s"
  proof (cases "a \<le> s + m \<and> s + m < a + n")
    case True
    then have "a = s + m"
      using out [of "s + m - 1"] run'(1) by linarith
    then show ?thesis
      using True ids(1) all [of "a - 1"] run'(1) by (auto simp: set_run_in)
  next
    case False
    then show ?thesis
      using run'(4) by (simp add: set_run_out)
  qed
  ultimately show ?thesis
    using same [of s] same run'(1,2) by (intro is_runI) auto
qed

lemma is_run_set_run_new:
  assumes "0 < n" "v \<noteq> 0" "a = 0 \<or> f (a - 1) \<noteq> v" "f (a + n) \<noteq> v"
  shows "is_run (set_run a n v f) a n"
  using assms by (intro is_runI) (auto simp: set_run_def)

lemma is_run_set_run_cases:
  assumes free: "\<And>k. a \<le> k \<Longrightarrow> k < a + n \<Longrightarrow> f k = 0"
    and ids: "a = 0 \<or> f (a - 1) \<noteq> v" "f (a + n) \<noteq> v" and run: "is_run (set_run a n v f) s m"
  shows "is_run f s m \<or> s = a \<and> m = n"
proof -
  let ?g = "set_run a n v f"
  note all = is_run_all [OF run]
  have run': "0 < m" "?g s \<noteq> 0" "s = 0 \<or> ?g (s - 1) \<noteq> ?g s" "?g (s + m) \<noteq> ?g s"
    using run by (simp_all add: is_run_def)
  show ?thesis
  proof (cases "a \<le> s \<and> s < a + n")
    case True
    then have gs: "?g s = v"
      by (simp add: set_run_in)
    then have "s = a"
      using run'(3) True set_run_in [of a "s - 1" n v f] by fastforce
    moreover have "\<not> m < n"
      using run'(4) gs \<open>s = a\<close> set_run_in [of a "s + m" n v f] by auto
    moreover have "\<not> n < m"
      using all [of "a + n"] gs \<open>s = a\<close> ids(2) by (auto simp: set_run_out)
    ultimately show ?thesis
      by simp
  next
    case False
    then have gs: "?g s = f s"
      by (simp add: set_run_out)
    have out: "\<not> (a \<le> k \<and> k < a + n)" if k: "s \<le> k" "k < s + m" for k
    proof
      assume in_zone: "a \<le> k \<and> k < a + n"
      then have "?g a = f s" "?g (a - 1) = f s" "s < a"
        using False k all [of a] all [of "a - 1"] gs by auto
      moreover from this in_zone have "?g a = v" "?g (a - 1) = f (a - 1)"
        by (simp_all add: set_run_in set_run_out)
      ultimately show False
        using ids(1) by auto
    qed
    have same: "f k = f s" if "s \<le> k" "k < s + m" for k
      using all [OF that] out [OF that] gs by (simp add: set_run_out)
    have "s = 0 \<or> f (s - 1) \<noteq> f s"
      using run'(2,3) gs free [of "s - 1"] by (cases "a \<le> s - 1 \<and> s - 1 < a + n") (auto simp: set_run_out)
    moreover have "f (s + m) \<noteq> f s"
      using run'(2,4) gs free [of "s + m"] by (cases "a \<le> s + m \<and> s + m < a + n") (auto simp: set_run_out)
    moreover have "f s \<noteq> 0"
      using run'(2) gs by simp
    ultimately show ?thesis
      using is_runI [of m f s] run'(1) same by blast
  qed
qed

lemma is_run_set_run_iff:
  assumes "\<And>k. a \<le> k \<Longrightarrow> k < a + n \<Longrightarrow> f k = 0" "0 < n" "v \<noteq> 0" "a = 0 \<or> f (a - 1) \<noteq> v" "f (a + n) \<noteq> v"
  shows "is_run (set_run a n v f) s m \<longleftrightarrow> is_run f s m \<or> s = a \<and> m = n"
  using is_run_set_run_old [of a n f v s m] is_run_set_run_new [of n v a f] is_run_set_run_cases [of a n f v s m] assms
  by blast

lemma is_run_clear_iff:
  assumes run: "is_run f a n"
  shows "is_run (set_run a n 0 f) s m \<longleftrightarrow> is_run f s m \<and> \<not> (s = a \<and> m = n)"
proof -
  let ?g = "set_run a n 0 f"
  have props: "0 < n" "f a \<noteq> 0" "a = 0 \<or> f (a - 1) \<noteq> f a" "f (a + n) \<noteq> f a"
    using run by (simp_all add: is_run_def)
  have "set_run a n (f a) ?g = f"
  proof (rule ext)
    fix k
    show "set_run a n (f a) ?g k = f k"
      using is_run_all [OF run, of k] by (auto simp: set_run_def)
  qed
  moreover have "?g k = 0" if "a \<le> k" "k < a + n" for k
    using that by (simp add: set_run_in)
  moreover have "a = 0 \<or> ?g (a - 1) \<noteq> f a" "?g (a + n) \<noteq> f a"
    using props by (auto simp: set_run_out)
  ultimately have "is_run f s m \<longleftrightarrow> is_run ?g s m \<or> s = a \<and> m = n"
    using is_run_set_run_iff [of a n ?g "f a" s m] props by simp
  moreover have "\<not> is_run ?g a n"
    using props(1) by (simp add: is_run_def set_run_in)
  ultimately show ?thesis
    by blast
qed

lemma runs_disjoint:
  assumes "is_run f s m" "is_run f t n" "s \<le> k" "k < s + m" "t \<le> k" "k < t + n"
  shows "s = t \<and> m = n"
proof -
  have v: "f s = f t"
    using is_run_all [OF assms(1,3,4)] is_run_all [OF assms(2,5,6)] by simp
  have s: "s = 0 \<or> f (s - 1) \<noteq> f s" "f (s + m) \<noteq> f s" and t: "t = 0 \<or> f (t - 1) \<noteq> f t" "f (t + n) \<noteq> f t"
    using assms(1,2) by (simp_all add: is_run_def)
  have "\<not> s < t"
    using is_run_all [OF assms(1), of "t - 1"] t(1) v assms(4,5) by fastforce
  moreover have "\<not> t < s"
    using is_run_all [OF assms(2), of "s - 1"] s(1) v assms(3,6) by fastforce
  ultimately have "s = t"
    by simp
  moreover have "\<not> m < n" "\<not> n < m"
    using is_run_all [OF assms(2), of "s + m"] is_run_all [OF assms(1), of "t + n"] s(2) t(2) v \<open>s = t\<close> by auto
  ultimately show ?thesis
    by simp
qed

subsection \<open>The loops on the bitmap\<close>

lemma control_byte_eq: "k div 4 < length bm \<Longrightarrow> control_byte bm (2 * k) = Inr (bm ! (k div 4))"
  by (simp add: control_byte_def bit_index_chunk)

lemma chunk_free_iff:
  assumes "k div 4 < length bm"
  shows "bm ! (k div 4) AND allocation_mask (2 * k) = 0 \<longleftrightarrow> chunk_id bm k = 0"
  using push_field_eq_iff [of "k mod 4" "chunk_id bm k" 0] chunk_id_byte [OF assms] by (simp add: allocation_mask_eq)

lemma set_run_0 [simp]: "set_run a 0 v f = f"
  by (rule ext) (auto simp: set_run_def)

lemma mark_allocated_eq:
  assumes "small_id v" "\<And>k. a \<le> k \<Longrightarrow> k < a + n \<Longrightarrow> chunk_id bm k = 0" "a + n \<le> 4 * length bm"
  shows "\<exists>bm'. mark_allocated n v (2 * a) bm = Inr bm' \<and> length bm' = length bm
    \<and> chunk_id bm' = set_run a n v (chunk_id bm)"
  using assms(2,3)
proof (induction n arbitrary: a bm)
  case 0
  then show ?case
    by simp
next
  case (Suc n)
  let ?bm = "bm[a div 4 := bm ! (a div 4) OR push_bit (2 * (a mod 4)) v]"
  have a: "a div 4 < length bm"
    using Suc.prems(2) by linarith
  note upd = chunk_id_or [OF a assms(1)]
  have za: "chunk_id bm a = 0"
    using Suc.prems(1) [of a] by simp
  have "chunk_id ?bm k = 0" if "Suc a \<le> k" "k < Suc a + n" for k
    using that Suc.prems(1) [of k] by (simp add: upd)
  moreover have "Suc a + n \<le> 4 * length ?bm"
    using Suc.prems(2) by simp
  ultimately obtain bm' where bm': "mark_allocated n v (2 * Suc a) ?bm = Inr bm'" "length bm' = length ?bm"
    "chunk_id bm' = set_run (Suc a) n v (chunk_id ?bm)"
    using Suc.IH by blast
  have "set_run (Suc a) n v (chunk_id ?bm) = set_run a (Suc n) v (chunk_id bm)"
    by (rule ext) (auto simp: set_run_def upd za)
  moreover have "mark_allocated (Suc n) v (2 * a) bm = mark_allocated n v (2 * Suc a) ?bm"
    using control_byte_eq [OF a] by (simp add: bit_index_chunk)
  ultimately show ?case
    using bm' by simp
qed

lemma free_run_eq:
  assumes "small_id v" "v \<noteq> 0" "\<And>k. a \<le> k \<Longrightarrow> k < a + n \<Longrightarrow> chunk_id bm k = v" "chunk_id bm (a + n) \<noteq> v"
    "a + n < 4 * length bm"
  shows "\<exists>bm'. free_run v (2 * a) bm = Inr (bm', n) \<and> length bm' = length bm
    \<and> chunk_id bm' = set_run a n 0 (chunk_id bm)"
  using assms(3-5)
proof (induction n arbitrary: a bm)
  case 0
  have a: "a div 4 < length bm"
    using 0(3) by linarith
  have "bm ! (a div 4) AND push_bit (2 * (a mod 4)) 3 \<noteq> push_bit (2 * (a mod 4)) v"
    using 0(2) push_field_eq_iff [of "a mod 4" "chunk_id bm a" v] chunk_id_byte [OF a] assms(1) by simp
  then show ?case
    using a assms(2) by (simp add: free_run.simps [of v "2 * a"] bit_index_chunk Let_def)
next
  case (Suc n)
  let ?bm = "bm[a div 4 := bm ! (a div 4) XOR push_bit (2 * (a mod 4)) v]"
  have a: "a div 4 < length bm"
    using Suc.prems(3) by linarith
  note upd = chunk_id_xor [OF a assms(1)]
  have va: "chunk_id bm a = v"
    using Suc.prems(1) [of a] by simp
  have "chunk_id ?bm k = v" if "Suc a \<le> k" "k < Suc a + n" for k
    using that Suc.prems(1) [of k] by (simp add: upd)
  moreover have "chunk_id ?bm (Suc a + n) \<noteq> v"
    using Suc.prems(2) by (simp add: upd)
  moreover have "Suc a + n < 4 * length ?bm"
    using Suc.prems(3) by simp
  ultimately obtain bm' where bm': "free_run v (2 * Suc a) ?bm = Inr (bm', n)" "length bm' = length ?bm"
    "chunk_id bm' = set_run (Suc a) n 0 (chunk_id ?bm)"
    using Suc.IH by blast
  have "set_run (Suc a) n 0 (chunk_id ?bm) = set_run a (Suc n) 0 (chunk_id bm)"
    by (rule ext) (auto simp: set_run_def upd va)
  moreover have "free_run v (2 * a) bm = bind_res (free_run v (2 * Suc a) ?bm) (\<lambda>(bm', n). Inr (bm', n + 1))"
    using a assms(2) chunk_id_byte [OF a] va by (simp add: free_run.simps [of v "2 * a"] bit_index_chunk Let_def)
  ultimately show ?case
    using bm' by simp
qed

lemma free_run_start:
  assumes "is_run (chunk_id bm) a n" "a + n < 4 * length bm"
  shows "\<exists>bm'. free_run 0 (2 * a) bm = Inr (bm', n) \<and> length bm' = length bm
    \<and> chunk_id bm' = set_run a n 0 (chunk_id bm)"
proof -
  let ?v = "chunk_id bm a"
  let ?bm = "bm[a div 4 := bm ! (a div 4) XOR push_bit (2 * (a mod 4)) ?v]"
  have a: "a div 4 < length bm"
    using assms(2) by linarith
  have v: "?v \<noteq> 0"
    using assms(1) by (simp add: is_run_def)
  have "drop_bit (2 * (a mod 4)) (push_bit (2 * (a mod 4)) ?v) = ?v"
    using read_id_eq [OF a] chunk_id_byte [OF a]
    by (simp add: read_id_def control_byte_eq [OF a] bit_index_chunk allocation_mask_eq del: drop_bit_and)
  then have "free_run 0 (2 * a) bm = bind_res (free_run ?v (2 * a + 2) ?bm) (\<lambda>(bm', n). Inr (bm', n + 1))"
    using a chunk_id_byte [OF a] v
    by (simp add: free_run.simps [of 0 "2 * a"] bit_index_chunk Let_def allocation_mask_eq del: drop_bit_and)
  moreover have "free_run ?v (2 * a) bm = bind_res (free_run ?v (2 * a + 2) ?bm) (\<lambda>(bm', n). Inr (bm', n + 1))"
    using a chunk_id_byte [OF a] v by (simp add: free_run.simps [of ?v "2 * a"] bit_index_chunk Let_def)
  moreover have "\<exists>bm'. free_run ?v (2 * a) bm = Inr (bm', n) \<and> length bm' = length bm
      \<and> chunk_id bm' = set_run a n 0 (chunk_id bm)"
    using free_run_eq [OF small_id_chunk v is_run_all [OF assms(1)] _ assms(2)] assms(1)
    by (simp add: is_run_def)
  ultimately show ?thesis
    by simp
qed

lemma free_run_free_chunk:
  assumes "chunk_id bm a = 0" "a < 4 * length bm"
  shows "free_run 0 (2 * a) bm = Inl Panic"
proof -
  have a: "a div 4 < length bm"
    using assms(2) by linarith
  have "bm ! (a div 4) AND allocation_mask (2 * a) = 0"
    using chunk_free_iff [OF a] assms(1) by blast
  with a show ?thesis
    by (subst free_run.simps) (simp add: bit_index_chunk del: drop_bit_and)
qed

lemma small_id_cases: "small_id v \<Longrightarrow> v = 0 \<or> v = 1 \<or> v = 2 \<or> v = 3"
proof -
  assume "small_id v"
  then have "v = v AND mask 2"
    by (simp add: small_id_def mask_eq_exp_minus_1)
  then have "unat v = unat v mod 2 ^ 2"
    by (metis unat_and_mask)
  then have "unat v < 4"
    by (metis mod_less_divisor num_double numeral_times_numeral power2_eq_square zero_less_numeral)
  then have "unat v = 0 \<or> unat v = 1 \<or> unat v = 2 \<or> unat v = 3"
    by linarith
  then show ?thesis
    by (auto simp: word_unat_eq_iff)
qed

lemma unique_id_eq:
  assumes "small_id l" "small_id r"
  shows "\<exists>v. unique_id 4 0 l r = Inr v \<and> v \<noteq> 0 \<and> v \<noteq> l \<and> v \<noteq> r \<and> small_id v"
proof -
  have 4: "(4 :: nat) = Suc (Suc (Suc (Suc 0)))"
    by simp
  show ?thesis
    using small_id_cases [OF assms(1)] small_id_cases [OF assms(2)] unfolding 4
    by (elim disjE) (simp_all add: small_id_def)
qed

subsection \<open>The search of a block\<close>

lemma skip_alignment_bits_eq:
  assumes p: "p = 2 ^ e" and "o' \<le> k" "2 * k + 2 * p < 2 ^ 63"
  shows "skip_alignment_bits (2 * p) (2 * o') (2 * k) + 2 = 2 * (o' + ((k - o') div p + 1) * p)"
proof -
  let ?d = "k - o'" let ?n = "2 * ?d + 2 * p"
  have sub: "(word_of_nat (2 * k) :: size_t) - word_of_nat (2 * o') = word_of_nat (2 * ?d)"
    using assms(2) by (simp add: of_nat_diff right_diff_distrib)
  have n: "unat (word_of_nat ?n :: size_t) = ?n"
    by (rule unat_word_of_nat_64) (use assms in simp)
  have m: "(word_of_nat (2 * p) :: size_t) - 1 = mask (Suc e)"
    by (simp add: p mask_eq_exp_minus_1)
  have "unat ((word_of_nat ?n :: size_t) AND NOT (mask (Suc e))) = ?n - ?n mod 2 ^ Suc e"
    by (simp only: unat_and_not_mask n)
  also have "?n mod 2 ^ Suc e = 2 * (?d + p) mod (2 * p)"
    by (simp only: p power_Suc distrib_left)
  also have "2 * (?d + p) mod (2 * p) = 2 * (?d mod p)"
    by (simp only: mod_mult_mult1 mod_add_self2)
  also have "?n - 2 * (?d mod p) = 2 * ((?d div p + 1) * p)"
    using div_mult_mod_eq [of ?d p] add_mult_distrib [of "?d div p" 1 p] by linarith
  finally have a: "unat ((word_of_nat ?n :: size_t) AND NOT (mask (Suc e))) = 2 * ((?d div p + 1) * p)" .
  have bound: "(?d div p + 1) * p \<le> ?d + p"
    using div_times_less_eq_dividend [of ?d p] by (simp add: algebra_simps)
  have "1 \<le> p"
    by (simp add: p)
  let ?m = "(word_of_nat ?n :: size_t) AND NOT (mask (Suc e))"
  have "unat (?m + word_of_nat (2 * o')) = 2 * ((?d div p + 1) * p) + 2 * o'"
    using a bound assms(2,3) unat_word_of_nat_64 [of "2 * o'"] by (subst unat_add_no_wrap) simp_all
  moreover have "2 \<le> 2 * ((?d div p + 1) * p)"
    using \<open>1 \<le> p\<close> by simp
  ultimately have "unat (?m + word_of_nat (2 * o') - 2) + 2 = 2 * ((?d div p + 1) * p) + 2 * o'"
    by (subst unat_diff_word) (simp_all add: word_le_nat_alt)
  moreover have "skip_alignment_bits (2 * p) (2 * o') (2 * k) = unat (?m + word_of_nat (2 * o') - 2)"
    unfolding skip_alignment_bits_def Let_def sub m by simp
  ultimately show ?thesis
    by simp
qed

text \<open>
  A place for \<open>n\<close> chunks in a block: free chunks that begin a multiple of \<open>p\<close> chunks after
  the first aligned chunk \<open>o'\<close>.
\<close>

definition place :: "heap_block \<Rightarrow> nat \<Rightarrow> nat \<Rightarrow> nat \<Rightarrow> nat \<Rightarrow> bool" where
  "place h o' p n s \<longleftrightarrow> o' \<le> s \<and> (s - o') mod p = 0 \<and> s + n \<le> unat (hb_chunk_count h)
     \<and> list_all (\<lambda>k. chunk_id (hb_bitmap h) k = 0) [s..<s + n]"

definition first_place :: "heap_block \<Rightarrow> nat \<Rightarrow> nat \<Rightarrow> nat \<Rightarrow> nat option \<Rightarrow> bool" where
  "first_place h o' p n r \<longleftrightarrow> (case r of
      None \<Rightarrow> \<forall>s. \<not> place h o' p n s
    | Some i \<Rightarrow> \<exists>s. i = 2 * s \<and> place h o' p n s \<and> (\<forall>s'. place h o' p n s' \<longrightarrow> s \<le> s'))"

lemma place_free: "place h o' p n s \<Longrightarrow> s \<le> k \<Longrightarrow> k < s + n \<Longrightarrow> chunk_id (hb_bitmap h) k = 0"
  by (auto simp: place_def list_all_iff)

lemma next_multiple_le:
  assumes "0 < p" "o' \<le> k" "k < s" "(s - o') mod p = 0"
  shows "o' + ((k - o') div p + 1) * p \<le> (s :: nat)"
proof -
  obtain q where q: "s - o' = p * q"
    using assms(4) by auto
  have "(k - o') div p < q"
    using q assms by (metis diff_less_mono div_less_iff_less_mult mult.commute)
  then have "((k - o') div p + 1) * p \<le> q * p"
    by (intro mult_le_mono1) simp
  then show ?thesis
    using q assms(2,3) by (simp add: mult.commute)
qed

text \<open>
  The state of the search at the chunk \<open>k\<close>: \<open>c\<close> free chunks from \<open>a\<close> on, no place begins
  before them.
\<close>

definition search_inv :: "heap_block \<Rightarrow> nat \<Rightarrow> nat \<Rightarrow> nat \<Rightarrow> nat \<Rightarrow> nat \<Rightarrow> nat \<Rightarrow> bool" where
  "search_inv h o' p n k c a \<longleftrightarrow> o' \<le> a \<and> a + c = k \<and> (a - o') mod p = 0 \<and> c < n
     \<and> list_all (\<lambda>k. chunk_id (hb_bitmap h) k = 0) [a..<k] \<and> (\<forall>s. place h o' p n s \<longrightarrow> a \<le> s)"

lemma search_inv_skip:
  assumes inv: "search_inv h o' p n k c a" and p: "0 < p" and taken: "chunk_id (hb_bitmap h) k \<noteq> 0"
  shows "search_inv h o' p n (o' + ((k - o') div p + 1) * p) 0 (o' + ((k - o') div p + 1) * p)"
proof -
  have "o' + ((k - o') div p + 1) * p \<le> s" if pl: "place h o' p n s" for s
  proof -
    have "a \<le> s"
      using inv pl by (simp add: search_inv_def)
    moreover have "\<not> s \<le> k"
      using place_free [OF pl, of k] taken inv \<open>a \<le> s\<close> by (auto simp: search_inv_def)
    ultimately show ?thesis
      using next_multiple_le [of p o' k s] p pl inv by (auto simp: place_def search_inv_def)
  qed
  then show ?thesis
    using inv by (simp add: search_inv_def)
qed

lemma search_inv_start: "0 < n \<Longrightarrow> search_inv h o' p n o' 0 o'"
  by (auto simp: search_inv_def place_def)

lemma find_free_run_first:
  assumes p: "p = 2 ^ e" and cnt: "unat (hb_chunk_count h) \<le> 4 * length (hb_bitmap h)"
    and bound: "2 * unat (hb_chunk_count h) + 2 * p < 2 ^ 63"
    and "search_inv h o' p n k c a" "c = 0 \<or> at_bit = 2 * a" "0 < fuel" "unat (hb_chunk_count h) < k + fuel"
  shows "\<exists>r. find_free_run fuel h n (2 * p) (2 * o') (2 * k) c at_bit = Inr r \<and> first_place h o' p n r"
  using assms(4-7)
proof (induction fuel arbitrary: k c a at_bit)
  case (Suc fuel)
  let ?cnt = "unat (hb_chunk_count h)" and ?bm = "hb_bitmap h"
  have p0: "0 < p"
    by (simp add: p)
  note inv = Suc.prems(1)
  have k: "o' \<le> k" "o' \<le> a" "a + c = k" "(a - o') mod p = 0" "c < n"
    using inv by (auto simp: search_inv_def)
  show ?case
  proof (cases "k < ?cnt")
    case False
    then have "\<not> place h o' p n s" for s
      using inv by (auto simp: search_inv_def place_def)
    with False show ?thesis
      by (simp add: first_place_def)
  next
    case True
    then have k4: "k div 4 < length ?bm"
      using cnt by linarith
    have fuel: "0 < fuel" "?cnt < k + 1 + fuel"
      using Suc.prems(3,4) True by simp_all
    show ?thesis
    proof (cases "chunk_id ?bm k = 0")
      case free: True
      then have free_all: "list_all (\<lambda>k. chunk_id ?bm k = 0) [a..<Suc k]"
        using inv by (auto simp: search_inv_def list_all_iff less_Suc_eq)
      show ?thesis
      proof (cases "Suc c = n")
        case True
        then have "place h o' p n a"
          using k free_all \<open>k < ?cnt\<close> by (auto simp: place_def)
        then have "first_place h o' p n (Some (2 * a))"
          using inv by (simp add: first_place_def search_inv_def)
        then show ?thesis
          using True free k4 Suc.prems(2) k(3) \<open>k < ?cnt\<close>
          by (auto simp: control_byte_eq chunk_free_iff Let_def)
      next
        case False
        then have "search_inv h o' p n (Suc k) (Suc c) a"
          using inv free_all by (simp add: search_inv_def)
        from Suc.IH [OF this, of "if c = 0 then 2 * k else at_bit"] fuel Suc.prems(2) k(3)
        show ?thesis
          using False free k4 \<open>k < ?cnt\<close> by (auto simp: control_byte_eq chunk_free_iff Let_def)
      qed
    next
      case taken: False
      let ?k = "o' + ((k - o') div p + 1) * p"
      have "k < ?k"
        using dividend_less_div_times [OF p0, of "k - o'"] k(1) by (simp add: algebra_simps)
      then have IH: "\<exists>r. find_free_run fuel h n (2 * p) (2 * o') (2 * ?k) 0 0 = Inr r \<and> first_place h o' p n r"
        using Suc.IH [OF search_inv_skip [OF inv p0 taken], of 0] fuel by simp
      have "(if 2 * p > 2 then skip_alignment_bits (2 * p) (2 * o') (2 * k) else 2 * k) + 2 = 2 * ?k"
      proof (cases "p = 1")
        case False
        then show ?thesis
          using skip_alignment_bits_eq [OF p k(1)] bound True p0 by simp
      qed (use k in simp)
      then show ?thesis
        using IH taken k4 True by (simp add: control_byte_eq chunk_free_iff Let_def del: add_2_eq_Suc')
    qed
  qed
qed simp

subsection \<open>The invariant of a block\<close>

definition free_count :: "nat \<Rightarrow> (nat \<Rightarrow> u8) \<Rightarrow> nat" where
  "free_count cnt f = length (filter (\<lambda>k. f k = 0) [0..<cnt])"

text \<open>
  The data of a block is aligned, not at address zero and ends below the top of the address space, the bitmap has
  at least one field more than there are chunks, the fields past the last chunk are zero
  and \<^verbatim>\<open>free_chunks\<close> counts the free chunks. Every block is fed with the default chunk size.
\<close>

definition block_inv :: "heap_block \<Rightarrow> bool" where
  "block_inv h \<longleftrightarrow> hb_chunk_size h = default_chunk_size \<and> 0 < unat (hb_data h) \<and> unat (hb_data h) mod 32 = 0
     \<and> unat (hb_data h) + unat (hb_chunk_count h) * 32 < 2 ^ 64
     \<and> unat (hb_chunk_count h) < 4 * length (hb_bitmap h)
     \<and> list_all (\<lambda>k. chunk_id (hb_bitmap h) k = 0) [unat (hb_chunk_count h)..<4 * length (hb_bitmap h)]
     \<and> unat (hb_free_chunks h) = free_count (unat (hb_chunk_count h)) (chunk_id (hb_bitmap h))"

lemma free_count_card: "free_count cnt f = card {k. k < cnt \<and> f k = 0}"
proof -
  have "{i. i < length [0..<cnt] \<and> f ([0..<cnt] ! i) = 0} = {k. k < cnt \<and> f k = 0}"
    by auto
  then show ?thesis
    by (simp add: free_count_def length_filter_conv_card)
qed

lemma free_count_le: "free_count cnt f \<le> cnt"
  using length_filter_le [of "\<lambda>k. f k = 0" "[0..<cnt]"] by (simp add: free_count_def)

lemma free_count_ge:
  assumes "s + n \<le> cnt" "\<And>k. s \<le> k \<Longrightarrow> k < s + n \<Longrightarrow> f k = 0"
  shows "n \<le> free_count cnt f"
proof -
  have "card {s..<s + n} \<le> card {k. k < cnt \<and> f k = 0}"
    using assms by (intro card_mono) auto
  then show ?thesis
    by (simp add: free_count_card)
qed

lemma free_count_mark:
  assumes "s + n \<le> cnt" "\<And>k. s \<le> k \<Longrightarrow> k < s + n \<Longrightarrow> f k = 0" "v \<noteq> 0"
  shows "free_count cnt (set_run s n v f) = free_count cnt f - n"
proof -
  have "{k. k < cnt \<and> set_run s n v f k = 0} = {k. k < cnt \<and> f k = 0} - {s..<s + n}"
    using assms by (auto simp: set_run_def)
  moreover have "{s..<s + n} \<subseteq> {k. k < cnt \<and> f k = 0}"
    using assms by auto
  ultimately show ?thesis
    by (simp add: free_count_card card_Diff_subset)
qed

lemma free_count_clear:
  assumes "s + n \<le> cnt" "\<And>k. s \<le> k \<Longrightarrow> k < s + n \<Longrightarrow> f k \<noteq> 0"
  shows "free_count cnt (set_run s n 0 f) = free_count cnt f + n"
proof -
  have "{k. k < cnt \<and> set_run s n 0 f k = 0} = {k. k < cnt \<and> f k = 0} \<union> {s..<s + n}"
    using assms by (auto simp: set_run_def)
  moreover have "{k. k < cnt \<and> f k = 0} \<inter> {s..<s + n} = {}"
    using assms(2) by auto
  ultimately show ?thesis
    by (simp add: free_count_card card_Un_disjoint)
qed

lemma block_inv_past: "block_inv h \<Longrightarrow> unat (hb_chunk_count h) \<le> k \<Longrightarrow> chunk_id (hb_bitmap h) k = 0"
  by (cases "k < 4 * length (hb_bitmap h)") (auto simp: block_inv_def list_all_iff chunk_id_def)

lemma block_inv_free_bytes:
  assumes "block_inv h"
  shows "unat (hb_free_bytes h) = free_count (unat (hb_chunk_count h)) (chunk_id (hb_bitmap h)) * 32"
proof -
  have "unat (hb_free_chunks h) * unat (hb_chunk_size h) < 2 ^ 64"
    using assms free_count_le [of "unat (hb_chunk_count h)" "chunk_id (hb_bitmap h)"]
    unfolding block_inv_def default_chunk_size_def by simp
  then show ?thesis
    using assms unat_mult_lem [of "hb_free_chunks h" "hb_chunk_size h"]
    by (simp add: hb_free_bytes_def block_inv_def default_chunk_size_def)
qed

lemma block_inv_set_run:
  assumes inv: "block_inv h" and bm: "length bm = length (hb_bitmap h)" "chunk_id bm = set_run s n v (chunk_id (hb_bitmap h))"
    and s: "s + n \<le> unat (hb_chunk_count h)"
    and fc: "unat fc = free_count (unat (hb_chunk_count h)) (set_run s n v (chunk_id (hb_bitmap h)))"
  shows "block_inv (h\<lparr>hb_bitmap := bm, hb_free_chunks := fc\<rparr>)"
proof -
  have "chunk_id bm k = 0" if "unat (hb_chunk_count h) \<le> k" for k
    using bm(2) block_inv_past [OF inv that] s that by (simp add: set_run_def)
  then show ?thesis
    using inv bm fc by (simp add: block_inv_def list_all_iff)
qed

subsection \<open>Alignment\<close>

lemma unat_two_power: "n < 64 \<Longrightarrow> unat ((2 :: 64 word) ^ n) = 2 ^ n"
  using unat_word_of_nat_64 [of "2 ^ n"] power_strict_increasing [of n 64 "2 :: nat"] by simp

lemma aligned_positions:
  fixes d o' p s :: nat
  assumes "o' < p" "(d + o') mod p = 0"
  shows "(d + s) mod p = 0 \<longleftrightarrow> o' \<le> s \<and> (s - o') mod p = 0"
proof
  assume s: "(d + s) mod p = 0"
  have "\<not> s < o'"
  proof
    assume lt: "s < o'"
    have "p dvd (d + o') - (d + s)"
      using assms(2) s by (intro dvd_diff_nat) auto
    then have "p \<le> o' - s"
      using lt by (intro dvd_imp_le) simp_all
    then show False
      using assms(1) by simp
  qed
  moreover have "p dvd (d + s) - (d + o')"
    using assms(2) s by (intro dvd_diff_nat) auto
  ultimately show "o' \<le> s \<and> (s - o') mod p = 0"
    by auto
next
  assume s: "o' \<le> s \<and> (s - o') mod p = 0"
  then have "p dvd (d + o') + (s - o')"
    using assms(2) dvd_add [of p "d + o'" "s - o'"] by auto
  then show "(d + s) mod p = 0"
    using s by auto
qed

lemma aligned_offset_correct:
  assumes inv: "block_inv h" and al: "al = 2 ^ e" "e \<le> 12"
  obtains o' where "aligned_offset_of al h = 2 * o'"
    "\<And>s. (unat (hb_data h) + s * 32) mod 2 ^ e = 0 \<longleftrightarrow> o' \<le> s \<and> (s - o') mod 2 ^ (e - 5) = 0"
proof -
  let ?p = "2 ^ (e - 5) :: nat"
  obtain d where d: "unat (hb_data h) = 32 * d"
    using inv by (auto simp: block_inv_def)
  have ual: "unat al = 2 ^ e"
    using al unat_two_power by simp
  show ?thesis
  proof (cases "e \<le> 5")
    case True
    then have "2 ^ e dvd (32 :: nat)"
      using le_imp_power_dvd [of e 5 "2 :: nat"] by simp
    then have "(32 * (d + s)) mod 2 ^ e = 0" for s
      by (metis dvd_imp_mod_0 dvd_mult2)
    then have "(unat (hb_data h) + s * 32) mod 2 ^ e = 0" for s
      using d by (metis add_mult_distrib2 mult.commute)
    moreover have "\<not> al > hb_chunk_size h"
      using True ual inv power_increasing [of e 5 "2 :: nat"]
      by (simp add: word_less_nat_alt block_inv_def default_chunk_size_def)
    ultimately show ?thesis
      using that [of 0] True by (simp add: aligned_offset_of_def)
  next
    case False
    then have e: "2 ^ e = 32 * ?p"
      using power_add [of "2 :: nat" 5 "e - 5"] by simp
    have gt: "al > hb_chunk_size h"
      using False e ual inv one_less_power [of "2 :: nat" "e - 5"]
      by (simp add: word_less_nat_alt block_inv_def default_chunk_size_def)
    have iff: "(unat (hb_data h) + s * 32) mod 2 ^ e = 0 \<longleftrightarrow> (d + s) mod ?p = 0" for s
    proof -
      have "unat (hb_data h) + s * 32 = 32 * (d + s)"
        by (simp add: d)
      then show ?thesis
        by (simp only: e mod_mult_mult1) simp
    qed
    have rem: "unat (hb_data h mod al) = 32 * (d mod ?p)"
      unfolding unat_mod_distrib ual d e by (simp add: mod_mult_mult1)
    have dp: "d mod ?p < ?p"
      by simp
    show ?thesis
    proof (cases "d mod ?p = 0")
      case True
      then have "hb_data h mod al = 0"
        using rem by (simp add: unat_eq_zero)
      then have "aligned_offset_of al h = 2 * 0"
        by (simp add: aligned_offset_of_def)
      then show ?thesis
        using that [of 0] iff aligned_positions [of 0 ?p d] True by simp
    next
      case nz: False
      have ne: "hb_data h mod al \<noteq> 0"
        using rem nz by (metis mult_eq_0_iff unat_eq_zero zero_neq_numeral)
      have "unat (al - hb_data h mod al) = 32 * (?p - d mod ?p)"
        using rem ual e dp by (subst unat_diff_word) (simp_all add: word_le_nat_alt diff_mult_distrib2)
      then have "unat ((al - hb_data h mod al) div hb_chunk_size h) = ?p - d mod ?p"
        using inv by (simp add: unat_div block_inv_def default_chunk_size_def)
      then have "aligned_offset_of al h = 2 * (?p - d mod ?p)"
        using gt ne by (simp add: aligned_offset_of_def Let_def)
      moreover have "(d + (?p - d mod ?p)) mod ?p = 0"
      proof -
        have "d + (?p - d mod ?p) = ?p * (d div ?p + 1)"
          using mult_div_mod_eq [of ?p d] dp add_mult_distrib2 [of ?p "d div ?p" 1] by linarith
        then show ?thesis
          by simp
      qed
      ultimately show ?thesis
        using that [of "?p - d mod ?p"] iff aligned_positions [of "?p - d mod ?p" ?p d] nz by simp
    qed
  qed
qed

subsection \<open>Allocation in a block\<close>

definition chunks_for :: "size_t \<Rightarrow> nat" where
  "chunks_for bytes = 1 + (unat bytes - 1) div 32"

text \<open>The chunks \<open>s\<close> to \<open>s + n - 1\<close> of a block are free and begin at an aligned address.\<close>

definition free_aligned :: "heap_block \<Rightarrow> size_t \<Rightarrow> nat \<Rightarrow> nat \<Rightarrow> bool" where
  "free_aligned h al n s \<longleftrightarrow> s + n \<le> unat (hb_chunk_count h) \<and> (unat (hb_data h) + s * 32) mod unat al = 0
     \<and> list_all (\<lambda>k. chunk_id (hb_bitmap h) k = 0) [s..<s + n]"

text \<open>A block after \<open>n\<close> chunks from \<open>s\<close> on became one more allocation.\<close>

definition block_adds :: "heap_block \<Rightarrow> nat \<Rightarrow> nat \<Rightarrow> heap_block \<Rightarrow> bool" where
  "block_adds h s n h' \<longleftrightarrow> block_inv h' \<and> hb_data h' = hb_data h \<and> hb_chunk_count h' = hb_chunk_count h
     \<and> hb_free_chunks h' = hb_free_chunks h - word_of_nat n
     \<and> (\<forall>t m. is_run (chunk_id (hb_bitmap h')) t m \<longleftrightarrow> is_run (chunk_id (hb_bitmap h)) t m \<or> t = s \<and> m = n)"

lemma mark_run_block:
  assumes inv: "block_inv h" and n: "0 < n" "s + n \<le> unat (hb_chunk_count h)"
    and free: "\<And>k. s \<le> k \<Longrightarrow> k < s + n \<Longrightarrow> chunk_id (hb_bitmap h) k = 0"
    and v: "small_id v" "v \<noteq> 0" "s = 0 \<or> chunk_id (hb_bitmap h) (s - 1) \<noteq> v" "chunk_id (hb_bitmap h) (s + n) \<noteq> v"
  shows "\<exists>bm. mark_allocated n v (2 * s) (hb_bitmap h) = Inr bm
    \<and> block_adds h s n (h\<lparr>hb_bitmap := bm, hb_free_chunks := hb_free_chunks h - word_of_nat n\<rparr>)"
proof -
  let ?f = "chunk_id (hb_bitmap h)" and ?cnt = "unat (hb_chunk_count h)"
  have "s + n \<le> 4 * length (hb_bitmap h)"
    using inv n(2) by (simp add: block_inv_def)
  then obtain bm where bm: "mark_allocated n v (2 * s) (hb_bitmap h) = Inr bm" "length bm = length (hb_bitmap h)"
    "chunk_id bm = set_run s n v ?f"
    using mark_allocated_eq [OF v(1) free] by blast
  have fc: "unat (hb_free_chunks h) = free_count ?cnt ?f"
    using inv by (simp add: block_inv_def)
  have le: "n \<le> free_count ?cnt ?f"
    by (rule free_count_ge [OF n(2) free])
  then have "unat (word_of_nat n :: size_t) = n"
    using fc unat_less_64 [of "hb_free_chunks h"] by (intro unat_word_of_nat_64) linarith
  then have "unat (hb_free_chunks h - word_of_nat n) = free_count ?cnt (set_run s n v ?f)"
    using fc le free_count_mark [OF n(2) free v(2)] by (subst unat_diff_word) (simp_all add: word_le_nat_alt)
  from block_inv_set_run [OF inv bm(2,3) n(2) this] bm show ?thesis
    using is_run_set_run_iff [of s n ?f v, OF free n(1) v(2-4)] by (simp add: block_adds_def)
qed

lemma unat_chunks_needed:
  assumes "bytes \<noteq> 0" "bytes \<le> upper_allocation_threshold"
  shows "unat (1 + (bytes - 1) div 32 :: size_t) = chunks_for bytes" "chunks_for bytes \<le> 65536"
    "unat bytes \<le> chunks_for bytes * 32"
proof -
  have b: "1 \<le> bytes" "unat bytes \<le> 2097152"
    using assms by (simp_all add: upper_allocation_threshold_def word_le_nat_alt unat_gt_0 Suc_leI)
  then have u: "unat ((bytes - 1) div 32) = (unat bytes - 1) div 32"
    by (simp add: unat_div unat_diff_word)
  have le: "(unat bytes - 1) div 32 \<le> 65535"
    using b(2) by linarith
  then show "unat (1 + (bytes - 1) div 32 :: size_t) = chunks_for bytes"
    using u by (subst unat_add_no_wrap) (simp_all add: chunks_for_def)
  show "chunks_for bytes \<le> 65536"
    using le by (simp add: chunks_for_def)
  have "m \<le> m div 32 * 32 + 31" for m :: nat
    by presburger
  from this [of "unat bytes - 1"] show "unat bytes \<le> chunks_for bytes * 32"
    by (simp add: chunks_for_def)
qed

text \<open>The second half of the iteration, once the place is known.\<close>

lemma allocate_at_place:
  assumes inv: "block_inv h" and n: "0 < n" "n \<le> 65536" and s: "free_aligned h al n s" and w: "unat w = n"
  shows "\<exists>bm. bind_res (if 2 * s \<noteq> 0 then read_id (hb_bitmap h) (2 * s - 2) else Inr 0) (\<lambda>left_neighbor.
      bind_res (if 2 * s div 2 < unat (hb_chunk_count h) then read_id (hb_bitmap h) (2 * s + n * 2) else Inr 0)
        (\<lambda>right_neighbor.
      bind_res (unique_id 4 0 left_neighbor right_neighbor) (\<lambda>this_id.
      bind_res (mark_allocated n this_id (2 * s) (hb_bitmap h)) (\<lambda>bm.
        Inr (Some (hb_data h + word_of_nat (2 * s div 2) * 32, w * 32,
          h\<lparr>hb_bitmap := bm, hb_free_chunks := hb_free_chunks h - w\<rparr>))))))
     = Inr (Some (hb_data h + word_of_nat s * 32, w * 32, h\<lparr>hb_bitmap := bm, hb_free_chunks := hb_free_chunks h - w\<rparr>))
    \<and> unat (hb_data h + word_of_nat s * 32) = unat (hb_data h) + s * 32 \<and> unat (w * 32) = n * 32
    \<and> block_adds h s n (h\<lparr>hb_bitmap := bm, hb_free_chunks := hb_free_chunks h - w\<rparr>)"
proof -
  let ?bm = "hb_bitmap h"
  have len: "s + n \<le> unat (hb_chunk_count h)" and free: "\<And>k. s \<le> k \<Longrightarrow> k < s + n \<Longrightarrow> chunk_id ?bm k = 0"
    using s by (auto simp: free_aligned_def list_all_iff)
  have cnt: "unat (hb_chunk_count h) < 4 * length ?bm" "unat (hb_data h) + unat (hb_chunk_count h) * 32 < 2 ^ 64"
    using inv by (simp_all add: block_inv_def)
  define l where "l = (if s \<noteq> 0 then chunk_id ?bm (s - 1) else 0)"
  have left: "(if 2 * s \<noteq> 0 then read_id ?bm (2 * s - 2) else Inr 0) = Inr l"
    using read_id_eq [of "s - 1" ?bm] len cnt(1) by (cases s) (auto simp: l_def)
  have right: "read_id ?bm (2 * s + n * 2) = Inr (chunk_id ?bm (s + n))"
    using read_id_eq [of "s + n" ?bm] len cnt(1) by (simp add: algebra_simps)
  have "small_id l"
    by (simp add: l_def)
  then obtain v where v: "unique_id 4 0 l (chunk_id ?bm (s + n)) = Inr v" "v \<noteq> 0" "v \<noteq> l" "v \<noteq> chunk_id ?bm (s + n)" "small_id v"
    using unique_id_eq [of l "chunk_id ?bm (s + n)"] by auto
  have ids: "s = 0 \<or> chunk_id ?bm (s - 1) \<noteq> v" "chunk_id ?bm (s + n) \<noteq> v"
    using v(3,4) by (auto simp: l_def)
  obtain bm where bm: "mark_allocated n v (2 * s) ?bm = Inr bm"
    "block_adds h s n (h\<lparr>hb_bitmap := bm, hb_free_chunks := hb_free_chunks h - word_of_nat n\<rparr>)"
    using mark_run_block [OF inv n(1) len free v(5,2) ids] by blast
  have wn: "word_of_nat n = w"
    using w by (metis of_nat_unat ucast_id)
  have "unat (word_of_nat s * 32 :: size_t) = s * 32" "unat (word_of_nat s :: size_t) = s"
    using unat_word_of_nat_64 [of "s * 32"] unat_word_of_nat_64 [of s] len n(1) cnt(2) by simp_all
  then have "unat (hb_data h + word_of_nat s * 32) = unat (hb_data h) + s * 32"
    using len n(1) cnt(2) by (subst unat_add_no_wrap) simp_all
  moreover have "unat (w * 32) = n * 32"
    using w n(2) unat_word_of_nat_64 [of "n * 32"] by (simp add: wn)
  ultimately show ?thesis
    using left right v(1) bm len n(1) by (intro exI [of _ bm]) (simp add: wn)
qed

lemma allocate_in_block_correct:
  assumes inv: "block_inv h" and bytes: "bytes \<noteq> 0" "bytes \<le> upper_allocation_threshold"
    and al: "al = 2 ^ e" "e \<le> 12"
  shows "\<exists>r. allocate_in_block bytes al h = Inr r \<and> (case r of
      None \<Rightarrow> \<forall>s. \<not> free_aligned h al (chunks_for bytes) s
    | Some (data, taken, h') \<Rightarrow> \<exists>s. free_aligned h al (chunks_for bytes) s
        \<and> unat data = unat (hb_data h) + s * 32 \<and> unat taken = chunks_for bytes * 32
        \<and> block_adds h s (chunks_for bytes) h')"
proof -
  let ?f = "chunk_id (hb_bitmap h)" and ?cnt = "unat (hb_chunk_count h)" and ?n = "chunks_for bytes"
  let ?p = "2 ^ (e - 5) :: nat"
  note needed = unat_chunks_needed [OF bytes]
  have n: "0 < ?n"
    by (simp add: chunks_for_def)
  have cs: "hb_chunk_size h = 32" and cnt: "?cnt < 4 * length (hb_bitmap h)" "unat (hb_data h) + ?cnt * 32 < 2 ^ 64"
    using inv by (simp_all add: block_inv_def default_chunk_size_def)
  have ual: "unat al = 2 ^ e"
    using al unat_two_power by simp
  obtain o' where off: "aligned_offset_of al h = 2 * o'" and aligned: "\<And>s. (unat (hb_data h) + s * 32) mod 2 ^ e = 0
      \<longleftrightarrow> o' \<le> s \<and> (s - o') mod ?p = 0"
    using aligned_offset_correct [OF inv al] by blast
  have place: "place h o' ?p ?n s \<longleftrightarrow> free_aligned h al ?n s" for s
    using aligned [of s] ual by (auto simp: place_def free_aligned_def)
  show ?thesis
  proof (cases "hb_free_bytes h < bytes")
    case True
    have "\<not> free_aligned h al ?n s" for s
    proof
      assume "free_aligned h al ?n s"
      then have "?n \<le> free_count ?cnt ?f"
        by (intro free_count_ge [of s]) (auto simp: free_aligned_def list_all_iff)
      then show False
        using True needed(3) block_inv_free_bytes [OF inv] by (simp add: word_less_nat_alt)
    qed
    with True show ?thesis
      by (simp add: allocate_in_block_def)
  next
    case False
    have bits: "max (unat (al div 32) * 2) 2 = 2 * ?p"
    proof (cases "e \<le> 5")
      case True
      then show ?thesis
        using power_increasing [OF True, of "2 :: nat"] ual by (auto simp: unat_div le_Suc_eq)
    next
      case False
      then have "(2 :: nat) ^ e div 32 = ?p"
        using power_add [of "2 :: nat" 5 "e - 5"] by simp
      then show ?thesis
        using ual one_le_power [of "2 :: nat" "e - 5"] by (simp add: unat_div)
    qed
    have "?p \<le> 2 ^ 7"
      by (rule power_increasing) (use al in simp_all)
    then have "2 * ?cnt + 2 * ?p < 2 ^ 63"
      using cnt(2) by simp
    then have "\<exists>r. find_free_run (?cnt + 1) h ?n (2 * ?p) (2 * o') (2 * o') 0 0 = Inr r \<and> first_place h o' ?p ?n r"
      by (rule find_free_run_first [OF refl less_imp_le [OF cnt(1)] _ search_inv_start [OF n]]) simp_all
    then obtain r where r: "find_free_run (?cnt + 1) h ?n (2 * ?p) (2 * o') (2 * o') 0 0 = Inr r" "first_place h o' ?p ?n r"
      by blast
    have enough: "(hb_free_bytes h < bytes) = False" "((32 :: size_t) = 0) = False"
      using False by simp_all
    have run: "allocate_in_block bytes al h = (case r of None \<Rightarrow> Inr None | Some at_bit \<Rightarrow>
        bind_res (if at_bit \<noteq> 0 then read_id (hb_bitmap h) (at_bit - 2) else Inr 0) (\<lambda>left_neighbor.
        bind_res (if at_bit div 2 < ?cnt then read_id (hb_bitmap h) (at_bit + ?n * 2) else Inr 0) (\<lambda>right_neighbor.
        bind_res (unique_id 4 0 left_neighbor right_neighbor) (\<lambda>this_id.
        bind_res (mark_allocated ?n this_id at_bit (hb_bitmap h)) (\<lambda>bm.
          Inr (Some (hb_data h + word_of_nat (at_bit div 2) * 32, (1 + (bytes - 1) div 32) * 32,
            h\<lparr>hb_bitmap := bm, hb_free_chunks := hb_free_chunks h - (1 + (bytes - 1) div 32)\<rparr>)))))))"
      unfolding allocate_in_block_def Let_def cs needed(1) off bits r(1) enough
      by (simp only: if_False bind_res_Inr)
    show ?thesis
    proof (cases r)
      case None
      then show ?thesis
        using run r(2) place by (simp add: first_place_def)
    next
      case (Some i)
      then obtain s where s: "i = 2 * s" "free_aligned h al ?n s"
        using r(2) place by (auto simp: first_place_def)
      from allocate_at_place [OF inv n needed(2) s(2) needed(1)] show ?thesis
        using run Some s by auto
    qed
  qed
qed

subsection \<open>The heap\<close>

text \<open>
  The live allocations: the address and the length in bytes of every run of every block.
  Two blocks are apart when bytes (of the header and the bitmap) lie between them.
\<close>

definition live_in :: "heap_block \<Rightarrow> (nat \<times> nat) set" where
  "live_in h = {(unat (hb_data h) + s * 32, n * 32) | s n. is_run (chunk_id (hb_bitmap h)) s n}"

definition live :: "heap \<Rightarrow> (nat \<times> nat) set" where
  "live hp = (\<Union>h \<in> set (hp_blocks hp). live_in h)"

definition data_end :: "heap_block \<Rightarrow> nat" where
  "data_end h = unat (hb_data h) + unat (hb_chunk_count h) * 32"

definition blocks_apart :: "heap_block \<Rightarrow> heap_block \<Rightarrow> bool" where
  "blocks_apart g h \<longleftrightarrow> data_end g < unat (hb_data h) \<or> data_end h < unat (hb_data g)"

definition heap_inv :: "heap \<Rightarrow> bool" where
  "heap_inv hp \<longleftrightarrow> list_all block_inv (hp_blocks hp) \<and> sorted_wrt blocks_apart (hp_blocks hp)
     \<and> hp_total_free_bytes hp = sum_list (map hb_free_bytes (hp_blocks hp))"

lemma is_run_below:
  assumes "block_inv h" "is_run (chunk_id (hb_bitmap h)) s n"
  shows "s + n \<le> unat (hb_chunk_count h)"
proof (rule ccontr)
  assume "\<not> s + n \<le> unat (hb_chunk_count h)"
  then have "chunk_id (hb_bitmap h) (s + n - 1) = 0"
    by (intro block_inv_past [OF assms(1)]) simp
  moreover have "0 < n" "chunk_id (hb_bitmap h) s \<noteq> 0"
    using assms(2) by (simp_all add: is_run_def)
  moreover from this have "s \<le> s + n - 1" "s + n - 1 < s + n"
    by linarith+
  ultimately show False
    using is_run_all [OF assms(2), of "s + n - 1"] by simp
qed

lemma live_in_bounds:
  assumes "block_inv h" "(q, m) \<in> live_in h"
  shows "unat (hb_data h) \<le> q" "q + m \<le> data_end h" "0 < m"
proof -
  obtain s n where *: "q = unat (hb_data h) + s * 32" "m = n * 32" "is_run (chunk_id (hb_bitmap h)) s n"
    using assms(2) by (auto simp: live_in_def)
  then show "unat (hb_data h) \<le> q" "q + m \<le> data_end h" "0 < m"
    using is_run_below [OF assms(1) *(3)] by (auto simp: data_end_def is_run_def)
qed

lemma sorted_wrt_swap:
  assumes "sorted_wrt P (xs @ x # ys)" "\<And>z. P z x = P z y" "\<And>z. P x z = P y z"
  shows "sorted_wrt P (xs @ y # ys)"
  using assms by (simp add: sorted_wrt_append)

lemma blocks_apart_sym: "blocks_apart g h \<longleftrightarrow> blocks_apart h g"
  by (auto simp: blocks_apart_def)

lemma blocks_apart_update:
  assumes "hb_data h' = hb_data h" "hb_chunk_count h' = hb_chunk_count h"
  shows "blocks_apart h g \<longleftrightarrow> blocks_apart h' g"
  using assms by (simp add: blocks_apart_def data_end_def)

lemma block_adds_live:
  assumes "block_adds h s n h'"
  shows "live_in h' = insert (unat (hb_data h) + s * 32, n * 32) (live_in h)"
  using assms by (auto simp: block_adds_def live_in_def)

lemma hb_free_bytes_adds:
  assumes "block_adds h s n h'" "block_inv h"
  shows "hb_free_bytes h' = hb_free_bytes h - word_of_nat n * 32"
  using assms by (simp add: block_adds_def block_inv_def hb_free_bytes_def default_chunk_size_def left_diff_distrib)

text \<open>The loop over the blocks.\<close>

lemma allocate_in_blocks_correct:
  assumes "list_all block_inv hs" and bytes: "bytes \<noteq> 0" "bytes \<le> upper_allocation_threshold"
    and al: "al = 2 ^ e" "e \<le> 12"
  shows "case allocate_in_blocks bytes al hs of
      Inl f \<Rightarrow> f = Panic \<and> (\<forall>h \<in> set hs. \<forall>s. \<not> free_aligned h al (chunks_for bytes) s)
    | Inr (data, taken, hs') \<Rightarrow> \<exists>hs1 h hs2 h' s. hs = hs1 @ h # hs2 \<and> hs' = hs1 @ h' # hs2
        \<and> free_aligned h al (chunks_for bytes) s \<and> unat data = unat (hb_data h) + s * 32
        \<and> unat taken = chunks_for bytes * 32 \<and> block_adds h s (chunks_for bytes) h'"
  using assms(1)
proof (induction hs)
  case (Cons h hs)
  then have inv: "block_inv h" and IH: "list_all block_inv hs"
    by simp_all
  obtain r where r: "allocate_in_block bytes al h = Inr r" and post: "case r of
      None \<Rightarrow> \<forall>s. \<not> free_aligned h al (chunks_for bytes) s
    | Some (data, taken, h') \<Rightarrow> \<exists>s. free_aligned h al (chunks_for bytes) s
        \<and> unat data = unat (hb_data h) + s * 32 \<and> unat taken = chunks_for bytes * 32
        \<and> block_adds h s (chunks_for bytes) h'"
    using allocate_in_block_correct [OF inv bytes al] by blast
  show ?case
  proof (cases r)
    case None
    then show ?thesis
      using r post Cons.IH [OF IH]
      by (cases "allocate_in_blocks bytes al hs") (auto, metis append_Cons)
  next
    case (Some x)
    obtain data taken h' where x: "x = (data, taken, h')"
      by (cases x) auto
    then obtain s where "free_aligned h al (chunks_for bytes) s" "unat data = unat (hb_data h) + s * 32"
      "unat taken = chunks_for bytes * 32" "block_adds h s (chunks_for bytes) h'"
      using post Some by auto
    then show ?thesis
      using r Some x by simp (metis append_Nil)
  qed
qed simp

lemma live_disjoint_free:
  assumes inv: "block_inv h" and free: "free_aligned h al n s" "0 < n" and q: "(q, m) \<in> live_in h"
  shows "q + m \<le> unat (hb_data h) + s * 32 \<or> unat (hb_data h) + s * 32 + n * 32 \<le> q"
proof -
  obtain t k where *: "q = unat (hb_data h) + t * 32" "m = k * 32" "is_run (chunk_id (hb_bitmap h)) t k"
    using q by (auto simp: live_in_def)
  have "t + k \<le> s \<or> s + n \<le> t"
  proof (rule ccontr)
    assume "\<not> (t + k \<le> s \<or> s + n \<le> t)"
    then have "t \<le> max s t" "max s t < t + k" "s \<le> max s t" "max s t < s + n"
      using *(3) free(2) by (auto simp: is_run_def)
    moreover from this have "chunk_id (hb_bitmap h) (max s t) = 0"
      using free(1) by (auto simp: free_aligned_def list_all_iff)
    ultimately show False
      using is_run_all [OF *(3), of "max s t"] *(3) by (simp add: is_run_def)
  qed
  then show ?thesis
    using * by auto
qed

definition block_of :: "nat \<Rightarrow> nat \<Rightarrow> heap_block \<Rightarrow> bool" where
  "block_of q m h \<longleftrightarrow> unat (hb_data h) \<le> q \<and> q + m \<le> data_end h"

lemma apart_disjoint:
  assumes "blocks_apart g h" "block_of q m g" "block_of r l h"
  shows "q + m \<le> r \<or> r + l \<le> q"
  using assms by (auto simp: blocks_apart_def block_of_def)

text \<open>What an allocation of \<open>len\<close> bytes at \<open>p\<close> means for the heap.\<close>

definition heap_adds :: "heap \<Rightarrow> nat \<Rightarrow> nat \<Rightarrow> heap \<Rightarrow> bool" where
  "heap_adds hp p len hp' \<longleftrightarrow> heap_inv hp' \<and> live hp' = insert (p, len) (live hp)
     \<and> (\<forall>(q, m) \<in> live hp. q + m \<le> p \<or> p + len \<le> q)"

lemma heap_allocate_locked_correct:
  assumes inv: "heap_inv hp" and bytes: "bytes \<noteq> 0" "bytes \<le> upper_allocation_threshold"
    and al: "al = 2 ^ e" "e \<le> 12"
  shows "case heap_allocate_locked bytes al hp of
      Inl f \<Rightarrow> f = Panic \<and> (\<forall>h \<in> set (hp_blocks hp). \<forall>s. \<not> free_aligned h al (chunks_for bytes) s)
    | Inr (p, hp') \<Rightarrow> unat p mod unat al = 0 \<and> heap_adds hp (unat p) (chunks_for bytes * 32) hp'"
proof -
  let ?n = "chunks_for bytes"
  have blocks: "list_all block_inv (hp_blocks hp)" "sorted_wrt blocks_apart (hp_blocks hp)"
    "hp_total_free_bytes hp = sum_list (map hb_free_bytes (hp_blocks hp))"
    using inv by (simp_all add: heap_inv_def)
  note post = allocate_in_blocks_correct [OF blocks(1) bytes al]
  show ?thesis
  proof (cases "allocate_in_blocks bytes al (hp_blocks hp)")
    case (Inl f)
    then show ?thesis
      using post by (simp add: heap_allocate_locked_def)
  next
    case (Inr x)
    obtain data taken hs' where x: "x = (data, taken, hs')"
      by (cases x) auto
    then obtain hs1 h hs2 h' s where h: "hp_blocks hp = hs1 @ h # hs2" "hs' = hs1 @ h' # hs2"
      and s: "free_aligned h al ?n s" "unat data = unat (hb_data h) + s * 32"
      and taken: "unat taken = ?n * 32" and adds: "block_adds h s ?n h'"
      using post Inr by auto
    have hinv: "block_inv h" "block_inv h'" "hb_data h' = hb_data h" "hb_chunk_count h' = hb_chunk_count h"
      using blocks(1) h adds by (simp_all add: block_adds_def)
    let ?hp = "hp\<lparr>hp_calls_to_allocate := hp_calls_to_allocate hp + 1, hp_blocks := hs',
        hp_total_free_bytes := hp_total_free_bytes hp - taken\<rparr>"
    have run: "heap_allocate_locked bytes al hp = Inr (data, ?hp)"
      using Inr x by (simp add: heap_allocate_locked_def Let_def)
    have "taken = word_of_nat ?n * 32"
      using taken by (metis of_nat_mult of_nat_numeral of_nat_unat ucast_id)
    then have total: "hp_total_free_bytes hp - taken = sum_list (map hb_free_bytes hs')"
      using h blocks(3) hb_free_bytes_adds [OF adds hinv(1)] by (simp add: algebra_simps)
    have "sorted_wrt blocks_apart hs'"
      unfolding h(2) by (rule sorted_wrt_swap [OF blocks(2) [unfolded h(1)]])
        (use blocks_apart_update [OF hinv(3,4)] blocks_apart_sym in blast)+
    then have inv': "heap_inv ?hp"
      using blocks(1) h hinv(2) total by (simp add: heap_inv_def)
    have "q + m \<le> unat data \<or> unat data + ?n * 32 \<le> q" if q: "(q, m) \<in> live hp" for q m
    proof -
      obtain g where g: "g \<in> set (hp_blocks hp)" "(q, m) \<in> live_in g"
        using q by (auto simp: live_def)
      have "block_of q m g" "block_of (unat data) (?n * 32) h"
        using live_in_bounds [OF _ g(2)] g(1) blocks(1) s by (auto simp: block_of_def list_all_iff free_aligned_def data_end_def)
      moreover have "g = h \<or> blocks_apart g h"
        using g(1) h(1) blocks(2) blocks_apart_sym by (auto simp: sorted_wrt_append)
      moreover have "0 < ?n"
        by (simp add: chunks_for_def)
      ultimately show ?thesis
        using apart_disjoint [of g h] live_disjoint_free [OF hinv(1) s(1)] g(2) s(2) by metis
    qed
    moreover have "live ?hp = insert (unat data, ?n * 32) (live hp)"
      using h block_adds_live [OF adds] s(2) by (auto simp: live_def)
    ultimately have "heap_adds hp (unat data) (?n * 32) ?hp"
      using inv' by (auto simp: heap_adds_def)
    moreover have "unat data mod unat al = 0"
      using s by (simp add: free_aligned_def)
    ultimately show ?thesis
      using run by simp
  qed
qed

subsection \<open>Freeing an allocation\<close>

lemma hb_end_eq:
  assumes "block_inv h"
  shows "unat (hb_end h) = data_end h"
proof -
  have "unat (hb_chunk_count h * hb_chunk_size h) = unat (hb_chunk_count h) * 32"
    using assms unat_mult_lem [of "hb_chunk_count h" "hb_chunk_size h"]
    by (simp add: block_inv_def default_chunk_size_def)
  then show ?thesis
    using assms unfolding hb_end_def data_end_def block_inv_def by (subst unat_add_no_wrap) simp_all
qed

lemma hb_contains_iff:
  "block_inv h \<Longrightarrow> hb_contains p h \<longleftrightarrow> unat (hb_data h) \<le> unat p \<and> unat p \<le> data_end h"
  using hb_end_eq [of h] by (auto simp: hb_contains_def word_le_nat_alt)

lemma which_bit_eq:
  assumes "block_inv h" "hb_contains p h"
  shows "which_bit p h = 2 * ((unat p - unat (hb_data h)) div 32)"
  using assms hb_contains_iff [OF assms(1), of p]
  by (simp add: which_bit_def unat_div unat_diff_word block_inv_def default_chunk_size_def word_le_nat_alt)

definition block_drops :: "heap_block \<Rightarrow> nat \<Rightarrow> nat \<Rightarrow> heap_block \<Rightarrow> bool" where
  "block_drops h s n h' \<longleftrightarrow> block_inv h' \<and> hb_data h' = hb_data h \<and> hb_chunk_count h' = hb_chunk_count h
     \<and> hb_free_chunks h' = hb_free_chunks h + word_of_nat n
     \<and> (\<forall>t m. is_run (chunk_id (hb_bitmap h')) t m \<longleftrightarrow> is_run (chunk_id (hb_bitmap h)) t m \<and> \<not> (t = s \<and> m = n))"

lemma free_run_block:
  assumes inv: "block_inv h" and run: "is_run (chunk_id (hb_bitmap h)) s n"
  shows "\<exists>bm. free_run 0 (2 * s) (hb_bitmap h) = Inr (bm, n)
    \<and> block_drops h s n (h\<lparr>hb_bitmap := bm, hb_free_chunks := hb_free_chunks h + word_of_nat n\<rparr>)"
proof -
  let ?f = "chunk_id (hb_bitmap h)" and ?cnt = "unat (hb_chunk_count h)"
  have len: "s + n \<le> ?cnt"
    by (rule is_run_below [OF inv run])
  have fc: "unat (hb_free_chunks h) = free_count ?cnt ?f" and cnt: "?cnt < 4 * length (hb_bitmap h)"
    using inv by (simp_all add: block_inv_def)
  obtain bm where bm: "free_run 0 (2 * s) (hb_bitmap h) = Inr (bm, n)" "length bm = length (hb_bitmap h)"
    "chunk_id bm = set_run s n 0 ?f"
    using free_run_start [OF run] len cnt by auto
  have nz: "?f k \<noteq> 0" if "s \<le> k" "k < s + n" for k
    using is_run_all [OF run that] run by (simp add: is_run_def)
  have clear: "free_count ?cnt (set_run s n 0 ?f) = free_count ?cnt ?f + n"
    by (rule free_count_clear [OF len nz])
  then have small: "free_count ?cnt ?f + n < 2 ^ 64"
    using free_count_le [of ?cnt "set_run s n 0 ?f"] unat_less_64 [of "hb_chunk_count h"] by linarith
  have n: "unat (word_of_nat n :: size_t) = n"
    by (rule unat_word_of_nat_64) (use small in linarith)
  have "unat (hb_free_chunks h + word_of_nat n) = free_count ?cnt (set_run s n 0 ?f)"
    using fc clear small n by (subst unat_add_no_wrap) simp_all
  from block_inv_set_run [OF inv bm(2,3) len this] bm show ?thesis
    using is_run_clear_iff [OF run] by (simp add: block_drops_def)
qed

lemma block_drops_live:
  assumes "block_drops h s n h'" "is_run (chunk_id (hb_bitmap h)) s n"
  shows "live_in h' = live_in h - {(unat (hb_data h) + s * 32, n * 32)}"
  using assms by (auto simp: block_drops_def live_in_def)

lemma free_in_blocks_skip:
  assumes "\<And>g. g \<in> set hs1 \<Longrightarrow> \<not> hb_contains p g"
  shows "free_in_blocks p (hs1 @ hs2) = bind_res (free_in_blocks p hs2) (\<lambda>(freed, hs'). Inr (freed, hs1 @ hs'))"
  using assms
proof (induction hs1)
  case Nil
  then show ?case
    by (cases "free_in_blocks p hs2") auto
next
  case (Cons g hs1)
  then show ?case
    by (cases "free_in_blocks p hs2") auto
qed

lemma only_holder:
  assumes inv: "list_all block_inv (hs1 @ h # hs2)" "sorted_wrt blocks_apart (hs1 @ h # hs2)" and p: "hb_contains p h"
    and g: "g \<in> set hs1"
  shows "\<not> hb_contains p g"
proof -
  have "blocks_apart g h" "block_inv g" "block_inv h"
    using inv g by (auto simp: sorted_wrt_append list_all_iff)
  then show ?thesis
    using p by (auto simp: hb_contains_iff blocks_apart_def data_end_def)
qed

lemma live_apart:
  assumes "list_all block_inv (hs1 @ h # hs2)" "sorted_wrt blocks_apart (hs1 @ h # hs2)" "(q, m) \<in> live_in h"
    and g: "g \<in> set hs1 \<union> set hs2"
  shows "(q, m) \<notin> live_in g"
proof
  assume "(q, m) \<in> live_in g"
  moreover have "blocks_apart g h" "block_inv g" "block_inv h"
    using assms(1,2) g blocks_apart_sym by (auto simp: sorted_wrt_append list_all_iff)
  ultimately show False
    using live_in_bounds [of g q m] live_in_bounds [of h q m] assms(3) by (auto simp: blocks_apart_def)
qed

lemma heap_free_live:
  assumes inv: "heap_inv hp" and lv: "(unat p, len) \<in> live hp"
  shows "\<exists>hp'. heap_free p hp = Inr hp' \<and> heap_inv hp' \<and> live hp' = live hp - {(unat p, len)}
    \<and> hp_total_free_bytes hp' = hp_total_free_bytes hp + word_of_nat len"
proof -
  have blocks: "list_all block_inv (hp_blocks hp)" "sorted_wrt blocks_apart (hp_blocks hp)"
    "hp_total_free_bytes hp = sum_list (map hb_free_bytes (hp_blocks hp))"
    using inv by (simp_all add: heap_inv_def)
  obtain h where "h \<in> set (hp_blocks hp)" and lh: "(unat p, len) \<in> live_in h"
    using lv by (auto simp: live_def)
  then obtain hs1 hs2 where hs: "hp_blocks hp = hs1 @ h # hs2"
    by (meson split_list)
  note blocks' = blocks(1,2) [unfolded hs]
  have hinv: "block_inv h"
    using blocks' by simp
  obtain s n where s: "unat p = unat (hb_data h) + s * 32" "len = n * 32" "is_run (chunk_id (hb_bitmap h)) s n"
    using lh by (auto simp: live_in_def)
  obtain bm where bm: "free_run 0 (2 * s) (hb_bitmap h) = Inr (bm, n)"
    and drops: "block_drops h s n (h\<lparr>hb_bitmap := bm, hb_free_chunks := hb_free_chunks h + word_of_nat n\<rparr>)"
    using free_run_block [OF hinv s(3)] by blast
  let ?h = "h\<lparr>hb_bitmap := bm, hb_free_chunks := hb_free_chunks h + word_of_nat n\<rparr>"
  have con: "hb_contains p h"
    using hb_contains_iff [OF hinv] live_in_bounds [OF hinv lh] by auto
  have p0: "p \<noteq> 0"
    using s(1) hinv by (auto simp: block_inv_def)
  have cs: "hb_chunk_size h = 32"
    using hinv by (simp add: block_inv_def default_chunk_size_def)
  have "which_bit p h = 2 * s"
    using which_bit_eq [OF hinv con] s(1) by simp
  then have "free_in_blocks p (h # hs2) = Inr (word_of_nat n * 32, ?h # hs2)"
    using con bm cs by simp
  then have "free_in_blocks p (hp_blocks hp) = Inr (word_of_nat n * 32, hs1 @ ?h # hs2)"
    unfolding hs by (subst free_in_blocks_skip) (use only_holder [OF blocks' con] in auto)
  then have run: "heap_free p hp = Inr (hp\<lparr>hp_calls_to_free := hp_calls_to_free hp + 1, hp_blocks := hs1 @ ?h # hs2,
      hp_total_free_bytes := hp_total_free_bytes hp + word_of_nat n * 32\<rparr>)" (is "_ = Inr ?hp")
    using p0 by (simp add: heap_free_def)
  have "hb_free_bytes ?h = hb_free_bytes h + word_of_nat n * 32"
    by (simp add: hb_free_bytes_def cs algebra_simps)
  moreover have "sorted_wrt blocks_apart (hs1 @ ?h # hs2)"
    by (rule sorted_wrt_swap [OF blocks'(2)]) (simp_all add: blocks_apart_def data_end_def)
  ultimately have "heap_inv ?hp"
    using blocks' blocks(3) hs drops by (simp add: heap_inv_def block_drops_def algebra_simps)
  moreover have "live ?hp = live hp - {(unat p, len)}"
    using hs block_drops_live [OF drops s(3)] s(1,2) live_apart [OF blocks' lh] by (auto simp: live_def)
  ultimately show ?thesis
    using run s(2) by auto
qed

lemma run_exists:
  assumes "f k \<noteq> 0" "f c = 0" "k \<le> c"
  shows "\<exists>s n. is_run f s n \<and> s \<le> k \<and> k < s + n"
proof -
  define P where "P s \<longleftrightarrow> s \<le> k \<and> (\<forall>j. s \<le> j \<and> j \<le> k \<longrightarrow> f j = f k)" for s
  define Q where "Q m \<longleftrightarrow> k \<le> m \<and> f m \<noteq> f k" for m
  define s where "s = (LEAST s. P s)"
  define m where "m = (LEAST m. Q m)"
  have "P k"
    by (auto simp: P_def)
  then have Ps: "P s"
    unfolding s_def by (rule LeastI)
  have "Q c"
    using assms by (simp add: Q_def)
  then have Qm: "Q m"
    unfolding m_def by (rule LeastI)
  have sk: "s \<le> k" "f s = f k" "k < m" "f m \<noteq> f k"
    using Ps Qm unfolding P_def Q_def by (blast, blast, metis le_neq_implies_less, blast)
  have below: "f j = f k" if "s \<le> j" "j < m" for j
  proof (cases "j \<le> k")
    case True
    then show ?thesis
      using Ps that unfolding P_def by blast
  next
    case False
    then show ?thesis
      using not_less_Least [of j Q] that by (auto simp: m_def Q_def)
  qed
  have "s = 0 \<or> f (s - 1) \<noteq> f s"
  proof (rule ccontr)
    assume "\<not> (s = 0 \<or> f (s - 1) \<noteq> f s)"
    then have "s \<noteq> 0" "f (s - 1) = f k"
      using sk(2) by auto
    then have "f j = f k" if "s - 1 \<le> j" "j \<le> k" for j
    proof (cases "j = s - 1")
      case False
      then have "s \<le> j"
        using that by linarith
      then show ?thesis
        using Ps that unfolding P_def by blast
    qed simp
    then have "P (s - 1)"
      using sk(1) unfolding P_def by (meson diff_le_self le_trans)
    then show False
      using not_less_Least [of "s - 1" P] \<open>s \<noteq> 0\<close> by (simp add: s_def)
  qed
  then have "is_run f s (m - s)"
  proof (intro is_runI)
    fix j assume "s \<le> j" "j < s + (m - s)"
    then show "f j = f s"
      using below [of j] sk by simp
  qed (use sk assms(1) in auto)
  moreover have "k < s + (m - s)"
    using sk by simp
  ultimately show ?thesis
    using sk(1) by blast
qed

lemma free_in_blocks_none: "(\<And>g. g \<in> set hs \<Longrightarrow> \<not> hb_contains p g) \<Longrightarrow> free_in_blocks p hs = Inl Panic"
  by (induction hs) auto

lemma heap_free_not_live:
  assumes inv: "heap_inv hp" and p0: "p \<noteq> 0" and dead: "\<And>q m. (q, m) \<in> live hp \<Longrightarrow> \<not> (q \<le> unat p \<and> unat p < q + m)"
  shows "heap_free p hp = Inl Panic"
proof -
  have blocks: "list_all block_inv (hp_blocks hp)" "sorted_wrt blocks_apart (hp_blocks hp)"
    using inv by (simp_all add: heap_inv_def)
  have "free_in_blocks p (hp_blocks hp) = Inl Panic"
  proof (cases "\<exists>h \<in> set (hp_blocks hp). hb_contains p h")
    case False
    then show ?thesis
      by (intro free_in_blocks_none) blast
  next
    case True
    then obtain h where "h \<in> set (hp_blocks hp)" and con: "hb_contains p h"
      by blast
    then obtain hs1 hs2 where hs: "hp_blocks hp = hs1 @ h # hs2"
      by (meson split_list)
    note blocks' = blocks [unfolded hs]
    have hinv: "block_inv h"
      using blocks' by simp
    let ?k = "(unat p - unat (hb_data h)) div 32" and ?f = "chunk_id (hb_bitmap h)"
    have bounds: "unat (hb_data h) \<le> unat p" "unat p \<le> data_end h"
      using con hb_contains_iff [OF hinv] by auto
    then have k: "?k \<le> unat (hb_chunk_count h)"
      by (simp add: data_end_def div_le_mono [of _ "unat (hb_chunk_count h) * 32" 32, simplified])
    have "?f ?k = 0"
    proof (rule ccontr)
      assume "?f ?k \<noteq> 0"
      then obtain s n where run: "is_run ?f s n" "s \<le> ?k" "?k < s + n"
        using run_exists [of ?f ?k "unat (hb_chunk_count h)"] block_inv_past [OF hinv] k by blast
      then have "(unat (hb_data h) + s * 32, n * 32) \<in> live hp"
        using hs by (auto simp: live_def live_in_def)
      moreover have "s * 32 \<le> unat p - unat (hb_data h)" "unat p - unat (hb_data h) < s * 32 + n * 32"
        using run(2,3) by (simp_all add: less_eq_div_iff_mult_less_eq div_less_iff_less_mult add_mult_distrib)
      then have "unat (hb_data h) + s * 32 \<le> unat p \<and> unat p < unat (hb_data h) + s * 32 + n * 32"
        using bounds(1) by (intro conjI) linarith+
      ultimately show False
        using dead by blast
    qed
    moreover have "?k < 4 * length (hb_bitmap h)"
      using k hinv by (simp add: block_inv_def)
    ultimately have "free_in_blocks p (h # hs2) = Inl Panic"
      using free_run_free_chunk [of "hb_bitmap h" ?k] con which_bit_eq [OF hinv con] hinv
      by (simp add: block_inv_def default_chunk_size_def)
    then show ?thesis
      unfolding hs by (subst free_in_blocks_skip) (use only_holder [OF blocks' con] in auto)
  qed
  then show ?thesis
    using p0 by (simp add: heap_free_def)
qed

subsection \<open>Feeding a block\<close>

lemma chunk_id_replicate [simp]: "chunk_id (replicate n 0) k = 0"
  by (simp add: chunk_id_def)

text \<open>The sizes of a new block as natural numbers.\<close>

lemma make_block_sizes:
  assumes size: "4136 \<le> unat sz" and fit: "unat ptr + unat sz < 2 ^ 64"
  defines "bb \<equiv> 1 + ((unat sz - 40) div 32 - 1) div 4"
  shows "\<exists>total. bb \<le> total \<and> total \<le> bb + 31 \<and> (unat ptr + 40 + total) mod 32 = 0 \<and> 32 \<le> bb \<and> total \<le> unat sz - 40
    \<and> unat (hb_data (make_block ptr sz 32)) = unat ptr + 40 + total
    \<and> unat (hb_chunk_count (make_block ptr sz 32)) = (unat sz - 40 - total) div 32
    \<and> hb_free_chunks (make_block ptr sz 32) = hb_chunk_count (make_block ptr sz 32)
    \<and> hb_chunk_size (make_block ptr sz 32) = 32
    \<and> hb_bitmap (make_block ptr sz 32) = replicate total 0"
proof -
  let ?pure = "sz - header_size"
  have pure: "unat ?pure = unat sz - 40"
    using size by (simp add: header_size_def unat_diff_word word_le_nat_alt)
  let ?cc = "?pure div 32"
  have cc: "unat ?cc = (unat sz - 40) div 32"
    using pure by (simp add: unat_div)
  have cc128: "128 \<le> (unat sz - 40) div 32"
    using size by simp
  let ?bb = "1 + ((?cc - 1) div 4)"
  have bbn: "unat ((?cc - 1) div 4) = ((unat sz - 40) div 32 - 1) div 4"
    using cc cc128 by (simp add: unat_div unat_diff_word word_le_nat_alt)
  have bb_le: "bb \<le> unat sz - 40 - 31" "32 \<le> bb"
    using size cc128 unfolding bb_def by linarith+
  have "bb < 2 ^ 64"
    using bb_le(1) fit by linarith
  then have ubb: "unat ?bb = bb"
    using bbn unfolding bb_def by (subst unat_add_no_wrap) simp_all
  let ?dp = "ptr + header_size + ?bb"
  have dp: "unat ?dp = unat ptr + 40 + bb"
  proof -
    have "unat (ptr + header_size) = unat ptr + 40"
      using size fit by (subst unat_add_no_wrap) (simp_all add: header_size_def)
    then show ?thesis
      using ubb bb_le fit by (subst unat_add_no_wrap) simp_all
  qed
  let ?ov = "if ?dp mod 32 \<noteq> 0 then 32 - ?dp mod 32 else 0"
  have rem: "unat (?dp mod 32) = (unat ptr + 40 + bb) mod 32"
    using dp by (simp add: unat_mod_distrib)
  have r32: "?dp mod 32 \<le> 32"
    using rem by (simp add: word_le_nat_alt)
  have ov: "unat ?ov = (if (unat ptr + 40 + bb) mod 32 = 0 then 0 else 32 - (unat ptr + 40 + bb) mod 32)"
    using rem unat_diff_word [OF r32] by (auto simp: unat_eq_zero [symmetric])
  define total where "total = bb + unat ?ov"
  have "(x + (if x mod 32 = 0 then 0 else 32 - x mod 32)) mod 32 = 0" for x :: nat
    by presburger
  from this [of "unat ptr + 40 + bb"] have al: "(unat ptr + 40 + total) mod 32 = 0"
    unfolding total_def ov by (simp add: add.assoc)
  have "unat ?ov \<le> 31"
    unfolding ov by auto
  then have tot: "bb \<le> total" "total \<le> bb + 31" "total \<le> unat sz - 40"
    unfolding total_def using bb_le size by linarith+
  have ut: "unat (?bb + ?ov) = total"
    using ubb tot(3) fit unfolding total_def by (subst unat_add_no_wrap) simp_all
  have data: "unat (ptr + header_size + (?bb + ?ov)) = unat ptr + 40 + total"
  proof -
    have "unat (ptr + header_size) = unat ptr + 40"
      using size fit by (subst unat_add_no_wrap) (simp_all add: header_size_def)
    then show ?thesis
      using ut tot(3) size fit by (subst unat_add_no_wrap) simp_all
  qed
  let ?p2 = "?pure - (?bb + ?ov)"
  have p2: "unat ?p2 = unat sz - 40 - total"
    using pure ut tot(3) by (subst unat_diff_word) (simp_all add: word_le_nat_alt)
  have "unat (p - p mod 32) div 32 = unat p div 32" for p :: size_t
    by (subst unat_diff_word) (simp_all add: unat_mod_distrib word_le_nat_alt minus_mod_eq_mult_div)
  then have cnt: "unat ((if ?p2 mod 32 \<noteq> 0 then ?p2 - ?p2 mod 32 else ?p2) div 32) = (unat sz - 40 - total) div 32"
    using p2 by (simp add: unat_div)
  show ?thesis
    using al tot bb_le(2) data cnt ut
    by (intro exI [of _ total]) (simp add: make_block_def Let_def)
qed

lemma make_block_inv:
  assumes size: "4136 \<le> unat sz" and fit: "unat ptr + unat sz < 2 ^ 64"
  defines "h \<equiv> make_block ptr sz default_chunk_size"
  shows "block_inv h" "live_in h = {}" "unat ptr + 40 \<le> unat (hb_data h)" "data_end h \<le> unat ptr + unat sz"
    "hb_free_bytes h = hb_chunk_count h * default_chunk_size"
proof -
  define bb where "bb = 1 + ((unat sz - 40) div 32 - 1) div 4"
  have heq: "make_block ptr sz 32 = h"
    by (simp add: h_def default_chunk_size_def)
  obtain total where total: "bb \<le> total" "total \<le> bb + 31" "(unat ptr + 40 + total) mod 32 = 0" "32 \<le> bb"
    "total \<le> unat sz - 40" and h: "unat (hb_data h) = unat ptr + 40 + total"
    "unat (hb_chunk_count h) = (unat sz - 40 - total) div 32" "hb_free_chunks h = hb_chunk_count h"
    "hb_chunk_size h = 32" "hb_bitmap h = replicate total 0"
    using make_block_sizes [OF size fit, unfolded heq, folded bb_def] by (elim exE conjE) (rule that)
  have cnt: "unat (hb_chunk_count h) * 32 \<le> unat sz - 40 - total"
    using h(2) div_times_less_eq_dividend [of "unat sz - 40 - total" 32] by simp
  then show end': "data_end h \<le> unat ptr + unat sz"
    using h(1) total(5) size by (simp add: data_end_def)
  show "unat ptr + 40 \<le> unat (hb_data h)"
    using h(1) by simp
  have "unat (hb_chunk_count h) < (unat sz - 40) div 32"
    using h(2) total(1,4) size by linarith
  moreover have "c \<le> 4 * (1 + (c - 1) div 4)" for c :: nat
    by presburger
  then have "(unat sz - 40) div 32 \<le> 4 * bb"
    unfolding bb_def .
  ultimately have "unat (hb_chunk_count h) < 4 * total"
    using total(1) by linarith
  moreover have "free_count c (\<lambda>k. 0) = c" for c
    by (simp add: free_count_def)
  moreover have "chunk_id (hb_bitmap h) = (\<lambda>k. 0)"
    by (rule ext) (simp add: h(5))
  ultimately show "block_inv h"
    using h total(3) end' fit by (simp add: block_inv_def default_chunk_size_def data_end_def list_all_iff)
  show "live_in h = {}"
    by (simp add: live_in_def is_run_def h(5))
  show "hb_free_bytes h = hb_chunk_count h * default_chunk_size"
    by (simp add: hb_free_bytes_def h default_chunk_size_def)
qed

lemma count_set_bits_one:
  assumes "count_set_bits al = 1"
  shows "\<exists>e < 64. al = 2 ^ e"
proof -
  obtain e where e: "filter (bit al) [0..<64] = [e]"
    using assms by (auto simp: count_set_bits_def length_Suc_conv)
  have "bit al j \<longleftrightarrow> j = e" if "j < 64" for j
  proof -
    have "j \<in> set (filter (bit al) [0..<64]) \<longleftrightarrow> bit al j"
      using that by simp
    then show ?thesis
      unfolding e by simp
  qed
  moreover have "e < 64"
    using arg_cong [OF e, of set] by auto
  ultimately have "al = 2 ^ e"
    by (intro bit_word_eqI) (auto simp: bit_simps)
  with \<open>e < 64\<close> show ?thesis
    by blast
qed

lemma alignment_exponent:
  assumes "count_set_bits al = 1" "al \<le> 4096"
  shows "\<exists>e \<le> 12. al = 2 ^ e"
proof -
  obtain e where e: "e < 64" "al = 2 ^ e"
    using count_set_bits_one [OF assms(1)] by blast
  then have "(2 :: nat) ^ e \<le> 2 ^ 12"
    using assms(2) unat_two_power [OF e(1)] by (simp add: word_le_nat_alt)
  then have "e \<le> 12"
    by (rule power_le_imp_le_exp [rotated]) simp
  with e show ?thesis
    by blast
qed

subsection \<open>Properties\<close>

text \<open>
  C3: an allocation that does not refill the heap returns an aligned address of at least the
  requested number of bytes that overlap no live allocation; afterwards exactly this
  allocation is live in addition, and the invariant of the heap holds. It panics exactly
  when no block has enough free chunks in a row at an aligned address.
\<close>

theorem heap_allocate_correct:
  assumes "heap_inv hp" and "bytes \<noteq> 0" and "bytes \<le> upper_allocation_threshold"
    and "count_set_bits al = 1" and "al \<le> 4096"
    and "did_acquire \<longrightarrow> bytes \<le> hp_total_free_bytes hp \<and> upper_allocation_threshold < hp_total_free_bytes hp - bytes"
  shows "unat bytes \<le> chunks_for bytes * 32 \<and> (case heap_allocate mm did_acquire bytes al hp of
      Inl f \<Rightarrow> f = Panic \<and> (\<forall>h \<in> set (hp_blocks hp). \<forall>s. \<not> free_aligned h al (chunks_for bytes) s)
    | Inr (p, hp') \<Rightarrow> unat p mod unat al = 0 \<and> heap_adds hp (unat p) (chunks_for bytes * 32) hp')"
proof -
  obtain e where e: "al = 2 ^ e" "e \<le> 12"
    using alignment_exponent [OF assms(4,5)] by blast
  have "heap_allocate mm did_acquire bytes al hp = heap_allocate_locked bytes al hp"
    using assms(2-6) by (auto simp: heap_allocate_def refill_if_needed_def Let_def)
  then show ?thesis
    using heap_allocate_locked_correct [OF assms(1-3) e] unat_chunks_needed(3) [OF assms(2,3)] by simp
qed

definition heap_example :: heap where
  "heap_example = heap_new\<lparr>hp_blocks := [\<lparr>hb_data = 0x1020, hb_chunk_count = 5, hb_chunk_size = 32,
     hb_free_chunks = 4, hb_bitmap = [1, 0]\<rparr>], hp_total_free_bytes := 128\<rparr>"

lemma heap_example_inv: "heap_inv heap_example"
  by (simp add: heap_inv_def heap_example_def heap_new_def block_inv_def default_chunk_size_def free_count_def
      chunk_id_def hb_free_bytes_def upt_rec)

theorem heap_allocate_correct_witness:
  "heap_inv heap_example \<and> (\<exists>hp'. heap_allocate None False 40 64 heap_example = Inr (0x1040, hp')
     \<and> heap_adds heap_example 0x1040 64 hp')"
proof -
  have pre: "(40 :: size_t) \<noteq> 0" "40 \<le> upper_allocation_threshold" "count_set_bits 64 = 1" "(64 :: size_t) \<le> 4096"
    by code_simp+
  have "map_sum id fst (heap_allocate None False 40 64 heap_example) = Inr 0x1040"
    by code_simp
  then obtain hp' where "heap_allocate None False 40 64 heap_example = Inr (0x1040, hp')"
    by (cases "heap_allocate None False 40 64 heap_example") auto
  moreover have "chunks_for 40 = 2"
    by (simp add: chunks_for_def)
  ultimately show ?thesis
    using heap_allocate_correct [OF heap_example_inv pre, of False None] heap_example_inv by simp
qed

text \<open>
  C11: freeing the address of a live allocation ends exactly this allocation and returns
  its bytes, and the invariant of the heap holds; freeing an address other than null that lies
  in no live allocation (a second free, a foreign pointer) panics.
\<close>

theorem heap_free_correct:
  assumes "heap_inv hp"
  shows "((unat p, len) \<in> live hp \<longrightarrow> (\<exists>hp'. heap_free p hp = Inr hp' \<and> heap_inv hp'
      \<and> live hp' = live hp - {(unat p, len)}
      \<and> hp_total_free_bytes hp' = hp_total_free_bytes hp + word_of_nat len))
    \<and> (p \<noteq> 0 \<and> (\<forall>(q, m) \<in> live hp. \<not> (q \<le> unat p \<and> unat p < q + m)) \<longrightarrow> heap_free p hp = Inl Panic)"
  using heap_free_live [OF assms] heap_free_not_live [OF assms, of p] by blast

theorem heap_free_correct_witness:
  "heap_inv heap_example \<and> (\<exists>hp'. heap_free 0x1020 heap_example = Inr hp' \<and> (0x1020, 32) \<notin> live hp')"
proof -
  have "is_run (chunk_id [1, 0]) 0 1"
    by code_simp
  then have "(unat (0x1020 :: addr), 32) \<in> live heap_example"
    by (auto simp: live_def live_in_def heap_example_def heap_new_def intro!: exI [of _ 0] exI [of _ "1 :: nat"])
  then show ?thesis
    using heap_free_correct [OF heap_example_inv, of "0x1020" 32] heap_example_inv by auto
qed

text \<open>
  Feeding the heap a region of at least 4136 bytes that lies apart from its blocks gives
  a heap that satisfies the invariant, has the same live allocations and counts the free
  bytes of the new block.
\<close>

theorem feed_block_correct:
  assumes "heap_inv hp" and "4136 \<le> unat sz" and "unat ptr + unat sz < 2 ^ 64"
    and "list_all (\<lambda>g. data_end g \<le> unat ptr \<or> unat ptr + unat sz < unat (hb_data g)) (hp_blocks hp)"
  shows "\<exists>hp' h. feed_block ptr sz default_chunk_size hp = Inr hp' \<and> heap_inv hp' \<and> live hp' = live hp
    \<and> h \<in> set (hp_blocks hp') \<and> block_inv h \<and> unat ptr < unat (hb_data h) \<and> data_end h \<le> unat ptr + unat sz
    \<and> hp_total_free_bytes hp' = hp_total_free_bytes hp + hb_free_bytes h"
proof -
  let ?h = "make_block ptr sz default_chunk_size"
  note new = make_block_inv [OF assms(2,3)]
  let ?hp = "hp\<lparr>hp_blocks := link_block ?h (hp_blocks hp),
      hp_total_free_bytes := hp_total_free_bytes hp + hb_chunk_count ?h * default_chunk_size\<rparr>"
  have run: "feed_block ptr sz default_chunk_size hp = Inr ?hp"
    by (simp add: feed_block_def default_chunk_size_def Let_def)
  have apart: "blocks_apart g ?h \<and> blocks_apart ?h g" if "g \<in> set (hp_blocks hp)" for g
    using assms(4) that new(3,4) by (auto simp: list_all_iff blocks_apart_def)
  have "sorted_wrt blocks_apart (link_block ?h (hp_blocks hp))"
    using assms(1) apart by (cases "hp_blocks hp") (auto simp: link_block_def heap_inv_def)
  moreover have "list_all block_inv (link_block ?h (hp_blocks hp))"
    using assms(1) new(1) by (cases "hp_blocks hp") (auto simp: link_block_def heap_inv_def)
  moreover have "sum_list (map hb_free_bytes (link_block ?h (hp_blocks hp)))
      = sum_list (map hb_free_bytes (hp_blocks hp)) + hb_free_bytes ?h"
    by (cases "hp_blocks hp") (simp_all add: link_block_def algebra_simps)
  ultimately have "heap_inv ?hp"
    using assms(1) new(5) by (simp add: heap_inv_def)
  moreover have blocks: "set (link_block ?h (hp_blocks hp)) = insert ?h (set (hp_blocks hp))"
    by (cases "hp_blocks hp") (auto simp: link_block_def)
  ultimately show ?thesis
    using run new by (intro exI [of _ ?hp] exI [of _ ?h]) (auto simp: live_def)
qed

theorem feed_block_correct_witness:
  "\<exists>hp' h. feed_block 0x400000 0x400000 default_chunk_size heap_new = Inr hp' \<and> heap_inv hp' \<and> live hp' = {}
    \<and> h \<in> set (hp_blocks hp') \<and> block_inv h"
proof -
  have "heap_inv heap_new" "live heap_new = {}"
    by (simp_all add: heap_inv_def heap_new_def live_def)
  then show ?thesis
    using feed_block_correct [of heap_new "0x400000" "0x400000"] by (auto simp: heap_new_def)
qed

end
