(* ===== verification/C_Type.thy ===== *)
theory C_Type
  imports Kernel_Prelude
begin

text \<open>
  \<^verbatim>\<open>Userland/LibC/ctype.c\<close>: the character classes of the user-space C library, a table of
  flags indexed by the low byte of the argument. A character is a C \<^verbatim>\<open>int\<close>, 32 bits wide;
  a predicate holds when its result is not zero.
\<close>

type_synonym c_int = "32 word"

definition CTYPE_CONTROL :: u8 where "CTYPE_CONTROL = push_bit 0 1"

definition CTYPE_SPACE :: u8 where "CTYPE_SPACE = push_bit 1 1"

definition CTYPE_BLANK :: u8 where "CTYPE_BLANK = push_bit 2 1"

definition CTYPE_PUNCT :: u8 where "CTYPE_PUNCT = push_bit 3 1"

definition CTYPE_LOWER :: u8 where "CTYPE_LOWER = push_bit 4 1"

definition CTYPE_UPPER :: u8 where "CTYPE_UPPER = push_bit 5 1"

definition CTYPE_DIGIT :: u8 where "CTYPE_DIGIT = push_bit 6 1"

definition CTYPE_XDIGIT :: u8 where "CTYPE_XDIGIT = push_bit 7 1"

definition CTYPE_ALPHA :: u8 where "CTYPE_ALPHA = CTYPE_LOWER OR CTYPE_UPPER"

definition CTYPE_ALNUM :: u8 where "CTYPE_ALNUM = CTYPE_ALPHA OR CTYPE_DIGIT"

text \<open>The table in the order of the source; C fills the entries past the last one with zeros.\<close>

definition ctype_table :: "u8 list" where
  "ctype_table =
     replicate 9 CTYPE_CONTROL
     @ [CTYPE_CONTROL OR CTYPE_SPACE OR CTYPE_BLANK]
     @ replicate 4 (CTYPE_CONTROL OR CTYPE_SPACE)
     @ replicate 18 CTYPE_CONTROL
     @ [CTYPE_SPACE OR CTYPE_BLANK]
     @ replicate 15 CTYPE_PUNCT
     @ replicate 10 (CTYPE_DIGIT OR CTYPE_XDIGIT)
     @ replicate 7 CTYPE_PUNCT
     @ replicate 6 (CTYPE_UPPER OR CTYPE_XDIGIT)
     @ replicate 20 CTYPE_UPPER
     @ replicate 6 CTYPE_PUNCT
     @ replicate 6 (CTYPE_LOWER OR CTYPE_XDIGIT)
     @ replicate 20 CTYPE_LOWER
     @ replicate 4 CTYPE_PUNCT
     @ [CTYPE_CONTROL]
     @ replicate 128 0"

definition ctype_of :: "c_int \<Rightarrow> u8" where
  "ctype_of ch = ctype_table ! unat (ucast ch :: u8)"

definition isalnum :: "c_int \<Rightarrow> bool" where "isalnum ch \<longleftrightarrow> ctype_of ch AND CTYPE_ALNUM \<noteq> 0"

definition isalpha :: "c_int \<Rightarrow> bool" where "isalpha ch \<longleftrightarrow> ctype_of ch AND CTYPE_ALPHA \<noteq> 0"

definition islower :: "c_int \<Rightarrow> bool" where "islower ch \<longleftrightarrow> ctype_of ch AND CTYPE_LOWER \<noteq> 0"

definition isupper :: "c_int \<Rightarrow> bool" where "isupper ch \<longleftrightarrow> ctype_of ch AND CTYPE_UPPER \<noteq> 0"

definition isdigit :: "c_int \<Rightarrow> bool" where "isdigit ch \<longleftrightarrow> ctype_of ch AND CTYPE_DIGIT \<noteq> 0"

definition isxdigit :: "c_int \<Rightarrow> bool" where "isxdigit ch \<longleftrightarrow> ctype_of ch AND CTYPE_XDIGIT \<noteq> 0"

definition iscntrl :: "c_int \<Rightarrow> bool" where "iscntrl ch \<longleftrightarrow> ctype_of ch AND CTYPE_CONTROL \<noteq> 0"

definition isgraph :: "c_int \<Rightarrow> bool" where
  "isgraph ch \<longleftrightarrow> ctype_of ch AND (CTYPE_CONTROL OR CTYPE_SPACE) = 0"

definition isspace :: "c_int \<Rightarrow> bool" where "isspace ch \<longleftrightarrow> ctype_of ch AND CTYPE_SPACE \<noteq> 0"

definition isblank :: "c_int \<Rightarrow> bool" where "isblank ch \<longleftrightarrow> ctype_of ch AND CTYPE_BLANK \<noteq> 0"

definition isprint :: "c_int \<Rightarrow> bool" where "isprint ch \<longleftrightarrow> ctype_of ch AND CTYPE_CONTROL = 0"

definition ispunct :: "c_int \<Rightarrow> bool" where "ispunct ch \<longleftrightarrow> ctype_of ch AND CTYPE_PUNCT \<noteq> 0"

definition tolower :: "c_int \<Rightarrow> c_int" where
  "tolower ch = (if isupper ch then ch + (97 - 65) else ch)"

definition toupper :: "c_int \<Rightarrow> c_int" where
  "toupper ch = (if islower ch then ch - (97 - 65) else ch)"

lemmas ctype_defs = isalnum_def isalpha_def islower_def isupper_def isdigit_def isxdigit_def iscntrl_def
  isgraph_def isspace_def isblank_def isprint_def ispunct_def

subsection \<open>The table as ranges of characters\<close>

text \<open>The flags of the character with the code \<open>n\<close>, by ranges.\<close>

definition flags_of :: "nat \<Rightarrow> u8" where
  "flags_of n =
     (if n \<le> 31 \<or> n = 127 then CTYPE_CONTROL else 0)
     OR (if 9 \<le> n \<and> n \<le> 13 \<or> n = 32 then CTYPE_SPACE else 0)
     OR (if n = 9 \<or> n = 32 then CTYPE_BLANK else 0)
     OR (if 33 \<le> n \<and> n \<le> 47 \<or> 58 \<le> n \<and> n \<le> 64 \<or> 91 \<le> n \<and> n \<le> 96 \<or> 123 \<le> n \<and> n \<le> 126 then CTYPE_PUNCT else 0)
     OR (if 97 \<le> n \<and> n \<le> 122 then CTYPE_LOWER else 0)
     OR (if 65 \<le> n \<and> n \<le> 90 then CTYPE_UPPER else 0)
     OR (if 48 \<le> n \<and> n \<le> 57 then CTYPE_DIGIT else 0)
     OR (if 48 \<le> n \<and> n \<le> 57 \<or> 65 \<le> n \<and> n \<le> 70 \<or> 97 \<le> n \<and> n \<le> 102 then CTYPE_XDIGIT else 0)"

lemma ctype_table_flags: "ctype_table = map flags_of [0..<256]"
  by code_simp

lemma ctype_of_flags: "ctype_of ch = flags_of (unat (ucast ch :: u8))"
proof -
  have "unat (ucast ch :: u8) < 256"
    using unsigned_less [of "ucast ch :: u8", where ?'a = nat] by simp
  then show ?thesis
    by (simp add: ctype_of_def ctype_table_flags)
qed

lemma test_flag: "(w :: u8) AND push_bit k 1 = 0 \<longleftrightarrow> \<not> bit w k"
  by (simp add: and_exp_eq_0_iff_not_bit)

lemma bit_flag: "bit (if b then push_bit j 1 else (0 :: u8)) k \<longleftrightarrow> b \<and> j = k \<and> k < 8"
  by (auto simp: bit_simps)

lemmas CTYPE_defs = CTYPE_CONTROL_def CTYPE_SPACE_def CTYPE_BLANK_def CTYPE_PUNCT_def CTYPE_LOWER_def
  CTYPE_UPPER_def CTYPE_DIGIT_def CTYPE_XDIGIT_def

lemma flags_bits:
  "bit (flags_of n) 0 \<longleftrightarrow> n \<le> 31 \<or> n = 127"
  "bit (flags_of n) 1 \<longleftrightarrow> 9 \<le> n \<and> n \<le> 13 \<or> n = 32"
  "bit (flags_of n) 2 \<longleftrightarrow> n = 9 \<or> n = 32"
  "bit (flags_of n) 3 \<longleftrightarrow> 33 \<le> n \<and> n \<le> 47 \<or> 58 \<le> n \<and> n \<le> 64 \<or> 91 \<le> n \<and> n \<le> 96 \<or> 123 \<le> n \<and> n \<le> 126"
  "bit (flags_of n) 4 \<longleftrightarrow> 97 \<le> n \<and> n \<le> 122"
  "bit (flags_of n) 5 \<longleftrightarrow> 65 \<le> n \<and> n \<le> 90"
  "bit (flags_of n) 6 \<longleftrightarrow> 48 \<le> n \<and> n \<le> 57"
  "bit (flags_of n) 7 \<longleftrightarrow> 48 \<le> n \<and> n \<le> 57 \<or> 65 \<le> n \<and> n \<le> 70 \<or> 97 \<le> n \<and> n \<le> 102"
  unfolding flags_of_def CTYPE_defs bit_or_iff bit_flag by simp_all

lemma and_or_zero: "(w :: u8) AND (a OR b) = 0 \<longleftrightarrow> w AND a = 0 \<and> w AND b = 0"
  by (auto simp: bit_eq_iff bit_simps)

lemma class_bits:
  "islower ch \<longleftrightarrow> bit (ctype_of ch) 4" "isupper ch \<longleftrightarrow> bit (ctype_of ch) 5" "isdigit ch \<longleftrightarrow> bit (ctype_of ch) 6"
  "isxdigit ch \<longleftrightarrow> bit (ctype_of ch) 7" "iscntrl ch \<longleftrightarrow> bit (ctype_of ch) 0" "isspace ch \<longleftrightarrow> bit (ctype_of ch) 1"
  "isblank ch \<longleftrightarrow> bit (ctype_of ch) 2" "ispunct ch \<longleftrightarrow> bit (ctype_of ch) 3" "isprint ch \<longleftrightarrow> \<not> bit (ctype_of ch) 0"
  "isgraph ch \<longleftrightarrow> \<not> bit (ctype_of ch) 0 \<and> \<not> bit (ctype_of ch) 1"
  "isalpha ch \<longleftrightarrow> bit (ctype_of ch) 4 \<or> bit (ctype_of ch) 5"
  "isalnum ch \<longleftrightarrow> bit (ctype_of ch) 4 \<or> bit (ctype_of ch) 5 \<or> bit (ctype_of ch) 6"
  unfolding ctype_defs CTYPE_ALNUM_def CTYPE_ALPHA_def CTYPE_defs and_or_zero test_flag by simp_all

subsection \<open>Properties\<close>

text \<open>
  For every argument the predicates answer by the code of its low byte as the C locale
  defines the classes on ASCII: letters, digits, hexadecimal digits, control characters,
  white space, blanks and punctuation; a printable character that is neither a letter nor a
  digit is punctuation. \<^verbatim>\<open>tolower\<close> and \<^verbatim>\<open>toupper\<close> move exactly the letters of the other case,
  by 32. The bytes from 128 on belong to no class, yet \<^verbatim>\<open>isprint\<close> and \<^verbatim>\<open>isgraph\<close> accept them.
\<close>

theorem ctype_classes:
  "let c = unat (ucast ch :: u8) in
     (islower ch \<longleftrightarrow> c \<in> {97..122}) \<and> (isupper ch \<longleftrightarrow> c \<in> {65..90}) \<and> (isdigit ch \<longleftrightarrow> c \<in> {48..57})
   \<and> (isxdigit ch \<longleftrightarrow> c \<in> {48..57} \<union> {65..70} \<union> {97..102})
   \<and> (isalpha ch \<longleftrightarrow> islower ch \<or> isupper ch) \<and> (isalnum ch \<longleftrightarrow> isalpha ch \<or> isdigit ch)
   \<and> (iscntrl ch \<longleftrightarrow> c \<in> {0..31} \<union> {127}) \<and> (isspace ch \<longleftrightarrow> c \<in> {9..13} \<union> {32}) \<and> (isblank ch \<longleftrightarrow> c \<in> {9, 32})
   \<and> (ispunct ch \<longleftrightarrow> c \<in> {33..126} \<and> \<not> isalnum ch)
   \<and> (isprint ch \<longleftrightarrow> c \<in> {32..126} \<union> {128..255}) \<and> (isgraph ch \<longleftrightarrow> c \<in> {33..126} \<union> {128..255})
   \<and> tolower ch = (if c \<in> {65..90} then ch + 32 else ch)
   \<and> toupper ch = (if c \<in> {97..122} then ch - 32 else ch)"
proof -
  let ?c = "unat (ucast ch :: u8)"
  have c: "?c < 256"
    using unsigned_less [of "ucast ch :: u8", where ?'a = nat] by simp
  then show ?thesis
    unfolding Let_def tolower_def toupper_def class_bits ctype_of_flags flags_bits by auto
qed

end
