(* ===== verification/C_String.thy ===== *)
theory C_String
  imports C_Type
begin

text \<open>
  \<^verbatim>\<open>Userland/LibC/string.c\<close> and \<^verbatim>\<open>strings.c\<close>: the string and memory functions of the
  user-space C library. The memory of the program is a list of bytes, a pointer an index
  into it; an access outside the memory is undefined behaviour, so that every loop ends.
  Functions that write return the new memory; overlapping arguments read what was written
  before, as in the source. A null pointer is \<open>None\<close>. Sizes are natural numbers.
\<close>

type_synonym memory = "u8 list"

type_synonym ptr = nat

definition load :: "memory \<Rightarrow> ptr \<Rightarrow> u8 res" where
  "load m p = (if p < length m then Inr (m ! p) else Inl Undefined)"

definition store :: "memory \<Rightarrow> ptr \<Rightarrow> u8 \<Rightarrow> memory res" where
  "store m p v = (if p < length m then Inr (m[p := v]) else Inl Undefined)"

lemma load_eq_Inr [simp]: "load m p = Inr b \<longleftrightarrow> p < length m \<and> b = m ! p"
  by (auto simp: load_def)

lemma store_eq_Inr [simp]: "store m p v = Inr m' \<longleftrightarrow> p < length m \<and> m' = m[p := v]"
  by (auto simp: store_def)

lemma load_in: "p < length m \<Longrightarrow> load m p = Inr (m ! p)"
  by simp

lemma store_in: "p < length m \<Longrightarrow> store m p v = Inr (m[p := v])"
  by simp

subsection \<open>Lengths and copies\<close>

function strlen_loop :: "memory \<Rightarrow> ptr \<Rightarrow> nat \<Rightarrow> nat res" where
  "strlen_loop m str len = bind_res (load m str) (\<lambda>b. if b \<noteq> 0 then strlen_loop m (str + 1) (len + 1) else Inr len)"
  by auto

termination strlen_loop
  by (relation "measure (\<lambda>(m, str, len). length m - str)") auto

definition strlen :: "memory \<Rightarrow> ptr \<Rightarrow> nat res" where
  "strlen m str = strlen_loop m str 0"

text \<open>The loop of \<^verbatim>\<open>strcpy\<close> reads the character again after it was stored.\<close>

function strcpy_loop :: "memory \<Rightarrow> ptr \<Rightarrow> ptr \<Rightarrow> memory res" where
  "strcpy_loop m dest src =
     bind_res (load m src) (\<lambda>b. bind_res (store m dest b) (\<lambda>m'. bind_res (load m' src) (\<lambda>b'.
       if b' \<noteq> 0 then strcpy_loop m' (dest + 1) (src + 1) else Inr m')))"
  by auto

termination strcpy_loop
  by (relation "measure (\<lambda>(m, dest, src). length m - src)") auto

definition strcpy :: "memory \<Rightarrow> ptr \<Rightarrow> ptr \<Rightarrow> (ptr \<times> memory) res" where
  "strcpy m dest src = bind_res (strcpy_loop m dest src) (\<lambda>m'. Inr (dest, m'))"

text \<open>Filling \<open>dest[i]\<close> to \<open>dest[cnt - 1]\<close> with one byte.\<close>

function fill_loop :: "memory \<Rightarrow> ptr \<Rightarrow> u8 \<Rightarrow> nat \<Rightarrow> nat \<Rightarrow> memory res" where
  "fill_loop m dest fill i cnt =
     (if i < cnt then bind_res (store m (dest + i) fill) (\<lambda>m'. fill_loop m' dest fill (i + 1) cnt) else Inr m)"
  by auto

termination fill_loop
  by (relation "measure (\<lambda>(m, dest, fill, i, cnt). cnt - i)") auto

function strncpy_loop :: "memory \<Rightarrow> ptr \<Rightarrow> ptr \<Rightarrow> nat \<Rightarrow> nat \<Rightarrow> (memory \<times> nat) res" where
  "strncpy_loop m dest src i cnt =
     (if i < cnt
      then bind_res (load m src) (\<lambda>b.
             if b \<noteq> 0 then bind_res (store m (dest + i) b) (\<lambda>m'. strncpy_loop m' dest (src + 1) (i + 1) cnt)
             else Inr (m, i))
      else Inr (m, i))"
  by auto

termination strncpy_loop
  by (relation "measure (\<lambda>(m, dest, src, i, cnt). cnt - i)") auto

definition strncpy :: "memory \<Rightarrow> ptr \<Rightarrow> ptr \<Rightarrow> nat \<Rightarrow> (ptr \<times> memory) res" where
  "strncpy m dest src cnt =
     bind_res (strncpy_loop m dest src 0 cnt) (\<lambda>(m', i).
     bind_res (fill_loop m' dest 0 i cnt) (\<lambda>m''. Inr (dest, m'')))"

text \<open>The loop of \<^verbatim>\<open>strcat\<close>; it returns the index of the terminator to write.\<close>

function strcat_loop :: "memory \<Rightarrow> ptr \<Rightarrow> nat \<Rightarrow> ptr \<Rightarrow> nat \<Rightarrow> (memory \<times> nat) res" where
  "strcat_loop m dest off src i =
     bind_res (load m (src + i)) (\<lambda>b.
       if b \<noteq> 0 then bind_res (store m (dest + (off + i)) b) (\<lambda>m'. strcat_loop m' dest off src (i + 1))
       else Inr (m, i))"
  by auto

termination strcat_loop
  by (relation "measure (\<lambda>(m, dest, off, src, i). length m - (src + i))") auto

definition strcat :: "memory \<Rightarrow> ptr \<Rightarrow> ptr \<Rightarrow> (ptr \<times> memory) res" where
  "strcat m dest src =
     bind_res (strlen m dest) (\<lambda>off. bind_res (strcat_loop m dest off src 0) (\<lambda>(m', i).
     bind_res (store m' (dest + (off + i)) 0) (\<lambda>m''. Inr (dest, m''))))"

function strncat_loop :: "memory \<Rightarrow> ptr \<Rightarrow> nat \<Rightarrow> ptr \<Rightarrow> nat \<Rightarrow> nat \<Rightarrow> (memory \<times> nat) res" where
  "strncat_loop m dest off src i cnt =
     bind_res (load m (src + i)) (\<lambda>b.
       if b \<noteq> 0 \<and> i < cnt
       then bind_res (store m (dest + (off + i)) b) (\<lambda>m'. strncat_loop m' dest off src (i + 1) cnt)
       else Inr (m, i))"
  by auto

termination strncat_loop
  by (relation "measure (\<lambda>(m, dest, off, src, i, cnt). length m - (src + i))") auto

definition strncat :: "memory \<Rightarrow> ptr \<Rightarrow> ptr \<Rightarrow> nat \<Rightarrow> (ptr \<times> memory) res" where
  "strncat m dest src cnt =
     bind_res (strlen m dest) (\<lambda>off. bind_res (strncat_loop m dest off src 0 cnt) (\<lambda>(m', i).
     bind_res (store m' (dest + (off + i)) 0) (\<lambda>m''. Inr (dest, m''))))"

function memcpy_loop :: "memory \<Rightarrow> ptr \<Rightarrow> ptr \<Rightarrow> nat \<Rightarrow> nat \<Rightarrow> memory res" where
  "memcpy_loop m dest src i cnt =
     (if i < cnt
      then bind_res (load m (src + i)) (\<lambda>b. bind_res (store m (dest + i) b) (\<lambda>m'.
             memcpy_loop m' dest src (i + 1) cnt))
      else Inr m)"
  by auto

termination memcpy_loop
  by (relation "measure (\<lambda>(m, dest, src, i, cnt). cnt - i)") auto

definition memcpy :: "memory \<Rightarrow> ptr \<Rightarrow> ptr \<Rightarrow> nat \<Rightarrow> (ptr \<times> memory) res" where
  "memcpy m dest src cnt = bind_res (memcpy_loop m dest src 0 cnt) (\<lambda>m'. Inr (dest, m'))"

definition strxfrm :: "memory \<Rightarrow> ptr option \<Rightarrow> ptr \<Rightarrow> nat \<Rightarrow> (nat \<times> memory) res" where
  "strxfrm m dest src cnt =
     bind_res (strlen m src) (\<lambda>bytes_needed.
       case dest of
         None \<Rightarrow> Inr (bytes_needed, m)
       | Some d \<Rightarrow>
           let i = min cnt bytes_needed
           in bind_res (memcpy_loop m d src 0 i) (\<lambda>m'. bind_res (store m' (d + i) 0) (\<lambda>m''. Inr (bytes_needed, m''))))"

text \<open>
  \<^verbatim>\<open>strdup\<close> and \<^verbatim>\<open>strndup\<close> take the allocator as an argument: it gives a pointer, or none, and
  the memory afterwards. They do not check the pointer.
\<close>

type_synonym allocator = "nat \<Rightarrow> memory \<Rightarrow> ptr option \<times> memory"

definition strdup :: "allocator \<Rightarrow> memory \<Rightarrow> ptr \<Rightarrow> (ptr \<times> memory) res" where
  "strdup malloc m str1 =
     bind_res (strlen m str1) (\<lambda>len.
       case malloc (len + 1) m of
         (None, m') \<Rightarrow> Inl Undefined
       | (Some new_str, m') \<Rightarrow> strcpy m' new_str str1)"

definition strndup :: "allocator \<Rightarrow> memory \<Rightarrow> ptr \<Rightarrow> nat \<Rightarrow> (ptr \<times> memory) res" where
  "strndup malloc m str1 sz =
     bind_res (strlen m str1) (\<lambda>len0.
       let len = (if sz < len0 then sz else len0)
       in case malloc (len + 1) m of
            (None, m') \<Rightarrow> Inl Undefined
          | (Some new_str, m') \<Rightarrow>
              bind_res (memcpy m' new_str str1 len) (\<lambda>(_, m2).
              bind_res (store m2 (new_str + len) 0) (\<lambda>m3. Inr (new_str, m3))))"

subsection \<open>Comparisons\<close>

function strcmp_loop :: "memory \<Rightarrow> ptr \<Rightarrow> ptr \<Rightarrow> nat \<Rightarrow> int res" where
  "strcmp_loop m lhs rhs i =
     bind_res (load m (lhs + i)) (\<lambda>a.
       bind_res (load m (rhs + i)) (\<lambda>b.
         if a \<noteq> 0 \<and> b \<noteq> 0
         then if a \<noteq> b then Inr (uint a - uint b) else strcmp_loop m lhs rhs (i + 1)
         else Inr (uint a - uint b)))"
  by auto

termination strcmp_loop
  by (relation "measure (\<lambda>(m, lhs, rhs, i). length m - (lhs + i))") auto

definition strcmp :: "memory \<Rightarrow> ptr \<Rightarrow> ptr \<Rightarrow> int res" where
  "strcmp m lhs rhs = strcmp_loop m lhs rhs 0"

text \<open>
  \<^verbatim>\<open>strncmp\<close> reads both characters before it tests the count. The loop ends with the
  difference of two characters, or with the index where it stopped.
\<close>

function strncmp_loop :: "memory \<Rightarrow> ptr \<Rightarrow> ptr \<Rightarrow> nat \<Rightarrow> nat \<Rightarrow> (int + nat) res" where
  "strncmp_loop m lhs rhs i cnt =
     bind_res (load m (lhs + i)) (\<lambda>a.
       if a = 0 then Inr (Inr i)
       else bind_res (load m (rhs + i)) (\<lambda>b.
         if b \<noteq> 0 \<and> i < cnt
         then if a \<noteq> b then Inr (Inl (uint a - uint b)) else strncmp_loop m lhs rhs (i + 1) cnt
         else Inr (Inr i)))"
  by auto

termination strncmp_loop
  by (relation "measure (\<lambda>(m, lhs, rhs, i, cnt). length m - (lhs + i))") auto

definition strncmp :: "memory \<Rightarrow> ptr \<Rightarrow> ptr \<Rightarrow> nat \<Rightarrow> int res" where
  "strncmp m lhs rhs cnt =
     (if cnt = 0 then Inr 0
      else bind_res (strncmp_loop m lhs rhs 0 cnt) (\<lambda>r.
        case r of
          Inl d \<Rightarrow> Inr d
        | Inr i \<Rightarrow>
            let i = (if i = cnt then i - 1 else i)
            in bind_res (load m (lhs + i)) (\<lambda>a. bind_res (load m (rhs + i)) (\<lambda>b. Inr (uint a - uint b)))))"

definition strcoll :: "memory \<Rightarrow> ptr \<Rightarrow> ptr \<Rightarrow> int res" where
  "strcoll m lhs rhs = strcmp m lhs rhs"

text \<open>A \<^verbatim>\<open>char\<close> is signed: it is extended with its sign when it becomes an \<^verbatim>\<open>int\<close>.\<close>

definition lower_byte :: "u8 \<Rightarrow> u8" where
  "lower_byte b = ucast (tolower (scast b))"

function strcasecmp_loop :: "memory \<Rightarrow> ptr \<Rightarrow> ptr \<Rightarrow> nat \<Rightarrow> int res" where
  "strcasecmp_loop m lhs rhs i =
     bind_res (load m (lhs + i)) (\<lambda>a.
       bind_res (load m (rhs + i)) (\<lambda>b.
         if a \<noteq> 0 \<and> b \<noteq> 0
         then if tolower (scast a) \<noteq> tolower (scast b)
              then Inr (uint (lower_byte a) - uint (lower_byte b)) else strcasecmp_loop m lhs rhs (i + 1)
         else Inr (uint (lower_byte a) - uint (lower_byte b))))"
  by auto

termination strcasecmp_loop
  by (relation "measure (\<lambda>(m, lhs, rhs, i). length m - (lhs + i))") auto

definition strcasecmp :: "memory \<Rightarrow> ptr \<Rightarrow> ptr \<Rightarrow> int res" where
  "strcasecmp m lhs rhs = strcasecmp_loop m lhs rhs 0"

function strncasecmp_loop :: "memory \<Rightarrow> ptr \<Rightarrow> ptr \<Rightarrow> nat \<Rightarrow> nat \<Rightarrow> (int + nat) res" where
  "strncasecmp_loop m lhs rhs i cnt =
     bind_res (load m (lhs + i)) (\<lambda>a.
       if a = 0 then Inr (Inr i)
       else bind_res (load m (rhs + i)) (\<lambda>b.
         if b \<noteq> 0 \<and> i < cnt
         then if tolower (scast a) \<noteq> tolower (scast b) then Inr (Inl (uint (lower_byte a) - uint (lower_byte b)))
              else strncasecmp_loop m lhs rhs (i + 1) cnt
         else Inr (Inr i)))"
  by auto

termination strncasecmp_loop
  by (relation "measure (\<lambda>(m, lhs, rhs, i, cnt). length m - (lhs + i))") auto

definition strncasecmp :: "memory \<Rightarrow> ptr \<Rightarrow> ptr \<Rightarrow> nat \<Rightarrow> int res" where
  "strncasecmp m lhs rhs cnt =
     (if cnt = 0 then Inr 0
      else bind_res (strncasecmp_loop m lhs rhs 0 cnt) (\<lambda>r.
        case r of
          Inl d \<Rightarrow> Inr d
        | Inr i \<Rightarrow>
            let i = (if i = cnt then i - 1 else i)
            in bind_res (load m (lhs + i)) (\<lambda>a. bind_res (load m (rhs + i)) (\<lambda>b.
                 Inr (uint (lower_byte a) - uint (lower_byte b))))))"

subsection \<open>Searches\<close>

function strchr_loop :: "memory \<Rightarrow> ptr \<Rightarrow> u8 \<Rightarrow> ptr option res" where
  "strchr_loop m str c =
     bind_res (load m str) (\<lambda>b.
       if b = c then Inr (Some str) else if b = 0 then Inr None else strchr_loop m (str + 1) c)"
  by auto

termination strchr_loop
  by (relation "measure (\<lambda>(m, str, c). length m - str)") auto

definition strchr :: "memory \<Rightarrow> ptr \<Rightarrow> c_int \<Rightarrow> ptr option res" where
  "strchr m str ch = strchr_loop m str (ucast ch)"

function strrchr_loop :: "memory \<Rightarrow> ptr \<Rightarrow> u8 \<Rightarrow> ptr option \<Rightarrow> ptr option res" where
  "strrchr_loop m str c pos =
     bind_res (load m str) (\<lambda>b.
       let pos = (if b = c then Some str else pos)
       in if b = 0 then Inr pos else strrchr_loop m (str + 1) c pos)"
  by auto

termination strrchr_loop
  by (relation "measure (\<lambda>(m, str, c, pos). length m - str)") auto

definition strrchr :: "memory \<Rightarrow> ptr \<Rightarrow> c_int \<Rightarrow> ptr option res" where
  "strrchr m str ch = strrchr_loop m str (ucast ch) None"

function span_table_loop :: "memory \<Rightarrow> ptr \<Rightarrow> u8 list \<Rightarrow> u8 list res" where
  "span_table_loop m src table =
     bind_res (load m src) (\<lambda>b. if b \<noteq> 0 then span_table_loop m (src + 1) (table[unat b := 1]) else Inr table)"
  by auto

termination span_table_loop
  by (relation "measure (\<lambda>(m, src, table). length m - src)") auto

function span_loop :: "memory \<Rightarrow> ptr \<Rightarrow> u8 list \<Rightarrow> u8 \<Rightarrow> nat \<Rightarrow> (nat \<times> ptr option) res" where
  "span_loop m dest table count_if cnt =
     bind_res (load m dest) (\<lambda>b.
       if b \<noteq> 0
       then if table ! unat b = count_if then span_loop m (dest + 1) table count_if (cnt + 1)
            else Inr (cnt, Some dest)
       else Inr (cnt, None))"
  by auto

termination span_loop
  by (relation "measure (\<lambda>(m, dest, table, count_if, cnt). length m - dest)") auto

definition string_span :: "memory \<Rightarrow> ptr \<Rightarrow> ptr \<Rightarrow> u8 \<Rightarrow> (nat \<times> ptr option) res" where
  "string_span m dest src count_if =
     bind_res (span_table_loop m src (replicate 256 0)) (\<lambda>table. span_loop m dest table count_if 0)"

definition strspn :: "memory \<Rightarrow> ptr \<Rightarrow> ptr \<Rightarrow> nat res" where
  "strspn m dest src = bind_res (string_span m dest src 1) (\<lambda>(cnt, _). Inr cnt)"

definition strcspn :: "memory \<Rightarrow> ptr \<Rightarrow> ptr \<Rightarrow> nat res" where
  "strcspn m dest src = bind_res (string_span m dest src 0) (\<lambda>(cnt, _). Inr cnt)"

definition strpbrk :: "memory \<Rightarrow> ptr \<Rightarrow> ptr \<Rightarrow> ptr option res" where
  "strpbrk m dest breakset = bind_res (string_span m dest breakset 0) (\<lambda>(_, result). Inr result)"

text \<open>The inner loop of \<^verbatim>\<open>strstr\<close>: the number of characters of the substring that match.\<close>

function match_loop :: "memory \<Rightarrow> ptr \<Rightarrow> ptr \<Rightarrow> nat \<Rightarrow> nat \<Rightarrow> nat \<Rightarrow> nat res" where
  "match_loop m str substr substr_len j k =
     (if k < substr_len
      then bind_res (load m (str + j)) (\<lambda>a. bind_res (load m (substr + k)) (\<lambda>b.
             if a \<noteq> b then Inr k else match_loop m str substr substr_len (j + 1) (k + 1)))
      else Inr k)"
  by auto

termination match_loop
  by (relation "measure (\<lambda>(m, str, substr, substr_len, j, k). substr_len - k)") auto

function strstr_loop :: "memory \<Rightarrow> ptr \<Rightarrow> ptr \<Rightarrow> nat \<Rightarrow> nat \<Rightarrow> nat \<Rightarrow> ptr option res" where
  "strstr_loop m str substr src_len substr_len i =
     (if i < src_len - substr_len + 1
      then bind_res (load m (str + i)) (\<lambda>a. bind_res (load m substr) (\<lambda>b.
             if a \<noteq> b then strstr_loop m str substr src_len substr_len (i + 1)
             else bind_res (match_loop m str substr substr_len i 0) (\<lambda>k.
                    if k = substr_len then Inr (Some (str + i))
                    else strstr_loop m str substr src_len substr_len (i + 1))))
      else Inr None)"
  by auto

termination strstr_loop
  by (relation "measure (\<lambda>(m, str, substr, src_len, substr_len, i). src_len - substr_len + 1 - i)") auto

definition strstr :: "memory \<Rightarrow> ptr \<Rightarrow> ptr \<Rightarrow> ptr option res" where
  "strstr m str substr =
     bind_res (strlen m str) (\<lambda>src_len. bind_res (strlen m substr) (\<lambda>substr_len.
       if substr_len > src_len then Inr None
       else if substr_len = 0 then Inr (Some str)
       else strstr_loop m str substr src_len substr_len 0))"

subsection \<open>Memory\<close>

function memchr_loop :: "memory \<Rightarrow> ptr \<Rightarrow> u8 \<Rightarrow> nat \<Rightarrow> nat \<Rightarrow> ptr option res" where
  "memchr_loop m p byte i cnt =
     (if i < cnt
      then bind_res (load m (p + i)) (\<lambda>b. if b = byte then Inr (Some (p + i)) else memchr_loop m p byte (i + 1) cnt)
      else Inr None)"
  by auto

termination memchr_loop
  by (relation "measure (\<lambda>(m, p, byte, i, cnt). cnt - i)") auto

definition memchr :: "memory \<Rightarrow> ptr \<Rightarrow> c_int \<Rightarrow> nat \<Rightarrow> ptr option res" where
  "memchr m p ch cnt = memchr_loop m p (ucast ch) 0 cnt"

definition memset :: "memory \<Rightarrow> ptr \<Rightarrow> c_int \<Rightarrow> nat \<Rightarrow> (ptr \<times> memory) res" where
  "memset m dest ch cnt = bind_res (fill_loop m dest (ucast ch) 0 cnt) (\<lambda>m'. Inr (dest, m'))"

function memcmp_loop :: "memory \<Rightarrow> ptr \<Rightarrow> ptr \<Rightarrow> nat \<Rightarrow> nat \<Rightarrow> int res" where
  "memcmp_loop m lhs rhs i cnt =
     (if i < cnt
      then bind_res (load m (lhs + i)) (\<lambda>a. bind_res (load m (rhs + i)) (\<lambda>b.
             if a \<noteq> b then Inr (uint a - uint b) else memcmp_loop m lhs rhs (i + 1) cnt))
      else Inr 0)"
  by auto

termination memcmp_loop
  by (relation "measure (\<lambda>(m, lhs, rhs, i, cnt). cnt - i)") auto

definition memcmp :: "memory \<Rightarrow> ptr \<Rightarrow> ptr \<Rightarrow> nat \<Rightarrow> int res" where
  "memcmp m lhs rhs cnt = memcmp_loop m lhs rhs 0 cnt"

text \<open>The backward loop of \<^verbatim>\<open>memmove\<close>: both pointers start behind the last byte.\<close>

fun backward_loop :: "memory \<Rightarrow> ptr \<Rightarrow> ptr \<Rightarrow> nat \<Rightarrow> memory res" where
  "backward_loop m byte_dest byte_src 0 = Inr m"
| "backward_loop m byte_dest byte_src (Suc cnt) =
     bind_res (load m (byte_src - 1)) (\<lambda>b. bind_res (store m (byte_dest - 1) b) (\<lambda>m'.
       backward_loop m' (byte_dest - 1) (byte_src - 1) cnt))"

definition memmove :: "memory \<Rightarrow> ptr \<Rightarrow> ptr \<Rightarrow> nat \<Rightarrow> (ptr \<times> memory) res" where
  "memmove m dest src cnt =
     (if src < dest
      then bind_res (backward_loop m (dest + cnt) (src + cnt) cnt) (\<lambda>m'. Inr (dest, m'))
      else bind_res (memcpy m dest src cnt) (\<lambda>(_, m'). Inr (dest, m')))"

function memccpy_loop :: "memory \<Rightarrow> ptr \<Rightarrow> ptr \<Rightarrow> u8 \<Rightarrow> nat \<Rightarrow> nat \<Rightarrow> (ptr option \<times> memory) res" where
  "memccpy_loop m dest src c i cnt =
     (if i < cnt
      then bind_res (load m (src + i)) (\<lambda>val. bind_res (store m (dest + i) val) (\<lambda>m'.
             if val = c then Inr (Some (dest + 1), m') else memccpy_loop m' dest src c (i + 1) cnt))
      else Inr (None, m))"
  by auto

termination memccpy_loop
  by (relation "measure (\<lambda>(m, dest, src, c, i, cnt). cnt - i)") auto

definition memccpy :: "memory \<Rightarrow> ptr \<Rightarrow> ptr \<Rightarrow> c_int \<Rightarrow> nat \<Rightarrow> (ptr option \<times> memory) res" where
  "memccpy m dest src ch cnt = memccpy_loop m dest src (ucast ch) 0 cnt"

function bcmp_loop :: "memory \<Rightarrow> ptr \<Rightarrow> ptr \<Rightarrow> nat \<Rightarrow> int res" where
  "bcmp_loop m byte_lhs byte_rhs sz =
     (if sz \<noteq> 0
      then bind_res (load m byte_lhs) (\<lambda>a. bind_res (load m byte_rhs) (\<lambda>b.
             if a \<noteq> b then Inr 1 else bcmp_loop m (byte_lhs + 1) (byte_rhs + 1) (sz - 1)))
      else Inr 0)"
  by auto

termination bcmp_loop
  by (relation "measure (\<lambda>(m, byte_lhs, byte_rhs, sz). sz)") auto

definition bcmp :: "memory \<Rightarrow> ptr \<Rightarrow> ptr \<Rightarrow> nat \<Rightarrow> int res" where
  "bcmp m lhs rhs sz = bcmp_loop m lhs rhs sz"

definition bcopy :: "memory \<Rightarrow> ptr \<Rightarrow> ptr \<Rightarrow> nat \<Rightarrow> memory res" where
  "bcopy m src dest cnt = bind_res (memmove m dest src cnt) (\<lambda>(_, m'). Inr m')"

definition bzero :: "memory \<Rightarrow> ptr \<Rightarrow> nat \<Rightarrow> memory res" where
  "bzero m dest cnt = bind_res (memset m dest 0 cnt) (\<lambda>(_, m'). Inr m')"

definition index :: "memory \<Rightarrow> ptr \<Rightarrow> c_int \<Rightarrow> ptr option res" where
  "index m src number = strchr m src number"

definition rindex :: "memory \<Rightarrow> ptr \<Rightarrow> c_int \<Rightarrow> ptr option res" where
  "rindex m src number = strrchr m src number"

text \<open>The equations of the loops are unfolded by hand.\<close>

lemmas loop_eqs = strlen_loop.simps strcpy_loop.simps fill_loop.simps strncpy_loop.simps strcat_loop.simps strncat_loop.simps
  memcpy_loop.simps strcmp_loop.simps strncmp_loop.simps strcasecmp_loop.simps strncasecmp_loop.simps strchr_loop.simps
  strrchr_loop.simps span_table_loop.simps span_loop.simps match_loop.simps strstr_loop.simps memchr_loop.simps
  memcmp_loop.simps memccpy_loop.simps bcmp_loop.simps

declare loop_eqs [simp del]

subsection \<open>Strings in memory\<close>

text \<open>The memory holds the characters \<open>s\<close> and a terminator at \<open>p\<close>.\<close>

fun cstr :: "memory \<Rightarrow> ptr \<Rightarrow> u8 list \<Rightarrow> bool" where
  "cstr m p [] \<longleftrightarrow> p < length m \<and> m ! p = 0"
| "cstr m p (c # s) \<longleftrightarrow> p < length m \<and> m ! p = c \<and> c \<noteq> 0 \<and> cstr m (p + 1) s"

lemma cstr_length: "cstr m p s \<Longrightarrow> p + length s < length m"
  by (induction s arbitrary: p) fastforce+

lemma cstr_nth: "cstr m p s \<Longrightarrow> i < length s \<Longrightarrow> m ! (p + i) = s ! i \<and> s ! i \<noteq> 0"
proof (induction s arbitrary: p i)
  case (Cons c s)
  then show ?case
    using Cons.IH [of "p + 1" "i - 1"] by (cases i) auto
qed simp

lemma cstr_end: "cstr m p s \<Longrightarrow> m ! (p + length s) = 0"
  by (induction s arbitrary: p) (auto, metis add_Suc_right add_Suc)

lemma load_cstr: "cstr m p s \<Longrightarrow> load m p = Inr (case s of [] \<Rightarrow> 0 | c # _ \<Rightarrow> c)"
  by (cases s) auto

lemma strlen_loop_cstr: "cstr m p s \<Longrightarrow> strlen_loop m p n = Inr (n + length s)"
proof (induction s arbitrary: p n)
  case Nil
  then show ?case
    by (subst strlen_loop.simps) (simp add: load_in)
next
  case (Cons c s)
  then show ?case
    using Cons.IH [of "p + 1" "n + 1"] by (subst strlen_loop.simps) (auto simp: load_in)
qed

lemma strlen_cstr: "cstr m p s \<Longrightarrow> strlen m p = Inr (length s)"
  by (simp add: strlen_def strlen_loop_cstr)

subsection \<open>Moving memory\<close>

text \<open>The memory after \<open>n\<close> bytes from \<open>s\<close> on were moved to \<open>d\<close>.\<close>

definition moved :: "memory \<Rightarrow> ptr \<Rightarrow> ptr \<Rightarrow> nat \<Rightarrow> memory" where
  "moved m d s n = map (\<lambda>k. if d \<le> k \<and> k < d + n then m ! (s + (k - d)) else m ! k) [0..<length m]"

text \<open>The bytes \<open>a\<close> to \<open>b - 1\<close> of the block have been moved.\<close>

definition part_moved :: "memory \<Rightarrow> ptr \<Rightarrow> ptr \<Rightarrow> nat \<Rightarrow> nat \<Rightarrow> memory \<Rightarrow> bool" where
  "part_moved m d s a b m' \<longleftrightarrow> length m' = length m
     \<and> (\<forall>k < length m. m' ! k = (if d + a \<le> k \<and> k < d + b then m ! (s + (k - d)) else m ! k))"

lemma part_moved_all: "part_moved m d s 0 n m' \<longleftrightarrow> m' = moved m d s n"
  by (auto simp: part_moved_def moved_def intro: nth_equalityI)

lemma part_moved_start: "part_moved m d s a a m"
  by (auto simp: part_moved_def)

lemma memcpy_loop_moved:
  assumes "part_moved m d s 0 i m'" "d \<le> s" "s + n \<le> length m" "i \<le> n"
  shows "memcpy_loop m' d s i n = Inr (moved m d s n)"
  using assms(1,4)
proof (induction "n - i" arbitrary: i m')
  case 0
  then show ?case
    using part_moved_all by (subst memcpy_loop.simps) simp
next
  case (Suc k)
  then have i: "i < n" "s + i < length m" "d + i < length m"
    using assms(2,3) by simp_all
  have read: "m' ! (s + i) = m ! (s + i)"
    using Suc.prems(1) i assms(2) by (simp add: part_moved_def)
  have "part_moved m d s 0 (i + 1) (m'[d + i := m ! (s + i)])"
    using Suc.prems(1) i by (auto simp: part_moved_def nth_list_update less_Suc_eq)
  then have "memcpy_loop (m'[d + i := m ! (s + i)]) d s (i + 1) n = Inr (moved m d s n)"
    using Suc.hyps(1) [of "i + 1"] Suc.hyps(2) i by simp
  moreover have "length m' = length m"
    using Suc.prems(1) by (simp add: part_moved_def)
  ultimately show ?case
    using i read by (subst memcpy_loop.simps) (simp add: load_in store_in)
qed

lemma backward_loop_moved:
  assumes "part_moved m d s i n m'" "s < d" "d + n \<le> length m" "i \<le> n"
  shows "backward_loop m' (d + i) (s + i) i = Inr (moved m d s n)"
  using assms(1,4)
proof (induction i arbitrary: m')
  case 0
  then show ?case
    using part_moved_all by simp
next
  case (Suc i)
  then have i: "i < n" "s + i < length m" "d + i < length m"
    using assms(2,3) by simp_all
  have read: "m' ! (s + i) = m ! (s + i)"
    using Suc.prems(1) i assms(2) by (simp add: part_moved_def)
  have "part_moved m d s i n (m'[d + i := m ! (s + i)])"
    using Suc.prems(1) i by (auto simp: part_moved_def nth_list_update)
  then have "backward_loop (m'[d + i := m ! (s + i)]) (d + i) (s + i) i = Inr (moved m d s n)"
    using Suc.IH i by simp
  moreover have "length m' = length m"
    using Suc.prems(1) by (simp add: part_moved_def)
  ultimately show ?case
    using i read by (simp add: load_in store_in)
qed

subsection \<open>Comparing strings\<close>

lemma uint_pos: "b \<noteq> 0 \<Longrightarrow> 0 < uint (b :: u8)"
  using uint_0_iff [of b] uint_nonnegative [of b] by linarith

text \<open>The sign of a comparison of the strings \<open>s\<close> and \<open>t\<close>.\<close>

definition cmp_sign :: "int \<Rightarrow> u8 list \<Rightarrow> u8 list \<Rightarrow> bool" where
  "cmp_sign d s t \<longleftrightarrow> (d = 0 \<longleftrightarrow> s = t) \<and> (d < 0 \<longleftrightarrow> ord_class.lexordp s t)"

lemma cmp_sign_Cons: "cmp_sign d (a # s) (a # t) \<longleftrightarrow> cmp_sign d s t"
  by (simp add: cmp_sign_def)

lemma cmp_sign_diff: "a \<noteq> b \<Longrightarrow> cmp_sign (uint a - uint b) (a # s) (b # t)"
  by (auto simp: cmp_sign_def word_less_def word_uint_eq_iff)

lemma cmp_sign_Nil:
  "cmp_sign 0 [] []" "a \<noteq> 0 \<Longrightarrow> cmp_sign (uint a) (a # s) []" "a \<noteq> 0 \<Longrightarrow> cmp_sign (- uint a) [] (a # s)"
  using uint_pos [of a] by (auto simp: cmp_sign_def)

lemma strcmp_loop_sign:
  assumes "cstr m (l + i) s" "cstr m (r + i) t"
  shows "\<exists>d. strcmp_loop m l r i = Inr d \<and> cmp_sign d s t"
  using assms
proof (induction s arbitrary: t i)
  case Nil
  then show ?case
    by (cases t; subst strcmp_loop.simps) (auto simp: load_in cmp_sign_Nil)
next
  case (Cons a s)
  show ?case
  proof (cases t)
    case Nil
    then show ?thesis
      using Cons.prems by (subst strcmp_loop.simps) (auto simp: load_in cmp_sign_Nil)
  next
    case t: (Cons b t')
    have "strcmp_loop m l r i = (if a \<noteq> b then Inr (uint a - uint b) else strcmp_loop m l r (i + 1))"
      using Cons.prems t by (subst strcmp_loop.simps) (auto simp: load_in)
    moreover have "cstr m (l + (i + 1)) s" "cstr m (r + (i + 1)) t'"
      using Cons.prems t by (simp_all add: add.assoc)
    ultimately show ?thesis
      using Cons.IH [of "i + 1" t'] t cmp_sign_diff [of a b s t'] cmp_sign_Cons [of _ a s t'] by auto
  qed
qed

text \<open>The characters \<open>i\<close> to \<open>n - 1\<close> of both strings can be read and are the same.\<close>

definition same_chars :: "memory \<Rightarrow> ptr \<Rightarrow> ptr \<Rightarrow> nat \<Rightarrow> nat \<Rightarrow> bool" where
  "same_chars m l r i n \<longleftrightarrow> list_all (\<lambda>k. l + k < length m \<and> r + k < length m \<and> m ! (l + k) = m ! (r + k)) [i..<n]"

lemma same_chars_refl [simp]: "same_chars m l r n n"
  by (simp add: same_chars_def)

lemma same_chars_step:
  "i < n \<Longrightarrow> same_chars m l r i n \<longleftrightarrow>
     l + i < length m \<and> r + i < length m \<and> m ! (l + i) = m ! (r + i) \<and> same_chars m l r (i + 1) n"
  by (simp add: same_chars_def upt_conv_Cons)

lemma same_chars_nth:
  "same_chars m l r i n \<Longrightarrow> i \<le> k \<Longrightarrow> k < n \<Longrightarrow> l + k < length m \<and> r + k < length m \<and> m ! (l + k) = m ! (r + k)"
  by (simp add: same_chars_def list_all_iff)

text \<open>
  How the loop of \<^verbatim>\<open>strncmp\<close> ends when it starts at \<open>i\<close>: with a difference, behind the last
  character to compare, or at two characters one of which is a terminator.
\<close>

definition strncmp_end :: "memory \<Rightarrow> ptr \<Rightarrow> ptr \<Rightarrow> nat \<Rightarrow> nat \<Rightarrow> u8 list \<Rightarrow> u8 list \<Rightarrow> int + nat \<Rightarrow> bool" where
  "strncmp_end m l r i n s t res \<longleftrightarrow> (case res of
      Inl d \<Rightarrow> cmp_sign d (take (n - i) s) (take (n - i) t)
    | Inr j \<Rightarrow> j = n \<and> take (n - i) s = take (n - i) t \<and> same_chars m l r i n
        \<or> j < n \<and> l + j < length m \<and> r + j < length m
          \<and> cmp_sign (uint (m ! (l + j)) - uint (m ! (r + j))) (take (n - i) s) (take (n - i) t))"

lemma strncmp_loop_end:
  assumes "cstr m (l + i) s" "cstr m (r + i) t" "i \<le> n"
  shows "\<exists>res. strncmp_loop m l r i n = Inr res \<and> strncmp_end m l r i n s t res"
  using assms
proof (induction s arbitrary: t i)
  case Nil
  then have "strncmp_loop m l r i n = Inr (Inr i)"
    by (subst strncmp_loop.simps) (simp add: load_in)
  moreover have "r + i < length m"
    using cstr_length [OF Nil(2)] by simp
  ultimately show ?case
    using Nil by (cases t) (auto simp: strncmp_end_def cmp_sign_Nil take_Cons' less_le)
next
  case (Cons a s)
  show ?case
  proof (cases "t = [] \<or> i = n")
    case True
    then have "strncmp_loop m l r i n = Inr (Inr i)"
      using Cons.prems by (cases t; subst strncmp_loop.simps) (auto simp: load_in)
    then show ?thesis
      using Cons.prems True cstr_length [OF Cons.prems(2)]
      by (cases t) (auto simp: strncmp_end_def cmp_sign_Nil take_Cons' less_le)
  next
    case False
    then obtain b t' where t: "t = b # t'"
      by (cases t) auto
    have i: "i < n" "n - i = Suc (n - (i + 1))"
      using False Cons.prems(3) by linarith+
    have run: "strncmp_loop m l r i n = (if a \<noteq> b then Inr (Inl (uint a - uint b)) else strncmp_loop m l r (i + 1) n)"
      using Cons.prems t i by (subst strncmp_loop.simps) (auto simp: load_in)
    have tails: "cstr m (l + (i + 1)) s" "cstr m (r + (i + 1)) t'"
      using Cons.prems t by (simp_all add: add.assoc)
    show ?thesis
    proof (cases "a = b")
      case True
      obtain res where res: "strncmp_loop m l r (i + 1) n = Inr res" "strncmp_end m l r (i + 1) n s t' res"
        using Cons.IH [OF tails] i by auto
      have here: "m ! (l + i) = m ! (r + i)" "l + i < length m" "r + i < length m"
        using Cons.prems t True by simp_all
      have "strncmp_end m l r i n (a # s) t res"
      proof (cases res)
        case (Inl d)
        then show ?thesis
          using res(2) t True i(2) by (simp add: strncmp_end_def cmp_sign_Cons)
      next
        case (Inr j)
        then show ?thesis
          using res(2) t True i(2) here same_chars_step [OF i(1), of m l r] by (auto simp: strncmp_end_def cmp_sign_Cons)
      qed
      then show ?thesis
        using res(1) run True by simp
    next
      case False
      then show ?thesis
        using run t i(2) cmp_sign_diff [OF False] by (simp add: strncmp_end_def)
    qed
  qed
qed

lemma strncmp_sign:
  assumes "cstr m l s" "cstr m r t"
  shows "\<exists>d. strncmp m l r n = Inr d \<and> cmp_sign d (take n s) (take n t)"
proof (cases "n = 0")
  case True
  then show ?thesis
    by (simp add: strncmp_def cmp_sign_Nil)
next
  case False
  obtain res where res: "strncmp_loop m l r 0 n = Inr res" "strncmp_end m l r 0 n s t res"
    using strncmp_loop_end [of m l 0 s r t n] assms by auto
  show ?thesis
  proof (cases res)
    case (Inl d)
    then show ?thesis
      using res False by (auto simp: strncmp_def strncmp_end_def)
  next
    case (Inr j)
    have "\<exists>d. bind_res (load m (l + (if j = n then j - 1 else j))) (\<lambda>a.
        bind_res (load m (r + (if j = n then j - 1 else j))) (\<lambda>b. Inr (uint a - uint b))) = Inr d
      \<and> cmp_sign d (take n s) (take n t)"
    proof (cases "j = n")
      case True
      then have eq: "take n s = take n t" and same: "same_chars m l r 0 n"
        using res(2) Inr by (simp_all add: strncmp_end_def)
      have "n - 1 < n"
        using False by simp
      note same_chars_nth [OF same le0 this]
      then show ?thesis
        using True eq by (simp add: load_in cmp_sign_def lexordp_irreflexive)
    next
      case False
      then show ?thesis
        using res(2) Inr by (auto simp: strncmp_end_def load_in)
    qed
    then show ?thesis
      using res(1) False Inr by (simp add: strncmp_def Let_def)
  qed
qed

subsection \<open>Searching strings\<close>

lemma span_table_loop_cstr:
  assumes "cstr m p s" "length table = 256"
  shows "\<exists>table'. span_table_loop m p table = Inr table' \<and> length table' = 256
    \<and> (\<forall>c. table' ! unat c = (if c \<in> set s then 1 else table ! unat (c :: u8)))"
  using assms
proof (induction s arbitrary: p table)
  case Nil
  then show ?case
    by (subst span_table_loop.simps) (simp add: load_in)
next
  case (Cons a s)
  have lt: "unat (c :: u8) < 256" for c
    using unsigned_less [of c, where ?'a = nat] by simp
  obtain table' where "span_table_loop m (p + 1) (table[unat a := 1]) = Inr table'" "length table' = 256"
    "\<forall>c. table' ! unat c = (if c \<in> set s then 1 else table[unat a := 1] ! unat (c :: u8))"
    using Cons.IH [of "p + 1" "table[unat a := 1]"] Cons.prems by auto
  then show ?case
    using Cons.prems lt [of a]
    by (subst span_table_loop.simps) (auto simp: load_in nth_list_update word_unat_eq_iff)
qed

lemma span_loop_cstr:
  assumes "cstr m p s"
  shows "span_loop m p table v n = Inr (n + length (takeWhile (\<lambda>c. table ! unat c = v) s),
    if list_all (\<lambda>c. table ! unat c = v) s then None else Some (p + length (takeWhile (\<lambda>c. table ! unat c = v) s)))"
  using assms
proof (induction s arbitrary: p n)
  case Nil
  then show ?case
    by (subst span_loop.simps) (simp add: load_in)
next
  case (Cons a s)
  then show ?case
    using Cons.IH [of "p + 1" "n + 1"] by (subst span_loop.simps) (auto simp: load_in)
qed

lemma string_span_cstr:
  assumes "cstr m p s" "cstr m q t" "v = 0 \<or> v = 1"
  shows "string_span m p q v = Inr (length (takeWhile (\<lambda>c. (c \<in> set t) = (v = 1)) s),
    if list_all (\<lambda>c. (c \<in> set t) = (v = 1)) s then None
    else Some (p + length (takeWhile (\<lambda>c. (c \<in> set t) = (v = 1)) s)))"
proof -
  have lt: "unat (c :: u8) < 256" for c
    using unsigned_less [of c, where ?'a = nat] by simp
  obtain table where table: "span_table_loop m q (replicate 256 0) = Inr table"
    "\<forall>c. table ! unat c = (if c \<in> set t then 1 else replicate 256 0 ! unat (c :: u8))"
    using span_table_loop_cstr [OF assms(2), of "replicate 256 0"] by auto
  then have "table ! unat c = v \<longleftrightarrow> (c \<in> set t) = (v = 1)" for c :: u8
    using assms(3) lt [of c] by auto
  then show ?thesis
    using table(1) span_loop_cstr [OF assms(1), of table v 0] by (simp add: string_span_def)
qed

lemma strchr_loop_cstr:
  assumes "cstr m p s" "c \<noteq> 0"
  shows "strchr_loop m p c = Inr (if c \<in> set s then Some (p + length (takeWhile (\<lambda>x. x \<noteq> c) s)) else None)"
  using assms
proof (induction s arbitrary: p)
  case Nil
  then show ?case
    by (subst strchr_loop.simps) (auto simp: load_in)
next
  case (Cons a s)
  then show ?case
    using Cons.IH [of "p + 1"] by (subst strchr_loop.simps) (auto simp: load_in)
qed

lemma match_loop_cstr:
  assumes "cstr m p s" "cstr m q t" "k \<le> length t" "j + (length t - k) \<le> length s"
  shows "\<exists>r. match_loop m p q (length t) j k = Inr r
    \<and> (r = length t \<longleftrightarrow> take (length t - k) (drop j s) = drop k t)"
  using assms(3,4)
proof (induction "length t - k" arbitrary: j k)
  case 0
  then show ?case
    by (subst match_loop.simps) simp
next
  case (Suc n)
  then have k: "k < length t" "j < length s" "n = length t - (k + 1)"
    by simp_all
  have bounds: "p + j < length m" "q + k < length m"
    using cstr_length [OF assms(1)] cstr_length [OF assms(2)] k by simp_all
  have vals: "m ! (p + j) = s ! j" "m ! (q + k) = t ! k"
    using cstr_nth [OF assms(1) k(2)] cstr_nth [OF assms(2) k(1)] by simp_all
  have len: "length t - k = Suc (length t - (k + 1))"
    using k(1) by simp
  have split: "take (length t - k) (drop j s) = drop k t
      \<longleftrightarrow> s ! j = t ! k \<and> take (length t - (k + 1)) (drop (j + 1) s) = drop (k + 1) t"
    using k(1,2) len by (simp add: Cons_nth_drop_Suc [symmetric])
  show ?case
  proof (cases "s ! j = t ! k")
    case True
    have "\<exists>r. match_loop m p q (length t) (j + 1) (k + 1) = Inr r
        \<and> (r = length t \<longleftrightarrow> take (length t - (k + 1)) (drop (j + 1) s) = drop (k + 1) t)"
      using Suc.hyps(1) [OF k(3)] Suc.prems k(1) by auto
    then show ?thesis
      using True k bounds vals split by (subst match_loop.simps) (auto simp: load_in)
  next
    case False
    then show ?thesis
      using k bounds vals split by (subst match_loop.simps) (auto simp: load_in)
  qed
qed

lemma strstr_loop_cstr:
  assumes "cstr m p s" "cstr m q t" "t \<noteq> []" "length t \<le> length s" "i \<le> length s - length t + 1"
  shows "strstr_loop m p q (length s) (length t) i =
    Inr (map_option (\<lambda>i. p + i) (find (\<lambda>i. take (length t) (drop i s) = t) [i..<length s - length t + 1]))"
  using assms(5)
proof (induction "length s - length t + 1 - i" arbitrary: i)
  case 0
  then show ?case
    by (subst strstr_loop.simps) simp
next
  case (Suc n)
  let ?e = "length s - length t + 1" and ?P = "\<lambda>i. take (length t) (drop i s) = t"
  have i: "i < ?e" "i < length s" "i + length t \<le> length s" "n = ?e - (i + 1)"
    using Suc.hyps(2) assms(3,4) by (auto simp: Suc_le_eq length_greater_0_conv [symmetric] simp del: length_greater_0_conv)
  have upt: "[i..<?e] = i # [i + 1..<?e]"
    using i(1) by (simp add: upt_conv_Cons)
  have IH: "strstr_loop m p q (length s) (length t) (i + 1) = Inr (map_option (\<lambda>i. p + i) (find ?P [i + 1..<?e]))"
    using Suc.hyps(1) [OF i(4)] i(1) by simp
  obtain r where r: "match_loop m p q (length t) i 0 = Inr r" "r = length t \<longleftrightarrow> ?P i"
    using match_loop_cstr [OF assms(1,2), of 0 i] i(3) by auto
  have vals: "p + i < length m" "m ! (p + i) = s ! i" "q < length m" "m ! q = hd t"
    using cstr_length [OF assms(1)] cstr_nth [OF assms(1) i(2)] cstr_length [OF assms(2)] cstr_nth [OF assms(2), of 0]
      i(2) assms(3) by (auto simp: hd_conv_nth)
  have "s ! i = hd t" if "?P i"
    using that i assms(3) by (metis hd_drop_conv_nth hd_take length_greater_0_conv)
  then show ?case
    using i(1) vals r IH upt by (subst strstr_loop.simps) (auto simp: load_in)
qed

lemma strstr_cstr:
  assumes "cstr m p s" "cstr m q t"
  shows "strstr m p q = Inr (map_option (\<lambda>i. p + i) (find (\<lambda>i. take (length t) (drop i s) = t) [0..<length s + 1]))"
proof (cases "t \<noteq> [] \<and> length t \<le> length s")
  case True
  let ?P = "\<lambda>i. take (length t) (drop i s) = t" and ?e = "length s - length t + 1"
  have skip: "find P ([a..<b] @ zs) = find P [a..<b]" if "\<And>i. i \<in> set zs \<Longrightarrow> \<not> P i" for P :: "nat \<Rightarrow> bool" and a b zs
  proof -
    have "find P zs = None"
      using that by (simp add: find_None_iff)
    moreover have "find P (xs @ zs) = (case find P xs of None \<Rightarrow> find P zs | Some x \<Rightarrow> Some x)" for xs
      by (induction xs) auto
    ultimately show ?thesis
      by (simp split: option.split)
  qed
  have "[0..<length s + 1] = [0..<?e] @ [?e..<length s + 1]"
    using upt_add_eq_append [of 0 "length s - length t + 1" "length t"] True by simp
  moreover have "\<not> ?P i" if "i \<in> set [?e..<length s + 1]" for i
  proof
    assume "?P i"
    then have "length (take (length t) (drop i s)) = length t"
      by simp
    then show False
      using that True by auto
  qed
  ultimately have "find ?P [0..<length s + 1] = find ?P [0..<?e]"
    using skip [of "[?e..<length s + 1]" ?P 0 ?e] by metis
  then show ?thesis
    using True strstr_loop_cstr [OF assms, of 0] strlen_cstr [OF assms(1)] strlen_cstr [OF assms(2)]
    by (simp add: strstr_def del: upt_Suc)
next
  case False
  then consider "t = []" | "length s < length t"
    by fastforce
  then show ?thesis
  proof cases
    case 1
    then show ?thesis
      using strlen_cstr [OF assms(1)] strlen_cstr [OF assms(2)] by (simp add: strstr_def upt_conv_Cons del: upt_Suc)
  next
    case 2
    then have "length (take (length t) (drop i s)) \<noteq> length t" for i
      by simp
    then have "take (length t) (drop i s) \<noteq> t" for i
      by metis
    then have "find (\<lambda>i. take (length t) (drop i s) = t) [0..<length s + 1] = None"
      by (simp add: find_None_iff)
    then show ?thesis
      using 2 strlen_cstr [OF assms(1)] strlen_cstr [OF assms(2)] by (simp add: strstr_def)
  qed
qed

lemma memccpy_loop_moved:
  fixes c :: u8
  assumes part: "part_moved m d s 0 i m'" and in_memory: "s + n \<le> length m" "d + n \<le> length m"
    and apart: "s + n \<le> d \<or> d + n \<le> s" and i: "i \<le> n" and before: "\<forall>j < i. m ! (s + j) \<noteq> c"
  shows "\<exists>k \<le> n. (\<forall>j < k. m ! (s + j) \<noteq> c)
    \<and> (if k < n then m ! (s + k) = c \<and> memccpy_loop m' d s c i n = Inr (Some (d + 1), moved m d s (Suc k))
        else memccpy_loop m' d s c i n = Inr (None, moved m d s n))"
  using part i before
proof (induction "n - i" arbitrary: i m')
  case 0
  then show ?case
    using part_moved_all by (intro exI [of _ n]) (subst memccpy_loop.simps, auto)
next
  case (Suc l)
  then have i: "i < n" and len: "length m' = length m"
    by (simp_all add: part_moved_def)
  have read: "m' ! (s + i) = m ! (s + i)"
    using Suc.prems(1) i in_memory apart by (auto simp: part_moved_def)
  have moved: "part_moved m d s 0 (Suc i) (m'[d + i := m ! (s + i)])"
    using Suc.prems(1) i in_memory by (auto simp: part_moved_def nth_list_update less_Suc_eq)
  have run: "memccpy_loop m' d s c i n = (if m ! (s + i) = c then Inr (Some (d + 1), m'[d + i := m ! (s + i)])
      else memccpy_loop (m'[d + i := m ! (s + i)]) d s c (Suc i) n)"
    using i len read in_memory by (subst memccpy_loop.simps) (simp add: load_in store_in)
  show ?case
  proof (cases "m ! (s + i) = c")
    case True
    then show ?thesis
      using run i Suc.prems(3) moved part_moved_all by (intro exI [of _ i]) auto
  next
    case False
    have "l = n - Suc i" "Suc i \<le> n" "\<forall>j < Suc i. m ! (s + j) \<noteq> c"
      using Suc.hyps(2) Suc.prems(3) i False by (auto simp: less_Suc_eq)
    then show ?thesis
      using Suc.hyps(1) [OF _ moved] False unfolding run by simp
  qed
qed

lemma strncmp_loop_beyond:
  assumes "\<forall>i < n. l + i < length m \<and> r + i < length m \<and> m ! (l + i) \<noteq> 0 \<and> m ! (l + i) = m ! (r + i)" "l + n = length m" "i \<le> n"
  shows "strncmp_loop m l r i n = Inl Undefined"
  using assms(3)
proof (induction "n - i" arbitrary: i)
  case 0
  then show ?case
    using assms(2) by (subst strncmp_loop.simps) (simp add: load_def)
next
  case (Suc k)
  then have "strncmp_loop m l r (i + 1) n = Inl Undefined" "i < n"
    by simp_all
  then show ?case
    using assms(1) by (subst strncmp_loop.simps) (auto simp: load_in)
qed

subsection \<open>Properties\<close>

text \<open>
  C26: \<^verbatim>\<open>memmove\<close> moves a block of memory as if through a copy, also when source and
  destination overlap in either direction: every byte of the destination is the byte of
  the source before the call, every other byte is unchanged.
\<close>

theorem memmove_correct:
  assumes "s + n \<le> length m" and "d + n \<le> length m"
  shows "memmove m d s n = Inr (d, map (\<lambda>k. if d \<le> k \<and> k < d + n then m ! (s + (k - d)) else m ! k) [0..<length m])"
proof (cases "s < d")
  case True
  then show ?thesis
    using backward_loop_moved [OF part_moved_start True assms(2) order_refl] by (simp add: memmove_def moved_def)
next
  case False
  then show ?thesis
    using memcpy_loop_moved [OF part_moved_start, of d s n m] assms(1)
    by (simp add: memmove_def memcpy_def moved_def)
qed

theorem memmove_correct_witness:
  "memmove [1, 2, 3, 4, 5] 1 0 3 = Inr (1, [1, 1, 2, 3, 5])
   \<and> memmove [1, 2, 3, 4, 5] 0 1 3 = Inr (0, [2, 3, 4, 4, 5])"
  using memmove_correct [of 0 3 "[1, 2, 3, 4, 5]" 1] memmove_correct [of 1 3 "[1, 2, 3, 4, 5]" 0]
  by (simp add: upt_rec)

text \<open>
  C28: on terminated strings \<^verbatim>\<open>strcmp\<close> and \<^verbatim>\<open>strncmp\<close> never fault and return zero exactly for
  equal strings and a negative number exactly when the first string is lexicographically
  smaller, where \<^verbatim>\<open>strncmp\<close> compares the first \<open>n\<close> characters.
\<close>

theorem string_compare_correct:
  assumes "cstr m l s" and "cstr m r t"
  shows "(\<exists>d. strcmp m l r = Inr d \<and> (d = 0 \<longleftrightarrow> s = t) \<and> (d < 0 \<longleftrightarrow> ord_class.lexordp s t))
    \<and> (\<exists>d. strncmp m l r n = Inr d \<and> (d = 0 \<longleftrightarrow> take n s = take n t) \<and> (d < 0 \<longleftrightarrow> ord_class.lexordp (take n s) (take n t)))"
  using strcmp_loop_sign [of m l 0 s r t] strncmp_sign [OF assms, of n] assms by (simp add: strcmp_def cmp_sign_def)

theorem string_compare_correct_witness:
  "cstr [97, 98, 0, 97, 99, 0] 0 [97, 98] \<and> cstr [97, 98, 0, 97, 99, 0] 3 [97, 99]
   \<and> (\<exists>d < 0. strcmp [97, 98, 0, 97, 99, 0] 0 3 = Inr d) \<and> strncmp [97, 98, 0, 97, 99, 0] 0 3 1 = Inr 0"
proof -
  have "cstr [97, 98, 0, 97, 99, 0] 0 [97, 98]" "cstr [97, 98, 0, 97, 99, 0] 3 [97, 99]"
    by simp_all
  then show ?thesis
    using string_compare_correct [of "[97, 98, 0, 97, 99, 0]" 0 "[97, 98]" 3 "[97, 99]" 1] by auto
qed

text \<open>
  C29: on terminated strings \<^verbatim>\<open>strlen\<close> counts the characters, \<^verbatim>\<open>strchr\<close> finds the first
  occurrence of a character other than the terminator, \<^verbatim>\<open>strspn\<close> and \<^verbatim>\<open>strcspn\<close> measure the longest prefix of
  characters inside and outside the set, \<^verbatim>\<open>strpbrk\<close> points at the first character of the
  set, and \<^verbatim>\<open>strstr\<close> finds the first occurrence of the substring.
\<close>

theorem string_search_correct:
  assumes "cstr m p s" and "cstr m q t" and "ucast ch \<noteq> (0 :: u8)"
  shows "strlen m p = Inr (length s)
    \<and> strchr m p ch = Inr (if ucast ch \<in> set s then Some (p + length (takeWhile (\<lambda>x. x \<noteq> ucast ch) s)) else None)
    \<and> strspn m p q = Inr (length (takeWhile (\<lambda>c. c \<in> set t) s))
    \<and> strcspn m p q = Inr (length (takeWhile (\<lambda>c. c \<notin> set t) s))
    \<and> strpbrk m p q = Inr (if set s \<inter> set t = {} then None else Some (p + length (takeWhile (\<lambda>c. c \<notin> set t) s)))
    \<and> strstr m p q = Inr (map_option (\<lambda>i. p + i) (find (\<lambda>i. take (length t) (drop i s) = t) [0..<length s + 1]))"
proof -
  have "list_all (\<lambda>c. c \<notin> set t) s \<longleftrightarrow> set s \<inter> set t = {}"
    by (auto simp: list_all_iff)
  then show ?thesis
    using strlen_cstr [OF assms(1)] strchr_loop_cstr [OF assms(1,3)] string_span_cstr [OF assms(1,2), of 0]
      string_span_cstr [OF assms(1,2), of 1] strstr_cstr [OF assms(1,2)]
    by (simp add: strchr_def strspn_def strcspn_def strpbrk_def)
qed

theorem string_search_correct_witness:
  "cstr [97, 98, 99, 0, 98, 99, 0] 0 [97, 98, 99] \<and> strstr [97, 98, 99, 0, 98, 99, 0] 0 4 = Inr (Some 1)
   \<and> strcspn [97, 98, 99, 0, 98, 99, 0] 0 4 = Inr 1"
proof -
  have "cstr [97, 98, 99, 0, 98, 99, 0] 0 [97, 98, 99]" "cstr [97, 98, 99, 0, 98, 99, 0] 4 [98, 99]"
    by simp_all
  then show ?thesis
    using string_search_correct [of "[97, 98, 99, 0, 98, 99, 0]" 0 "[97, 98, 99]" 4 "[98, 99]" 97]
    by (simp add: upt_rec)
qed

text \<open>
  C39: \<^verbatim>\<open>memccpy\<close> between two blocks that lie in the memory and do not overlap copies the
  bytes up to and including the first that equals the character, or all of them, and changes
  nothing else. It returns null exactly when no byte equals the character; otherwise the C
  standard asks for the address after the copied character, and the code returns the second byte
  of the destination, which is that address only when the first byte already was the character.
\<close>

theorem memccpy_result:
  fixes m :: memory and ch :: c_int and s :: ptr
  defines "byte \<equiv> \<lambda>i. m ! (s + i)" and "c \<equiv> ucast ch :: u8"
  assumes "s + n \<le> length m" and "d + n \<le> length m" and "s + n \<le> d \<or> d + n \<le> s"
  shows "\<exists>k \<le> n. (\<forall>j < k. byte j \<noteq> c)
    \<and> (if k < n then byte k = c \<and> memccpy m d s ch n = Inr (Some (d + 1), moved m d s (Suc k)) \<and> (d + 1 = d + k + 1 \<longleftrightarrow> k = 0)
        else memccpy m d s ch n = Inr (None, moved m d s n))"
  using memccpy_loop_moved [OF part_moved_start assms(3-5), of c] by (auto simp: memccpy_def byte_def c_def)

theorem memccpy_result_witness: "memccpy [7, 8, 9, 0, 0, 0] 3 0 9 3 = Inr (Some 4, [7, 8, 9, 7, 8, 9])"
proof -
  let ?m = "[7, 8, 9, 0, 0, 0] :: memory"
  have "0 + 3 \<le> length ?m" "3 + 3 \<le> length ?m" "(0 :: nat) + 3 \<le> 3 \<or> (3 :: nat) + 3 \<le> 0"
    by simp_all
  from memccpy_result [OF this, of 9] obtain k where k: "k \<le> 3" "\<forall>j < k. ?m ! (0 + j) \<noteq> ucast (9 :: c_int)"
      "if k < 3 then ?m ! (0 + k) = ucast (9 :: c_int) \<and> memccpy ?m 3 0 9 3 = Inr (Some (3 + 1), moved ?m 3 0 (Suc k))
         \<and> ((3 :: nat) + 1 = 3 + k + 1 \<longleftrightarrow> k = 0) else memccpy ?m 3 0 9 3 = Inr (None, moved ?m 3 0 3)"
    by blast
  then consider "k = 0" | "k = 1" | "k = 2" | "k = 3"
    by linarith
  then show ?thesis
    using k spec [OF k(2), of 2] by cases (simp_all add: moved_def upt_rec)
qed

text \<open>
  \<^verbatim>\<open>strncmp\<close> reads one character past the \<open>n\<close> it may compare. On any two arrays that
  agree in \<open>n\<close> characters other than the terminator, of which the first ends with the memory, the
  access is outside the memory, for every \<open>n\<close> above zero.
\<close>

lemma strncmp_reads_beyond:
  assumes "0 < n" and "\<forall>i < n. r + i < length m \<and> m ! (l + i) \<noteq> 0 \<and> m ! (l + i) = m ! (r + i)" and "l + n = length m"
  shows "strncmp m l r n = Inl Undefined"
proof -
  have "l + i < length m" if "i < n" for i
    using that assms(3) by simp
  then have "strncmp_loop m l r 0 n = Inl Undefined"
    using assms(2,3) by (intro strncmp_loop_beyond) auto
  then show ?thesis
    using assms(1) by (simp add: strncmp_def)
qed

end
