(* ===== verification/Clock.thy ===== *)
theory Clock
  imports Kernel_Prelude
begin

text \<open>
  \<^verbatim>\<open>Kernel/Time/Time.cpp\<close>, \<^verbatim>\<open>Time.h\<close> and \<^verbatim>\<open>RTC.cpp\<close>: the system clock, the conversions between
  seconds since 1970 and calendar dates, and the decoding of the real-time clock at boot.
  A \<^verbatim>\<open>Month\<close> is the 8-bit number behind the enumeration, since the code steps it past
  December and converts any byte into it.
\<close>

subsection \<open>Calendar\<close>

definition nanoseconds_in_second :: u64 where "nanoseconds_in_second = 1000000000"
definition seconds_in_day :: u64 where "seconds_in_day = 86400"
definition seconds_in_hour :: u64 where "seconds_in_hour = 3600"
definition seconds_in_minute :: u64 where "seconds_in_minute = 60"
definition epoch_year :: u16 where "epoch_year = 1970"

lemmas time_units = seconds_in_day_def seconds_in_hour_def seconds_in_minute_def epoch_year_def

type_synonym month = u8

record human_readable =
  hr_year :: u16
  hr_month :: u8
  hr_day :: u8
  hr_hour :: u8
  hr_minute :: u8
  hr_second :: u8

definition is_leap_year :: "u16 \<Rightarrow> bool" where
  "is_leap_year year =
     (if year mod 4 \<noteq> 0 then False
      else if year mod 100 \<noteq> 0 then True
      else if year mod 400 \<noteq> 0 then False
      else True)"

function days_in_years_loop :: "u16 \<Rightarrow> u32 \<Rightarrow> u32" where
  "days_in_years_loop current_year days_total =
     (if epoch_year \<le> current_year
      then days_in_years_loop (current_year - 1) (days_total + (if is_leap_year current_year then 366 else 365))
      else days_total)"
  by auto

lemma unat_pred_16: "epoch_year \<le> y \<Longrightarrow> unat (y - 1) = unat y - 1"
  by (simp add: unat_diff_word epoch_year_def word_le_nat_alt)

termination days_in_years_loop
  by (relation "measure (\<lambda>(y, d). unat y)") (auto simp: unat_pred_16, simp add: epoch_year_def word_le_nat_alt)

declare days_in_years_loop.simps [simp del]

definition days_in_years_since_epoch_before :: "u16 \<Rightarrow> u32" where
  "days_in_years_since_epoch_before current_year = days_in_years_loop (current_year - 1) 0"

text \<open>
  The switch on the month before \<open>current\<close> falls through to January; it asserts on December
  and adds nothing for a number that is no month.
\<close>

definition days_in_months_since_start_of :: "u16 \<Rightarrow> month \<Rightarrow> u32 res" where
  "days_in_months_since_start_of year current =
     (let c = current - 1
      in if c = 12 then Inl Assertion
         else Inr
          ((if c \<in> {11} then 30 else 0)
         + (if c \<in> {10, 11} then 31 else 0)
         + (if c \<in> {9, 10, 11} then 30 else 0)
         + (if c \<in> {8, 9, 10, 11} then 31 else 0)
         + (if c \<in> {7, 8, 9, 10, 11} then 31 else 0)
         + (if c \<in> {6, 7, 8, 9, 10, 11} then 30 else 0)
         + (if c \<in> {5, 6, 7, 8, 9, 10, 11} then 31 else 0)
         + (if c \<in> {4, 5, 6, 7, 8, 9, 10, 11} then 30 else 0)
         + (if c \<in> {3, 4, 5, 6, 7, 8, 9, 10, 11} then 31 else 0)
         + (if c \<in> {2, 3, 4, 5, 6, 7, 8, 9, 10, 11} then (if is_leap_year year then 29 else 28) else 0)
         + (if c \<in> {1, 2, 3, 4, 5, 6, 7, 8, 9, 10, 11} then 31 else 0)))"

definition days_in_month :: "month \<Rightarrow> u16 \<Rightarrow> u8" where
  "days_in_month m of_year =
     (if m = 12 then 31
      else if m = 11 then 30
      else if m = 10 then 31
      else if m = 9 then 30
      else if m = 8 then 31
      else if m = 7 then 31
      else if m = 6 then 30
      else if m = 5 then 31
      else if m = 4 then 30
      else if m = 3 then 31
      else if m = 2 then (if is_leap_year of_year then 29 else 28)
      else if m = 1 then 31
      else 0)"

definition month_to_string :: "month \<Rightarrow> string" where
  "month_to_string m =
     (if m = 1 then ''January''
      else if m = 2 then ''February''
      else if m = 3 then ''March''
      else if m = 4 then ''April''
      else if m = 5 then ''May''
      else if m = 6 then ''June''
      else if m = 7 then ''July''
      else if m = 8 then ''August''
      else if m = 9 then ''September''
      else if m = 10 then ''October''
      else if m = 11 then ''November''
      else if m = 12 then ''December''
      else ''Unknown Month'')"

definition to_unix :: "human_readable \<Rightarrow> u64 res" where
  "to_unix t =
     bind_res (days_in_months_since_start_of (hr_year t) (hr_month t)) (\<lambda>months.
       Inr (ucast (days_in_years_since_epoch_before (hr_year t)) * seconds_in_day
          + ucast months * seconds_in_day + (ucast (hr_day t) - 1) * seconds_in_day
          + ucast (hr_hour t) * seconds_in_hour + ucast (hr_minute t) * seconds_in_minute + ucast (hr_second t)))"

definition seconds_in_year :: u64 where "seconds_in_year = seconds_in_day * 365"
definition seconds_in_leap_year :: u64 where "seconds_in_leap_year = seconds_in_day * 366"

text \<open>The loop over the years: the year reached and the seconds left in it.\<close>

function from_unix_years :: "u64 \<Rightarrow> u16 \<Rightarrow> u64 \<times> u16" where
  "from_unix_years time year =
     (if seconds_in_year \<le> time
      then if is_leap_year year \<and> time < seconds_in_leap_year then (time, year)
           else from_unix_years (time - (if is_leap_year year then seconds_in_leap_year else seconds_in_year)) (year + 1)
      else (time, year))"
  by auto

lemmas year_lengths = seconds_in_year_def seconds_in_leap_year_def

lemma unat_year_lengths: "unat seconds_in_year = 86400 * 365" "unat seconds_in_leap_year = 86400 * 366"
  by (simp_all add: year_lengths seconds_in_day_def)

termination from_unix_years
proof (relation "measure (\<lambda>(time, year). unat time)", simp, goal_cases)
  case (1 time year)
  let ?s = "if is_leap_year year then seconds_in_leap_year else seconds_in_year"
  have "?s \<le> time" "0 < unat ?s"
    using 1 by (auto simp: unat_year_lengths not_less)
  then show ?case
    by (simp add: unat_diff_word word_le_nat_alt)
qed

declare from_unix_years.simps [simp del]

text \<open>
  The loop over the months. A number that is no month has no days, so that the loop
  steps over it; it ends for every start.
\<close>

definition seconds_in_month :: "month \<Rightarrow> u16 \<Rightarrow> u64" where
  "seconds_in_month m year = ucast (days_in_month m year) * seconds_in_day"

function from_unix_months :: "u64 \<Rightarrow> month \<Rightarrow> u16 \<Rightarrow> u64 \<times> month" where
  "from_unix_months time m year =
     (if time < seconds_in_month m year then (time, m)
      else from_unix_months (time - seconds_in_month m year) (m + 1) year)"
  by auto

termination from_unix_months
proof (relation "measures [\<lambda>(time, m, year). unat time, \<lambda>(time, m, year). unat (1 - m)]", simp, goal_cases)
  case (1 time m year)
  show ?case
  proof (cases "seconds_in_month m year = 0")
    case True
    then have "1 - m \<noteq> 0"
      by (auto simp: seconds_in_month_def days_in_month_def seconds_in_day_def)
    then have "unat (1 - m - 1) < unat (1 - m)"
      using unat_minus_one [of "1 - m"] unat_gt_0 [of "1 - m"] by linarith
    with True show ?thesis
      by simp
  next
    case False
    then have "0 < unat (seconds_in_month m year)"
      by (simp add: unat_gt_0)
    with 1 show ?thesis
      by (simp add: unat_diff_word not_less word_le_nat_alt)
  qed
qed

declare from_unix_months.simps [simp del]

definition from_unix :: "u64 \<Rightarrow> human_readable" where
  "from_unix time =
     (let (time, year) = from_unix_years time epoch_year;
          (time, m) = from_unix_months time 1 year;
          day = ucast (time div seconds_in_day + 1) :: u8;
          time = (if 1 < day then time - (ucast day - 1) * seconds_in_day else time);
          hour = ucast (time div seconds_in_hour) :: u8;
          time = (if hour \<noteq> 0 then time - ucast hour * seconds_in_hour else time);
          minute = ucast (time div seconds_in_minute) :: u8;
          time = (if minute \<noteq> 0 then time - ucast minute * seconds_in_minute else time)
      in \<lparr>hr_year = year, hr_month = m, hr_day = day, hr_hour = hour, hr_minute = minute, hr_second = ucast time\<rparr>)"

subsection \<open>The system clock\<close>

record system_clock =
  s_ns :: u64
  s_now :: u64

definition check_if_second_passed :: "system_clock \<Rightarrow> system_clock" where
  "check_if_second_passed c =
     (let seconds_passed = s_ns c div nanoseconds_in_second
      in if seconds_passed \<noteq> 0
         then c\<lparr>s_ns := s_ns c - seconds_passed * nanoseconds_in_second, s_now := s_now c + seconds_passed\<rparr>
         else c)"

text \<open>A tick of the primary timer; its frequency is an argument.\<close>

definition on_timer_tick :: "u64 \<Rightarrow> system_clock \<Rightarrow> system_clock res" where
  "on_timer_tick current_frequency c =
     (if current_frequency = 0 then Inl Divide_Error
      else Inr (check_if_second_passed (c\<lparr>s_ns := s_ns c + nanoseconds_in_second div current_frequency\<rparr>)))"

definition clock_set :: "u64 \<Rightarrow> system_clock \<Rightarrow> system_clock" where
  "clock_set now c = c\<lparr>s_now := now\<rparr>"

definition now_readable :: "system_clock \<Rightarrow> human_readable" where
  "now_readable c = from_unix (s_now c)"

subsection \<open>The real-time clock\<close>

text \<open>
  \<^verbatim>\<open>RTC::synchronize_system_clock\<close>. The registers are hardware: the format byte and the
  successive readings of the six registers, each taken when no update is in progress, are
  arguments. The loop repeats until two successive readings agree in everything but the
  month; it does not return on a finite list of readings that never agree.
\<close>

definition bcd_to_binary_8 :: "u8 \<Rightarrow> u8" where
  "bcd_to_binary_8 bcd_value = drop_bit 4 (bcd_value AND 0xF0) * 10 + (bcd_value AND 0x0F)"

definition bcd_to_binary_16 :: "u16 \<Rightarrow> u16" where
  "bcd_to_binary_16 bcd_value =
     drop_bit 12 (bcd_value AND 0xF000) * 1000 + drop_bit 8 (bcd_value AND 0x0F00) * 100
     + drop_bit 4 (bcd_value AND 0x00F0) * 10 + (bcd_value AND 0x000F)"

fun stable_reading :: "human_readable \<Rightarrow> human_readable list \<Rightarrow> human_readable option" where
  "stable_reading original_time [] = None"
| "stable_reading additional_time (original_time # readings) =
     (if hr_second original_time \<noteq> hr_second additional_time
         \<or> hr_minute original_time \<noteq> hr_minute additional_time
         \<or> hr_hour original_time \<noteq> hr_hour additional_time
         \<or> hr_day original_time \<noteq> hr_day additional_time
         \<or> hr_year original_time \<noteq> hr_year additional_time
      then stable_reading original_time readings else Some original_time)"

definition decode_reading :: "u8 \<Rightarrow> human_readable \<Rightarrow> human_readable" where
  "decode_reading time_format t =
     (let is_12_hours = time_format AND 2 = 0;
          is_bcd = time_format AND 4 = 0;
          t = (if is_bcd
               then \<lparr>hr_year = bcd_to_binary_16 (hr_year t), hr_month = bcd_to_binary_8 (hr_month t),
                     hr_day = bcd_to_binary_8 (hr_day t), hr_hour = bcd_to_binary_8 (hr_hour t),
                     hr_minute = bcd_to_binary_8 (hr_minute t), hr_second = bcd_to_binary_8 (hr_second t)\<rparr>
               else t);
          t = t\<lparr>hr_year := hr_year t + 2000\<rparr>
      in if is_12_hours \<and> hr_hour t AND 0x80 \<noteq> 0
         then t\<lparr>hr_hour := ucast (((ucast (hr_hour t) AND NOT 0x80) + 12) mod 24 :: u32)\<rparr>
         else t)"

definition synchronize_system_clock :: "u8 \<Rightarrow> human_readable \<Rightarrow> human_readable list \<Rightarrow> system_clock \<Rightarrow> system_clock res option" where
  "synchronize_system_clock time_format first readings c =
     map_option (\<lambda>t. bind_res (to_unix (decode_reading time_format t)) (\<lambda>now. Inr (clock_set now c)))
       (stable_reading first readings)"

subsection \<open>The Gregorian calendar\<close>

text \<open>
  The specification counts on natural numbers: leap years by the Gregorian rule, the days
  before a year in closed form, the days before a month as a sum.
\<close>

definition leap :: "nat \<Rightarrow> bool" where
  "leap y \<longleftrightarrow> 4 dvd y \<and> (\<not> 100 dvd y \<or> 400 dvd y)"

definition year_days :: "nat \<Rightarrow> nat" where
  "year_days y = (if leap y then 366 else 365)"

definition month_days :: "nat \<Rightarrow> nat \<Rightarrow> nat" where
  "month_days y m = (if m = 2 then if leap y then 29 else 28 else if m \<in> {4, 6, 9, 11} then 30 else 31)"

definition days_before_year :: "nat \<Rightarrow> nat" where
  "days_before_year y = 365 * (y - 1970) + ((y - 1) div 4 + (y - 1) div 400 - (y - 1) div 100) - 477"

definition days_before_month :: "nat \<Rightarrow> nat \<Rightarrow> nat" where
  "days_before_month y m = (\<Sum>k\<leftarrow>[1..<m]. month_days y k)"

definition valid_time :: "human_readable \<Rightarrow> bool" where
  "valid_time t \<longleftrightarrow>
     1970 \<le> unat (hr_year t) \<and> 1 \<le> unat (hr_month t) \<and> unat (hr_month t) \<le> 12
     \<and> 1 \<le> unat (hr_day t) \<and> unat (hr_day t) \<le> month_days (unat (hr_year t)) (unat (hr_month t))
     \<and> unat (hr_hour t) < 24 \<and> unat (hr_minute t) < 60 \<and> unat (hr_second t) < 60"

definition epoch_day :: "human_readable \<Rightarrow> nat" where
  "epoch_day t =
     days_before_year (unat (hr_year t)) + days_before_month (unat (hr_year t)) (unat (hr_month t)) + (unat (hr_day t) - 1)"

definition epoch_seconds :: "human_readable \<Rightarrow> nat" where
  "epoch_seconds t = ((epoch_day t * 24 + unat (hr_hour t)) * 60 + unat (hr_minute t)) * 60 + unat (hr_second t)"

lemma is_leap_year_iff: "is_leap_year y \<longleftrightarrow> leap (unat y)"
proof -
  have "y mod n = 0 \<longleftrightarrow> unat n dvd unat y" for n :: u16
    by (simp add: unat_mod_distrib dvd_eq_mod_eq_0 flip: unat_eq_0)
  moreover have "4 dvd unat y" if "100 dvd unat y"
    using dvd_trans [of 4 100 "unat y"] that by simp
  ultimately show ?thesis
    by (auto simp: is_leap_year_def leap_def)
qed

lemma days_before_year_start: "days_before_year 1970 = 0"
  by (simp add: days_before_year_def)

lemma div_Suc_dvd: "Suc n div k = n div k + (if k dvd Suc n then 1 else 0)"
  by (simp add: div_Suc dvd_eq_mod_eq_0)

lemma leap_count_Suc:
  "Suc n div 4 + Suc n div 400 - Suc n div 100 = n div 4 + n div 400 - n div 100 + (if leap (Suc n) then 1 else 0)"
proof -
  have "n div 100 \<le> n div 4"
    by (rule div_le_mono2) simp_all
  moreover have "4 dvd Suc n" if "100 dvd Suc n"
    using dvd_trans [of 4 100 "Suc n"] that by simp
  moreover have "100 dvd Suc n" if "400 dvd Suc n"
    using dvd_trans [of 100 400 "Suc n"] that by simp
  ultimately show ?thesis
    unfolding leap_def div_Suc_dvd
    by (cases "4 dvd Suc n"; cases "100 dvd Suc n"; cases "400 dvd Suc n") (simp_all add: Suc_diff_le trans_le_add1)
qed

lemma days_before_year_Suc: "1970 \<le> y \<Longrightarrow> days_before_year (Suc y) = days_before_year y + year_days y"
proof -
  assume y: "1970 \<le> y"
  then obtain n where n: "y = Suc n" "1969 \<le> n"
    by (cases y) auto
  have "477 \<le> n div 4 + n div 400 - n div 100"
    using n(2)
  proof (induction n rule: dec_induct)
    case (step n)
    then show ?case
      unfolding leap_count_Suc by linarith
  qed simp
  moreover have "365 * (Suc y - 1970) = 365 * (y - 1970) + 365"
    using y by (simp add: Suc_diff_le)
  ultimately show ?thesis
    using leap_count_Suc [of n] unfolding days_before_year_def year_days_def n(1) diff_Suc_1
    by (cases "leap (Suc n)") simp_all
qed

lemma days_before_month_Suc: "1 \<le> m \<Longrightarrow> days_before_month y (Suc m) = days_before_month y m + month_days y m"
  by (simp add: days_before_month_def)

lemma days_before_month_1: "days_before_month y (Suc 0) = 0"
  by (simp add: days_before_month_def)

lemma days_before_month_13: "days_before_month y 13 = year_days y"
  by (simp add: days_before_month_def month_days_def year_days_def upt_rec)

lemma days_before_year_less: "y < 65537 \<Longrightarrow> days_before_year y < 2 ^ 25"
  using div_le_dividend [of "y - 1" 4] div_le_dividend [of "y - 1" 400] unfolding days_before_year_def by simp

subsection \<open>Dates to seconds\<close>

lemma days_in_years_loop_eq:
  "1969 \<le> unat y \<Longrightarrow> days_in_years_loop y tot = tot + word_of_nat (days_before_year (Suc (unat y)))"
proof (induction y tot rule: days_in_years_loop.induct)
  case (1 y tot)
  show ?case
  proof (cases "epoch_year \<le> y")
    case True
    then have y: "1970 \<le> unat y" "unat (y - 1) = unat y - 1"
      by (simp_all add: unat_pred_16 epoch_year_def word_le_nat_alt)
    then show ?thesis
      using 1 True days_before_year_Suc [of "unat y"]
      by (subst days_in_years_loop.simps) (simp add: is_leap_year_iff year_days_def)
  next
    case False
    then have "unat y = 1969"
      using 1 by (simp add: epoch_year_def word_le_nat_alt)
    then show ?thesis
      using False days_before_year_start by (subst days_in_years_loop.simps) simp
  qed
qed

lemma ucast_of_nat_32: "n < 2 ^ 32 \<Longrightarrow> ucast (word_of_nat n :: u32) = (word_of_nat n :: u64)"
  by (rule word_unat_eq_iff [THEN iffD2]) (simp add: unsigned_ucast_eq take_bit_nat_eq_self unat_of_nat)

lemma days_in_years_eq:
  assumes "1970 \<le> unat y"
  shows "ucast (days_in_years_since_epoch_before y) = (word_of_nat (days_before_year (unat y)) :: u64)"
proof -
  have "unat (y - 1) = unat y - 1"
    using assms by (simp add: unat_pred_16 epoch_year_def word_le_nat_alt)
  moreover have "days_before_year (unat y) < 2 ^ 32"
    using days_before_year_less [of "unat y"] unsigned_less [of y, where ?'a = nat] by simp
  ultimately show ?thesis
    using assms days_in_years_loop_eq [of "y - 1" 0]
    by (simp add: days_in_years_since_epoch_before_def ucast_of_nat_32)
qed

lemma month_cases:
  "1 \<le> unat m \<Longrightarrow> unat m \<le> 12 \<Longrightarrow>
   m = 1 \<or> m = 2 \<or> m = 3 \<or> m = 4 \<or> m = 5 \<or> m = 6 \<or> m = 7 \<or> m = 8 \<or> m = 9 \<or> m = 10 \<or> m = 11 \<or> m = (12 :: u8)"
proof -
  assume "1 \<le> unat m" "unat m \<le> 12"
  then have "unat m = 1 \<or> unat m = 2 \<or> unat m = 3 \<or> unat m = 4 \<or> unat m = 5 \<or> unat m = 6
    \<or> unat m = 7 \<or> unat m = 8 \<or> unat m = 9 \<or> unat m = 10 \<or> unat m = 11 \<or> unat m = 12"
    by presburger
  moreover have "m = word_of_nat (unat m)"
    by simp
  ultimately show ?thesis
    by (elim disjE) (simp_all only: of_nat_numeral of_nat_1 simp_thms)
qed

lemma days_in_months_eq:
  assumes "1 \<le> unat m" "unat m \<le> 12"
  shows "\<exists>d. days_in_months_since_start_of y m = Inr d \<and> ucast d = (word_of_nat (days_before_month (unat y) (unat m)) :: u64)"
  using month_cases [OF assms]
  by (elim disjE)
    (simp_all add: days_in_months_since_start_of_def days_before_month_def month_days_def is_leap_year_iff upt_rec)

lemma unat_days_in_month:
  assumes "1 \<le> unat m" "unat m \<le> 12"
  shows "unat (days_in_month m y) = month_days (unat y) (unat m)"
  using month_cases [OF assms] by (elim disjE) (simp_all add: days_in_month_def month_days_def is_leap_year_iff)

lemma to_unix_eq:
  assumes "valid_time t"
  shows "to_unix t = Inr (word_of_nat (epoch_seconds t))"
proof -
  obtain d where d: "days_in_months_since_start_of (hr_year t) (hr_month t) = Inr d"
    "ucast d = (word_of_nat (days_before_month (unat (hr_year t)) (unat (hr_month t))) :: u64)"
    using days_in_months_eq [of "hr_month t" "hr_year t"] assms by (auto simp: valid_time_def)
  have "(ucast (hr_day t) :: u64) - 1 = word_of_nat (unat (hr_day t) - 1)"
    using assms by (simp add: valid_time_def of_nat_diff)
  with d assms show ?thesis
    by (simp add: to_unix_def days_in_years_eq valid_time_def epoch_seconds_def epoch_day_def time_units algebra_simps)
qed

subsection \<open>Seconds to dates\<close>

lemma from_unix_years_eq:
  assumes "1970 \<le> unat y"
    and "unat time + 86400 * days_before_year (unat y) < 86400 * days_before_year 65536"
  shows "\<exists>t' y'. from_unix_years time y = (t', y') \<and> 1970 \<le> unat y' \<and> unat t' < 86400 * year_days (unat y')
    \<and> unat t' + 86400 * days_before_year (unat y') = unat time + 86400 * days_before_year (unat y)"
  using assms
proof (induction time y rule: from_unix_years.induct)
  case (1 time y)
  let ?s = "if is_leap_year y then seconds_in_leap_year else seconds_in_year"
  have s: "unat ?s = 86400 * year_days (unat y)"
    by (simp add: unat_year_lengths year_days_def is_leap_year_iff)
  show ?case
  proof (cases "unat time < unat ?s")
    case True
    then have "from_unix_years time y = (time, y)"
      by (subst from_unix_years.simps) (auto simp: word_less_nat_alt word_le_nat_alt unat_year_lengths split: if_splits)
    with True 1(2) show ?thesis
      unfolding s by auto
  next
    case False
    then have t: "unat (time - ?s) = unat time - unat ?s"
      by (simp only: unat_diff_word word_le_nat_alt not_less)
    have step: "days_before_year (Suc (unat y)) = days_before_year (unat y) + year_days (unat y)"
      by (rule days_before_year_Suc [OF 1(2)])
    have "unat y \<noteq> 65535"
      using 1(3) False step unfolding s by auto
    then have y: "unat (y + 1) = Suc (unat y)"
      using unsigned_less [of y, where ?'a = nat] by (simp add: unat_word_ariths)
    have rec: "from_unix_years time y = from_unix_years (time - ?s) (y + 1)"
      using False
      by (subst from_unix_years.simps) (auto simp: word_less_nat_alt word_le_nat_alt unat_year_lengths split: if_splits)
    have eq: "unat (time - ?s) + 86400 * days_before_year (unat (y + 1)) = unat time + 86400 * days_before_year (unat y)"
      using False t s y step by simp
    have "seconds_in_year \<le> time" "\<not> (is_leap_year y \<and> time < seconds_in_leap_year)"
      using False by (auto simp: word_less_nat_alt word_le_nat_alt unat_year_lengths split: if_splits)
    from 1(1) [OF this] show ?thesis
      using 1(2,3) y unfolding rec eq by simp
  qed
qed

lemma unat_seconds_in_month:
  assumes "1 \<le> unat m" "unat m \<le> 12"
  shows "unat (seconds_in_month m y) = 86400 * month_days (unat y) (unat m)"
proof -
  have "seconds_in_month m y = word_of_nat (86400 * month_days (unat y) (unat m))"
    by (simp add: seconds_in_month_def seconds_in_day_def mult.commute flip: unat_days_in_month [OF assms])
  then show ?thesis
    by (simp add: unat_of_nat month_days_def)
qed

lemma from_unix_months_eq:
  assumes "1 \<le> unat m" "unat m \<le> 12"
    and "unat time + 86400 * days_before_month (unat y) (unat m) < 86400 * year_days (unat y)"
  shows "\<exists>t' m'. from_unix_months time m y = (t', m') \<and> 1 \<le> unat m' \<and> unat m' \<le> 12
    \<and> unat t' < 86400 * month_days (unat y) (unat m')
    \<and> unat t' + 86400 * days_before_month (unat y) (unat m') = unat time + 86400 * days_before_month (unat y) (unat m)"
  using assms
proof (induction time m y rule: from_unix_months.induct)
  case (1 time m y)
  note s = unat_seconds_in_month [OF 1(2,3)]
  show ?case
  proof (cases "time < seconds_in_month m y")
    case True
    then have "from_unix_months time m y = (time, m)"
      by (subst from_unix_months.simps) simp
    with True 1(2,3) s show ?thesis
      by (simp add: word_less_nat_alt)
  next
    case False
    then have t: "unat (time - seconds_in_month m y) + 86400 * month_days (unat y) (unat m) = unat time"
      using s by (simp add: unat_diff_word word_le_nat_alt word_less_nat_alt)
    have step: "days_before_month (unat y) (Suc (unat m)) = days_before_month (unat y) (unat m) + month_days (unat y) (unat m)"
      by (rule days_before_month_Suc [OF 1(2)])
    have "unat m \<noteq> 12"
      using 1(4) t step days_before_month_13 [of "unat y"] by auto
    then have m: "unat (m + 1) = Suc (unat m)"
      using 1(3) by (simp add: unat_word_ariths)
    have rec: "from_unix_months time m y = from_unix_months (time - seconds_in_month m y) (m + 1) y"
      using False by (subst from_unix_months.simps) simp
    have eq: "unat (time - seconds_in_month m y) + 86400 * days_before_month (unat y) (unat (m + 1))
        = unat time + 86400 * days_before_month (unat y) (unat m)"
      using t step m by simp
    from 1(1) [OF False] show ?thesis
      using 1(2-4) m \<open>unat m \<noteq> 12\<close> unfolding rec eq by simp
  qed
qed

lemma unat_ucast_8: "unat w < 256 \<Longrightarrow> unat (ucast (w :: u64) :: u8) = unat w"
  by (simp add: unsigned_ucast_eq take_bit_nat_eq_self)

lemma unat_ucast_64: "unat (ucast (b :: u8) :: u64) = unat b"
  using unsigned_less [of b, where ?'a = nat] by (simp add: unsigned_ucast_eq take_bit_nat_eq_self)

lemma split_unit:
  fixes time u :: u64
  defines "q \<equiv> ucast (time div u) :: u8"
  assumes "unat time div unat u < 256"
  shows "unat q = unat time div unat u"
    and "unat (if q \<noteq> 0 then time - ucast q * u else time) = unat time mod unat u"
proof -
  show q: "unat q = unat time div unat u"
    using assms by (simp add: unat_ucast_8 unat_div_distrib)
  have "ucast q = time div u"
    using q by (simp add: word_unat_eq_iff unat_ucast_64 unat_div_distrib)
  then have "time - ucast q * u = time mod u"
    by (simp add: minus_div_mult_eq_mod)
  moreover have "time mod u = time" if "q = 0"
    using that \<open>ucast q = time div u\<close> by (metis div_mult_mod_eq add_0 mult_zero_left unsigned_0)
  ultimately show "unat (if q \<noteq> 0 then time - ucast q * u else time) = unat time mod unat u"
    by (simp flip: unat_mod_distrib)
qed

text \<open>What is left of a time after the days, and after a smaller unit.\<close>

definition after_days :: "u64 \<Rightarrow> u64" where
  "after_days time =
     (let day = ucast (time div seconds_in_day + 1) :: u8
      in if 1 < day then time - (ucast day - 1) * seconds_in_day else time)"

definition after_unit :: "u64 \<Rightarrow> u64 \<Rightarrow> u64" where
  "after_unit u time = (let q = ucast (time div u) :: u8 in if q \<noteq> 0 then time - ucast q * u else time)"

lemma from_unix_parts:
  "from_unix time =
     (let (t1, y) = from_unix_years time epoch_year; (t2, m) = from_unix_months t1 1 y;
          t3 = after_days t2; t4 = after_unit seconds_in_hour t3; t5 = after_unit seconds_in_minute t4
      in \<lparr>hr_year = y, hr_month = m, hr_day = ucast (t2 div seconds_in_day + 1), hr_hour = ucast (t3 div seconds_in_hour),
          hr_minute = ucast (t4 div seconds_in_minute), hr_second = ucast t5\<rparr>)"
  unfolding from_unix_def after_days_def after_unit_def Let_def ..

lemma unat_units [simp]: "unat seconds_in_day = 86400" "unat seconds_in_hour = 3600" "unat seconds_in_minute = 60"
  by (simp_all add: time_units)

lemma unat_after_unit: "unat time div unat u < 256 \<Longrightarrow> unat (after_unit u time) = unat time mod unat u"
  unfolding after_unit_def Let_def by (rule split_unit(2))

lemma unat_day:
  assumes "unat time div 86400 < 255"
  shows "unat (ucast (time div seconds_in_day + 1) :: u8) = unat time div 86400 + 1"
proof -
  have "unat (time div seconds_in_day + 1) = unat time div 86400 + 1"
    using assms by (simp add: unat_word_ariths unat_div_distrib)
  then show ?thesis
    using assms by (simp add: unat_ucast_8)
qed

lemma unat_after_days:
  assumes "unat time div 86400 < 255"
  shows "unat (after_days time) = unat time mod 86400"
proof -
  let ?q = "ucast (time div seconds_in_day) :: u8" and ?d = "ucast (time div seconds_in_day + 1) :: u8"
  have q: "unat ?q = unat time div 86400"
    using split_unit(1) [of time seconds_in_day] assms by simp
  then have "(1 < ?d) = (?q \<noteq> 0)"
    using unat_day [OF assms] by (simp add: word_less_nat_alt flip: unat_eq_0)
  moreover have "ucast ?d - 1 = (ucast ?q :: u64)"
    using unat_day [OF assms] q by (simp add: word_unat_eq_iff unat_diff_word word_le_nat_alt unat_ucast_64)
  ultimately have "after_days time = after_unit seconds_in_day time"
    unfolding after_days_def after_unit_def Let_def by (simp only:)
  then show ?thesis
    using unat_after_unit [of time seconds_in_day] assms by simp
qed

lemma time_of_day:
  assumes "unat time < 86400"
  shows "unat (ucast (time div seconds_in_hour) :: u8) = unat time div 3600"
    and "unat (ucast (after_unit seconds_in_hour time div seconds_in_minute) :: u8) = unat time mod 3600 div 60"
    and "unat (ucast (after_unit seconds_in_minute (after_unit seconds_in_hour time)) :: u8) = unat time mod 60"
proof -
  have h: "unat time div unat seconds_in_hour < 256"
    using assms by simp
  show "unat (ucast (time div seconds_in_hour) :: u8) = unat time div 3600"
    using split_unit(1) [OF h] by simp
  have r: "unat (after_unit seconds_in_hour time) = unat time mod 3600"
    using unat_after_unit [OF h] by simp
  then have m: "unat (after_unit seconds_in_hour time) div unat seconds_in_minute < 256"
    by (simp add: less_mult_imp_div_less)
  then show "unat (ucast (after_unit seconds_in_hour time div seconds_in_minute) :: u8) = unat time mod 3600 div 60"
    using split_unit(1) [OF m] r by simp
  have "unat (after_unit seconds_in_minute (after_unit seconds_in_hour time)) = unat time mod 60"
    using unat_after_unit [OF m] r by (simp add: mod_mod_cancel)
  then show "unat (ucast (after_unit seconds_in_minute (after_unit seconds_in_hour time)) :: u8) = unat time mod 60"
    by (simp add: unat_ucast_8)
qed

lemma seconds_of_parts:
  fixes s :: nat
  shows "((s div 86400 * 24 + s mod 86400 div 3600) * 60 + s mod 86400 mod 3600 div 60) * 60 + s mod 86400 mod 60 = s"
proof -
  have "((q * 24 + h) * 60 + i) * 60 + z = n"
    if "q * 86400 + x = n" "h * 3600 + y = x" "i * 60 + z = y" for q h i n x y z :: nat
    using that by simp
  moreover have "s mod 86400 mod 60 = s mod 86400 mod 3600 mod 60"
    by (simp add: mod_mod_cancel)
  ultimately show ?thesis
    by (metis div_mult_mod_eq)
qed

text \<open>Every second before the year 65536 has a valid date, which counts back to it.\<close>

lemma from_unix_eq:
  assumes "unat time < 86400 * days_before_year 65536"
  shows "valid_time (from_unix time) \<and> epoch_seconds (from_unix time) = unat time"
proof -
  obtain t1 y where y: "from_unix_years time epoch_year = (t1, y)" "1970 \<le> unat y"
      "unat t1 < 86400 * year_days (unat y)" "unat t1 + 86400 * days_before_year (unat y) = unat time"
    using from_unix_years_eq [of epoch_year time] assms
    by (auto simp: epoch_year_def days_before_year_start)
  obtain t2 m where m: "from_unix_months t1 1 y = (t2, m)" "1 \<le> unat m" "unat m \<le> 12"
      "unat t2 < 86400 * month_days (unat y) (unat m)"
      "unat t2 + 86400 * days_before_month (unat y) (unat m) = unat t1"
    using from_unix_months_eq [of 1 t1 y] y(3) by (auto simp: days_before_month_1)
  have t2: "unat t2 div 86400 < month_days (unat y) (unat m)"
    using m(4) by (simp add: less_mult_imp_div_less mult.commute)
  also have "\<dots> \<le> 31"
    by (simp add: month_days_def)
  finally have d: "unat t2 div 86400 < 255"
    by simp
  let ?t3 = "after_days t2"
  have t3: "unat ?t3 = unat t2 mod 86400"
    by (rule unat_after_days [OF d])
  then have "unat ?t3 < 86400"
    by simp
  note p = time_of_day [OF this]
  have h: "unat ?t3 div 3600 < 24" "unat ?t3 mod 3600 div 60 < 60"
    by (simp_all add: t3 less_mult_imp_div_less)
  have "((unat t2 div 86400 * 24 + unat ?t3 div 3600) * 60 + unat ?t3 mod 3600 div 60) * 60 + unat ?t3 mod 60 = unat t2"
    unfolding t3 by (rule seconds_of_parts)
  then have "epoch_seconds (from_unix time) = unat time"
    using m(5) y(4) unfolding from_unix_parts y(1) m(1) Let_def prod.case
    by (simp add: epoch_seconds_def epoch_day_def unat_day [OF d] p)
  moreover have "valid_time (from_unix time)"
    using y(2) m(2,3) t2 h unfolding from_unix_parts y(1) m(1) Let_def prod.case
    by (simp add: valid_time_def unat_day [OF d] p)
  ultimately show ?thesis
    by simp
qed

subsection \<open>The dates and the seconds correspond\<close>

lemma positional_unique: "x < n \<Longrightarrow> y < n \<Longrightarrow> a * n + x = b * n + y \<Longrightarrow> a = b \<and> x = y" for a b n x y :: nat
  by (metis add.commute div_mult_self1 div_less mod_mult_self1 mod_less add_0 not_less_zero)

lemma positional_less: "a < b \<Longrightarrow> x < n \<Longrightarrow> a * n + x < b * n" for a b n x :: nat
  using mult_le_mono1 [of "Suc a" b n] by simp

lemma interval_unique:
  fixes f len :: "nat \<Rightarrow> nat"
  assumes step: "\<And>n. lo \<le> n \<Longrightarrow> f (Suc n) = f n + len n"
    and "lo \<le> a" "lo \<le> b" "x < len a" "y < len b" "f a + x = f b + y"
  shows "a = b \<and> x = y"
proof -
  have mono: "f i \<le> f j" if "lo \<le> i" "i \<le> j" for i j
    using that(2,1) by (induction rule: dec_induct) (simp_all add: step)
  have "\<not> a < b" "\<not> b < a"
    using mono [of "Suc a" b] mono [of "Suc b" a] step [of a] step [of b] assms by fastforce+
  then show ?thesis
    using assms(6) by simp
qed

lemma valid_timeD:
  assumes "valid_time t"
  shows "1970 \<le> unat (hr_year t)" "1 \<le> unat (hr_month t)" "unat (hr_month t) \<le> 12" "1 \<le> unat (hr_day t)"
    "unat (hr_day t) \<le> month_days (unat (hr_year t)) (unat (hr_month t))"
    "unat (hr_hour t) < 24" "unat (hr_minute t) < 60" "unat (hr_second t) < 60"
  using assms by (simp_all add: valid_time_def)

lemma day_of_year_less:
  assumes "valid_time t"
  shows "days_before_month (unat (hr_year t)) (unat (hr_month t)) + (unat (hr_day t) - 1) < year_days (unat (hr_year t))"
proof -
  let ?y = "unat (hr_year t)" and ?m = "unat (hr_month t)"
  have m: "1 \<le> ?m" "Suc ?m \<le> 13" "1 \<le> unat (hr_day t)" "unat (hr_day t) \<le> month_days ?y ?m"
    using assms by (simp_all add: valid_time_def)
  have "days_before_month ?y (Suc ?m) \<le> days_before_month ?y 13"
    using m(2) by (induction rule: dec_induct) (simp_all add: days_before_month_Suc)
  then show ?thesis
    using m days_before_month_Suc [OF m(1), of ?y] days_before_month_13 [of ?y] by linarith
qed

lemma epoch_seconds_less:
  assumes "valid_time t"
  shows "epoch_seconds t < 86400 * days_before_year 65536"
proof -
  let ?y = "unat (hr_year t)"
  have y: "1970 \<le> ?y" "Suc ?y \<le> 65536"
    using assms unsigned_less [of "hr_year t", where ?'a = nat] by (simp_all add: valid_time_def)
  have "days_before_year (Suc ?y) \<le> days_before_year 65536"
    using y(2)
  proof (induction rule: dec_induct)
    case (step n)
    then show ?case
      using days_before_year_Suc [of n] y(1) by linarith
  qed simp
  then have "epoch_day t < days_before_year 65536"
    using day_of_year_less [OF assms] days_before_year_Suc [OF y(1)] unfolding epoch_day_def by linarith
  then have "epoch_seconds t < days_before_year 65536 * 24 * 60 * 60"
    unfolding epoch_seconds_def by (intro positional_less valid_timeD [OF assms])
  then show ?thesis
    by (simp add: mult.commute)
qed

lemma epoch_seconds_inj:
  assumes "valid_time s" "valid_time t" "epoch_seconds s = epoch_seconds t"
  shows "s = t"
proof -
  note s = valid_timeD [OF assms(1)] and t = valid_timeD [OF assms(2)]
  have 1: "(epoch_day s * 24 + unat (hr_hour s)) * 60 + unat (hr_minute s) = (epoch_day t * 24 + unat (hr_hour t)) * 60 + unat (hr_minute t)
      \<and> unat (hr_second s) = unat (hr_second t)"
    using positional_unique [OF s(8) t(8)] assms(3) unfolding epoch_seconds_def by blast
  then have 2: "epoch_day s * 24 + unat (hr_hour s) = epoch_day t * 24 + unat (hr_hour t) \<and> unat (hr_minute s) = unat (hr_minute t)"
    using positional_unique [OF s(7) t(7)] by blast
  then have 3: "epoch_day s = epoch_day t \<and> unat (hr_hour s) = unat (hr_hour t)"
    using positional_unique [OF s(6) t(6)] by blast
  then have 4: "unat (hr_year s) = unat (hr_year t)
      \<and> days_before_month (unat (hr_year s)) (unat (hr_month s)) + (unat (hr_day s) - 1)
        = days_before_month (unat (hr_year t)) (unat (hr_month t)) + (unat (hr_day t) - 1)"
    using interval_unique [OF days_before_year_Suc s(1) t(1) day_of_year_less [OF assms(1)] day_of_year_less [OF assms(2)]]
    unfolding epoch_day_def by (simp add: add.assoc)
  have "unat (hr_day s) - 1 < month_days (unat (hr_year t)) (unat (hr_month s))"
      "unat (hr_day t) - 1 < month_days (unat (hr_year t)) (unat (hr_month t))"
      "days_before_month (unat (hr_year t)) (unat (hr_month s)) + (unat (hr_day s) - 1)
        = days_before_month (unat (hr_year t)) (unat (hr_month t)) + (unat (hr_day t) - 1)"
    using s(4,5) t(4,5) 4 by (simp, simp, metis)
  then have 5: "unat (hr_month s) = unat (hr_month t) \<and> unat (hr_day s) - 1 = unat (hr_day t) - 1"
    by (intro interval_unique [where f = "days_before_month (unat (hr_year t))", OF days_before_month_Suc s(2) t(2)])
  then have "unat (hr_day s) = unat (hr_day t)"
    using s(4) t(4) by linarith
  with 1 2 3 4 5 show ?thesis
    by (intro human_readable.equality) (simp_all add: word_unat_eq_iff)
qed

subsection \<open>The clock ticks\<close>

text \<open>The time of the clock in nanoseconds.\<close>

definition clock_ns :: "system_clock \<Rightarrow> nat" where
  "clock_ns c = unat (s_now c) * 1000000000 + unat (s_ns c)"

lemma on_timer_tick_correct:
  assumes "f \<noteq> 0" "unat (s_ns c) < 1000000000" "unat (s_now c) < 2 ^ 63"
  shows "\<exists>c'. on_timer_tick f c = Inr c' \<and> unat (s_ns c') < 1000000000
    \<and> clock_ns c' = clock_ns c + 1000000000 div unat f"
proof -
  let ?u = nanoseconds_in_second
  let ?ns = "s_ns c + ?u div f"
  have u: "unat ?u = 1000000000"
    by (simp add: nanoseconds_in_second_def)
  have d: "unat (?u div f) = 1000000000 div unat f" "1000000000 div unat f \<le> 1000000000"
    by (simp_all only: unat_div_distrib u div_le_dividend)
  then have ns: "unat ?ns = unat (s_ns c) + 1000000000 div unat f"
    using assms(2) unat_add_no_wrap [of "s_ns c" "?u div f"] by (simp only: d(1)) (use d(2) in simp)
  then have "unat ?ns < 2000000000"
    using d(2) assms(2) by linarith
  have c: "check_if_second_passed (c\<lparr>s_ns := ?ns\<rparr>) = c\<lparr>s_ns := ?ns mod ?u, s_now := s_now c + ?ns div ?u\<rparr>"
    using minus_div_mult_eq_mod [of ?ns ?u] by (cases "?ns div ?u = 0") (simp_all add: check_if_second_passed_def)
  have "unat (?ns div ?u) = unat ?ns div 1000000000" "unat ?ns div 1000000000 \<le> 2"
    using \<open>unat ?ns < 2000000000\<close> by (simp_all add: unat_div_distrib u)
  then have "unat (s_now c + ?ns div ?u) = unat (s_now c) + unat ?ns div 1000000000"
    using assms(3) unat_add_no_wrap [of "s_now c" "?ns div ?u"] by simp
  moreover have "unat (?ns mod ?u) = unat ?ns mod 1000000000"
    by (simp add: unat_mod_distrib u)
  ultimately show ?thesis
    using ns assms(1) div_mult_mod_eq [of "unat ?ns" 1000000000]
    by (simp add: on_timer_tick_def c clock_ns_def)
qed

subsection \<open>Reading the real-time clock\<close>

text \<open>A two-digit number in binary-coded decimal.\<close>

definition bcd_digits :: "nat \<Rightarrow> nat" where
  "bcd_digits n = n div 10 * 16 + n mod 10"

lemma bcd_to_binary_digits:
  assumes "n < 100"
  shows "bcd_to_binary_8 (word_of_nat (bcd_digits n)) = word_of_nat n"
    and "bcd_to_binary_16 (word_of_nat (bcd_digits n)) = word_of_nat n"
proof -
  have "\<forall>k \<in> set [0..<100]. bcd_to_binary_8 (word_of_nat (bcd_digits k)) = word_of_nat k
      \<and> bcd_to_binary_16 (word_of_nat (bcd_digits k)) = word_of_nat k"
    by code_simp
  with assms show "bcd_to_binary_8 (word_of_nat (bcd_digits n)) = word_of_nat n"
      "bcd_to_binary_16 (word_of_nat (bcd_digits n)) = word_of_nat n"
    by simp_all
qed

text \<open>The registers of a clock in 24-hour mode that shows a time of this century.\<close>

definition registers :: "bool \<Rightarrow> human_readable \<Rightarrow> human_readable" where
  "registers bcd t =
     (let enc = (\<lambda>n. if bcd then bcd_digits n else n)
      in \<lparr>hr_year = word_of_nat (enc (unat (hr_year t) - 2000)), hr_month = word_of_nat (enc (unat (hr_month t))),
          hr_day = word_of_nat (enc (unat (hr_day t))), hr_hour = word_of_nat (enc (unat (hr_hour t))),
          hr_minute = word_of_nat (enc (unat (hr_minute t))), hr_second = word_of_nat (enc (unat (hr_second t)))\<rparr>)"

lemma decode_registers:
  assumes "valid_time t" "2000 \<le> unat (hr_year t)" "unat (hr_year t) < 2100"
  shows "decode_reading (if bcd then 2 else 6) (registers bcd t) = t"
proof -
  have year: "word_of_nat (unat (hr_year t) - 2000) + 2000 = hr_year t"
    using assms(2) by (simp add: of_nat_diff)
  have "month_days (unat (hr_year t)) (unat (hr_month t)) \<le> 31"
    by (simp add: month_days_def)
  then have "unat (hr_month t) < 100" "unat (hr_day t) < 100" "unat (hr_hour t) < 100" "unat (hr_minute t) < 100"
      "unat (hr_second t) < 100" "unat (hr_year t) - 2000 < 100"
    using valid_timeD [OF assms(1)] assms(3) by linarith+
  note digits = this [THEN bcd_to_binary_digits(1)] this [THEN bcd_to_binary_digits(2)]
  show ?thesis
    by (cases bcd) (simp_all add: decode_reading_def registers_def Let_def digits year)
qed

text \<open>
  Two readings that agree in everything but the month, and the first two successive readings of a
  sequence that do.
\<close>

definition same_reading :: "human_readable \<Rightarrow> human_readable \<Rightarrow> bool" where
  "same_reading r s \<longleftrightarrow> r\<lparr>hr_month := hr_month s\<rparr> = s"

definition first_agreement :: "human_readable list \<Rightarrow> nat \<Rightarrow> bool" where
  "first_agreement rs i \<longleftrightarrow> Suc i < length rs \<and> same_reading (rs ! i) (rs ! Suc i) \<and> (\<forall>j < i. \<not> same_reading (rs ! j) (rs ! Suc j))"

lemma stable_reading_Cons: "stable_reading r (s # rs) = (if same_reading r s then Some s else stable_reading s rs)"
  by (cases r; cases s) (auto simp: same_reading_def)

lemma first_agreement_Cons:
  "first_agreement (r # s # rs) i \<longleftrightarrow> (if same_reading r s then i = 0 else \<exists>j. i = Suc j \<and> first_agreement (s # rs) j)"
proof (cases i)
  case (Suc j)
  have "(\<forall>k < Suc j. \<not> same_reading ((r # s # rs) ! k) ((r # s # rs) ! Suc k))
      \<longleftrightarrow> \<not> same_reading r s \<and> (\<forall>k < j. \<not> same_reading ((s # rs) ! k) ((s # rs) ! Suc k))"
    by (auto simp: less_Suc_eq_0_disj)
  then show ?thesis
    unfolding first_agreement_def Suc by auto
qed (simp add: first_agreement_def)

lemma stable_reading_first: "stable_reading r rs = Some t \<longleftrightarrow> (\<exists>i. first_agreement (r # rs) i \<and> t = rs ! i)"
proof (induction rs arbitrary: r)
  case (Cons s rs)
  show ?case
    using Cons.IH [of s] by (auto simp del: stable_reading.simps simp: stable_reading_Cons first_agreement_Cons)
qed (simp add: first_agreement_def)

lemma first_agreement_reading: "first_agreement (r # rs) i \<Longrightarrow> stable_reading r rs = Some (rs ! i)"
  using stable_reading_first by blast

lemma no_agreement: "stable_reading r rs = None \<longleftrightarrow> (\<forall>i. \<not> first_agreement (r # rs) i)"
  using stable_reading_first [of r rs] by (metis not_None_eq)

text \<open>
  The registers in 12-hour mode: the hours count from 1 to 12, with the highest bit set in the
  afternoon.
\<close>

definition hour_12 :: "nat \<Rightarrow> nat" where
  "hour_12 h = (h + 11) mod 12 + 1"

definition registers_12 :: "bool \<Rightarrow> human_readable \<Rightarrow> human_readable" where
  "registers_12 bcd t = (registers bcd t)\<lparr>hr_hour :=
     (if bcd then word_of_nat (bcd_digits (hour_12 (unat (hr_hour t)))) else word_of_nat (hour_12 (unat (hr_hour t))))
     OR (if 12 \<le> unat (hr_hour t) then 0x80 else 0)\<rparr>"

definition decoded_hour_12 :: "bool \<Rightarrow> nat \<Rightarrow> nat" where
  "decoded_hour_12 bcd h = (if bcd \<and> 12 \<le> h then 80 + hour_12 h else if h = 0 then 12 else if h = 12 then 0 else h)"

lemma decode_reading_12:
  "decode_reading (if bcd then 0 else 4) (r\<lparr>hr_hour := x\<rparr>) = (decode_reading (if bcd then 2 else 6) r)\<lparr>hr_hour :=
     (let h = if bcd then bcd_to_binary_8 x else x
      in if h AND 0x80 \<noteq> 0 then ucast (((ucast h AND NOT 0x80) + 12) mod 24 :: u32) else h)\<rparr>"
  by (cases r; cases bcd) (simp_all add: decode_reading_def Let_def)

lemma decode_hour_12:
  assumes "h < 24"
  shows "(let x = (if bcd then word_of_nat (bcd_digits (hour_12 h)) else word_of_nat (hour_12 h)) OR (if 12 \<le> h then 0x80 else 0);
              y = if bcd then bcd_to_binary_8 x else x
          in if y AND 0x80 \<noteq> 0 then ucast (((ucast y AND NOT 0x80) + 12) mod 24 :: u32) else y) = (word_of_nat (decoded_hour_12 bcd h) :: u8)"
proof -
  have "\<forall>bcd \<in> {True, False}. \<forall>h \<in> set [0..<24].
      (let x = (if bcd then word_of_nat (bcd_digits (hour_12 h)) else word_of_nat (hour_12 h)) OR (if 12 \<le> h then 0x80 else 0);
           y = if bcd then bcd_to_binary_8 x else x
       in if y AND 0x80 \<noteq> 0 then ucast (((ucast y AND NOT 0x80) + 12) mod 24 :: u32) else y) = (word_of_nat (decoded_hour_12 bcd h) :: u8)"
    by code_simp
  then show ?thesis
    using assms by (cases bcd) simp_all
qed

lemma decode_registers_12:
  assumes "valid_time t" "2000 \<le> unat (hr_year t)" "unat (hr_year t) < 2100"
  shows "decode_reading (if bcd then 0 else 4) (registers_12 bcd t) = t\<lparr>hr_hour := word_of_nat (decoded_hour_12 bcd (unat (hr_hour t)))\<rparr>"
  unfolding registers_12_def decode_reading_12 decode_registers [OF assms]
  using decode_hour_12 [OF valid_timeD(6) [OF assms(1)], of bcd] by (simp only: Let_def)

subsection \<open>Properties\<close>

text \<open>
  C27: the conversions between dates and seconds since 1970 are exact in both directions. Every
  valid date from 1970 on that a 16-bit year can hold converts to its number of seconds by the
  Gregorian calendar, and back to itself; every second before the year 65536 converts to a
  valid date, and back to itself.
\<close>

theorem calendar_round_trip:
  assumes "valid_time t" and "unat time < 86400 * days_before_year 65536"
  shows "(\<exists>s. to_unix t = Inr s \<and> unat s = epoch_seconds t \<and> from_unix s = t)
    \<and> valid_time (from_unix time) \<and> to_unix (from_unix time) = Inr time"
proof -
  let ?s = "word_of_nat (epoch_seconds t) :: u64"
  have "86400 * days_before_year 65536 < 2 ^ 64"
    by (simp add: days_before_year_def)
  then have s: "unat ?s = epoch_seconds t"
    using epoch_seconds_less [OF assms(1)] by (intro unat_word_of_nat_64) linarith
  then have "valid_time (from_unix ?s)" "epoch_seconds (from_unix ?s) = epoch_seconds t"
    using from_unix_eq [of ?s] epoch_seconds_less [OF assms(1)] by simp_all
  then have "from_unix ?s = t"
    using epoch_seconds_inj assms(1) by blast
  with s show ?thesis
    using to_unix_eq [OF assms(1)] to_unix_eq [of "from_unix time"] from_unix_eq [OF assms(2)] by simp
qed

theorem calendar_round_trip_witness:
  "let t = \<lparr>hr_year = 2024, hr_month = 2, hr_day = 29, hr_hour = 12, hr_minute = 34, hr_second = 56\<rparr>
   in valid_time t \<and> map_sum id unat (to_unix t) = Inr 1709210096 \<and> to_unix (from_unix 951782400) = Inr 951782400"
proof -
  let ?t = "\<lparr>hr_year = 2024, hr_month = 2, hr_day = 29, hr_hour = 12, hr_minute = 34, hr_second = 56\<rparr> :: human_readable"
  have "valid_time ?t" "epoch_seconds ?t = 1709210096"
    by (simp_all add: valid_time_def epoch_seconds_def epoch_day_def days_before_year_def days_before_month_def month_days_def leap_def upt_rec)
  moreover have "unat (951782400 :: u64) < 86400 * days_before_year 65536"
    by (simp add: days_before_year_def)
  ultimately show ?thesis
    using calendar_round_trip [of ?t 951782400] by auto
qed

text \<open>
  C38: At boot the code reads the real-time clock until two successive readings agree. Whatever the
  readings are, it takes the second of the first two that agree in second, minute, hour, day and
  year, and it does not stop before; the month is not compared, so that two readings of which the
  second has another month end the loop. When the reading taken is the one of a clock that counts
  24 hours and shows a time of this century, in binary-coded decimal or in binary, the system
  clock is set to that time. In 12-hour mode every field but the hour is decoded rightly; in
  coded decimal an hour of the afternoon becomes 80 more than what the clock shows, because the
  digits are converted before the afternoon bit is removed, midnight becomes hour 12, and in
  binary noon becomes hour 0.
\<close>

theorem synchronize_system_clock_correct:
  assumes "valid_time t" and "2000 \<le> unat (hr_year t)" and "unat (hr_year t) < 2100"
  shows "(\<forall>i. first_agreement (r # rs) i \<longrightarrow> rs ! i = registers bcd t \<longrightarrow>
        map_option (map_sum id (\<lambda>c'. (s_ns c', unat (s_now c')))) (synchronize_system_clock (if bcd then 2 else 6) r rs c)
          = Some (Inr (s_ns c, epoch_seconds t)))
    \<and> (synchronize_system_clock format r rs c = None \<longleftrightarrow> (\<forall>i. \<not> first_agreement (r # rs) i))
    \<and> stable_reading r (r\<lparr>hr_month := month\<rparr> # rs) = Some (r\<lparr>hr_month := month\<rparr>)
    \<and> decode_reading (if bcd then 0 else 4) (registers_12 bcd t) = t\<lparr>hr_hour := word_of_nat (decoded_hour_12 bcd (unat (hr_hour t)))\<rparr>"
proof -
  have "epoch_seconds t < 2 ^ 64"
    using epoch_seconds_less [OF assms(1)] by (simp add: days_before_year_def)
  then have s: "unat (word_of_nat (epoch_seconds t) :: u64) = epoch_seconds t"
    by (rule unat_word_of_nat_64)
  have "map_option (map_sum id (\<lambda>c'. (s_ns c', unat (s_now c')))) (synchronize_system_clock (if bcd then 2 else 6) r rs c)
      = Some (Inr (s_ns c, epoch_seconds t))" if "first_agreement (r # rs) i" "rs ! i = registers bcd t" for i
    unfolding synchronize_system_clock_def first_agreement_reading [OF that(1)] that(2) option.map decode_registers [OF assms] to_unix_eq [OF assms(1)]
    using s by (simp add: clock_set_def)
  then show ?thesis
    using decode_registers_12 [OF assms] no_agreement [of r rs] by (simp add: synchronize_system_clock_def)
qed

theorem synchronize_system_clock_correct_witness:
  "let t = \<lparr>hr_year = 0x24, hr_month = 2, hr_day = 0x29, hr_hour = 0x12, hr_minute = 0x34, hr_second = 0x56\<rparr>
   in map_option (map_sum id (\<lambda>c'. (s_ns c', unat (s_now c'))))
        (synchronize_system_clock 2 (t\<lparr>hr_second := 0x55\<rparr>) [t, t] \<lparr>s_ns = 5, s_now = 0\<rparr>) = Some (Inr (5, 1709210096))
    \<and> synchronize_system_clock 2 (t\<lparr>hr_second := 0x55\<rparr>) [t] \<lparr>s_ns = 5, s_now = 0\<rparr> = None"
proof -
  let ?t = "\<lparr>hr_year = 2024, hr_month = 2, hr_day = 29, hr_hour = 12, hr_minute = 34, hr_second = 56\<rparr> :: human_readable"
    and ?c = "\<lparr>s_ns = 5, s_now = 0\<rparr>"
  let ?r = "\<lparr>hr_year = 0x24, hr_month = 2, hr_day = 0x29, hr_hour = 0x12, hr_minute = 0x34, hr_second = 0x56\<rparr> :: human_readable"
  have t: "valid_time ?t" "epoch_seconds ?t = 1709210096" "registers True ?t = ?r"
    by (simp_all add: valid_time_def epoch_seconds_def epoch_day_def days_before_year_def days_before_month_def month_days_def leap_def upt_rec
        registers_def bcd_digits_def)
  have "first_agreement [?r\<lparr>hr_second := 0x55\<rparr>, ?r, ?r] 1" "\<not> first_agreement [?r\<lparr>hr_second := 0x55\<rparr>, ?r] i" for i
    by (cases i; simp add: first_agreement_def same_reading_def)+
  then show ?thesis
    using synchronize_system_clock_correct [of ?t "?r\<lparr>hr_second := 0x55\<rparr>" "[?r, ?r]" True ?c]
      synchronize_system_clock_correct [of ?t "?r\<lparr>hr_second := 0x55\<rparr>" "[?r]" True ?c 2] t by (simp add: Let_def)
qed

end
