(* ===== verification/Pipe.thy ===== *)
theory Pipe
  imports Page_Range
begin

text \<open>
  \<^verbatim>\<open>Kernel/FileSystem/Pipe.cpp\<close>: a ring buffer of bytes shared by any number of reading and
  writing ends, with the threads that wait for bytes or for room. The lock of the shared
  state makes each operation one step. Offsets and sizes are natural numbers: they stay
  below the capacity, so that nothing wraps; the counters of the ends keep their width.
  A thread that waits is its number; an operation returns the threads it unblocks.

  The user's buffer may fault. For a write it is the list of the bytes that can be read,
  for a read the number of bytes that can be written; \<^verbatim>\<open>safe_copy_memory\<close> copies byte by byte
  up to the fault.
\<close>

datatype side = READ | WRITE

type_synonym thread_id = nat

record pipe_state =
  reader_count :: size_t
  writer_count :: size_t
  read_offset :: nat
  write_offset :: nat
  pipe_capacity :: nat
  pipe_size :: nat
  read_waiters :: "thread_id list"
  write_waiters :: "thread_id list"
  pipe_buffer :: "u8 list"

record pipe =
  m_side :: side
  m_is_closed :: bool

subsection \<open>Operations\<close>

definition count_end :: "side \<Rightarrow> pipe_state \<Rightarrow> pipe_state" where
  "count_end s st =
     (if s = READ then st\<lparr>reader_count := reader_count st + 1\<rparr> else st\<lparr>writer_count := writer_count st + 1\<rparr>)"

text \<open>
  The contents of fresh memory are an argument of the constructor, a function of the
  address. The virtual memory behind the buffer is assumed to be there.
\<close>

definition pipe_create :: "(nat \<Rightarrow> u8) \<Rightarrow> side \<Rightarrow> size_t \<Rightarrow> (pipe \<times> pipe_state) res" where
  "pipe_create fresh s cap =
     bind_res (assert_that (0 < cap)) (\<lambda>_.
       let c = unat (page_round_up cap)
       in Inr (\<lparr>m_side = s, m_is_closed = False\<rparr>,
               count_end s \<lparr>reader_count = 0, writer_count = 0, read_offset = 0, write_offset = 0,
                            pipe_capacity = c, pipe_size = 0, read_waiters = [], write_waiters = [],
                            pipe_buffer = map fresh [0..<c]\<rparr>))"

definition pipe_clone :: "side \<Rightarrow> pipe \<Rightarrow> pipe_state \<Rightarrow> (error_code + pipe) \<times> pipe_state" where
  "pipe_clone s p st =
     (if m_is_closed p then (Inl STREAM_CLOSED, st)
      else (Inr \<lparr>m_side = s, m_is_closed = False\<rparr>, count_end s st))"

text \<open>
  The loop of \<^verbatim>\<open>read\<close>: \<open>room\<close> bytes of the user's buffer can be written, \<open>out\<close> holds those
  written. It gives the state in which the copy faulted, or the final state and bytes.
  With an offset at the capacity it would never end.
\<close>

partial_function (option) read_loop :: "nat \<Rightarrow> pipe_state \<Rightarrow> nat \<Rightarrow> u8 list \<Rightarrow> (pipe_state + pipe_state \<times> u8 list) option" where
  [code]: "read_loop room st bytes_to_read out =
     (if bytes_to_read = 0 then Some (Inr (st, out))
      else
        let this_read_bytes = min bytes_to_read (pipe_capacity st - read_offset st)
        in if length out + this_read_bytes \<le> room
           then let offset = read_offset st + this_read_bytes
                in read_loop room
                     (st\<lparr>pipe_size := pipe_size st - this_read_bytes,
                         read_offset := (if offset = pipe_capacity st then 0 else offset)\<rparr>)
                     (bytes_to_read - this_read_bytes)
                     (out @ take this_read_bytes (drop (read_offset st) (pipe_buffer st)))
           else Some (Inl st))"

definition pipe_read :: "nat \<Rightarrow> nat \<Rightarrow> pipe \<Rightarrow> pipe_state
    \<Rightarrow> ((error_code + nat \<times> u8 list) \<times> pipe_state \<times> thread_id list) option" where
  "pipe_read room bytes p st =
     (if m_side p = WRITE then Some (Inl ACCESS_DENIED, st, [])
      else if m_is_closed p then Some (Inl STREAM_CLOSED, st, [])
      else if pipe_size st = 0 then Some (Inr (0, []), st, [])
      else
        let bytes_to_read = min bytes (pipe_size st)
        in map_option (\<lambda>r.
             case r of
               Inl st' \<Rightarrow> (Inl MEMORY_ACCESS_VIOLATION, st'\<lparr>read_offset := read_offset st, pipe_size := pipe_size st\<rparr>, [])
             | Inr (st', out) \<Rightarrow> (Inr (bytes_to_read, out), st'\<lparr>write_waiters := []\<rparr>, write_waiters st'))
             (read_loop room st bytes_to_read []))"

definition copy_at :: "'a list \<Rightarrow> nat \<Rightarrow> 'a list \<Rightarrow> 'a list" where
  "copy_at xs i ys = take i xs @ ys @ drop (i + length ys) xs"

text \<open>The loop of \<^verbatim>\<open>write\<close>: \<open>n\<close> bytes of the user's buffer are behind.\<close>

partial_function (option) write_loop :: "u8 list \<Rightarrow> pipe_state \<Rightarrow> nat \<Rightarrow> nat \<Rightarrow> (pipe_state + pipe_state) option" where
  [code]: "write_loop buf st byte_to_write n =
     (if byte_to_write = 0 then Some (Inr st)
      else
        let this_write_bytes = min byte_to_write (pipe_capacity st - write_offset st);
            copied = st\<lparr>pipe_buffer := copy_at (pipe_buffer st) (write_offset st) (take this_write_bytes (drop n buf))\<rparr>
        in if n + this_write_bytes \<le> length buf
           then let offset = write_offset st + this_write_bytes
                in write_loop buf
                     (copied\<lparr>pipe_size := pipe_size st + this_write_bytes,
                             write_offset := (if offset = pipe_capacity st then 0 else offset)\<rparr>)
                     (byte_to_write - this_write_bytes) (n + this_write_bytes)
           else Some (Inl copied))"

definition pipe_write :: "u8 list \<Rightarrow> nat \<Rightarrow> pipe \<Rightarrow> pipe_state
    \<Rightarrow> ((error_code + nat) \<times> pipe_state \<times> thread_id list) option" where
  "pipe_write buf bytes p st =
     (if m_side p = READ then Some (Inl ACCESS_DENIED, st, [])
      else if m_is_closed p then Some (Inl STREAM_CLOSED, st, [])
      else if pipe_capacity st - pipe_size st = 0 then Some (Inr 0, st, [])
      else
        let byte_to_write = min bytes (pipe_capacity st - pipe_size st)
        in map_option (\<lambda>r.
             case r of
               Inl st' \<Rightarrow> (Inl MEMORY_ACCESS_VIOLATION, st'\<lparr>write_offset := write_offset st, pipe_size := pipe_size st\<rparr>, [])
             | Inr st' \<Rightarrow> (Inr byte_to_write, st'\<lparr>read_waiters := []\<rparr>, read_waiters st'))
             (write_loop buf st byte_to_write 0))"

definition pipe_close :: "pipe \<Rightarrow> pipe_state \<Rightarrow> (error_code + pipe) \<times> pipe_state \<times> thread_id list" where
  "pipe_close p st =
     (if m_is_closed p then (Inl STREAM_CLOSED, st, [])
      else if m_side p = READ
      then let new_count = reader_count st - 1; st' = st\<lparr>reader_count := new_count\<rparr>
           in if new_count = 0
              then (Inr (p\<lparr>m_is_closed := True\<rparr>), st'\<lparr>write_waiters := []\<rparr>, write_waiters st')
              else (Inr (p\<lparr>m_is_closed := True\<rparr>), st', [])
      else let new_count = writer_count st - 1; st' = st\<lparr>writer_count := new_count\<rparr>
           in if new_count = 0
              then (Inr (p\<lparr>m_is_closed := True\<rparr>), st'\<lparr>read_waiters := []\<rparr>, read_waiters st')
              else (Inr (p\<lparr>m_is_closed := True\<rparr>), st', []))"

text \<open>
  \<^verbatim>\<open>block_until_readable\<close> up to the point where the thread blocks: it returns an error, or
  whether the thread has to block; and the end of the operation, once the thread runs again.
\<close>

definition block_until_readable :: "thread_id \<Rightarrow> pipe \<Rightarrow> pipe_state \<Rightarrow> (error_code + bool) \<times> pipe_state" where
  "block_until_readable t p st =
     (if m_side p = WRITE then (Inl ACCESS_DENIED, st)
      else if m_is_closed p then (Inl STREAM_CLOSED, st)
      else if pipe_size st \<noteq> 0 then (Inr False, st)
      else if writer_count st = 0 then (Inl WOULD_BLOCK_FOREVER, st)
      else (Inr True, st\<lparr>read_waiters := read_waiters st @ [t]\<rparr>))"

definition finish_read_wait :: "thread_id \<Rightarrow> pipe_state \<Rightarrow> pipe_state" where
  "finish_read_wait t st = st\<lparr>read_waiters := remove1 t (read_waiters st)\<rparr>"

definition block_until_writable :: "thread_id \<Rightarrow> pipe \<Rightarrow> pipe_state \<Rightarrow> (error_code + bool) \<times> pipe_state" where
  "block_until_writable t p st =
     (if m_side p = READ then (Inl ACCESS_DENIED, st)
      else if m_is_closed p then (Inl STREAM_CLOSED, st)
      else if pipe_capacity st \<noteq> pipe_size st then (Inr False, st)
      else if reader_count st = 0 then (Inl WOULD_BLOCK_FOREVER, st)
      else (Inr True, st\<lparr>write_waiters := write_waiters st @ [t]\<rparr>))"

definition finish_write_wait :: "thread_id \<Rightarrow> pipe_state \<Rightarrow> pipe_state" where
  "finish_write_wait t st = st\<lparr>write_waiters := remove1 t (write_waiters st)\<rparr>"

subsection \<open>The queue behind the ring\<close>

text \<open>The bytes in the pipe, oldest first.\<close>

definition content :: "pipe_state \<Rightarrow> u8 list" where
  "content st = map (\<lambda>k. pipe_buffer st ! ((read_offset st + k) mod pipe_capacity st)) [0..<pipe_size st]"

definition ring_ok :: "pipe_state \<Rightarrow> bool" where
  "ring_ok st \<longleftrightarrow>
     0 < pipe_capacity st \<and> length (pipe_buffer st) = pipe_capacity st \<and> read_offset st < pipe_capacity st
     \<and> pipe_size st \<le> pipe_capacity st \<and> write_offset st = (read_offset st + pipe_size st) mod pipe_capacity st"

lemma length_content [simp]: "length (content st) = pipe_size st"
  by (simp add: content_def)

lemma nth_content: "k < pipe_size st \<Longrightarrow> content st ! k = pipe_buffer st ! ((read_offset st + k) mod pipe_capacity st)"
  by (simp add: content_def)

text \<open>The state after the oldest \<open>n\<close> bytes are read, and after the bytes \<open>ys\<close> are written.\<close>

definition popped :: "nat \<Rightarrow> pipe_state \<Rightarrow> pipe_state" where
  "popped n st = st\<lparr>pipe_size := pipe_size st - n, read_offset := (read_offset st + n) mod pipe_capacity st\<rparr>"

lemma popped_0: "ring_ok st \<Longrightarrow> popped 0 st = st"
  by (simp add: popped_def ring_ok_def)

lemma popped_popped: "popped j (popped i st) = popped (i + j) st"
  by (simp add: popped_def mod_add_left_eq add.assoc)

lemma ring_ok_popped: "ring_ok st \<Longrightarrow> n \<le> pipe_size st \<Longrightarrow> ring_ok (popped n st)"
  using mod_add_left_eq [of "read_offset st + n" "pipe_capacity st" "pipe_size st - n"] by (auto simp: ring_ok_def popped_def)

lemma content_popped: "n \<le> pipe_size st \<Longrightarrow> content (popped n st) = drop n (content st)"
  by (rule nth_equalityI) (simp_all add: nth_content popped_def mod_add_left_eq add.assoc)

lemma take_content:
  assumes "ring_ok st" "n \<le> pipe_size st" "n \<le> pipe_capacity st - read_offset st"
  shows "take n (drop (read_offset st) (pipe_buffer st)) = take n (content st)"
  using assms by (intro nth_equalityI) (auto simp: ring_ok_def nth_content)

lemma wrapped_offset:
  assumes "i < c" "n \<le> c - i"
  shows "(if i + n = c then 0 else i + n) = (i + n) mod (c :: nat)"
  using assms by auto

lemma read_loop_correct:
  assumes "ring_ok st" "n \<le> pipe_size st" "length out \<le> room"
  shows "\<exists>r. read_loop room st n out = Some r
    \<and> (if length out + n \<le> room then r = Inr (popped n st, out @ take n (content st))
       else \<exists>m \<le> pipe_size st. r = Inl (popped m st))"
  using assms
proof (induction n arbitrary: st out rule: less_induct)
  case (less n)
  let ?i = "min n (pipe_capacity st - read_offset st)"
  show ?case
  proof (cases "n = 0 \<or> \<not> length out + ?i \<le> room")
    case True
    moreover have "\<not> length out + n \<le> room" if "\<not> length out + ?i \<le> room"
      using that by simp
    ultimately show ?thesis
      using less.prems popped_0 [OF less.prems(1)] by (subst read_loop.simps) (auto simp: Let_def intro: exI [of _ 0])
  next
    case False
    have "?i \<le> n" "0 < ?i" "?i \<le> pipe_size st" "?i \<le> pipe_capacity st - read_offset st"
      using False less.prems by (auto simp: ring_ok_def)
    then have i: "n - ?i < n" "n - ?i \<le> pipe_size (popped ?i st)" "?i \<le> pipe_size st" "?i \<le> n"
      using less.prems(2) False by (simp_all add: popped_def diff_le_mono)
    have st: "st\<lparr>pipe_size := pipe_size st - ?i,
        read_offset := (if read_offset st + ?i = pipe_capacity st then 0 else read_offset st + ?i)\<rparr> = popped ?i st"
      using less.prems wrapped_offset [of "read_offset st" "pipe_capacity st" ?i] by (simp add: popped_def ring_ok_def)
    have step: "read_loop room st n out = read_loop room (popped ?i st) (n - ?i) (out @ take ?i (content st))"
      using False st take_content [OF less.prems(1) i(3)] by (subst read_loop.simps) (simp add: Let_def)
    obtain r where r: "read_loop room (popped ?i st) (n - ?i) (out @ take ?i (content st)) = Some r"
      "if length (out @ take ?i (content st)) + (n - ?i) \<le> room
       then r = Inr (popped (n - ?i) (popped ?i st), (out @ take ?i (content st)) @ take (n - ?i) (content (popped ?i st)))
       else \<exists>m \<le> pipe_size (popped ?i st). r = Inl (popped m (popped ?i st))"
      using less.IH [OF i(1) ring_ok_popped [OF less.prems(1) i(3)] i(2), of "out @ take ?i (content st)"] False i(3) by auto
    have "length (out @ take ?i (content st)) + (n - ?i) = length out + n"
      using i(3,4) by simp
    moreover have "take ?i (content st) @ take (n - ?i) (content (popped ?i st)) = take n (content st)"
      using i(3,4) by (simp add: content_popped flip: take_add)
    moreover have "\<exists>m' \<le> pipe_size st. popped m (popped ?i st) = popped m' st" if "m \<le> pipe_size (popped ?i st)" for m
      using that i(3) by (intro exI [of _ "?i + m"]) (simp add: popped_popped, simp add: popped_def)
    ultimately show ?thesis
      using r i(4) unfolding step by (auto simp: popped_popped split: if_splits)
  qed
qed

lemma length_copy_at [simp]: "i + length ys \<le> length xs \<Longrightarrow> length (copy_at xs i ys) = length xs"
  by (simp add: copy_at_def)

lemma nth_copy_at:
  "i + length ys \<le> length xs \<Longrightarrow> j < length xs \<Longrightarrow>
   copy_at xs i ys ! j = (if i \<le> j \<and> j < i + length ys then ys ! (j - i) else xs ! j)"
  by (auto simp: copy_at_def nth_append)

lemma ring_index_unique:
  fixes a b c r :: nat
  assumes "(r + a) mod c = (r + b) mod c" "a \<le> b" "b - a < c"
  shows "a = b"
proof -
  have "c dvd b - a"
    using assms mod_eq_dvd_iff_nat [of "r + a" "r + b" c] by simp
  then show ?thesis
    using assms(2,3) by (auto dest: dvd_imp_le)
qed

text \<open>The bytes from the write offset on are not part of the queue.\<close>

lemma live_byte_elsewhere:
  assumes "ring_ok st" "k < pipe_size st" "pipe_size st + n \<le> pipe_capacity st" "write_offset st + n \<le> pipe_capacity st"
  shows "\<not> (write_offset st \<le> (read_offset st + k) mod pipe_capacity st \<and> (read_offset st + k) mod pipe_capacity st < write_offset st + n)"
proof
  let ?c = "pipe_capacity st"
  assume "write_offset st \<le> (read_offset st + k) mod ?c \<and> (read_offset st + k) mod ?c < write_offset st + n"
  then obtain j where j: "(read_offset st + k) mod ?c = write_offset st + j" "j < n"
    using le_Suc_ex by fastforce
  then have "write_offset st + j = (read_offset st + (pipe_size st + j)) mod ?c"
    using assms(1,4) mod_add_left_eq [of "read_offset st + pipe_size st" ?c j] by (simp add: ring_ok_def add.assoc)
  with j have "(read_offset st + k) mod ?c = (read_offset st + (pipe_size st + j)) mod ?c"
    by simp
  moreover have "pipe_size st + j - k < ?c"
    using assms(2,3) j(2) by linarith
  ultimately show False
    using ring_index_unique [of "read_offset st" k ?c "pipe_size st + j"] assms(2) by simp
qed

lemma content_copied:
  assumes "ring_ok st" "pipe_size st + length ys \<le> pipe_capacity st" "write_offset st + length ys \<le> pipe_capacity st"
  shows "content (st\<lparr>pipe_buffer := copy_at (pipe_buffer st) (write_offset st) ys\<rparr>) = content st"
  using assms live_byte_elsewhere [OF assms(1) _ assms(2,3)]
  by (intro nth_equalityI) (auto simp: nth_content nth_copy_at ring_ok_def)

definition pushed :: "u8 list \<Rightarrow> pipe_state \<Rightarrow> pipe_state" where
  "pushed ys st = st\<lparr>pipe_buffer := copy_at (pipe_buffer st) (write_offset st) ys, pipe_size := pipe_size st + length ys,
     write_offset := (write_offset st + length ys) mod pipe_capacity st\<rparr>"

lemma pushed_correct:
  assumes "ring_ok st" "pipe_size st + length ys \<le> pipe_capacity st" "write_offset st + length ys \<le> pipe_capacity st"
  shows "ring_ok (pushed ys st)" and "content (pushed ys st) = content st @ ys"
proof -
  let ?c = "pipe_capacity st"
  show "ring_ok (pushed ys st)"
    using assms by (simp add: ring_ok_def pushed_def mod_add_left_eq add.assoc)
  show "content (pushed ys st) = content st @ ys"
  proof (rule nth_equalityI)
    fix k
    assume "k < length (content (pushed ys st))"
    then have k: "k < pipe_size st + length ys"
      by (simp add: pushed_def)
    show "content (pushed ys st) ! k = (content st @ ys) ! k"
    proof (cases "k < pipe_size st")
      case True
      then show ?thesis
        using arg_cong [OF content_copied [OF assms], of "\<lambda>xs. xs ! k"]
        by (simp add: nth_content nth_append pushed_def)
    next
      case False
      then obtain j where j: "k = pipe_size st + j" "j < length ys"
        using k le_Suc_ex [of "pipe_size st" k] by auto
      then have "(read_offset st + k) mod ?c = write_offset st + j"
        using assms mod_add_left_eq [of "read_offset st + pipe_size st" ?c j] by (simp add: ring_ok_def add.assoc)
      then show ?thesis
        using assms j k by (simp add: nth_content nth_append pushed_def nth_copy_at ring_ok_def)
    qed
  qed (simp add: pushed_def)
qed

text \<open>What a write leaves alone: everything but the free bytes, the size and the write offset.\<close>

definition same_reader_side :: "pipe_state \<Rightarrow> pipe_state \<Rightarrow> bool" where
  "same_reader_side st st' \<longleftrightarrow>
     st'\<lparr>pipe_buffer := pipe_buffer st, pipe_size := pipe_size st, write_offset := write_offset st\<rparr> = st
     \<and> ring_ok (st'\<lparr>pipe_size := pipe_size st, write_offset := write_offset st\<rparr>)
     \<and> content (st'\<lparr>pipe_size := pipe_size st, write_offset := write_offset st\<rparr>) = content st"

lemma content_shrink: "m \<le> pipe_size st \<Longrightarrow> content (st\<lparr>pipe_size := m, write_offset := w\<rparr>) = take m (content st)"
  by (intro nth_equalityI) (simp_all add: nth_content)

lemma same_reader_side_refl: "ring_ok st \<Longrightarrow> same_reader_side st st"
  by (simp add: same_reader_side_def)

lemma same_reader_side_copied:
  assumes "ring_ok st" "pipe_size st + length ys \<le> pipe_capacity st" "write_offset st + length ys \<le> pipe_capacity st"
  shows "same_reader_side st (st\<lparr>pipe_buffer := copy_at (pipe_buffer st) (write_offset st) ys\<rparr>)"
  using content_copied [OF assms] assms by (simp add: same_reader_side_def ring_ok_def content_def)

lemma same_reader_side_pushed:
  assumes "ring_ok st" "pipe_size st + length ys \<le> pipe_capacity st" "write_offset st + length ys \<le> pipe_capacity st"
    and "same_reader_side (pushed ys st) st'"
  shows "same_reader_side st st'"
proof -
  let ?st = "st'\<lparr>pipe_size := pipe_size (pushed ys st), write_offset := write_offset (pushed ys st)\<rparr>"
  have st': "st'\<lparr>pipe_buffer := pipe_buffer (pushed ys st), pipe_size := pipe_size (pushed ys st), write_offset := write_offset (pushed ys st)\<rparr> = pushed ys st"
    and ok: "ring_ok ?st" and c: "content ?st = content st @ ys"
    using assms(4) pushed_correct(2) [OF assms(1-3)] by (simp_all add: same_reader_side_def)
  have eq: "st'\<lparr>pipe_buffer := pipe_buffer st, pipe_size := pipe_size st, write_offset := write_offset st\<rparr> = st"
    using arg_cong [OF st', of "\<lambda>s. s\<lparr>pipe_buffer := pipe_buffer st, pipe_size := pipe_size st, write_offset := write_offset st\<rparr>"]
    by (simp add: pushed_def)
  have cap: "pipe_capacity st' = pipe_capacity st" "read_offset st' = read_offset st"
    using arg_cong [OF eq, of pipe_capacity] arg_cong [OF eq, of read_offset] by simp_all
  have "content (st'\<lparr>pipe_size := pipe_size st, write_offset := write_offset st\<rparr>) = take (pipe_size st) (content ?st)"
    using content_shrink [of "pipe_size st" ?st "write_offset st"] by (simp add: pushed_def)
  then show ?thesis
    using eq ok c cap assms(1) by (simp add: same_reader_side_def ring_ok_def)
qed

lemma write_loop_correct:
  assumes "ring_ok st" "n \<le> pipe_capacity st - pipe_size st" "k \<le> length buf"
  shows "\<exists>st'. write_loop buf st n k = Some (if k + n \<le> length buf then Inr st' else Inl st') \<and> same_reader_side st st'
    \<and> (k + n \<le> length buf \<longrightarrow> ring_ok st' \<and> content st' = content st @ take n (drop k buf))"
  using assms
proof (induction n arbitrary: st k rule: less_induct)
  case (less n)
  let ?i = "min n (pipe_capacity st - write_offset st)"
  let ?ys = "take ?i (drop k buf)"
  have w: "write_offset st < pipe_capacity st"
    using less.prems(1) by (simp add: ring_ok_def)
  have ys: "pipe_size st + length ?ys \<le> pipe_capacity st" "write_offset st + length ?ys \<le> pipe_capacity st"
    using less.prems w unfolding ring_ok_def length_take length_drop by linarith+
  show ?case
  proof (cases "n = 0 \<or> \<not> k + ?i \<le> length buf")
    case True
    moreover have "\<not> k + n \<le> length buf" if "\<not> k + ?i \<le> length buf"
      using that by simp
    ultimately show ?thesis
      using less.prems same_reader_side_refl same_reader_side_copied [OF less.prems(1) ys]
      by (subst write_loop.simps) (auto simp: Let_def)
  next
    case False
    then have i: "?i \<le> n" "0 < ?i" "length ?ys = ?i" "k + ?i \<le> length buf"
      using w by auto
    have "st\<lparr>pipe_buffer := copy_at (pipe_buffer st) (write_offset st) ?ys, pipe_size := pipe_size st + ?i,
        write_offset := (if write_offset st + ?i = pipe_capacity st then 0 else write_offset st + ?i)\<rparr> = pushed ?ys st"
      using wrapped_offset [OF w, of ?i] i(3) by (simp add: pushed_def)
    then have step: "write_loop buf st n k = write_loop buf (pushed ?ys st) (n - ?i) (k + ?i)"
      using False by (subst write_loop.simps) (simp add: Let_def)
    note p = pushed_correct [OF less.prems(1) ys]
    have "n - ?i < n" "n - ?i \<le> pipe_capacity (pushed ?ys st) - pipe_size (pushed ?ys st)"
      using i less.prems(2) by (simp_all add: pushed_def)
    from less.IH [OF this(1) p(1) this(2) i(4)] obtain st' where st':
      "write_loop buf (pushed ?ys st) (n - ?i) (k + ?i) = Some (if k + ?i + (n - ?i) \<le> length buf then Inr st' else Inl st')"
      "same_reader_side (pushed ?ys st) st'"
      "k + ?i + (n - ?i) \<le> length buf \<longrightarrow> ring_ok st' \<and> content st' = content (pushed ?ys st) @ take (n - ?i) (drop (k + ?i) buf)"
      by blast
    have n: "k + ?i + (n - ?i) = k + n"
      using i(1) by simp
    have "?ys @ take (n - ?i) (drop (k + ?i) buf) = take n (drop k buf)"
      using i(1) take_add [of ?i "n - ?i" "drop k buf"] by (simp add: add.commute)
    then show ?thesis
      using st' same_reader_side_pushed [OF less.prems(1) ys st'(2)] p(2) unfolding step n by auto
  qed
qed

subsection \<open>Refinement of a bounded queue\<close>

text \<open>A queue of bytes with a capacity, as the user sees it.\<close>

definition queue_read :: "nat \<Rightarrow> nat \<Rightarrow> u8 list \<Rightarrow> (error_code + nat \<times> u8 list) \<times> u8 list" where
  "queue_read room n q =
     (if min n (length q) \<le> room then (Inr (min n (length q), take n q), drop n q) else (Inl MEMORY_ACCESS_VIOLATION, q))"

definition queue_write :: "nat \<Rightarrow> u8 list \<Rightarrow> nat \<Rightarrow> u8 list \<Rightarrow> (error_code + nat) \<times> u8 list" where
  "queue_write cap buf n q =
     (let k = min n (cap - length q)
      in if k \<le> length buf then (Inr k, q @ take k buf) else (Inl MEMORY_ACCESS_VIOLATION, q))"

text \<open>Everything but the ring itself and the threads waiting for the other side.\<close>

lemma pipe_read_correct:
  assumes "ring_ok st" "m_side p = READ" "\<not> m_is_closed p"
  shows "\<exists>r st' ws. pipe_read room n p st = Some (r, st', ws) \<and> (r, content st') = queue_read room n (content st)
    \<and> ring_ok st' \<and> pipe_capacity st' = pipe_capacity st
    \<and> reader_count st' = reader_count st \<and> writer_count st' = writer_count st \<and> read_waiters st' = read_waiters st
    \<and> (if isl r \<or> pipe_size st = 0 then write_waiters st' = write_waiters st \<and> ws = []
       else write_waiters st' = [] \<and> ws = write_waiters st)"
proof -
  let ?n = "min n (pipe_size st)"
  show ?thesis
  proof (cases "pipe_size st = 0")
    case True
    then show ?thesis
      using assms by (simp add: pipe_read_def queue_read_def content_def)
  next
    case False
    obtain r where r: "read_loop room st ?n [] = Some r"
      "if ?n \<le> room then r = Inr (popped ?n st, take ?n (content st)) else \<exists>m \<le> pipe_size st. r = Inl (popped m st)"
      using read_loop_correct [OF assms(1), of ?n "[]" room] by auto
    have restored: "(popped m st)\<lparr>read_offset := read_offset st, pipe_size := pipe_size st\<rparr> = st" for m
      by (simp add: popped_def)
    have eq: "ring_ok (st\<lparr>write_waiters := ws\<rparr>) = ring_ok st" "content (st\<lparr>write_waiters := ws\<rparr>) = content st" for st ws
      by (simp_all add: ring_ok_def content_def)
    have "take ?n (content st) = take n (content st)" "drop ?n (content st) = drop n (content st)"
      by (simp_all add: min_def)
    with r False assms restored ring_ok_popped [OF assms(1), of ?n] content_popped [of ?n st] show ?thesis
      by (auto simp: pipe_read_def queue_read_def eq, simp_all add: popped_def split: if_splits)
  qed
qed

lemma same_reader_sideD:
  assumes "same_reader_side st st'"
  shows "pipe_capacity st' = pipe_capacity st" "reader_count st' = reader_count st" "writer_count st' = writer_count st"
    "read_waiters st' = read_waiters st" "write_waiters st' = write_waiters st"
proof -
  have "st'\<lparr>pipe_buffer := pipe_buffer st, pipe_size := pipe_size st, write_offset := write_offset st\<rparr> = st"
    using assms by (simp add: same_reader_side_def)
  from arg_cong [OF this, of pipe_capacity] arg_cong [OF this, of reader_count] arg_cong [OF this, of writer_count]
    arg_cong [OF this, of read_waiters] arg_cong [OF this, of write_waiters]
  show "pipe_capacity st' = pipe_capacity st" "reader_count st' = reader_count st" "writer_count st' = writer_count st"
    "read_waiters st' = read_waiters st" "write_waiters st' = write_waiters st"
    by simp_all
qed

lemma pipe_write_correct:
  assumes "ring_ok st" "m_side p = WRITE" "\<not> m_is_closed p"
  shows "\<exists>r st' ws. pipe_write buf n p st = Some (r, st', ws) \<and> (r, content st') = queue_write (pipe_capacity st) buf n (content st)
    \<and> ring_ok st' \<and> pipe_capacity st' = pipe_capacity st
    \<and> reader_count st' = reader_count st \<and> writer_count st' = writer_count st \<and> write_waiters st' = write_waiters st
    \<and> (if isl r \<or> pipe_size st = pipe_capacity st then read_waiters st' = read_waiters st \<and> ws = []
       else read_waiters st' = [] \<and> ws = read_waiters st)"
proof (cases "pipe_size st = pipe_capacity st")
  case True
  then show ?thesis
    using assms by (simp add: pipe_write_def queue_write_def)
next
  case False
  let ?n = "min n (pipe_capacity st - pipe_size st)"
  have free: "pipe_capacity st - pipe_size st \<noteq> 0"
    using assms(1) False by (simp add: ring_ok_def)
  obtain st' where st': "write_loop buf st ?n 0 = Some (if ?n \<le> length buf then Inr st' else Inl st')" "same_reader_side st st'"
    "?n \<le> length buf \<longrightarrow> ring_ok st' \<and> content st' = content st @ take ?n buf"
    using write_loop_correct [OF assms(1), of ?n 0 buf] by auto
  let ?r = "st'\<lparr>write_offset := write_offset st, pipe_size := pipe_size st\<rparr>"
  have r: "ring_ok ?r" "content ?r = content st"
    using st'(2) by (simp_all add: same_reader_side_def ring_ok_def content_def)
  have eq: "ring_ok (st\<lparr>read_waiters := ws\<rparr>) = ring_ok st" "content (st\<lparr>read_waiters := ws\<rparr>) = content st" for st ws
    by (simp_all add: ring_ok_def content_def)
  show ?thesis
    using st' r free assms False same_reader_sideD [OF st'(2)]
    by (cases "?n \<le> length buf") (simp_all add: pipe_write_def queue_write_def eq Let_def)
qed

subsection \<open>A pipe and its ends\<close>

record pipe_system =
  shared :: pipe_state
  ends :: "pipe list"

definition open_ends :: "side \<Rightarrow> pipe list \<Rightarrow> nat" where
  "open_ends s es = length (filter (\<lambda>p. m_side p = s \<and> \<not> m_is_closed p) es)"

text \<open>
  Every operation on some end is a step. The number of ends stays below \<open>2 ^ 64\<close>, as every end
  is an object in memory.
\<close>

definition end_limit :: nat where
  "end_limit = 2 ^ 64"

inductive pipe_step :: "pipe_system \<Rightarrow> pipe_system \<Rightarrow> bool" where
  clone: "i < length (ends y) \<Longrightarrow> pipe_clone s (ends y ! i) (shared y) = (Inr p, st') \<Longrightarrow> Suc (length (ends y)) < end_limit \<Longrightarrow>
    pipe_step y \<lparr>shared = st', ends = ends y @ [p]\<rparr>"
| read: "i < length (ends y) \<Longrightarrow> pipe_read room n (ends y ! i) (shared y) = Some (r, st', ws) \<Longrightarrow>
    pipe_step y (y\<lparr>shared := st'\<rparr>)"
| "write": "i < length (ends y) \<Longrightarrow> pipe_write buf n (ends y ! i) (shared y) = Some (r, st', ws) \<Longrightarrow>
    pipe_step y (y\<lparr>shared := st'\<rparr>)"
| close: "i < length (ends y) \<Longrightarrow> pipe_close (ends y ! i) (shared y) = (Inr p, st', ws) \<Longrightarrow>
    pipe_step y \<lparr>shared = st', ends = (ends y)[i := p]\<rparr>"
| wait_readable: "i < length (ends y) \<Longrightarrow> block_until_readable t (ends y ! i) (shared y) = (r, st') \<Longrightarrow>
    pipe_step y (y\<lparr>shared := st'\<rparr>)"
| wait_writable: "i < length (ends y) \<Longrightarrow> block_until_writable t (ends y ! i) (shared y) = (r, st') \<Longrightarrow>
    pipe_step y (y\<lparr>shared := st'\<rparr>)"
| resume_reader: "pipe_step y (y\<lparr>shared := finish_read_wait t (shared y)\<rparr>)"
| resume_writer: "pipe_step y (y\<lparr>shared := finish_write_wait t (shared y)\<rparr>)"

text \<open>The capacity does not wrap to zero when it is rounded up to pages.\<close>

inductive pipe_reach :: "pipe_system \<Rightarrow> bool" where
  create: "pipe_create fresh s cap = Inr (p, st) \<Longrightarrow> page_round_up cap \<noteq> 0 \<Longrightarrow> pipe_reach \<lparr>shared = st, ends = [p]\<rparr>"
| step: "pipe_reach y \<Longrightarrow> pipe_step y y' \<Longrightarrow> pipe_reach y'"

definition pipe_inv :: "pipe_system \<Rightarrow> bool" where
  "pipe_inv y \<longleftrightarrow>
     ring_ok (shared y) \<and> length (ends y) < end_limit
     \<and> reader_count (shared y) = word_of_nat (open_ends READ (ends y))
     \<and> writer_count (shared y) = word_of_nat (open_ends WRITE (ends y))
     \<and> (read_waiters (shared y) \<noteq> [] \<longrightarrow> pipe_size (shared y) = 0 \<and> 0 < open_ends WRITE (ends y))
     \<and> (write_waiters (shared y) \<noteq> [] \<longrightarrow> pipe_size (shared y) = pipe_capacity (shared y) \<and> 0 < open_ends READ (ends y))"

lemma open_ends_le: "open_ends s es \<le> length es"
  by (simp add: open_ends_def)

lemma open_ends_snoc:
  "open_ends s (es @ [p]) = open_ends s es + (if m_side p = s \<and> \<not> m_is_closed p then 1 else 0)"
  by (simp add: open_ends_def)

lemma open_ends_member: "i < length es \<Longrightarrow> \<not> m_is_closed (es ! i) \<Longrightarrow> 0 < open_ends (m_side (es ! i)) es"
  using nth_mem [of i es] by (auto simp: open_ends_def filter_empty_conv)

lemma open_ends_close:
  "i < length es \<Longrightarrow> \<not> m_is_closed (es ! i) \<Longrightarrow>
   open_ends s (es[i := (es ! i)\<lparr>m_is_closed := True\<rparr>]) = open_ends s es - (if m_side (es ! i) = s then 1 else 0)"
proof (induction es arbitrary: i)
  case (Cons e es)
  show ?case
  proof (cases i)
    case (Suc j)
    then show ?thesis
      using Cons.IH [of j] Cons.prems open_ends_member [of j es] by (auto simp: open_ends_def)
  qed (use Cons.prems in \<open>auto simp: open_ends_def\<close>)
qed simp

lemma end_count_0: "n < end_limit \<Longrightarrow> (word_of_nat n = (0 :: size_t)) = (n = 0)"
proof -
  assume "n < end_limit"
  then have "unat (word_of_nat n :: size_t) = n"
    unfolding end_limit_def by (rule unat_word_of_nat_64)
  then show ?thesis
    by (cases "n = 0") (simp, metis unsigned_0)
qed

lemma end_count_pred: "0 < n \<Longrightarrow> word_of_nat n - 1 = (word_of_nat (n - 1) :: size_t)"
  by (simp add: of_nat_diff)

lemma queue_read_size:
  "(r, q') = queue_read room n q \<Longrightarrow> length q' \<le> length q \<and> (isl r \<or> length q = 0 \<longrightarrow> length q' = length q)"
  by (auto simp: queue_read_def split: if_splits)

lemma queue_write_size:
  "(r, q') = queue_write cap buf n q \<Longrightarrow> length q \<le> length q' \<and> (isl r \<or> length q = cap \<longrightarrow> length q' = length q)"
  by (auto simp: queue_write_def Let_def split: if_splits)

lemma ring_ok_waiters [simp]:
  "ring_ok (st\<lparr>read_waiters := ws\<rparr>) = ring_ok st" "ring_ok (st\<lparr>write_waiters := ws\<rparr>) = ring_ok st"
  "ring_ok (st\<lparr>reader_count := n\<rparr>) = ring_ok st" "ring_ok (st\<lparr>writer_count := n\<rparr>) = ring_ok st"
  by (simp_all add: ring_ok_def)

lemma pipe_inv_read:
  assumes "pipe_inv y" "pipe_read room n p (shared y) = Some (r, st', ws)"
  shows "pipe_inv (y\<lparr>shared := st'\<rparr>)"
proof (cases "m_side p = READ \<and> \<not> m_is_closed p")
  case True
  then have st': "(r, content st') = queue_read room n (content (shared y))" "ring_ok st'" "pipe_capacity st' = pipe_capacity (shared y)"
    "reader_count st' = reader_count (shared y)" "writer_count st' = writer_count (shared y)"
    "read_waiters st' = read_waiters (shared y)"
    "if isl r \<or> pipe_size (shared y) = 0 then write_waiters st' = write_waiters (shared y) else write_waiters st' = []"
    using pipe_read_correct [of "shared y" p room n] assms by (auto simp: pipe_inv_def split: if_splits)
  have "pipe_size st' \<le> pipe_size (shared y)" "isl r \<or> pipe_size (shared y) = 0 \<longrightarrow> pipe_size st' = pipe_size (shared y)"
    using queue_read_size [OF st'(1)] by simp_all
  with st'(2-) assms(1) show ?thesis
    by (auto simp: pipe_inv_def split: if_splits)
next
  case False
  then have "st' = shared y"
    using assms(2) side.exhaust by (auto simp: pipe_read_def split: if_splits)
  with assms(1) show ?thesis
    by simp
qed

lemma pipe_inv_write:
  assumes "pipe_inv y" "pipe_write buf n p (shared y) = Some (r, st', ws)"
  shows "pipe_inv (y\<lparr>shared := st'\<rparr>)"
proof (cases "m_side p = WRITE \<and> \<not> m_is_closed p")
  case True
  let ?q = "content (shared y)"
  have st': "(r, content st') = queue_write (pipe_capacity (shared y)) buf n ?q" "ring_ok st'"
    "pipe_capacity st' = pipe_capacity (shared y)"
    "reader_count st' = reader_count (shared y)" "writer_count st' = writer_count (shared y)"
    "write_waiters st' = write_waiters (shared y)"
    "if isl r \<or> pipe_size (shared y) = pipe_capacity (shared y) then read_waiters st' = read_waiters (shared y) else read_waiters st' = []"
    using pipe_write_correct [of "shared y" p buf n] True assms by (auto simp: pipe_inv_def split: if_splits)
  have "isl r \<or> pipe_size (shared y) = pipe_capacity (shared y) \<longrightarrow> pipe_size st' = pipe_size (shared y)"
    "pipe_size (shared y) \<le> pipe_size st'" "pipe_size st' \<le> pipe_capacity st'"
    using queue_write_size [OF st'(1)] st'(2) by (simp_all add: ring_ok_def)
  with st'(2-) assms(1) show ?thesis
    by (auto simp: pipe_inv_def split: if_splits)
next
  case False
  then have "st' = shared y"
    using assms(2) side.exhaust by (auto simp: pipe_write_def split: if_splits)
  with assms(1) show ?thesis
    by simp
qed

lemma pipe_inv_close:
  assumes inv: "pipe_inv y" and i: "i < length (ends y)" and close: "pipe_close (ends y ! i) (shared y) = (Inr p, st', ws)"
  shows "pipe_inv \<lparr>shared = st', ends = (ends y)[i := p]\<rparr>"
proof -
  let ?e = "ends y ! i"
  have e: "\<not> m_is_closed ?e" "p = ?e\<lparr>m_is_closed := True\<rparr>"
    using close by (auto simp: pipe_close_def Let_def split: if_splits)
  have n: "open_ends s ((ends y)[i := p]) = open_ends s (ends y) - (if m_side ?e = s then 1 else 0)" for s
    using open_ends_close [OF i e(1)] e(2) by simp
  have pos: "0 < open_ends (m_side ?e) (ends y)"
    by (rule open_ends_member [OF i e(1)])
  have "open_ends s (ends y) - 1 < end_limit" for s
    using inv open_ends_le [of s "ends y"] unfolding pipe_inv_def by linarith
  note count = end_count_0 [OF this] end_count_pred
  show ?thesis
  proof (cases "m_side ?e")
    case READ
    let ?k = "open_ends READ (ends y) - 1"
    have "reader_count (shared y) - 1 = word_of_nat ?k"
      using inv pos READ count(2) by (simp add: pipe_inv_def)
    then have "st' = (if ?k = 0 then (shared y)\<lparr>reader_count := word_of_nat ?k, write_waiters := []\<rparr>
        else (shared y)\<lparr>reader_count := word_of_nat ?k\<rparr>)"
      using close e(1) READ count(1) [of READ] by (simp add: pipe_close_def Let_def split: if_splits)
    then show ?thesis
      using inv n READ by (cases "?k = 0") (simp_all add: pipe_inv_def)
  next
    case WRITE
    let ?k = "open_ends WRITE (ends y) - 1"
    have "writer_count (shared y) - 1 = word_of_nat ?k"
      using inv pos WRITE count(2) by (simp add: pipe_inv_def)
    then have "st' = (if ?k = 0 then (shared y)\<lparr>writer_count := word_of_nat ?k, read_waiters := []\<rparr>
        else (shared y)\<lparr>writer_count := word_of_nat ?k\<rparr>)"
      using close e(1) WRITE count(1) [of WRITE] by (simp add: pipe_close_def Let_def split: if_splits)
    then show ?thesis
      using inv n WRITE by (cases "?k = 0") (simp_all add: pipe_inv_def)
  qed
qed

lemma pipe_inv_clone:
  assumes "pipe_inv y" "pipe_clone s e (shared y) = (Inr p, st')" "Suc (length (ends y)) < end_limit"
  shows "pipe_inv \<lparr>shared = st', ends = ends y @ [p]\<rparr>"
  using assms by (cases s) (auto simp: pipe_clone_def count_end_def pipe_inv_def open_ends_snoc split: if_splits)

lemma pipe_inv_wait:
  assumes "pipe_inv y"
  shows "block_until_readable t p (shared y) = (r, st') \<Longrightarrow> pipe_inv (y\<lparr>shared := st'\<rparr>)"
    and "block_until_writable t p (shared y) = (r, st') \<Longrightarrow> pipe_inv (y\<lparr>shared := st'\<rparr>)"
    and "pipe_inv (y\<lparr>shared := finish_read_wait t (shared y)\<rparr>)"
    and "pipe_inv (y\<lparr>shared := finish_write_wait t (shared y)\<rparr>)"
proof -
  have "word_of_nat (open_ends s (ends y)) \<noteq> (0 :: size_t) \<Longrightarrow> 0 < open_ends s (ends y)" for s
    by (cases "open_ends s (ends y)") simp_all
  with assms show "block_until_readable t p (shared y) = (r, st') \<Longrightarrow> pipe_inv (y\<lparr>shared := st'\<rparr>)"
    "block_until_writable t p (shared y) = (r, st') \<Longrightarrow> pipe_inv (y\<lparr>shared := st'\<rparr>)"
    by (auto simp: pipe_inv_def block_until_readable_def block_until_writable_def split: if_splits)
  show "pipe_inv (y\<lparr>shared := finish_read_wait t (shared y)\<rparr>)" "pipe_inv (y\<lparr>shared := finish_write_wait t (shared y)\<rparr>)"
    using assms by (auto simp: pipe_inv_def finish_read_wait_def finish_write_wait_def)
qed

lemma pipe_step_inv: "pipe_step y y' \<Longrightarrow> pipe_inv y \<Longrightarrow> pipe_inv y'"
  by (induction rule: pipe_step.induct)
    (blast intro: pipe_inv_clone pipe_inv_read pipe_inv_write pipe_inv_close pipe_inv_wait)+

lemma pipe_reach_inv: "pipe_reach y \<Longrightarrow> pipe_inv y"
proof (induction rule: pipe_reach.induct)
  case (create fresh s cap p st)
  moreover have "0 < unat (page_round_up cap)"
    using create(2) by (simp add: unat_gt_0)
  moreover have "1 < end_limit"
    by (simp add: end_limit_def)
  ultimately show ?case
    by (cases s) (auto simp: pipe_create_def Let_def count_end_def pipe_inv_def ring_ok_def open_ends_def bind_res_eq_Inr)
qed (blast intro: pipe_step_inv)

subsection \<open>Properties\<close>

text \<open>
  \<^verbatim>\<open>IOStream.h\<close> asks of every \<^verbatim>\<open>write\<close> that it writes all bytes or nothing, unless it
  returns an error. \<open>before\<close> and \<open>after\<close> are what the stream holds.
\<close>

definition all_or_nothing :: "u8 list \<Rightarrow> nat \<Rightarrow> u8 list \<Rightarrow> error_code + nat \<Rightarrow> u8 list \<Rightarrow> bool" where
  "all_or_nothing buf n before res after \<longleftrightarrow> isl res \<or> after = before \<or> res = Inr n \<and> after = before @ take n buf"

lemma queue_write_contract:
  "length q \<le> cap \<Longrightarrow> queue_write cap buf n q = (res, q') \<Longrightarrow>
     all_or_nothing buf n q res q' \<longleftrightarrow> \<not> (0 < cap - length q \<and> cap - length q < n \<and> cap - length q \<le> length buf)"
  by (auto simp: queue_write_def all_or_nothing_def min_def Let_def split: if_splits)

text \<open>
  C23: an open pipe is a bounded queue of bytes. A read takes the oldest bytes, as many as there
  are up to the number asked for; a write appends the first bytes of the buffer, as many as
  there is room for; both return how many. When the user's memory faults, the operation
  fails and the queue is as before, even if the fault comes after the ring wrapped around.
  The write departs from the contract in \<^verbatim>\<open>IOStream.h\<close>, to write all bytes or nothing, in
  exactly one case: when there is room for some of the bytes but not for all, it writes those and returns
  their number, not an error.
\<close>

theorem pipe_refines_queue:
  assumes "ring_ok st" and "m_side r = READ" and "\<not> m_is_closed r" and "m_side w = WRITE" and "\<not> m_is_closed w"
  shows "(\<exists>res st' ws. pipe_read room n r st = Some (res, st', ws) \<and> ring_ok st' \<and> pipe_capacity st' = pipe_capacity st
      \<and> (res, content st') = queue_read room n (content st))
    \<and> (\<exists>res st' ws. pipe_write buf n w st = Some (res, st', ws) \<and> ring_ok st' \<and> pipe_capacity st' = pipe_capacity st
      \<and> (res, content st') = queue_write (pipe_capacity st) buf n (content st)
      \<and> (all_or_nothing buf n (content st) res (content st') \<longleftrightarrow>
           \<not> (0 < pipe_capacity st - pipe_size st \<and> pipe_capacity st - pipe_size st < n \<and> pipe_capacity st - pipe_size st \<le> length buf)))"
proof -
  have len: "length (content st) = pipe_size st" "pipe_size st \<le> pipe_capacity st"
    using assms(1) by (simp_all add: ring_ok_def content_def)
  then show ?thesis
    using pipe_read_correct [OF assms(1-3), of room n] pipe_write_correct [OF assms(1,4,5), of buf n]
      queue_write_contract [of "content st" "pipe_capacity st" buf n] by (metis len)
qed

text \<open>A ring of four bytes that holds the bytes 7 and 8 across its end.\<close>

definition sample_ring :: pipe_state where
  "sample_ring = \<lparr>reader_count = 1, writer_count = 1, read_offset = 3, write_offset = 1, pipe_capacity = 4, pipe_size = 2,
     read_waiters = [], write_waiters = [], pipe_buffer = [8, 0, 0, 7]\<rparr>"

theorem pipe_refines_queue_witness:
  "ring_ok sample_ring \<and> content sample_ring = [7, 8]
   \<and> (\<exists>st' ws. pipe_read 5 5 \<lparr>m_side = READ, m_is_closed = False\<rparr> sample_ring = Some (Inr (2, [7, 8]), st', ws) \<and> content st' = [])
   \<and> (\<exists>st' ws. pipe_write [1, 2, 3] 5 \<lparr>m_side = WRITE, m_is_closed = False\<rparr> sample_ring = Some (Inr 2, st', ws)
        \<and> content st' = [7, 8, 1, 2])"
proof -
  have "ring_ok sample_ring" "content sample_ring = [7, 8]" "pipe_capacity sample_ring = 4"
    by (simp_all add: ring_ok_def content_def sample_ring_def upt_rec)
  then show ?thesis
    using pipe_refines_queue [of sample_ring "\<lparr>m_side = READ, m_is_closed = False\<rparr>" "\<lparr>m_side = WRITE, m_is_closed = False\<rparr>" 5 5 "[1, 2, 3]"]
    by (auto simp: queue_read_def queue_write_def)
qed

text \<open>
  C24: no wake-up is lost. Whatever the ends of a pipe do, in every reachable state threads wait to
  read only while the pipe is empty and an open end can still write to it, and threads wait
  to write only while it is full and an open end can still read from it; and the next successful
  write, or read, that moves a byte unblocks all of them.
\<close>

theorem pipe_no_lost_wakeup:
  assumes "pipe_reach y"
  shows "(read_waiters (shared y) \<noteq> [] \<longrightarrow> content (shared y) = [] \<and> 0 < open_ends WRITE (ends y)
        \<and> (\<forall>w \<in> set (ends y). \<forall>buf n. m_side w = WRITE \<longrightarrow> \<not> m_is_closed w \<longrightarrow> 0 < n \<longrightarrow> n \<le> length buf \<longrightarrow>
             (\<exists>k st'. pipe_write buf n w (shared y) = Some (Inr k, st', read_waiters (shared y)) \<and> 0 < k \<and> read_waiters st' = [])))
    \<and> (write_waiters (shared y) \<noteq> [] \<longrightarrow> length (content (shared y)) = pipe_capacity (shared y) \<and> 0 < open_ends READ (ends y)
        \<and> (\<forall>r \<in> set (ends y). \<forall>room n. m_side r = READ \<longrightarrow> \<not> m_is_closed r \<longrightarrow> 0 < n \<longrightarrow> n \<le> room \<longrightarrow>
             (\<exists>k out st'. pipe_read room n r (shared y) = Some (Inr (k, out), st', write_waiters (shared y)) \<and> 0 < k \<and> write_waiters st' = [])))"
proof -
  let ?st = "shared y"
  have inv: "ring_ok ?st" "read_waiters ?st \<noteq> [] \<longrightarrow> pipe_size ?st = 0 \<and> 0 < open_ends WRITE (ends y)"
    "write_waiters ?st \<noteq> [] \<longrightarrow> pipe_size ?st = pipe_capacity ?st \<and> 0 < open_ends READ (ends y)"
    using pipe_reach_inv [OF assms] by (simp_all add: pipe_inv_def)
  have cap: "0 < pipe_capacity ?st"
    using inv(1) by (simp add: ring_ok_def)
  have "\<exists>k st'. pipe_write buf n w ?st = Some (Inr k, st', read_waiters ?st) \<and> 0 < k \<and> read_waiters st' = []"
    if "pipe_size ?st = 0" "m_side w = WRITE" "\<not> m_is_closed w" "0 < n" "n \<le> length buf" for w buf n
    using pipe_write_correct [OF inv(1) that(2,3), of buf n] that cap
    by (auto simp: queue_write_def Let_def split: if_splits)
  moreover have "\<exists>k out st'. pipe_read room n r ?st = Some (Inr (k, out), st', write_waiters ?st) \<and> 0 < k \<and> write_waiters st' = []"
    if "pipe_size ?st = pipe_capacity ?st" "m_side r = READ" "\<not> m_is_closed r" "0 < n" "n \<le> room" for r room n
    using pipe_read_correct [OF inv(1) that(2,3), of room n] that cap
    by (auto simp: queue_read_def split: if_splits)
  moreover have "content ?st = []" if "pipe_size ?st = 0"
    using that by (simp add: content_def)
  ultimately show ?thesis
    using inv(2,3) by simp
qed

theorem pipe_no_lost_wakeup_witness:
  "\<exists>y. pipe_reach y \<and> read_waiters (shared y) = [7] \<and> content (shared y) = [] \<and> 0 < open_ends WRITE (ends y)"
proof -
  let ?r = "\<lparr>m_side = READ, m_is_closed = False\<rparr>" and ?w = "\<lparr>m_side = WRITE, m_is_closed = False\<rparr>"
  let ?st = "\<lparr>reader_count = 1, writer_count = 0, read_offset = 0, write_offset = 0, pipe_capacity = unat (page_round_up 1),
    pipe_size = 0, read_waiters = [], write_waiters = [], pipe_buffer = map (\<lambda>_. 0) [0..<unat (page_round_up 1)]\<rparr>"
  let ?st1 = "?st\<lparr>writer_count := 1\<rparr>"
  let ?y = "\<lparr>shared = ?st1\<lparr>read_waiters := [7]\<rparr>, ends = [?r, ?w]\<rparr>"
  have "unat (page_round_up 1) \<noteq> 0"
    by (simp add: unat_page_round_up)
  then have "page_round_up 1 \<noteq> 0"
    by auto
  then have "pipe_reach \<lparr>shared = ?st, ends = [?r]\<rparr>"
    by (intro pipe_reach.create [where fresh = "\<lambda>_. 0" and s = READ and cap = 1]) (simp_all add: pipe_create_def count_end_def Let_def)
  moreover have "pipe_step \<lparr>shared = ?st, ends = [?r]\<rparr> \<lparr>shared = ?st1, ends = [?r, ?w]\<rparr>"
    using pipe_step.clone [of 0 "\<lparr>shared = ?st, ends = [?r]\<rparr>" WRITE ?w ?st1]
    by (simp add: pipe_clone_def count_end_def end_limit_def)
  moreover have "pipe_step \<lparr>shared = ?st1, ends = [?r, ?w]\<rparr> ?y"
    using pipe_step.wait_readable [of 0 "\<lparr>shared = ?st1, ends = [?r, ?w]\<rparr>" 7 "Inr True" "?st1\<lparr>read_waiters := [7]\<rparr>"]
    by (simp add: block_until_readable_def)
  ultimately have y: "pipe_reach ?y"
    by (blast intro: pipe_reach.step)
  then show ?thesis
    using pipe_no_lost_wakeup [OF y] by (intro exI [of _ ?y]) simp
qed

end
