(* ===== verification/Scheduler.thy ===== *)
theory Scheduler
  imports Kernel_Prelude
begin

text \<open>
  \<^verbatim>\<open>Kernel/Multitasking\<close>: threads, blockers, processes, the queues of the scheduler and of the
  task finalizer. Threads, processes, blockers and processors are numbers that stand for the
  objects. The lock of the queues makes each operation one step; an operation that ends in
  \<^verbatim>\<open>pick_next\<close> runs with interrupts disabled and is one step with it. A thread is a list node,
  so that it can be on one queue at most: \<^verbatim>\<open>set_my_list\<close> asserts it. Stacks, registers and
  address spaces are left out; the time since boot is an argument.
\<close>

type_synonym tid = nat
type_synonym pid = nat
type_synonym bid = nat
type_synonym cpu = nat

datatype thread_state = UNDEFINED | RUNNING | DEAD | BLOCKED | READY

datatype blocker_type = DISK_IO | MUTEX | IO | PROCESS_LOAD | SLEEP | IRQ

datatype block_result = NO_RESULT | UNBLOCKED | INTERRUPTED | TIMEOUT

datatype process_state = ALIVE | EXITING | EXITED

record blocker =
  b_thread :: tid
  b_type :: blocker_type
  b_wake_time :: u64
  b_result :: block_result
  b_should_block :: bool

record thread =
  t_owner :: pid
  t_state :: thread_state
  t_blocker :: "bid option"
  t_requested :: thread_state
  t_should_die :: bool
  t_invulnerable :: bool
  t_kill_all :: bool
  t_exit_code :: "32 word"

record process =
  p_state :: process_state
  p_exit_code :: "32 word"
  p_alive :: u32
  p_threads :: "tid list"

record scheduler =
  threads :: "tid \<Rightarrow> thread"
  processes :: "pid \<Rightarrow> process"
  blockers :: "bid \<Rightarrow> blocker"
  registered :: "pid list"
  sleeping :: "bid list"
  deferred :: "tid list"
  ready :: "tid list"
  finalizer :: "tid list"
  processes_to_free :: "pid list"
  cpus :: nat
  current :: "cpu \<Rightarrow> tid"
  idle :: "cpu \<Rightarrow> tid"

definition upd_thread :: "tid \<Rightarrow> (thread \<Rightarrow> thread) \<Rightarrow> scheduler \<Rightarrow> scheduler" where
  "upd_thread t f s = s\<lparr>threads := (threads s)(t := f (threads s t))\<rparr>"

definition upd_process :: "pid \<Rightarrow> (process \<Rightarrow> process) \<Rightarrow> scheduler \<Rightarrow> scheduler" where
  "upd_process p f s = s\<lparr>processes := (processes s)(p := f (processes s p))\<rparr>"

definition upd_blocker :: "bid \<Rightarrow> (blocker \<Rightarrow> blocker) \<Rightarrow> scheduler \<Rightarrow> scheduler" where
  "upd_blocker b f s = s\<lparr>blockers := (blockers s)(b := f (blockers s b))\<rparr>"

abbreviation state_of :: "scheduler \<Rightarrow> tid \<Rightarrow> thread_state" where
  "state_of s t \<equiv> t_state (threads s t)"

abbreviation owner_of :: "scheduler \<Rightarrow> tid \<Rightarrow> pid" where
  "owner_of s t \<equiv> t_owner (threads s t)"

abbreviation blocker_of :: "scheduler \<Rightarrow> tid \<Rightarrow> bid option" where
  "blocker_of s t \<equiv> t_blocker (threads s t)"

definition set_state :: "tid \<Rightarrow> thread_state \<Rightarrow> scheduler \<Rightarrow> scheduler" where
  "set_state t x = upd_thread t (t_state_update (\<lambda>_. x))"

subsection \<open>The queues\<close>

definition on_a_list :: "scheduler \<Rightarrow> tid \<Rightarrow> bool" where
  "on_a_list s t \<longleftrightarrow> t \<in> set (ready s) \<or> t \<in> set (deferred s) \<or> t \<in> set (finalizer s)"

definition insert_ready :: "tid \<Rightarrow> scheduler \<Rightarrow> scheduler res" where
  "insert_ready t s = bind_res (assert_that (\<not> on_a_list s t)) (\<lambda>_. Inr (s\<lparr>ready := ready s @ [t]\<rparr>))"

definition insert_deferred :: "tid \<Rightarrow> scheduler \<Rightarrow> scheduler res" where
  "insert_deferred t s = bind_res (assert_that (\<not> on_a_list s t)) (\<lambda>_. Inr (s\<lparr>deferred := deferred s @ [t]\<rparr>))"

text \<open>
  \<^verbatim>\<open>TaskFinalizer::free_thread\<close>. The finalizer has two queues, which it swaps before it works off
  one of them, and threads that are freed meanwhile go to the other: its threads leave in the
  order in which they came, so that one list stands for both. The finalizer exists from the
  start, and the assertion of \<^verbatim>\<open>TaskFinalizer::the\<close> is left out.
\<close>

definition free_thread :: "tid \<Rightarrow> scheduler \<Rightarrow> scheduler res" where
  "free_thread t s = bind_res (assert_that (\<not> on_a_list s t)) (\<lambda>_. Inr (s\<lparr>finalizer := finalizer s @ [t]\<rparr>))"

definition pop_off :: "tid \<Rightarrow> scheduler \<Rightarrow> scheduler res" where
  "pop_off t s = bind_res (assert_that (on_a_list s t)) (\<lambda>_.
     Inr (s\<lparr>ready := remove1 t (ready s), deferred := remove1 t (deferred s), finalizer := remove1 t (finalizer s)\<rparr>))"

subsection \<open>Blockers and threads\<close>

definition is_interruptable :: "blocker_type \<Rightarrow> bool" where
  "is_interruptable ty \<longleftrightarrow> ty \<notin> {DISK_IO, MUTEX, PROCESS_LOAD}"

definition set_result :: "bid \<Rightarrow> block_result \<Rightarrow> scheduler \<Rightarrow> scheduler" where
  "set_result b r s =
     (if b_result (blockers s b) = NO_RESULT
      then upd_blocker b (\<lambda>x. x\<lparr>b_result := r, b_should_block := False\<rparr>) s else s)"

text \<open>A new blocker object.\<close>

definition make_blocker :: "bid \<Rightarrow> tid \<Rightarrow> blocker_type \<Rightarrow> u64 \<Rightarrow> scheduler \<Rightarrow> scheduler" where
  "make_blocker b t ty wake_time =
     upd_blocker b (\<lambda>_. \<lparr>b_thread = t, b_type = ty, b_wake_time = wake_time, b_result = NO_RESULT, b_should_block = True\<rparr>)"

definition thread_block :: "tid \<Rightarrow> bid \<Rightarrow> scheduler \<Rightarrow> scheduler res" where
  "thread_block t b s =
     bind_res (assert_that (blocker_of s t = None)) (\<lambda>_.
       Inr (upd_thread t (\<lambda>x. x\<lparr>t_blocker := Some b,
              t_requested := (if t_requested x = UNDEFINED then BLOCKED else t_requested x)\<rparr>) s))"

definition thread_unblock :: "tid \<Rightarrow> scheduler \<Rightarrow> scheduler res" where
  "thread_unblock t s =
     (case blocker_of s t of
        None \<Rightarrow> Inl Assertion
      | Some b \<Rightarrow>
          let s = (if b_should_block (blockers s b) then set_result b UNBLOCKED s else s);
              s = upd_thread t (t_blocker_update (\<lambda>_. None)) s
          in Inr (if state_of s t = BLOCKED then set_state t READY s else s))"

definition thread_interrupt :: "tid \<Rightarrow> scheduler \<Rightarrow> (bool \<times> scheduler) res" where
  "thread_interrupt t s =
     (case blocker_of s t of
        None \<Rightarrow> Inl Assertion
      | Some b \<Rightarrow>
          if \<not> is_interruptable (b_type (blockers s b)) then Inr (False, s)
          else Inr (True, set_state t READY (upd_thread t (t_blocker_update (\<lambda>_. None)) (set_result b INTERRUPTED s))))"

definition thread_exit :: "tid \<Rightarrow> 32 word \<Rightarrow> scheduler \<Rightarrow> scheduler" where
  "thread_exit t code = upd_thread t (\<lambda>x. x\<lparr>t_should_die := True, t_exit_code := code\<rparr>)"

definition set_invulnerable :: "tid \<Rightarrow> bool \<Rightarrow> scheduler \<Rightarrow> scheduler" where
  "set_invulnerable t v = upd_thread t (t_invulnerable_update (\<lambda>_. v))"

definition deactivate :: "tid \<Rightarrow> scheduler \<Rightarrow> scheduler" where
  "deactivate t s = (if state_of s t = RUNNING then set_state t READY s else s)"

definition activate :: "cpu \<Rightarrow> tid \<Rightarrow> scheduler \<Rightarrow> scheduler res" where
  "activate c t s =
     bind_res (assert_that (state_of s t = READY)) (\<lambda>_. Inr ((set_state t RUNNING s)\<lparr>current := (current s)(c := t)\<rparr>))"

subsection \<open>Processes\<close>

definition process_exit :: "pid \<Rightarrow> 32 word \<Rightarrow> scheduler \<Rightarrow> bool \<times> scheduler" where
  "process_exit p code s =
     (if p_state (processes s p) = ALIVE
      then (True, upd_process p (\<lambda>x. x\<lparr>p_state := EXITING, p_exit_code := code\<rparr>) s)
      else (False, s))"

definition increment_alive_thread_count :: "pid \<Rightarrow> scheduler \<Rightarrow> scheduler" where
  "increment_alive_thread_count p = upd_process p (\<lambda>x. x\<lparr>p_alive := p_alive x + 1\<rparr>)"

definition decrement_alive_thread_count :: "pid \<Rightarrow> scheduler \<Rightarrow> (u32 \<times> scheduler) res" where
  "decrement_alive_thread_count p s =
     (let v = p_alive (processes s p); s = upd_process p (\<lambda>x. x\<lparr>p_alive := v - 1\<rparr>) s
      in bind_res (assert_that (v \<noteq> 0)) (\<lambda>_. Inr (v - 1, s)))"

subsection \<open>Operations on the queues\<close>

definition unblock_unchecked :: "bid \<Rightarrow> scheduler \<Rightarrow> scheduler res" where
  "unblock_unchecked b s =
     (let t = b_thread (blockers s b)
      in if state_of s t \<noteq> BLOCKED then Inr (set_result b UNBLOCKED s)
         else bind_res (thread_unblock t s) (insert_ready t))"

fun wake_loop :: "u64 \<Rightarrow> bid list \<Rightarrow> scheduler \<Rightarrow> scheduler res" where
  "wake_loop now [] s = Inr s"
| "wake_loop now (b # bs) s =
     (if b_wake_time (blockers s b) \<le> now
      then bind_res (unblock_unchecked b (s\<lparr>sleeping := bs\<rparr>)) (wake_loop now bs) else Inr s)"

definition wake_ready_threads :: "u64 \<Rightarrow> scheduler \<Rightarrow> scheduler res" where
  "wake_ready_threads now s = wake_loop now (sleeping s) s"

text \<open>
  The loop over the deferred threads moves its iterator twice per round. The list is a circle
  through its end node: after the last node is popped the iterator steps past the end to the
  first node that was skipped. It gives the nodes left and the nodes freed.
\<close>

function deferred_loop :: "tid list \<Rightarrow> tid list \<Rightarrow> tid list \<Rightarrow> tid list \<times> tid list" where
  "deferred_loop skipped [] freed = (skipped, freed)"
| "deferred_loop skipped [t] freed = deferred_loop [] skipped (freed @ [t])"
| "deferred_loop skipped (t # u # ts) freed = deferred_loop (skipped @ [u]) ts (freed @ [t])"
  by pat_completeness auto

termination deferred_loop
  by (relation "measure (\<lambda>(skipped, ts, freed). length skipped + length ts)") auto

definition free_deferred_threads :: "scheduler \<Rightarrow> scheduler" where
  "free_deferred_threads s =
     (let (left, freed) = deferred_loop [] (deferred s) []
      in s\<lparr>deferred := left, finalizer := finalizer s @ freed\<rparr>)"

definition insert_sleeping :: "bid \<Rightarrow> scheduler \<Rightarrow> scheduler" where
  "insert_sleeping b s = s\<lparr>sleeping := insort_key (\<lambda>x. b_wake_time (blockers s x)) b (sleeping s)\<rparr>"

definition remove_sleeping_blocker :: "bid \<Rightarrow> scheduler \<Rightarrow> scheduler res" where
  "remove_sleeping_blocker b s =
     bind_res (assert_that (b \<in> set (dropWhile (\<lambda>x. b_wake_time (blockers s x) < b_wake_time (blockers s b)) (sleeping s)))) (\<lambda>_.
       Inr (s\<lparr>sleeping := remove1 b (sleeping s)\<rparr>))"

text \<open>One thread of a process whose current thread \<open>t\<close> kills all of them.\<close>

definition kill_one :: "tid \<Rightarrow> tid \<Rightarrow> scheduler \<Rightarrow> scheduler res" where
  "kill_one t u s =
     (let p = owner_of s t
      in if u = t
         then bind_res (decrement_alive_thread_count p s) (\<lambda>(_, s). insert_deferred t s)
         else
           let s = thread_exit u 0 s
           in if state_of s u = BLOCKED
              then case blocker_of s u of
                     None \<Rightarrow> Inl Undefined
                   | Some b \<Rightarrow>
                       if b_type (blockers s b) = SLEEP
                       then bind_res (decrement_alive_thread_count p s) (\<lambda>(_, s).
                            bind_res (remove_sleeping_blocker b s) (free_thread u))
                       else bind_res (thread_interrupt u s) (\<lambda>(interrupted, s).
                            if interrupted then insert_ready u s else Inr s)
              else if state_of s u = READY
              then bind_res (decrement_alive_thread_count p s) (\<lambda>(_, s).
                   bind_res (pop_off u s) (free_thread u))
              else Inr s)"

fun kill_loop :: "tid \<Rightarrow> tid list \<Rightarrow> scheduler \<Rightarrow> scheduler res" where
  "kill_loop t [] s = Inr s"
| "kill_loop t (u # us) s = bind_res (kill_one t u s) (kill_loop t us)"

definition kill_current_thread :: "cpu \<Rightarrow> scheduler \<Rightarrow> scheduler res" where
  "kill_current_thread c s =
     (let t = current s c; s = set_state t DEAD s; p = owner_of s t
      in if \<not> t_kill_all (threads s t)
         then bind_res (decrement_alive_thread_count p s) (\<lambda>(n, s).
              insert_deferred t (if n = 0 then snd (process_exit p (t_exit_code (threads s t)) s) else s))
         else kill_loop t (p_threads (processes s p)) s)"

text \<open>What \<^verbatim>\<open>pick_next\<close> does with the current thread, and the switch to the next one.\<close>

definition settle_current :: "cpu \<Rightarrow> scheduler \<Rightarrow> scheduler res" where
  "settle_current c s =
     (let t = current s c; requested = t_requested (threads s t)
      in if t_should_die (threads s t) \<and> \<not> t_invulnerable (threads s t) then kill_current_thread c s
         else if requested \<noteq> UNDEFINED
         then bind_res
           (if requested = BLOCKED
            then case blocker_of s t of
                   None \<Rightarrow> Inl Undefined
                 | Some b \<Rightarrow>
                     if b_should_block (blockers s b)
                     then let s = set_state t BLOCKED s
                          in Inr (if b_type (blockers s b) = SLEEP then insert_sleeping b s else s)
                     else thread_unblock t s
            else Inl Assertion)
           (\<lambda>s. Inr (upd_thread t (\<lambda>x. if t_requested x = requested then x\<lparr>t_requested := UNDEFINED\<rparr> else x) s))
         else Inr s)"

definition pick_next_thread :: "cpu \<Rightarrow> scheduler \<Rightarrow> tid \<times> scheduler" where
  "pick_next_thread c s =
     (case ready s of [] \<Rightarrow> (idle s c, s) | t # ts \<Rightarrow> (t, s\<lparr>ready := ts\<rparr>))"

definition switch_thread :: "cpu \<Rightarrow> scheduler \<Rightarrow> scheduler res" where
  "switch_thread c s =
     (let t = current s c
      in bind_res (if state_of s t = RUNNING \<and> t \<noteq> idle s c then insert_ready t s else Inr s) (\<lambda>s.
           let (u, s) = pick_next_thread c s
           in if t \<noteq> u then activate c u (deactivate t s) else Inr s))"

definition pick_next :: "cpu \<Rightarrow> u64 \<Rightarrow> scheduler \<Rightarrow> scheduler res" where
  "pick_next c now s =
     bind_res (wake_ready_threads now (free_deferred_threads s)) (\<lambda>s.
     bind_res (settle_current c s) (switch_thread c))"

subsection \<open>Operations of the scheduler\<close>

definition block_current :: "cpu \<Rightarrow> bid \<Rightarrow> u64 \<Rightarrow> scheduler \<Rightarrow> scheduler res" where
  "block_current c b now s = bind_res (thread_block (current s c) b s) (pick_next c now)"

definition sleep_current :: "cpu \<Rightarrow> bid \<Rightarrow> u64 \<Rightarrow> u64 \<Rightarrow> scheduler \<Rightarrow> scheduler res" where
  "sleep_current c b wake_time now s = block_current c b now (make_blocker b (current s c) SLEEP wake_time s)"

definition unblock :: "bid \<Rightarrow> scheduler \<Rightarrow> scheduler res" where
  "unblock b s = (if \<not> b_should_block (blockers s b) then Inr s else unblock_unchecked b s)"

definition exit_thread :: "cpu \<Rightarrow> 32 word \<Rightarrow> u64 \<Rightarrow> scheduler \<Rightarrow> scheduler res" where
  "exit_thread c code now s = pick_next c now (thread_exit (current s c) code s)"

definition exit_process :: "cpu \<Rightarrow> 32 word \<Rightarrow> u64 \<Rightarrow> scheduler \<Rightarrow> scheduler res" where
  "exit_process c code now s =
     (let t = current s c; (first, s) = process_exit (owner_of s t) code s;
          s = (if first then upd_thread t (t_kill_all_update (\<lambda>_. True)) s else s)
      in pick_next c now (thread_exit t code s))"

definition crash :: "cpu \<Rightarrow> 32 word \<Rightarrow> u64 \<Rightarrow> scheduler \<Rightarrow> scheduler res" where
  "crash c code now s =
     (let t = current s c; p = owner_of s t; (first, s) = process_exit p (- code) s;
          s = (if first then upd_thread t (t_kill_all_update (\<lambda>_. True)) s else s);
          s = thread_exit t (- code) s
      in pick_next c now (upd_process p (p_exit_code_update (\<lambda>_. t_exit_code (threads s t))) s))"

fun register_loop :: "pid \<Rightarrow> tid list \<Rightarrow> scheduler \<Rightarrow> scheduler res" where
  "register_loop p [] s = Inr s"
| "register_loop p (t # ts) s =
     bind_res (insert_ready t (increment_alive_thread_count p (set_state t READY s))) (register_loop p ts)"

definition register_process :: "pid \<Rightarrow> scheduler \<Rightarrow> scheduler res" where
  "register_process p s =
     bind_res (assert_that (p \<notin> set (registered s))) (\<lambda>_.
       register_loop p (p_threads (processes s p)) (s\<lparr>registered := p # registered s\<rparr>))"

definition unregister_process :: "pid \<Rightarrow> scheduler \<Rightarrow> scheduler res" where
  "unregister_process p s =
     bind_res (assert_that (p \<in> set (registered s))) (\<lambda>_. Inr (s\<lparr>registered := remove1 p (registered s)\<rparr>))"

definition register_thread :: "tid \<Rightarrow> scheduler \<Rightarrow> (bool \<times> scheduler) res" where
  "register_thread t s =
     (let p = owner_of s t
      in if p_state (processes s p) \<noteq> ALIVE
         then bind_res (free_thread t (set_state t DEAD (thread_exit t 0 s))) (\<lambda>s. Inr (False, s))
         else bind_res (assert_that (p \<in> set (registered s))) (\<lambda>_.
              bind_res (insert_ready t (set_state t READY (increment_alive_thread_count p s))) (\<lambda>s. Inr (True, s))))"

text \<open>
  The task finalizer takes the next thread off its queue and destroys the object, whose number
  is then free again; the process of the last thread is handed over to be released.
\<close>

definition fresh_thread :: thread where
  "fresh_thread = \<lparr>t_owner = 0, t_state = UNDEFINED, t_blocker = None, t_requested = UNDEFINED, t_should_die = False,
     t_invulnerable = False, t_kill_all = False, t_exit_code = 0\<rparr>"

definition do_free_thread :: "tid \<Rightarrow> scheduler \<Rightarrow> scheduler res" where
  "do_free_thread t s =
     (let p = owner_of s t; ts = remove1 t (p_threads (processes s p));
          s = upd_thread t (\<lambda>_. fresh_thread) (upd_process p (p_threads_update (\<lambda>_. ts)) s)
      in if ts \<noteq> [] then Inr s
         else bind_res (unregister_process p s) (\<lambda>s. Inr (s\<lparr>processes_to_free := processes_to_free s @ [p]\<rparr>)))"

definition finalize_next_thread :: "scheduler \<Rightarrow> scheduler res" where
  "finalize_next_thread s =
     (case finalizer s of [] \<Rightarrow> Inr s | t # ts \<Rightarrow> do_free_thread t (s\<lparr>finalizer := ts\<rparr>))"

definition do_free_process :: "scheduler \<Rightarrow> scheduler res" where
  "do_free_process s =
     (case processes_to_free s of
        [] \<Rightarrow> Inr s
      | p # ps \<Rightarrow>
          bind_res (assert_that (p_state (processes s p) = EXITING)) (\<lambda>_.
            Inr (upd_process p (p_state_update (\<lambda>_. EXITED)) (s\<lparr>processes_to_free := ps\<rparr>))))"

text \<open>A new process and its main thread, registered with the scheduler.\<close>

definition fresh_process :: process where
  "fresh_process = \<lparr>p_state = ALIVE, p_exit_code = 0, p_alive = 0, p_threads = []\<rparr>"

definition create_supervisor :: "pid \<Rightarrow> tid \<Rightarrow> scheduler \<Rightarrow> scheduler res" where
  "create_supervisor p t s =
     register_process p (upd_process p (\<lambda>_. fresh_process\<lparr>p_threads := [t]\<rparr>) (upd_thread t (\<lambda>_. fresh_thread\<lparr>t_owner := p\<rparr>) s))"

text \<open>\<^verbatim>\<open>Process::create_thread\<close> up to the registration of the thread.\<close>

definition create_thread :: "pid \<Rightarrow> tid \<Rightarrow> scheduler \<Rightarrow> scheduler" where
  "create_thread p t s =
     (if p_state (processes s p) \<noteq> ALIVE then s
      else upd_process p (\<lambda>x. x\<lparr>p_threads := insort t (p_threads x)\<rparr>)
             (upd_thread t (\<lambda>_. fresh_thread\<lparr>t_owner := p\<rparr>) s))"

subsection \<open>Invariant\<close>

definition is_idle :: "scheduler \<Rightarrow> tid \<Rightarrow> bool" where
  "is_idle s t \<longleftrightarrow> (\<exists>c < cpus s. idle s c = t)"

text \<open>A thread that is blocked and can be unblocked.\<close>

definition waiting :: "scheduler \<Rightarrow> tid \<Rightarrow> bool" where
  "waiting s t \<longleftrightarrow> (\<exists>b. blocker_of s t = Some b \<and> b_thread (blockers s b) = t \<and> b_should_block (blockers s b)
     \<and> (b_type (blockers s b) = SLEEP \<longrightarrow> b \<in> set (sleeping s)))"

text \<open>A thread that has asked to be blocked.\<close>

definition pending :: "scheduler \<Rightarrow> tid \<Rightarrow> bool" where
  "pending s t \<longleftrightarrow> \<not> is_idle s t \<and> t_requested (threads s t) = BLOCKED
     \<and> (\<exists>b. blocker_of s t = Some b \<and> b_thread (blockers s b) = t \<and> b \<notin> set (sleeping s))"

text \<open>A thread that was asleep when it was killed.\<close>

definition killed_sleeper :: "scheduler \<Rightarrow> tid \<Rightarrow> bool" where
  "killed_sleeper s t \<longleftrightarrow> (\<exists>b. blocker_of s t = Some b \<and> b_type (blockers s b) = SLEEP)"

text \<open>
  What the state of a thread says about the queues. \<open>D\<close> holds the thread that is dead and not
  yet on a queue, \<open>P\<close> the thread whose request to block is pending.
\<close>

definition thread_ok :: "tid set \<Rightarrow> tid set \<Rightarrow> scheduler \<Rightarrow> tid \<Rightarrow> bool" where
  "thread_ok D P s t \<longleftrightarrow>
     (state_of s t = UNDEFINED \<longrightarrow> \<not> on_a_list s t \<and> blocker_of s t = None \<and> t_requested (threads s t) = UNDEFINED)
   \<and> (state_of s t = RUNNING \<longrightarrow> \<not> on_a_list s t \<and> (\<exists>c < cpus s. current s c = t)
       \<and> (blocker_of s t = None \<and> t_requested (threads s t) = UNDEFINED \<or> t \<in> P \<and> pending s t))
   \<and> (state_of s t = READY \<longrightarrow> (if is_idle s t then \<not> on_a_list s t else on_a_list s t \<and> t \<notin> set (deferred s))
       \<and> blocker_of s t = None \<and> t_requested (threads s t) = UNDEFINED)
   \<and> (state_of s t = BLOCKED \<longrightarrow> \<not> is_idle s t
       \<and> (t \<in> set (finalizer s) \<and> killed_sleeper s t \<or> \<not> on_a_list s t \<and> waiting s t \<and> t_requested (threads s t) = UNDEFINED))
   \<and> (state_of s t = DEAD \<longrightarrow> \<not> is_idle s t \<and> t \<notin> set (ready s) \<and> (t \<in> D \<longleftrightarrow> \<not> on_a_list s t))"

definition threads_ok :: "tid set \<Rightarrow> tid set \<Rightarrow> scheduler \<Rightarrow> bool" where
  "threads_ok D P s \<longleftrightarrow> (\<forall>t. thread_ok D P s t)"

definition cpu_ok :: "cpu set \<Rightarrow> scheduler \<Rightarrow> bool" where
  "cpu_ok X s \<longleftrightarrow>
     inj_on (current s) {..<cpus s} \<and> inj_on (idle s) {..<cpus s}
     \<and> (\<forall>c < cpus s. (if c \<in> X then state_of s (current s c) \<in> {RUNNING, BLOCKED, DEAD} else state_of s (current s c) = RUNNING)
         \<and> state_of s (idle s c) \<in> {RUNNING, READY}
         \<and> \<not> t_should_die (threads s (idle s c))
         \<and> (\<forall>c' < cpus s. current s c' = idle s c \<longrightarrow> c' = c))"

definition wake_time :: "scheduler \<Rightarrow> bid \<Rightarrow> u64" where
  "wake_time s b = b_wake_time (blockers s b)"

definition sleep_ok :: "scheduler \<Rightarrow> bool" where
  "sleep_ok s \<longleftrightarrow>
     distinct (sleeping s) \<and> sorted (map (wake_time s) (sleeping s))
     \<and> (\<forall>b \<in> set (sleeping s). b_type (blockers s b) = SLEEP \<and> state_of s (b_thread (blockers s b)) = BLOCKED
          \<and> blocker_of s (b_thread (blockers s b)) = Some b \<and> \<not> on_a_list s (b_thread (blockers s b)))
     \<and> (\<forall>b. b_should_block (blockers s b) \<longleftrightarrow> b_result (blockers s b) = NO_RESULT)"

text \<open>The threads of a process that count as alive.\<close>

definition alive_threads :: "tid set \<Rightarrow> scheduler \<Rightarrow> pid \<Rightarrow> tid set" where
  "alive_threads D s p = {t \<in> set (p_threads (processes s p)).
     t \<in> D \<or> state_of s t \<in> {RUNNING, READY, BLOCKED} \<and> t \<notin> set (finalizer s)}"

definition thread_limit :: nat where
  "thread_limit = 2 ^ 32"

definition process_ok :: "tid set \<Rightarrow> scheduler \<Rightarrow> pid \<Rightarrow> bool" where
  "process_ok D s p \<longleftrightarrow>
     distinct (p_threads (processes s p)) \<and> length (p_threads (processes s p)) < thread_limit
     \<and> p_threads (processes s p) \<noteq> []
     \<and> (\<forall>t \<in> set (p_threads (processes s p)). owner_of s t = p \<and> \<not> is_idle s t
          \<and> (t_kill_all (threads s t) \<longrightarrow> p_state (processes s p) \<noteq> ALIVE))
     \<and> p_alive (processes s p) = word_of_nat (card (alive_threads D s p))
     \<and> p_state (processes s p) \<noteq> EXITED
     \<and> (p_state (processes s p) = ALIVE \<longrightarrow> alive_threads D s p \<noteq> {})"

text \<open>
  Only a process that is exiting has threads in the finalizer that did not die themselves. It has
  one thread at most that kills the others, and kills them when it is dead itself.
\<close>

definition killers_ok :: "scheduler \<Rightarrow> pid \<Rightarrow> bool" where
  "killers_ok s p \<longleftrightarrow>
     (p_state (processes s p) = ALIVE \<longrightarrow> (\<forall>u \<in> set (p_threads (processes s p)). u \<in> set (finalizer s) \<longrightarrow> state_of s u = DEAD))
     \<and> (\<forall>v \<in> set (p_threads (processes s p)). t_kill_all (threads s v) \<longrightarrow>
     (\<forall>w \<in> set (p_threads (processes s p)). t_kill_all (threads s w) \<longrightarrow> w = v)
     \<and> (\<forall>u \<in> set (p_threads (processes s p)). u \<in> set (finalizer s) \<and> state_of s u \<noteq> DEAD \<longrightarrow> state_of s v = DEAD))"

definition sched_inv :: "cpu set \<Rightarrow> tid set \<Rightarrow> tid set \<Rightarrow> scheduler \<Rightarrow> bool" where
  "sched_inv X D P s \<longleftrightarrow>
     distinct (ready s @ deferred s @ finalizer s) \<and> threads_ok D P s \<and> cpu_ok X s \<and> sleep_ok s
     \<and> distinct (registered s @ processes_to_free s)
     \<and> (\<forall>p \<in> set (registered s). process_ok D s p) \<and> (\<forall>p \<in> set (registered s). killers_ok s p)
     \<and> (\<forall>p \<in> set (processes_to_free s). p_state (processes s p) = EXITING)
     \<and> (\<forall>t. state_of s t \<noteq> UNDEFINED \<and> \<not> is_idle s t \<longrightarrow>
          owner_of s t \<in> set (registered s) \<and> t \<in> set (p_threads (processes s (owner_of s t))))"

lemma sched_inv_thread: "sched_inv X D P s \<Longrightarrow> thread_ok D P s t"
  by (simp add: sched_inv_def threads_ok_def)

lemma threads_okI: "(\<And>t. thread_ok D P s t) \<Longrightarrow> threads_ok D P s"
  by (simp add: threads_ok_def)

lemma sched_invI:
  assumes "distinct (ready s @ deferred s @ finalizer s)" "threads_ok D P s" "cpu_ok X s" "sleep_ok s"
    "distinct (registered s @ processes_to_free s)"
    "\<And>p. p \<in> set (registered s) \<Longrightarrow> process_ok D s p" "\<And>p. p \<in> set (registered s) \<Longrightarrow> killers_ok s p"
    "\<And>p. p \<in> set (processes_to_free s) \<Longrightarrow> p_state (processes s p) = EXITING"
    "\<And>t. state_of s t \<noteq> UNDEFINED \<Longrightarrow> \<not> is_idle s t
      \<Longrightarrow> owner_of s t \<in> set (registered s) \<and> t \<in> set (p_threads (processes s (owner_of s t)))"
  shows "sched_inv X D P s"
  using assms unfolding sched_inv_def by blast

lemma killers_ok_shrink:
  assumes "killers_ok s p" "p_state (processes s' p) = ALIVE \<Longrightarrow> p_state (processes s p) = ALIVE"
    "\<And>u. u \<in> set (p_threads (processes s' p)) \<Longrightarrow> t_kill_all (threads s' u) \<Longrightarrow> u \<in> set (p_threads (processes s p)) \<and> t_kill_all (threads s u)"
    "\<And>u. u \<in> set (p_threads (processes s' p)) \<Longrightarrow> u \<in> set (finalizer s') \<Longrightarrow> state_of s' u \<noteq> DEAD
      \<Longrightarrow> u \<in> set (p_threads (processes s p)) \<and> u \<in> set (finalizer s) \<and> state_of s u \<noteq> DEAD"
    "\<And>v. v \<in> set (p_threads (processes s' p)) \<Longrightarrow> t_kill_all (threads s' v) \<Longrightarrow> state_of s v = DEAD \<Longrightarrow> state_of s' v = DEAD"
  shows "killers_ok s' p"
  using assms unfolding killers_ok_def by metis

lemma killers_ok_mono:
  assumes "killers_ok s p" "p_threads (processes s' p) = p_threads (processes s p)"
    "p_state (processes s' p) = ALIVE \<Longrightarrow> p_state (processes s p) = ALIVE" "\<And>u. t_kill_all (threads s' u) = t_kill_all (threads s u)"
    "\<And>u. u \<in> set (finalizer s') \<Longrightarrow> state_of s' u \<noteq> DEAD \<Longrightarrow> u \<in> set (finalizer s) \<and> state_of s u \<noteq> DEAD"
    "\<And>v. state_of s v = DEAD \<Longrightarrow> state_of s' v = DEAD"
  shows "killers_ok s' p"
  using assms by (intro killers_ok_shrink [OF assms(1)]) simp_all

lemmas upd_defs = upd_thread_def upd_process_def upd_blocker_def set_state_def

subsection \<open>Waking a thread\<close>

definition woken :: "block_result \<Rightarrow> tid \<Rightarrow> bid \<Rightarrow> scheduler \<Rightarrow> scheduler" where
  "woken r t b s = s\<lparr>threads := (threads s)(t := (threads s t)\<lparr>t_blocker := None, t_state := READY\<rparr>),
     blockers := (blockers s)(b := (blockers s b)\<lparr>b_result := r, b_should_block := False\<rparr>),
     sleeping := remove1 b (sleeping s), ready := ready s @ [t]\<rparr>"

lemma woken_thread_ok:
  assumes "sched_inv X D P s" "state_of s t = BLOCKED" "\<not> on_a_list s t" "blocker_of s t = Some b"
  shows "thread_ok D P (woken r t b s) u"
proof -
  have u: "thread_ok D P s u" and t: "thread_ok D P s t"
    by (rule sched_inv_thread [OF assms(1)])+
  have b: "b_thread (blockers s b) = t" "t_requested (threads s t) = UNDEFINED" "\<not> is_idle s t"
    using t assms(2-4) by (auto simp: thread_ok_def waiting_def on_a_list_def)
  show ?thesis
  proof (cases "u = t")
    case True
    then show ?thesis
      using b assms(3) by (simp add: thread_ok_def woken_def on_a_list_def is_idle_def)
  next
    case False
    then have "waiting (woken r t b s) u = waiting s u" "pending (woken r t b s) u = pending s u"
      "killed_sleeper (woken r t b s) u = killed_sleeper s u"
      "on_a_list (woken r t b s) u = on_a_list s u" "is_idle (woken r t b s) u = is_idle s u"
      using b by (auto simp: waiting_def pending_def killed_sleeper_def woken_def on_a_list_def is_idle_def)
    with u False show ?thesis
      by (simp add: thread_ok_def woken_def)
  qed
qed

lemma woken_frame [simp]:
  "deferred (woken r t b s) = deferred s" "finalizer (woken r t b s) = finalizer s" "registered (woken r t b s) = registered s"
  "processes (woken r t b s) = processes s" "processes_to_free (woken r t b s) = processes_to_free s" "cpus (woken r t b s) = cpus s"
  "current (woken r t b s) = current s" "idle (woken r t b s) = idle s" "ready (woken r t b s) = ready s @ [t]"
  "owner_of (woken r t b s) u = owner_of s u" "is_idle (woken r t b s) = is_idle s"
  "t_should_die (threads (woken r t b s) u) = t_should_die (threads s u)"
  "t_kill_all (threads (woken r t b s) u) = t_kill_all (threads s u)"
  "state_of (woken r t b s) u = (if u = t then READY else state_of s u)"
  by (simp_all add: woken_def is_idle_def fun_eq_iff)

lemma process_ok_cong:
  assumes "processes s' p = processes s p" "\<And>t. owner_of s' t = owner_of s t" "is_idle s' = is_idle s"
    "\<And>t. t_kill_all (threads s' t) = t_kill_all (threads s t)"
    "alive_threads D' s' p = alive_threads D s p"
  shows "process_ok D' s' p = process_ok D s p"
  using assms by (simp add: process_ok_def)

lemma sleep_ok_woken:
  assumes "sleep_ok s" "state_of s t = BLOCKED" "\<not> on_a_list s t" "blocker_of s t = Some b" "r \<noteq> NO_RESULT"
  shows "sleep_ok (woken r t b s)"
proof -
  have other: "b_thread (blockers s a) \<noteq> t" "a \<in> set (sleeping s)" if "a \<in> set (remove1 b (sleeping s))" for a
    using assms that by (auto simp: sleep_ok_def)
  have "wake_time (woken r t b s) = wake_time s"
    by (auto simp: wake_time_def woken_def)
  then have "distinct (sleeping (woken r t b s))" "sorted (map (wake_time (woken r t b s)) (sleeping (woken r t b s)))"
    using assms(1) by (simp_all add: sleep_ok_def woken_def sorted_map_remove1)
  moreover have "b_type (blockers (woken r t b s) a) = SLEEP \<and> state_of (woken r t b s) (b_thread (blockers (woken r t b s) a)) = BLOCKED
      \<and> blocker_of (woken r t b s) (b_thread (blockers (woken r t b s) a)) = Some a \<and> \<not> on_a_list (woken r t b s) (b_thread (blockers (woken r t b s) a))"
    if "a \<in> set (sleeping (woken r t b s))" for a
  proof -
    have a: "a \<in> set (remove1 b (sleeping s))"
      using that by (simp add: woken_def)
    moreover have "a \<noteq> b"
      using a assms(1) by (auto simp: sleep_ok_def)
    ultimately show ?thesis
      using other [OF a] assms(1) by (simp add: sleep_ok_def woken_def on_a_list_def)
  qed
  ultimately show ?thesis
    using assms(1,5) by (simp add: sleep_ok_def) (simp add: woken_def)
qed

lemma woken_inv:
  assumes "sched_inv X D P s" "state_of s t = BLOCKED" "\<not> on_a_list s t" "blocker_of s t = Some b" "r \<noteq> NO_RESULT"
    "\<forall>c \<in> X. current s c \<noteq> t"
  shows "sched_inv X D P (woken r t b s)"
proof -
  have "cpu_ok X (woken r t b s)"
    using assms(1,2,6) by (auto simp: sched_inv_def cpu_ok_def)
  moreover have "alive_threads D (woken r t b s) p = alive_threads D s p" for p
    using assms(2) by (auto simp: alive_threads_def)
  then have "process_ok D (woken r t b s) p = process_ok D s p" for p
    by (intro process_ok_cong) simp_all
  moreover have "killers_ok (woken r t b s) p" if "killers_ok s p" for p
    using assms(2,3) by (intro killers_ok_mono [OF that]) (auto simp: on_a_list_def split: if_splits)
  moreover have "distinct (ready s @ [t] @ deferred s @ finalizer s)"
    using assms(1,3) by (auto simp: sched_inv_def on_a_list_def)
  moreover have "sleep_ok (woken r t b s)"
    using assms by (intro sleep_ok_woken) (simp_all add: sched_inv_def)
  moreover have "threads_ok D P (woken r t b s)"
    by (rule threads_okI, rule woken_thread_ok [OF assms(1-4)])
  ultimately show ?thesis
    using assms(1,2) unfolding sched_inv_def by simp
qed

lemma blocked_waiting:
  assumes "sched_inv X D P s" "state_of s t = BLOCKED" "t \<notin> set (finalizer s)"
  obtains b where "blocker_of s t = Some b" "b_thread (blockers s b) = t" "b_should_block (blockers s b)"
    "b_result (blockers s b) = NO_RESULT" "\<not> on_a_list s t" "b_type (blockers s b) = SLEEP \<longleftrightarrow> b \<in> set (sleeping s)"
    "t_requested (threads s t) = UNDEFINED" "\<not> is_idle s t"
proof -
  have "thread_ok D P s t" "sleep_ok s"
    using sched_inv_thread [OF assms(1)] assms(1) by (simp_all add: sched_inv_def)
  with assms(2,3) that show ?thesis
    by (auto simp: thread_ok_def waiting_def sleep_ok_def)
qed

text \<open>Settling a blocker whose thread is not blocked changes nothing but the blocker.\<close>

lemma set_result_inv:
  assumes inv: "sched_inv X D P s" and t: "state_of s (b_thread (blockers s b)) \<noteq> BLOCKED" and r: "r \<noteq> NO_RESULT"
  shows "sched_inv X D P (set_result b r s)"
proof -
  let ?s = "set_result b r s"
  have frame: "threads ?s = threads s" "processes ?s = processes s" "registered ?s = registered s" "sleeping ?s = sleeping s"
    "deferred ?s = deferred s" "ready ?s = ready s" "finalizer ?s = finalizer s" "processes_to_free ?s = processes_to_free s"
    "cpus ?s = cpus s" "current ?s = current s" "idle ?s = idle s"
    by (simp_all add: set_result_def upd_defs)
  have b: "b_thread (blockers ?s a) = b_thread (blockers s a)" "b_type (blockers ?s a) = b_type (blockers s a)"
      "wake_time ?s a = wake_time s a" for a
    by (simp_all add: set_result_def upd_defs wake_time_def)
  have preds: "is_idle ?s = is_idle s" "on_a_list ?s = on_a_list s" "pending ?s = pending s" "killed_sleeper ?s = killed_sleeper s" "cpu_ok X ?s = cpu_ok X s"
      "alive_threads D ?s = alive_threads D s" "process_ok D ?s = process_ok D s" "killers_ok ?s = killers_ok s"
    by (simp_all add: killers_ok_def is_idle_def on_a_list_def pending_def killed_sleeper_def cpu_ok_def alive_threads_def process_ok_def frame b fun_eq_iff)
  have w: "waiting ?s u = waiting s u" if "state_of s u = BLOCKED" for u
    using t that by (auto simp: waiting_def frame b) (auto simp: set_result_def upd_defs split: if_splits)
  have "threads_ok D P ?s"
    using w sched_inv_thread [OF inv] by (intro threads_okI) (simp add: thread_ok_def frame preds)
  moreover have "sleep_ok ?s"
  proof -
    have "wake_time ?s = wake_time s"
      using b(3) by (rule ext)
    moreover have "b_should_block (blockers ?s a) \<longleftrightarrow> b_result (blockers ?s a) = NO_RESULT" for a
      using inv r by (simp add: set_result_def upd_defs sched_inv_def sleep_ok_def)
    ultimately show ?thesis
      using inv unfolding sched_inv_def by (simp add: sleep_ok_def frame b preds)
  qed
  ultimately show ?thesis
    using inv unfolding sched_inv_def by (simp add: frame preds)
qed

lemma unblock_unchecked_eq:
  assumes "sched_inv X D P s" "state_of s t = BLOCKED" "t \<notin> set (finalizer s)" "blocker_of s t = Some b"
  shows "unblock_unchecked b (s\<lparr>sleeping := remove1 b (sleeping s)\<rparr>) = Inr (woken UNBLOCKED t b s)"
proof -
  have b: "b_thread (blockers s b) = t" "b_should_block (blockers s b)" "b_result (blockers s b) = NO_RESULT" "\<not> on_a_list s t"
    using blocked_waiting [OF assms(1-3)] assms(4) by auto
  then show ?thesis
    using assms(2,4)
    by (simp add: unblock_unchecked_def thread_unblock_def set_result_def upd_defs insert_ready_def on_a_list_def woken_def)
qed

text \<open>An operation on a blocker that its thread may be blocked on.\<close>

lemma unblock_inv:
  assumes "sched_inv {} {} {} s"
    and "state_of s (b_thread (blockers s b)) = BLOCKED \<longrightarrow> blocker_of s (b_thread (blockers s b)) = Some b"
    and "b_type (blockers s b) \<noteq> SLEEP"
  shows "\<exists>s'. unblock b s = Inr s' \<and> sched_inv {} {} {} s' \<and> cpus s' = cpus s \<and> (\<exists>ts. ready s' = ready s @ ts)"
proof -
  let ?t = "b_thread (blockers s b)"
  show ?thesis
  proof (cases "\<not> b_should_block (blockers s b) \<or> state_of s ?t \<noteq> BLOCKED")
    case True
    then show ?thesis
      using assms(1) set_result_inv [OF assms(1), of b UNBLOCKED]
      by (auto simp: unblock_def unblock_unchecked_def Let_def set_result_def upd_blocker_def)
  next
    case False
    then have b: "blocker_of s ?t = Some b" "state_of s ?t = BLOCKED"
      using assms(2) by simp_all
    have "thread_ok {} {} s ?t" "b \<notin> set (sleeping s)"
      using sched_inv_thread [OF assms(1)] assms(1,3) by (auto simp: sched_inv_def sleep_ok_def)
    then have f: "?t \<notin> set (finalizer s)"
      using b assms(3) by (auto simp: thread_ok_def killed_sleeper_def on_a_list_def)
    have "unblock_unchecked b s = Inr (woken UNBLOCKED ?t b s)"
      using unblock_unchecked_eq [OF assms(1) b(2) f b(1)] \<open>b \<notin> set (sleeping s)\<close> by (simp add: remove1_idem)
    moreover have "\<not> on_a_list s ?t"
      using blocked_waiting [OF assms(1) b(2) f] by blast
    ultimately show ?thesis
      using False woken_inv [OF assms(1) b(2) _ b(1)] by (simp add: unblock_def)
  qed
qed

lemma wake_loop_inv:
  assumes "sched_inv {} {} P s" "sleeping s = bs"
  shows "\<exists>s'. wake_loop now bs s = Inr s' \<and> sched_inv {} {} P s' \<and> current s' = current s \<and> idle s' = idle s \<and> cpus s' = cpus s
    \<and> finalizer s' = finalizer s \<and> (\<exists>ts. ready s' = ready s @ ts) \<and> (\<forall>t. state_of s t \<noteq> BLOCKED \<longrightarrow> threads s' t = threads s t)
    \<and> (\<forall>b. state_of s (b_thread (blockers s b)) \<noteq> BLOCKED \<longrightarrow> blockers s' b = blockers s b)"
  using assms
proof (induction bs arbitrary: s)
  case (Cons b bs)
  let ?t = "b_thread (blockers s b)"
  show ?case
  proof (cases "b_wake_time (blockers s b) \<le> now")
    case True
    have b: "state_of s ?t = BLOCKED" "blocker_of s ?t = Some b" "\<not> on_a_list s ?t" "b \<notin> set bs"
      using Cons.prems by (simp_all add: sched_inv_def sleep_ok_def)
    then have f: "?t \<notin> set (finalizer s)"
      by (simp add: on_a_list_def)
    let ?s = "woken UNBLOCKED ?t b s"
    have "unblock_unchecked b (s\<lparr>sleeping := bs\<rparr>) = Inr ?s"
      using unblock_unchecked_eq [OF Cons.prems(1) b(1) f b(2)] Cons.prems(2) by simp
    moreover have "sched_inv {} {} P ?s" "sleeping ?s = bs"
      using woken_inv [OF Cons.prems(1) b(1,3,2)] Cons.prems(2) by (simp_all add: woken_def)
    moreover have "threads ?s t = threads s t" if "state_of s t \<noteq> BLOCKED" for t
      using that b(1) by (auto simp: woken_def)
    moreover have "blockers ?s a = blockers s a" if "state_of s (b_thread (blockers s a)) \<noteq> BLOCKED" for a
      using that b(1) by (auto simp: woken_def)
    ultimately show ?thesis
      using True Cons.IH [of ?s] by auto
  qed (use Cons.prems in auto)
qed auto

subsection \<open>Freeing the deferred threads\<close>

lemma deferred_loop_mset:
  "mset (fst (deferred_loop skipped ts freed)) + mset (snd (deferred_loop skipped ts freed)) = mset skipped + mset ts + mset freed"
  by (induction skipped ts freed rule: deferred_loop.induct) simp_all

lemma deferred_dead:
  assumes "sched_inv X D P s" "t \<in> set (deferred s)"
  shows "state_of s t = DEAD"
proof -
  have "thread_ok D P s t" "t \<notin> set (ready s)" "t \<notin> set (finalizer s)"
    using sched_inv_thread [OF assms(1)] assms by (auto simp: sched_inv_def)
  with assms(2) show ?thesis
    by (cases "state_of s t") (auto simp: thread_ok_def on_a_list_def split: if_splits)
qed

lemma free_deferred_inv:
  assumes inv: "sched_inv X D P s"
  shows "sched_inv X D P (free_deferred_threads s)"
proof -
  obtain l f where lf: "deferred_loop [] (deferred s) [] = (l, f)"
    by fastforce
  then have s: "free_deferred_threads s = s\<lparr>deferred := l, finalizer := finalizer s @ f\<rparr>" (is "_ = ?s")
    by (simp add: free_deferred_threads_def)
  have m: "mset l + mset f = mset (deferred s)"
    using deferred_loop_mset [of "[]" "deferred s" "[]"] lf by simp
  then have "set (deferred s) = set l \<union> set f"
    by (metis set_mset_mset set_mset_union)
  have "mset (ready s @ l @ finalizer s @ f) = mset (ready s @ deferred s @ finalizer s)"
    using m by (simp add: ac_simps)
  then have d: "distinct (ready s @ l @ finalizer s @ f)"
    using inv mset_eq_imp_distinct_iff unfolding sched_inv_def by blast
  have dead: "state_of s t = DEAD" if "t \<in> set f \<or> t \<in> set l" for t
    using that deferred_dead [OF inv] \<open>set (deferred s) = set l \<union> set f\<close> by blast
  have l: "on_a_list ?s = on_a_list s"
    using \<open>set (deferred s) = set l \<union> set f\<close> by (auto simp: on_a_list_def fun_eq_iff)
  have preds: "is_idle ?s = is_idle s" "waiting ?s = waiting s" "pending ?s = pending s"
      "killed_sleeper ?s = killed_sleeper s" "cpu_ok X ?s = cpu_ok X s" "wake_time ?s = wake_time s"
    by (simp_all add: is_idle_def waiting_def pending_def killed_sleeper_def cpu_ok_def wake_time_def fun_eq_iff)
  note preds = preds l
  have "thread_ok D P ?s t" for t
  proof -
    have "t \<in> set (finalizer s) \<longleftrightarrow> t \<in> set (finalizer ?s)" "t \<in> set (deferred s) \<longleftrightarrow> t \<in> set l" if "state_of s t \<noteq> DEAD"
      using that dead [of t] \<open>set (deferred s) = set l \<union> set f\<close> by auto
    then show ?thesis
      using sched_inv_thread [OF inv, of t] by (cases "state_of s t") (auto simp: thread_ok_def preds split: if_splits)
  qed
  then have "threads_ok D P ?s"
    by (rule threads_okI)
  moreover have "alive_threads D ?s p = alive_threads D s p" for p
    using dead by (fastforce simp: alive_threads_def)
  then have "process_ok D ?s p = process_ok D s p" for p
    by (intro process_ok_cong) (simp_all add: preds)
  moreover have "killers_ok ?s p" if "killers_ok s p" for p
    using dead by (intro killers_ok_mono [OF that]) (auto simp: preds)
  ultimately show ?thesis
    using inv d unfolding sched_inv_def s by (simp add: preds sleep_ok_def)
qed

lemma free_deferred_frame [simp]:
  "ready (free_deferred_threads s) = ready s" "current (free_deferred_threads s) = current s" "threads (free_deferred_threads s) = threads s"
  "blockers (free_deferred_threads s) = blockers s" "idle (free_deferred_threads s) = idle s" "cpus (free_deferred_threads s) = cpus s"
  "sleeping (free_deferred_threads s) = sleeping s"
  by (simp_all add: free_deferred_threads_def split: prod.splits)

subsection \<open>Killing threads\<close>

definition killed :: "tid \<Rightarrow> scheduler \<Rightarrow> scheduler" where
  "killed u s = s\<lparr>threads := (threads s)(u := (threads s u)\<lparr>t_should_die := True, t_exit_code := 0\<rparr>),
     processes := (processes s)(owner_of s u := (processes s (owner_of s u))\<lparr>p_alive := p_alive (processes s (owner_of s u)) - 1\<rparr>),
     sleeping := (case blocker_of s u of None \<Rightarrow> sleeping s | Some b \<Rightarrow> remove1 b (sleeping s)),
     ready := remove1 u (ready s), finalizer := finalizer s @ [u]\<rparr>"

lemma killed_frame [simp]:
  "deferred (killed u s) = deferred s" "finalizer (killed u s) = finalizer s @ [u]" "registered (killed u s) = registered s"
  "processes_to_free (killed u s) = processes_to_free s" "cpus (killed u s) = cpus s" "blockers (killed u s) = blockers s"
  "current (killed u s) = current s" "idle (killed u s) = idle s" "ready (killed u s) = remove1 u (ready s)"
  "owner_of (killed u s) t = owner_of s t" "is_idle (killed u s) = is_idle s" "state_of (killed u s) t = state_of s t"
  "blocker_of (killed u s) t = blocker_of s t" "t_requested (threads (killed u s) t) = t_requested (threads s t)"
  "t_kill_all (threads (killed u s) t) = t_kill_all (threads s t)" "wake_time (killed u s) = wake_time s"
  "p_threads (processes (killed u s) p) = p_threads (processes s p)" "p_state (processes (killed u s) p) = p_state (processes s p)"
  "killed_sleeper (killed u s) = killed_sleeper s"
  by (simp_all add: killed_def is_idle_def fun_eq_iff wake_time_def killed_sleeper_def)

lemma finite_alive [simp]: "finite (alive_threads D s p)"
  by (simp add: alive_threads_def)

lemma card_alive_less:
  assumes "process_ok D s p"
  shows "card (alive_threads D s p) < thread_limit"
proof -
  have "card (alive_threads D s p) \<le> card (set (p_threads (processes s p)))"
    by (rule card_mono) (auto simp: alive_threads_def)
  also have "\<dots> \<le> length (p_threads (processes s p))"
    by (rule card_length)
  finally show ?thesis
    using assms by (simp add: process_ok_def)
qed

lemma alive_count_0: "n < thread_limit \<Longrightarrow> (word_of_nat n = (0 :: u32)) = (n = 0)"
proof -
  assume "n < thread_limit"
  then have "unat (word_of_nat n :: u32) = n"
    by (simp add: thread_limit_def unat_of_nat)
  then show ?thesis
    by (cases "n = 0") (simp, metis unsigned_0)
qed

lemma alive_count_pred: "finite A \<Longrightarrow> u \<in> A \<Longrightarrow> word_of_nat (card A) - 1 = (word_of_nat (card (A - {u})) :: u32)"
  using card_Suc_Diff1 [of A u] by (metis add_diff_cancel_left' of_nat_Suc)

lemma killed_process_ok:
  assumes "process_ok D s p" "u \<in> alive_threads D s (owner_of s u)" "u \<notin> D" "process_ok D s (owner_of s u)"
    "p_state (processes s (owner_of s u)) \<noteq> ALIVE"
  shows "process_ok D (killed u s) p"
proof (cases "p = owner_of s u")
  case True
  have "alive_threads D (killed u s) p = alive_threads D s p - {u}"
    using assms(3) by (auto simp: alive_threads_def)
  then have "p_alive (processes (killed u s) p) = word_of_nat (card (alive_threads D (killed u s) p))"
    using alive_count_pred [OF finite_alive assms(2)] assms(4) True by (simp add: process_ok_def killed_def)
  then show ?thesis
    using assms(1,5) True by (simp add: process_ok_def)
next
  case False
  then have "processes (killed u s) p = processes s p"
    by (simp add: killed_def)
  moreover have "alive_threads D (killed u s) p = alive_threads D s p"
    using False assms(1) by (auto simp: alive_threads_def process_ok_def)
  ultimately show ?thesis
    using assms(1) by (simp add: process_ok_def)
qed

lemma killed_inv:
  assumes inv: "sched_inv X D P s" and u: "state_of s u \<in> {READY, BLOCKED}" "\<not> is_idle s u" "u \<notin> set (finalizer s)" "u \<notin> D"
    and k: "state_of s u = BLOCKED \<longrightarrow> killed_sleeper s u" and p: "p_state (processes s (owner_of s u)) \<noteq> ALIVE"
    and v: "\<forall>v \<in> set (p_threads (processes s (owner_of s u))). t_kill_all (threads s v) \<longrightarrow> state_of s v = DEAD"
  shows "sched_inv X D P (killed u s)"
proof -
  have own: "owner_of s u \<in> set (registered s)" "u \<in> set (p_threads (processes s (owner_of s u)))"
    using inv u(1,2) unfolding sched_inv_def by auto
  then have alive: "u \<in> alive_threads D s (owner_of s u)"
    using u by (auto simp: alive_threads_def)
  have uok: "thread_ok D P s u"
    by (rule sched_inv_thread [OF inv])
  have d: "distinct (ready s @ deferred s @ finalizer s)"
    using inv by (simp add: sched_inv_def)
  have def: "u \<notin> set (deferred s)"
    using deferred_dead [OF inv, of u] u(1) by auto
  have sl: "sleep_ok s"
    using inv by (simp add: sched_inv_def)
  have slu: "b_thread (blockers s b) \<noteq> u" "b \<in> set (sleeping s)" if "b \<in> set (sleeping (killed u s))" for b
    using that sl by (auto simp: killed_def sleep_ok_def split: option.splits)
  have on: "on_a_list (killed u s) t = (t = u \<or> on_a_list s t)" for t
    using d by (auto simp: on_a_list_def)
  have other: "waiting (killed u s) t = waiting s t" "pending (killed u s) t = pending s t" if "t \<noteq> u" for t
  proof -
    have "b \<in> set (sleeping (killed u s)) \<longleftrightarrow> b \<in> set (sleeping s)" if "b_thread (blockers s b) = t" for b
      using that \<open>t \<noteq> u\<close> sl uok u by (auto simp: killed_def sleep_ok_def thread_ok_def waiting_def split: option.splits)
    then show "waiting (killed u s) t = waiting s t" "pending (killed u s) t = pending s t"
      by (auto simp: waiting_def pending_def)
  qed
  have "thread_ok D P (killed u s) t" for t
  proof (cases "t = u")
    case True
    then show ?thesis
      using u def uok k by (auto simp: thread_ok_def on)
  next
    case False
    then show ?thesis
      using sched_inv_thread [OF inv, of t] d by (auto simp: thread_ok_def on other)
  qed
  then have "threads_ok D P (killed u s)"
    by (rule threads_okI)
  moreover have "cpu_ok X (killed u s)"
    using inv u(2) by (auto simp: sched_inv_def cpu_ok_def is_idle_def) (auto simp: killed_def split: if_splits)
  moreover have "distinct (sleeping (killed u s)) \<and> sorted (map (wake_time s) (sleeping (killed u s)))"
    using sl by (simp add: sleep_ok_def killed_def sorted_map_remove1 split: option.splits)
  then have "sleep_ok (killed u s)"
    using sl slu by (simp add: sleep_ok_def on)
  moreover have "\<forall>q \<in> set (registered s). process_ok D (killed u s) q"
    using inv own(1) killed_process_ok [OF _ alive u(4) _ p] by (simp add: sched_inv_def)
  moreover have "killers_ok (killed u s) q" if q: "killers_ok s q" "process_ok D s q" for q
  proof (cases "u \<in> set (p_threads (processes s q))")
    case True
    then have "owner_of s u = q"
      using q(2) by (simp add: process_ok_def)
    then show ?thesis
      using q(1) v p unfolding killers_ok_def killed_frame by blast
  next
    case False
    then show ?thesis
      using q(1) unfolding killers_ok_def killed_frame by (metis in_set_conv_decomp set_append Un_iff set_ConsD empty_iff empty_set)
  qed
  moreover have "distinct (remove1 u (ready s) @ deferred s @ finalizer s @ [u])"
    using d u(3) def by auto
  ultimately show ?thesis
    using inv unfolding sched_inv_def by simp
qed

text \<open>The dying thread itself goes to the deferred threads.\<close>

definition buried :: "tid \<Rightarrow> scheduler \<Rightarrow> scheduler" where
  "buried t s = s\<lparr>processes := (processes s)(owner_of s t := (processes s (owner_of s t))\<lparr>p_alive := p_alive (processes s (owner_of s t)) - 1\<rparr>),
     deferred := deferred s @ [t]\<rparr>"

lemma buried_frame [simp]:
  "ready (buried t s) = ready s" "finalizer (buried t s) = finalizer s" "registered (buried t s) = registered s"
  "processes_to_free (buried t s) = processes_to_free s" "cpus (buried t s) = cpus s" "blockers (buried t s) = blockers s"
  "current (buried t s) = current s" "idle (buried t s) = idle s" "deferred (buried t s) = deferred s @ [t]"
  "threads (buried t s) = threads s" "is_idle (buried t s) = is_idle s" "sleeping (buried t s) = sleeping s"
  "wake_time (buried t s) = wake_time s" "p_threads (processes (buried t s) p) = p_threads (processes s p)"
  "p_state (processes (buried t s) p) = p_state (processes s p)"
  "killed_sleeper (buried t s) = killed_sleeper s" "waiting (buried t s) = waiting s" "pending (buried t s) = pending s"
  by (simp_all add: buried_def is_idle_def fun_eq_iff wake_time_def killed_sleeper_def waiting_def pending_def)

lemma buried_process_ok:
  assumes "process_ok {t} s p" "t \<in> set (p_threads (processes s (owner_of s t)))" "process_ok {t} s (owner_of s t)" "state_of s t = DEAD"
    "p_state (processes s (owner_of s t)) = ALIVE \<longrightarrow> alive_threads {t} s (owner_of s t) \<noteq> {t}"
  shows "process_ok {} (buried t s) p"
proof (cases "p = owner_of s t")
  case True
  have "t \<in> alive_threads {t} s p"
    using assms(2) True by (simp add: alive_threads_def)
  moreover have a: "alive_threads {} (buried t s) p = alive_threads {t} s p - {t}"
    using assms(4) by (auto simp: alive_threads_def)
  ultimately have "p_alive (processes (buried t s) p) = word_of_nat (card (alive_threads {} (buried t s) p))"
    using alive_count_pred [of "alive_threads {t} s p" t] assms(3) True by (simp add: process_ok_def buried_def)
  moreover have "p_state (processes s p) = ALIVE \<longrightarrow> alive_threads {} (buried t s) p \<noteq> {}"
    using assms(5) True a \<open>t \<in> alive_threads {t} s p\<close> by auto
  ultimately show ?thesis
    using assms(1) True by (simp add: process_ok_def)
next
  case False
  then have "processes (buried t s) p = processes s p"
    by (simp add: buried_def)
  moreover have "alive_threads {} (buried t s) p = alive_threads {t} s p"
    using False assms(1) by (auto simp: alive_threads_def process_ok_def)
  ultimately show ?thesis
    using assms(1) by (simp add: process_ok_def)
qed

lemma buried_inv:
  assumes inv: "sched_inv X {t} P s" and t: "state_of s t = DEAD"
    and p: "p_state (processes s (owner_of s t)) = ALIVE \<longrightarrow> alive_threads {t} s (owner_of s t) \<noteq> {t}"
  shows "sched_inv X {} P (buried t s)"
proof -
  have tok: "\<not> is_idle s t" "\<not> on_a_list s t"
    using sched_inv_thread [OF inv, of t] t by (simp_all add: thread_ok_def)
  then have own: "owner_of s t \<in> set (registered s)" "t \<in> set (p_threads (processes s (owner_of s t)))"
    using inv t unfolding sched_inv_def by auto
  have on: "on_a_list (buried t s) u = (u = t \<or> on_a_list s u)" for u
    by (auto simp: on_a_list_def)
  have "thread_ok {} P (buried t s) u" for u
    using sched_inv_thread [OF inv, of u] t tok by (auto simp: thread_ok_def on)
  then have "threads_ok {} P (buried t s)"
    by (rule threads_okI)
  moreover have "cpu_ok X (buried t s) = cpu_ok X s"
    by (simp add: cpu_ok_def)
  moreover have "sleep_ok (buried t s)"
    using inv t by (auto simp: sched_inv_def sleep_ok_def on)
  moreover have "\<forall>q \<in> set (registered s). process_ok {} (buried t s) q"
    using inv own buried_process_ok [OF _ own(2) _ t p] by (simp add: sched_inv_def)
  moreover have "killers_ok (buried t s) q" if "killers_ok s q" for q
    by (rule killers_ok_mono [OF that]) auto
  moreover have "distinct (ready s @ deferred s @ [t] @ finalizer s)"
    using inv tok(2) by (auto simp: sched_inv_def on_a_list_def)
  ultimately show ?thesis
    using inv unfolding sched_inv_def by simp
qed

text \<open>Flags that only matter when the thread is settled next.\<close>

lemma flags_inv:
  assumes inv: "sched_inv X D P s" and t: "\<not> is_idle s t"
    and f: "\<And>x. t_owner (f x) = t_owner x \<and> t_state (f x) = t_state x \<and> t_blocker (f x) = t_blocker x
      \<and> t_requested (f x) = t_requested x \<and> t_kill_all (f x) = t_kill_all x"
  shows "sched_inv X D P (upd_thread t f s)"
proof -
  let ?s = "upd_thread t f s"
  have frame: "processes ?s = processes s" "registered ?s = registered s" "sleeping ?s = sleeping s" "blockers ?s = blockers s"
    "deferred ?s = deferred s" "ready ?s = ready s" "finalizer ?s = finalizer s" "processes_to_free ?s = processes_to_free s"
    "cpus ?s = cpus s" "current ?s = current s" "idle ?s = idle s"
    "state_of ?s u = state_of s u" "owner_of ?s u = owner_of s u" "blocker_of ?s u = blocker_of s u"
    "t_requested (threads ?s u) = t_requested (threads s u)" "t_kill_all (threads ?s u) = t_kill_all (threads s u)"
    "u \<noteq> t \<Longrightarrow> threads ?s u = threads s u" for u
    using f by (simp_all add: upd_thread_def)
  have base: "is_idle ?s = is_idle s" "on_a_list ?s = on_a_list s" "waiting ?s = waiting s"
      "killed_sleeper ?s = killed_sleeper s" "alive_threads D ?s = alive_threads D s" "wake_time ?s = wake_time s"
    by (simp_all add: is_idle_def on_a_list_def waiting_def killed_sleeper_def alive_threads_def wake_time_def frame fun_eq_iff)
  then have "pending ?s = pending s"
    by (simp add: pending_def frame fun_eq_iff)
  then have preds: "process_ok D ?s = process_ok D s" "killers_ok ?s = killers_ok s" "thread_ok D P ?s = thread_ok D P s"
      "sleep_ok ?s = sleep_ok s"
    by (simp_all add: killers_ok_def process_ok_def thread_ok_def sleep_ok_def frame base fun_eq_iff)
  have "threads ?s (idle s c) = threads s (idle s c)" if "c < cpus s" for c
    using t that frame(17) by (auto simp: is_idle_def)
  then have "cpu_ok X ?s"
    using inv by (auto simp: sched_inv_def cpu_ok_def frame)
  then show ?thesis
    using inv unfolding sched_inv_def threads_ok_def base preds frame by blast
qed

lemma decrement_eq:
  assumes "process_ok D s p" "u \<in> alive_threads D s p"
  shows "decrement_alive_thread_count p s
    = Inr (word_of_nat (card (alive_threads D s p - {u})), upd_process p (\<lambda>x. x\<lparr>p_alive := p_alive x - 1\<rparr>) s)"
proof -
  have "card (alive_threads D s p) \<noteq> 0"
    using assms(2) by auto
  then have "p_alive (processes s p) \<noteq> 0"
    using assms(1) alive_count_0 [OF card_alive_less [OF assms(1)]] by (simp add: process_ok_def)
  moreover have "p_alive (processes s p) - 1 = word_of_nat (card (alive_threads D s p - {u}))"
    using alive_count_pred [OF finite_alive assms(2)] assms(1) by (simp add: process_ok_def)
  ultimately show ?thesis
    by (simp add: decrement_alive_thread_count_def upd_process_def Let_def)
qed

text \<open>The state while thread \<open>t\<close>, dead and current on processor \<open>c\<close>, kills the threads of its process.\<close>

definition killing :: "cpu \<Rightarrow> tid \<Rightarrow> tid set \<Rightarrow> scheduler \<Rightarrow> bool" where
  "killing c t D s \<longleftrightarrow> sched_inv {c} D {} s \<and> c < cpus s \<and> current s c = t \<and> state_of s t = DEAD \<and> t_kill_all (threads s t)
     \<and> (D = {t} \<or> D = {} \<and> on_a_list s t)"

lemma killing_facts:
  assumes "killing c t D s"
  shows "owner_of s t \<in> set (registered s)" "t \<in> set (p_threads (processes s (owner_of s t)))"
    "process_ok D s (owner_of s t)" "killers_ok s (owner_of s t)" "p_state (processes s (owner_of s t)) \<noteq> ALIVE" "\<not> is_idle s t"
proof -
  have inv: "sched_inv {c} D {} s" "state_of s t = DEAD" "t_kill_all (threads s t)"
    using assms by (simp_all add: killing_def)
  show idle: "\<not> is_idle s t"
    using sched_inv_thread [OF inv(1), of t] inv(2) by (simp add: thread_ok_def)
  show own: "owner_of s t \<in> set (registered s)" "t \<in> set (p_threads (processes s (owner_of s t)))"
    using inv idle unfolding sched_inv_def by auto
  show "process_ok D s (owner_of s t)" "killers_ok s (owner_of s t)"
    using inv(1) own(1) by (simp_all add: sched_inv_def)
  then show "p_state (processes s (owner_of s t)) \<noteq> ALIVE"
    using own(2) inv(3) unfolding process_ok_def by blast
qed

lemma killers_dead:
  assumes "killing c t D s" "v \<in> set (p_threads (processes s (owner_of s t)))" "t_kill_all (threads s v)"
  shows "state_of s v = DEAD"
proof -
  have "v = t"
    using killing_facts(2,4) [OF assms(1)] assms unfolding killers_ok_def killing_def by blast
  with assms(1) show ?thesis
    by (auto simp: killing_def)
qed

lemma kill_self:
  assumes "killing c t {t} s"
  shows "kill_one t t s = Inr (buried t s) \<and> killing c t {} (buried t s)"
proof -
  note k = killing_facts [OF assms]
  have s: "sched_inv {c} {t} {} s" "state_of s t = DEAD" "c < cpus s" "current s c = t" "t_kill_all (threads s t)"
    using assms by (simp_all add: killing_def)
  have "t \<in> alive_threads {t} s (owner_of s t)"
    using k(2) by (simp add: alive_threads_def)
  moreover have "\<not> on_a_list s t"
    using sched_inv_thread [OF s(1), of t] s(2) by (simp add: thread_ok_def)
  ultimately have "kill_one t t s = Inr (buried t s)"
    using decrement_eq [OF k(3)] by (simp add: kill_one_def insert_deferred_def buried_def upd_process_def on_a_list_def)
  moreover have "sched_inv {c} {} {} (buried t s)"
    using k(5) by (intro buried_inv [OF s(1,2)]) simp
  ultimately show ?thesis
    using s by (simp add: killing_def on_a_list_def)
qed

subsection \<open>The place of a thread in the queue\<close>

definition ahead :: "tid \<Rightarrow> scheduler \<Rightarrow> nat" where
  "ahead u s = length (takeWhile (\<lambda>x. x \<noteq> u) (ready s))"

text \<open>A thread in the queue does not fall back: it is where it was, further ahead, or killed.\<close>

definition keeps :: "tid \<Rightarrow> scheduler \<Rightarrow> scheduler \<Rightarrow> bool" where
  "keeps u s s' \<longleftrightarrow> set (finalizer s) \<subseteq> set (finalizer s')
     \<and> (u \<in> set (ready s) \<longrightarrow> u \<in> set (finalizer s') \<or> u \<in> set (ready s') \<and> ahead u s' \<le> ahead u s)"

lemma keeps_refl [simp]: "keeps u s s"
  by (simp add: keeps_def)

lemma keeps_trans [trans]: "keeps u s s' \<Longrightarrow> keeps u s' s'' \<Longrightarrow> keeps u s s''"
  by (auto simp: keeps_def)

lemma keeps_append:
  assumes "ready s' = ready s @ ts" "set (finalizer s) \<subseteq> set (finalizer s')"
  shows "keeps u s s'"
  using assms by (auto simp: keeps_def ahead_def)

lemma takeWhile_remove1_le: "u \<noteq> v \<Longrightarrow> length (takeWhile (\<lambda>x. x \<noteq> u) (remove1 v xs)) \<le> length (takeWhile (\<lambda>x. x \<noteq> u) xs)"
  by (induction xs) auto

lemma keeps_remove:
  assumes "ready s' = remove1 v (ready s)" "set (finalizer s') = insert v (set (finalizer s))"
  shows "keeps u s s'"
  using assms takeWhile_remove1_le [of u v "ready s"] by (cases "u = v") (auto simp: keeps_def ahead_def)

subsection \<open>Killing the threads of a process\<close>

lemma dropWhile_in:
  fixes f :: "'a \<Rightarrow> 'b :: linorder"
  assumes "sorted (map f xs)" "x \<in> set xs"
  shows "x \<in> set (dropWhile (\<lambda>y. f y < f x) xs)"
  using assms by (induction xs) auto

lemma kill_sleeper_eq:
  assumes inv: "sched_inv X D P s" and p: "process_ok D s (owner_of s u)" "u \<in> alive_threads D s (owner_of s u)"
    and u: "state_of s u = BLOCKED" "u \<notin> set (finalizer s)" "blocker_of s u = Some b" "b_type (blockers s b) = SLEEP"
  shows "bind_res (decrement_alive_thread_count (owner_of s u) (thread_exit u 0 s)) (\<lambda>(_, s).
      bind_res (remove_sleeping_blocker b s) (free_thread u)) = Inr (killed u s)"
proof -
  have b: "b \<in> set (sleeping s)" "\<not> on_a_list s u"
    using blocked_waiting [OF inv u(1,2)] u(3,4) by auto
  have "sorted (map (wake_time s) (sleeping s))"
    using inv by (simp add: sched_inv_def sleep_ok_def)
  then have "b \<in> set (dropWhile (\<lambda>x. wake_time s x < wake_time s b) (sleeping s))"
    using b(1) by (rule dropWhile_in)
  moreover have "remove1 u (ready s) = ready s"
    using b(2) by (simp add: on_a_list_def remove1_idem)
  moreover have "p_alive (processes s (owner_of s u)) \<noteq> 0"
    using decrement_eq [OF p] by (auto simp: decrement_alive_thread_count_def Let_def assert_that_def split: if_splits)
  ultimately show ?thesis
    using b(2) u(3) by (simp add: Let_def decrement_alive_thread_count_def thread_exit_def upd_defs remove_sleeping_blocker_def free_thread_def
        on_a_list_def killed_def wake_time_def)
qed

lemma kill_ready_eq:
  assumes inv: "sched_inv X D P s" and p: "process_ok D s (owner_of s u)" "u \<in> alive_threads D s (owner_of s u)"
    and u: "state_of s u = READY" "u \<notin> set (finalizer s)" "\<not> is_idle s u"
  shows "bind_res (decrement_alive_thread_count (owner_of s u) (thread_exit u 0 s)) (\<lambda>(_, s).
      bind_res (pop_off u s) (free_thread u)) = Inr (killed u s)"
proof -
  have b: "blocker_of s u = None" "u \<in> set (ready s)" "u \<notin> set (deferred s)"
    using sched_inv_thread [OF inv, of u] u by (auto simp: thread_ok_def on_a_list_def)
  moreover have "u \<notin> set (remove1 u (ready s))"
    using inv by (simp add: sched_inv_def)
  moreover have "p_alive (processes s (owner_of s u)) \<noteq> 0"
    using decrement_eq [OF p] by (auto simp: decrement_alive_thread_count_def Let_def assert_that_def split: if_splits)
  ultimately show ?thesis
    using u(2) by (simp add: Let_def decrement_alive_thread_count_def thread_exit_def upd_defs pop_off_def free_thread_def
        on_a_list_def killed_def remove1_idem)
qed

lemma kill_waiting_eq:
  assumes inv: "sched_inv X D P s"
    and u: "state_of s u = BLOCKED" "u \<notin> set (finalizer s)" "blocker_of s u = Some b" "b_type (blockers s b) \<noteq> SLEEP"
  shows "bind_res (thread_interrupt u s) (\<lambda>(interrupted, s). if interrupted then insert_ready u s else Inr s)
     = Inr (if is_interruptable (b_type (blockers s b)) then woken INTERRUPTED u b s else s)"
proof -
  have "b \<notin> set (sleeping s)" "\<not> on_a_list s u" "b_result (blockers s b) = NO_RESULT"
    using blocked_waiting [OF inv u(1,2)] u(3,4) by auto
  then show ?thesis
    using u by (simp add: thread_interrupt_def insert_ready_def set_result_def upd_defs on_a_list_def woken_def remove1_idem)
qed

text \<open>What a step of the loop over the threads keeps for the threads still to come.\<close>

definition kill_frame :: "tid \<Rightarrow> scheduler \<Rightarrow> scheduler \<Rightarrow> bool" where
  "kill_frame u s s' \<longleftrightarrow> (\<forall>p. p_threads (processes s' p) = p_threads (processes s p)) \<and> (\<forall>w. owner_of s' w = owner_of s w)
     \<and> (\<forall>w. w \<noteq> u \<longrightarrow> (w \<in> set (finalizer s') \<longleftrightarrow> w \<in> set (finalizer s)) \<and> state_of s' w = state_of s w)
     \<and> current s' = current s \<and> idle s' = idle s \<and> cpus s' = cpus s \<and> (\<forall>w. on_a_list s w \<and> w \<noteq> u \<longrightarrow> on_a_list s' w)
     \<and> (\<forall>w. t_kill_all (threads s' w) = t_kill_all (threads s w)) \<and> (\<forall>w. keeps w s s')"

lemma killing_step:
  assumes "killing c t D s" "sched_inv {c} D {} s'" "kill_frame u s s'" "u \<noteq> t"
  shows "killing c t D s'"
  using assms unfolding killing_def kill_frame_def by auto

lemma thread_exit_frame [simp]:
  "processes (thread_exit u e s) = processes s" "registered (thread_exit u e s) = registered s" "sleeping (thread_exit u e s) = sleeping s"
  "blockers (thread_exit u e s) = blockers s" "deferred (thread_exit u e s) = deferred s" "ready (thread_exit u e s) = ready s"
  "finalizer (thread_exit u e s) = finalizer s" "processes_to_free (thread_exit u e s) = processes_to_free s"
  "cpus (thread_exit u e s) = cpus s" "current (thread_exit u e s) = current s" "idle (thread_exit u e s) = idle s"
  "state_of (thread_exit u e s) w = state_of s w" "owner_of (thread_exit u e s) w = owner_of s w"
  "blocker_of (thread_exit u e s) w = blocker_of s w" "t_kill_all (threads (thread_exit u e s) w) = t_kill_all (threads s w)"
  "t_requested (threads (thread_exit u e s) w) = t_requested (threads s w)" "is_idle (thread_exit u e s) = is_idle s"
  "on_a_list (thread_exit u e s) = on_a_list s" "t_invulnerable (threads (thread_exit u e s) w) = t_invulnerable (threads s w)"
  by (simp_all add: thread_exit_def upd_defs is_idle_def on_a_list_def fun_eq_iff)

lemma kill_other:
  assumes k: "killing c t D s" and u: "u \<in> set (p_threads (processes s (owner_of s t)))" "u \<noteq> t"
    "u \<in> set (finalizer s) \<longrightarrow> state_of s u = DEAD"
  shows "\<exists>s'. kill_one t u s = Inr s' \<and> killing c t D s' \<and> kill_frame u s s'"
proof -
  let ?s = "thread_exit u 0 s"
  have inv: "sched_inv {c} D {} s" and c: "current s c = t"
    using k by (simp_all add: killing_def)
  have p: "process_ok D s (owner_of s t)"
    by (rule killing_facts [OF k])
  then have own: "owner_of s u = owner_of s t" "\<not> is_idle s u"
    using u(1) unfolding process_ok_def by blast+
  have uD: "u \<notin> D"
    using k u(2) by (auto simp: killing_def)
  have alive: "u \<in> alive_threads D s (owner_of s u)" if "state_of s u \<in> {READY, BLOCKED}"
    using that u own by (auto simp: alive_threads_def)
  have v: "\<forall>v \<in> set (p_threads (processes s (owner_of s u))). t_kill_all (threads s v) \<longrightarrow> state_of s v = DEAD"
    using killers_dead [OF k] own by simp
  have killed: "sched_inv {c} D {} (killed u s)" "kill_frame u s (killed u s)"
    if "state_of s u \<in> {READY, BLOCKED}" "state_of s u = BLOCKED \<longrightarrow> killed_sleeper s u"
    using that u own uD killing_facts(5) [OF k] v
    by (intro killed_inv [OF inv], simp_all) (auto simp: kill_frame_def on_a_list_def intro: keeps_remove)
  have inv1: "sched_inv {c} D {} ?s" "kill_frame u s ?s"
    unfolding thread_exit_def by (rule flags_inv [OF inv own(2)], simp) (simp add: kill_frame_def keeps_append flip: thread_exit_def)
  consider (sleeper) b where "state_of s u = BLOCKED" "blocker_of s u = Some b" "b_type (blockers s b) = SLEEP"
    | (waiter) b where "state_of s u = BLOCKED" "blocker_of s u = Some b" "b_type (blockers s b) \<noteq> SLEEP"
    | (ready) "state_of s u = READY" | (other) "state_of s u \<notin> {READY, BLOCKED}"
    using blocked_waiting [OF inv, of u] u(3) by fastforce
  then show ?thesis
  proof cases
    case sleeper
    then show ?thesis
      using kill_sleeper_eq [OF inv, of u b] killing_step [OF k killed u(2)] killed(2) alive p own(1) u
      by (simp add: kill_one_def killed_sleeper_def)
  next
    case waiter
    have f: "u \<notin> set (finalizer s)" "\<not> on_a_list s u"
      using blocked_waiting [OF inv waiter(1)] u(3) waiter(1) by auto
    have "sched_inv {c} D {} (woken INTERRUPTED u b ?s)" "kill_frame u s (woken INTERRUPTED u b ?s)"
      using waiter f c u(2) by (intro woken_inv [OF inv1(1)], simp_all) (auto simp: kill_frame_def on_a_list_def intro: keeps_append)
    then show ?thesis
      using kill_waiting_eq [OF inv1(1), of u b] killing_step [OF k _ _ u(2)] inv1 f waiter u(2) by (simp add: kill_one_def Let_def)
  next
    case ready
    then show ?thesis
      using kill_ready_eq [OF inv, of u] killing_step [OF k killed u(2)] killed(2) alive p own u by (simp add: kill_one_def)
  next
    case other
    then show ?thesis
      using killing_step [OF k inv1 u(2)] inv1(2) u(2) by (simp add: kill_one_def)
  qed
qed

lemma kill_loop_inv:
  assumes "killing c t D s" "set us \<subseteq> set (p_threads (processes s (owner_of s t)))" "distinct us"
    "\<forall>u \<in> set us. u \<in> set (finalizer s) \<longrightarrow> state_of s u = DEAD" "D = (if t \<in> set us then {t} else {})"
  shows "\<exists>s'. kill_loop t us s = Inr s' \<and> killing c t {} s' \<and> current s' = current s \<and> idle s' = idle s \<and> cpus s' = cpus s
    \<and> (\<forall>w. keeps w s s')"
  using assms
proof (induction us arbitrary: s D)
  case (Cons u us)
  show ?case
  proof (cases "u = t")
    case True
    then have "kill_one t u s = Inr (buried t s)" "killing c t {} (buried t s)"
      using kill_self [of c t s] Cons.prems(1,5) by auto
    moreover have "keeps w s (buried t s)" for w
      by (simp add: keeps_append)
    ultimately show ?thesis
      using Cons.IH [of "{}" "buried t s"] Cons.prems True keeps_trans by fastforce
  next
    case False
    then obtain s' where s': "kill_one t u s = Inr s'" "killing c t D s'" "kill_frame u s s'"
      using kill_other [OF Cons.prems(1), of u] Cons.prems(2,4) by auto
    have "\<exists>s''. kill_loop t us s' = Inr s'' \<and> killing c t {} s'' \<and> current s'' = current s' \<and> idle s'' = idle s' \<and> cpus s'' = cpus s'
        \<and> (\<forall>w. keeps w s' s'')"
    proof (rule Cons.IH [OF s'(2)])
      show "\<forall>u \<in> set us. u \<in> set (finalizer s') \<longrightarrow> state_of s' u = DEAD"
        using s'(3) Cons.prems(3,4) unfolding kill_frame_def by (metis distinct.simps(2) list.set_intros(2))
    qed (use s'(3) Cons.prems False in \<open>auto simp: kill_frame_def\<close>)
    then show ?thesis
      using s' keeps_trans unfolding kill_frame_def by fastforce
  qed
qed simp

text \<open>The current thread of a processor dies.\<close>

lemma die_inv:
  assumes inv: "sched_inv {} {} P s" and c: "c < cpus s" "current s c = t" and t: "\<not> is_idle s t" and P: "P \<subseteq> {t}"
  shows "sched_inv {c} {t} {} (set_state t DEAD s)"
proof -
  let ?s = "set_state t DEAD s"
  have run: "state_of s t = RUNNING" and tok: "\<not> on_a_list s t"
    using inv c sched_inv_thread [OF inv, of t] by (auto simp: sched_inv_def cpu_ok_def thread_ok_def)
  have frame: "processes ?s = processes s" "registered ?s = registered s" "sleeping ?s = sleeping s" "blockers ?s = blockers s"
    "deferred ?s = deferred s" "ready ?s = ready s" "finalizer ?s = finalizer s" "processes_to_free ?s = processes_to_free s"
    "cpus ?s = cpus s" "current ?s = current s" "idle ?s = idle s"
    "state_of ?s u = (if u = t then DEAD else state_of s u)" "owner_of ?s u = owner_of s u" "blocker_of ?s u = blocker_of s u"
    "t_requested (threads ?s u) = t_requested (threads s u)" "t_kill_all (threads ?s u) = t_kill_all (threads s u)"
    "t_should_die (threads ?s u) = t_should_die (threads s u)" for u
    by (simp_all add: upd_defs)
  have base: "is_idle ?s = is_idle s" "on_a_list ?s = on_a_list s" "waiting ?s = waiting s" "killed_sleeper ?s = killed_sleeper s"
      "wake_time ?s = wake_time s" "alive_threads {t} ?s p = alive_threads {} s p" for p
    using run tok by (auto simp: is_idle_def on_a_list_def waiting_def killed_sleeper_def wake_time_def alive_threads_def frame fun_eq_iff)
  have "t \<notin> set (ready s)"
    using tok by (simp add: on_a_list_def)
  then have "thread_ok {t} {} ?s u" for u
    using sched_inv_thread [OF inv, of u] P tok t by (cases "u = t") (auto simp: thread_ok_def frame base)
  then have "threads_ok {t} {} ?s"
    by (rule threads_okI)
  moreover have "cpu_ok {c} ?s"
    using inv c t run by (auto simp: sched_inv_def cpu_ok_def frame is_idle_def inj_on_def)
  moreover have "sleep_ok ?s"
    using inv run by (auto simp: sched_inv_def sleep_ok_def frame base)
  moreover have "process_ok {t} ?s p = process_ok {} s p" for p
    by (intro process_ok_cong) (simp_all add: frame base)
  moreover have "killers_ok ?s p" if "killers_ok s p" for p
    by (rule killers_ok_mono [OF that]) (auto simp: frame base split: if_splits)
  ultimately show ?thesis
    using inv run unfolding sched_inv_def by (simp add: frame base)
qed

text \<open>A process whose last thread dies is exiting.\<close>

lemma exiting_inv:
  assumes inv: "sched_inv X D P s" and p: "p \<in> set (registered s)"
  shows "sched_inv X D P (snd (process_exit p code s))"
proof -
  let ?s = "snd (process_exit p code s)"
  have frame: "registered ?s = registered s" "sleeping ?s = sleeping s" "blockers ?s = blockers s"
    "deferred ?s = deferred s" "ready ?s = ready s" "finalizer ?s = finalizer s" "processes_to_free ?s = processes_to_free s"
    "cpus ?s = cpus s" "current ?s = current s" "idle ?s = idle s" "threads ?s = threads s"
    "p_threads (processes ?s q) = p_threads (processes s q)" "p_alive (processes ?s q) = p_alive (processes s q)"
    "p_state (processes ?s q) = (if q = p \<and> p_state (processes s q) = ALIVE then EXITING else p_state (processes s q))" for q
    by (auto simp: process_exit_def upd_process_def)
  have base: "is_idle ?s = is_idle s" "on_a_list ?s = on_a_list s" "waiting ?s = waiting s"
      "killed_sleeper ?s = killed_sleeper s" "alive_threads D ?s = alive_threads D s" "wake_time ?s = wake_time s" "pending ?s = pending s"
    by (simp_all add: is_idle_def on_a_list_def waiting_def killed_sleeper_def alive_threads_def wake_time_def pending_def frame fun_eq_iff)
  then have preds: "threads_ok D P ?s = threads_ok D P s"
      "sleep_ok ?s = sleep_ok s" "cpu_ok X ?s = cpu_ok X s"
    by (simp_all add: threads_ok_def thread_ok_def sleep_ok_def cpu_ok_def frame base fun_eq_iff)
  have "process_ok D ?s q" if "process_ok D s q" for q
    using that by (simp add: process_ok_def frame base)
  moreover have "killers_ok ?s q" if "killers_ok s q" for q
    by (rule killers_ok_mono [OF that]) (auto simp: frame split: if_splits)
  ultimately show ?thesis
    using inv p unfolding sched_inv_def base preds by (simp add: frame)
qed

lemma kill_current_inv:
  assumes inv: "sched_inv {} {} P s" and c: "c < cpus s" "current s c = t" and t: "\<not> is_idle s t" and P: "P \<subseteq> {t}"
  shows "\<exists>s'. kill_current_thread c s = Inr s' \<and> sched_inv {c} {} {} s' \<and> state_of s' t = DEAD
    \<and> current s' = current s \<and> idle s' = idle s \<and> cpus s' = cpus s \<and> (\<forall>w. keeps w s s')"
proof -
  let ?s = "set_state t DEAD s" and ?p = "owner_of s t"
  have inv': "sched_inv {c} {t} {} ?s"
    using assms by (rule die_inv)
  have frame: "current ?s = current s" "idle ?s = idle s" "cpus ?s = cpus s" "owner_of ?s t = ?p" "state_of ?s t = DEAD"
    "processes ?s = processes s" "finalizer ?s = finalizer s" "registered ?s = registered s" "t_kill_all (threads ?s u) = t_kill_all (threads s u)"
    "u \<noteq> t \<Longrightarrow> state_of ?s u = state_of s u" for u
    by (simp_all add: upd_defs)
  have "state_of s t = RUNNING"
    using inv c by (auto simp: sched_inv_def cpu_ok_def)
  then have own: "?p \<in> set (registered s)" "t \<in> set (p_threads (processes s ?p))"
    using inv t unfolding sched_inv_def by auto
  have pok: "process_ok {t} ?s ?p" "killers_ok s ?p"
    using inv inv' own(1) by (simp_all add: sched_inv_def frame)
  have "\<not> on_a_list s t"
    using sched_inv_thread [OF inv, of t] \<open>state_of s t = RUNNING\<close> by (simp add: thread_ok_def)
  show ?thesis
  proof (cases "t_kill_all (threads s t)")
    case True
    then have "killing c t {t} ?s"
      using inv' c by (simp add: killing_def frame)
    moreover have "\<forall>u \<in> set (p_threads (processes s ?p)). u \<in> set (finalizer s) \<longrightarrow> state_of ?s u = DEAD"
      using pok(2) own(2) True \<open>state_of s t = RUNNING\<close> frame(5,10) unfolding killers_ok_def by (metis thread_state.distinct)
    moreover have "distinct (p_threads (processes s ?p))"
      using pok(1) by (simp add: process_ok_def frame)
    moreover have "keeps w s s'" if "keeps w ?s s'" for w s'
      by (rule keeps_trans [OF _ that]) (simp add: keeps_append upd_defs)
    ultimately show ?thesis
      using kill_loop_inv [of c t "{t}" ?s "p_threads (processes s ?p)"] own(2) True c
      by (auto simp: kill_current_thread_def frame Let_def killing_def)
  next
    case False
    let ?e = "snd (process_exit ?p (t_exit_code (threads s t)) ?s)"
    have "t \<in> alive_threads {t} ?s ?p"
      using own(2) by (simp add: alive_threads_def frame)
    note dec = decrement_eq [OF pok(1) this]
    have empty: "word_of_nat (card (alive_threads {t} ?s ?p - {t})) = (0 :: u32) \<longleftrightarrow> alive_threads {t} ?s ?p - {t} = {}"
      using alive_count_0 [OF le_less_trans [OF card_Diff1_le card_alive_less [OF pok(1)]], of t]
      by (simp only: card_0_eq [OF finite_Diff [OF finite_alive]])
    let ?r = "if alive_threads {t} ?s ?p - {t} = {} then ?e else ?s"
    have r: "sched_inv {c} {t} {} ?r" "state_of ?r t = DEAD" "current ?r = current s" "idle ?r = idle s" "cpus ?r = cpus s" "owner_of ?r t = ?p"
      "alive_threads {t} ?r ?p = alive_threads {t} ?s ?p" "alive_threads {t} ?s ?p = {t} \<Longrightarrow> p_state (processes ?r ?p) \<noteq> ALIVE"
      using exiting_inv [OF inv'] own(1) inv' by (auto simp: frame process_exit_def upd_process_def alive_threads_def)
    then have "sched_inv {c} {} {} (buried t ?r)"
      by (intro buried_inv) auto
    moreover have comm: "x\<lparr>p_alive := a, p_state := b, p_exit_code := e\<rparr> = x\<lparr>p_state := b, p_exit_code := e, p_alive := a\<rparr>"
      for x :: process and a b e
      by (cases x) simp
    moreover have "kill_current_thread c s = Inr (buried t ?r)"
      using c False dec empty \<open>\<not> on_a_list s t\<close>
      by (auto simp: kill_current_thread_def frame Let_def insert_deferred_def on_a_list_def upd_defs process_exit_def buried_def comm)
    moreover have "keeps w s (buried t ?r)" for w
      by (simp add: keeps_append upd_defs process_exit_def)
    ultimately show ?thesis
      using r by simp
  qed
qed

end
