(* ===== verification/Scheduler_Steps.thy ===== *)
theory Scheduler_Steps
  imports Scheduler
begin

text \<open>
  The steps of the scheduler of \<^verbatim>\<open>Kernel/Multitasking\<close>: each operation keeps the invariant of
  \<^verbatim>\<open>Scheduler\<close> and ends without a failed assertion, in every state that a sequence of
  operations can reach, and no thread waits in the queue for ever.
\<close>

subsection \<open>Settling the current thread\<close>

lemma sched_inv_weaken:
  assumes inv: "sched_inv {} {} P s" and P: "\<forall>t \<in> P. t_requested (threads s t) = UNDEFINED"
  shows "sched_inv X {} {} s"
proof -
  have "thread_ok {} {} s t" for t
    using sched_inv_thread [OF inv, of t] P by (auto simp: thread_ok_def pending_def)
  then have "threads_ok {} {} s"
    by (rule threads_okI)
  moreover have "cpu_ok X s"
    using inv by (auto simp: sched_inv_def cpu_ok_def)
  ultimately show ?thesis
    using inv by (simp add: sched_inv_def)
qed

text \<open>The current thread is blocked, or goes on because it was unblocked too early.\<close>

definition parked :: "tid \<Rightarrow> bid \<Rightarrow> scheduler \<Rightarrow> scheduler" where
  "parked t b s = s\<lparr>threads := (threads s)(t := (threads s t)\<lparr>t_state := BLOCKED, t_requested := UNDEFINED\<rparr>),
     sleeping := (if b_type (blockers s b) = SLEEP then insort_key (wake_time s) b (sleeping s) else sleeping s)\<rparr>"

definition resumed :: "tid \<Rightarrow> scheduler \<Rightarrow> scheduler" where
  "resumed t s = s\<lparr>threads := (threads s)(t := (threads s t)\<lparr>t_blocker := None, t_requested := UNDEFINED\<rparr>)\<rparr>"

lemma resumed_inv:
  assumes inv: "sched_inv {} {} P s" and c: "c < cpus s" "current s c = t" and t: "\<not> is_idle s t" and P: "P \<subseteq> {t}"
  shows "sched_inv {c} {} {} (resumed t s)"
proof -
  let ?s = "resumed t s"
  have run: "state_of s t = RUNNING" and tok: "\<not> on_a_list s t"
    using inv c sched_inv_thread [OF inv, of t] by (auto simp: sched_inv_def cpu_ok_def thread_ok_def)
  have frame: "processes ?s = processes s" "registered ?s = registered s" "sleeping ?s = sleeping s" "blockers ?s = blockers s"
    "deferred ?s = deferred s" "ready ?s = ready s" "finalizer ?s = finalizer s" "processes_to_free ?s = processes_to_free s"
    "cpus ?s = cpus s" "current ?s = current s" "idle ?s = idle s" "state_of ?s u = state_of s u" "owner_of ?s u = owner_of s u"
    "blocker_of ?s u = (if u = t then None else blocker_of s u)" "t_kill_all (threads ?s u) = t_kill_all (threads s u)"
    "t_requested (threads ?s u) = (if u = t then UNDEFINED else t_requested (threads s u))"
    "t_should_die (threads ?s u) = t_should_die (threads s u)" for u
    by (simp_all add: resumed_def)
  have base: "is_idle ?s = is_idle s" "on_a_list ?s = on_a_list s" "wake_time ?s = wake_time s" "alive_threads D ?s p = alive_threads D s p"
      "u \<noteq> t \<Longrightarrow> waiting ?s u = waiting s u" "u \<noteq> t \<Longrightarrow> killed_sleeper ?s u = killed_sleeper s u" for D p u
    by (auto simp: is_idle_def on_a_list_def wake_time_def alive_threads_def waiting_def killed_sleeper_def frame fun_eq_iff)
  have "thread_ok {} {} ?s u" for u
  proof (cases "u = t")
    case True
    then show ?thesis
      using run tok c by (auto simp: thread_ok_def frame base)
  next
    case False
    then show ?thesis
      using sched_inv_thread [OF inv, of u] P by (auto simp: thread_ok_def frame base)
  qed
  then have "threads_ok {} {} ?s"
    by (rule threads_okI)
  moreover have "cpu_ok {c} ?s"
    using inv by (auto simp: sched_inv_def cpu_ok_def frame)
  moreover have "sleep_ok ?s"
    using inv run by (auto simp: sched_inv_def sleep_ok_def frame base)
  moreover have "process_ok {} ?s p = process_ok {} s p" for p
    by (intro process_ok_cong) (simp_all add: frame base)
  moreover have "killers_ok ?s p" if "killers_ok s p" for p
    by (rule killers_ok_mono [OF that]) (auto simp: frame base)
  ultimately show ?thesis
    using inv unfolding sched_inv_def by (simp add: frame base)
qed

lemma parked_inv:
  assumes inv: "sched_inv {} {} P s" and c: "c < cpus s" "current s c = t" and t: "\<not> is_idle s t" and P: "P \<subseteq> {t}"
    and b: "blocker_of s t = Some b" "b_thread (blockers s b) = t" "b_should_block (blockers s b)" "b \<notin> set (sleeping s)"
  shows "sched_inv {c} {} {} (parked t b s)"
proof -
  let ?s = "parked t b s"
  have run: "state_of s t = RUNNING" and tok: "\<not> on_a_list s t"
    using inv c sched_inv_thread [OF inv, of t] by (auto simp: sched_inv_def cpu_ok_def thread_ok_def)
  have frame: "processes ?s = processes s" "registered ?s = registered s" "blockers ?s = blockers s"
    "deferred ?s = deferred s" "ready ?s = ready s" "finalizer ?s = finalizer s" "processes_to_free ?s = processes_to_free s"
    "cpus ?s = cpus s" "current ?s = current s" "idle ?s = idle s" "state_of ?s u = (if u = t then BLOCKED else state_of s u)"
    "owner_of ?s u = owner_of s u" "blocker_of ?s u = blocker_of s u" "t_kill_all (threads ?s u) = t_kill_all (threads s u)"
    "t_requested (threads ?s u) = (if u = t then UNDEFINED else t_requested (threads s u))"
    "t_should_die (threads ?s u) = t_should_die (threads s u)"
    "sleeping ?s = (if b_type (blockers s b) = SLEEP then insort_key (wake_time s) b (sleeping s) else sleeping s)" for u
    by (simp_all add: parked_def)
  have base: "is_idle ?s = is_idle s" "on_a_list ?s = on_a_list s" "wake_time ?s = wake_time s" "alive_threads D ?s p = alive_threads D s p"
      "u \<noteq> t \<Longrightarrow> waiting ?s u = waiting s u" "killed_sleeper ?s u = killed_sleeper s u" for D p u
    using run b(2) by (auto simp: is_idle_def on_a_list_def wake_time_def alive_threads_def waiting_def killed_sleeper_def frame fun_eq_iff
        set_insort_key)
  have "waiting ?s t"
    using b by (auto simp: waiting_def frame set_insort_key)
  then have "thread_ok {} {} ?s u" for u
    using sched_inv_thread [OF inv, of u] P tok t by (cases "u = t") (auto simp: thread_ok_def frame base)
  then have "threads_ok {} {} ?s"
    by (rule threads_okI)
  moreover have "cpu_ok {c} ?s"
    using inv c t run by (auto simp: sched_inv_def cpu_ok_def frame is_idle_def inj_on_def)
  moreover have "distinct (sleeping ?s)" "sorted (map (wake_time s) (sleeping ?s))"
    using inv b(4) by (simp_all add: frame sched_inv_def sleep_ok_def distinct_insort sorted_insort_key)
  then have "sleep_ok ?s"
    using inv run b tok by (auto simp: sched_inv_def sleep_ok_def frame base set_insort_key)
  moreover have "process_ok {} ?s p = process_ok {} s p" for p
    by (intro process_ok_cong) (simp_all add: frame base)
  moreover have "killers_ok ?s p" if "killers_ok s p" for p
    using tok run by (intro killers_ok_mono [OF that]) (auto simp: frame base on_a_list_def split: if_splits)
  ultimately show ?thesis
    using inv run unfolding sched_inv_def by (simp add: frame base)
qed

lemma settle_current_inv:
  assumes inv: "sched_inv {} {} P s" and c: "c < cpus s" and P: "P \<subseteq> {current s c}"
  shows "\<exists>s'. settle_current c s = Inr s' \<and> sched_inv {c} {} {} s' \<and> current s' = current s \<and> idle s' = idle s \<and> cpus s' = cpus s
    \<and> (\<forall>w. keeps w s s')"
proof -
  let ?t = "current s c"
  have run: "state_of s ?t = RUNNING"
    using inv c by (auto simp: sched_inv_def cpu_ok_def)
  then have tok: "blocker_of s ?t = None \<and> t_requested (threads s ?t) = UNDEFINED \<or> ?t \<in> P \<and> pending s ?t"
    using sched_inv_thread [OF inv, of ?t] by (simp add: thread_ok_def)
  consider (die) "t_should_die (threads s ?t)" "\<not> t_invulnerable (threads s ?t)"
    | (block) "\<not> (t_should_die (threads s ?t) \<and> \<not> t_invulnerable (threads s ?t))" "t_requested (threads s ?t) \<noteq> UNDEFINED"
    | (run) "\<not> (t_should_die (threads s ?t) \<and> \<not> t_invulnerable (threads s ?t))" "t_requested (threads s ?t) = UNDEFINED"
    by blast
  then show ?thesis
  proof cases
    case die
    then have "\<not> is_idle s ?t"
      using inv by (auto simp: sched_inv_def cpu_ok_def is_idle_def)
    from kill_current_inv [OF inv c refl this P] die show ?thesis
      by (auto simp: settle_current_def Let_def)
  next
    case block
    then obtain b where b: "blocker_of s ?t = Some b" "b_thread (blockers s b) = ?t" "b \<notin> set (sleeping s)"
        and r: "t_requested (threads s ?t) = BLOCKED" and i: "\<not> is_idle s ?t"
      using tok by (auto simp: pending_def)
    show ?thesis
    proof (cases "b_should_block (blockers s b)")
      case True
      have "(\<lambda>x. b_wake_time (blockers s x)) = wake_time s"
        by (simp add: wake_time_def fun_eq_iff)
      with True have "settle_current c s = Inr (parked ?t b s)"
        using b r block(1) by (auto simp: settle_current_def Let_def insert_sleeping_def parked_def upd_defs cong: if_cong)
      then show ?thesis
        using parked_inv [OF inv c refl i P b(1,2) True b(3)] by (auto simp: parked_def intro: keeps_append)
    next
      case False
      then have "settle_current c s = Inr (resumed ?t s)"
        using b r run block(1) by (auto simp: settle_current_def Let_def thread_unblock_def resumed_def upd_defs)
      then show ?thesis
        using resumed_inv [OF inv c refl i P] by (auto simp: resumed_def intro: keeps_append)
    qed
  next
    case run
    then show ?thesis
      using sched_inv_weaken [OF inv, of "{c}"] P by (auto simp: settle_current_def Let_def)
  qed
qed

subsection \<open>Switching threads\<close>

lemma ready_threads:
  assumes inv: "sched_inv X D P s" and u: "u \<in> set (ready s)"
  shows "state_of s u = READY" "\<not> is_idle s u" "u \<notin> set (deferred s)" "u \<notin> set (finalizer s)"
proof -
  show l: "u \<notin> set (deferred s)" "u \<notin> set (finalizer s)"
    using inv u by (auto simp: sched_inv_def)
  show "state_of s u = READY"
    using sched_inv_thread [OF inv, of u] u l by (cases "state_of s u") (auto simp: thread_ok_def on_a_list_def)
  then show "\<not> is_idle s u"
    using sched_inv_thread [OF inv, of u] u by (auto simp: thread_ok_def on_a_list_def)
qed

definition switched :: "cpu \<Rightarrow> tid \<Rightarrow> scheduler \<Rightarrow> scheduler" where
  "switched c u s =
     (let t = current s c
      in s\<lparr>threads := (threads s)(t := (threads s t)\<lparr>t_state := (if state_of s t = RUNNING then READY else state_of s t)\<rparr>,
             u := (threads s u)\<lparr>t_state := RUNNING\<rparr>),
           ready := remove1 u (ready s) @ (if state_of s t = RUNNING \<and> t \<noteq> idle s c then [t] else []),
           current := (current s)(c := u)\<rparr>)"

lemma switched_inv:
  assumes inv: "sched_inv {c} {} {} s" and c: "c < cpus s" and u: "u \<noteq> current s c" "state_of s u = READY" "u \<notin> set (finalizer s)"
    and idle: "is_idle s u \<longrightarrow> u = idle s c"
  shows "sched_inv {} {} {} (switched c u s)"
proof -
  let ?s = "switched c u s" and ?t = "current s c"
  have d: "distinct (ready s @ deferred s @ finalizer s)" and cok: "cpu_ok {c} s"
    using inv by (simp_all add: sched_inv_def)
  then have t: "state_of s ?t \<in> {RUNNING, BLOCKED, DEAD}"
    using c by (auto simp: cpu_ok_def)
  have tidle: "is_idle s ?t \<longleftrightarrow> ?t = idle s c"
    using cok c by (auto simp: cpu_ok_def is_idle_def)
  have uok: "u \<notin> set (deferred s)" "blocker_of s u = None" "t_requested (threads s u) = UNDEFINED"
    using sched_inv_thread [OF inv, of u] u(2) by (auto simp: thread_ok_def on_a_list_def split: if_splits)
  have frame: "processes ?s = processes s" "registered ?s = registered s" "blockers ?s = blockers s" "sleeping ?s = sleeping s"
    "deferred ?s = deferred s" "finalizer ?s = finalizer s" "processes_to_free ?s = processes_to_free s"
    "cpus ?s = cpus s" "idle ?s = idle s" "owner_of ?s w = owner_of s w" "blocker_of ?s w = blocker_of s w"
    "t_kill_all (threads ?s w) = t_kill_all (threads s w)" "t_requested (threads ?s w) = t_requested (threads s w)"
    "t_should_die (threads ?s w) = t_should_die (threads s w)" "current ?s = (current s)(c := u)"
    "state_of ?s w = (if w = u then RUNNING else if w = ?t \<and> state_of s w = RUNNING then READY else state_of s w)" for w
    using u(1) by (auto simp: switched_def Let_def)
  have tlist: "state_of s ?t = RUNNING \<Longrightarrow> \<not> on_a_list s ?t"
    using sched_inv_thread [OF inv, of ?t] by (simp add: thread_ok_def)
  have on: "on_a_list ?s w \<longleftrightarrow> (on_a_list s w \<or> w = ?t \<and> state_of s ?t = RUNNING \<and> \<not> is_idle s ?t) \<and> w \<noteq> u" for w
    using u uok(1) d unfolding tidle by (auto simp: switched_def Let_def on_a_list_def)
  have rdy: "w \<in> set (ready s) \<or> w = ?t \<and> state_of s ?t = RUNNING" if "w \<in> set (ready ?s)" for w
    using that set_remove1_subset [of u "ready s"] by (auto simp: switched_def Let_def split: if_splits)
  have base: "is_idle ?s = is_idle s" "wake_time ?s = wake_time s" "alive_threads D ?s p = alive_threads D s p"
      "waiting ?s w = waiting s w" "killed_sleeper ?s w = killed_sleeper s w" for D p w
    using u by (auto simp: is_idle_def wake_time_def alive_threads_def waiting_def killed_sleeper_def frame fun_eq_iff)
  have "thread_ok {} {} ?s w" for w
  proof -
    consider "w = u" | "w = ?t" "w \<noteq> u" | "w \<noteq> ?t" "w \<noteq> u"
      by blast
    then show ?thesis
    proof cases
      case 1
      then show ?thesis
        using c uok by (auto simp: thread_ok_def frame base on)
    next
      case 2
      then show ?thesis
        using sched_inv_thread [OF inv, of ?t] t tlist
        by (auto simp: thread_ok_def frame base on dest: rdy) (auto simp: on_a_list_def)
    next
      case 3
      then show ?thesis
        using sched_inv_thread [OF inv, of w] u by (auto simp: thread_ok_def frame base on dest: rdy)
    qed
  qed
  then have "threads_ok {} {} ?s"
    by (rule threads_okI)
  moreover have run: "state_of s (current s x) = RUNNING" "current s x \<noteq> u" "current s x \<noteq> ?t" if "x < cpus s" "x \<noteq> c" for x
    using cok c that u(2) by (auto simp: cpu_ok_def dest: inj_onD)
  have "cpu_ok {} ?s"
  proof -
    have "inj_on ((current s)(c := u)) {..<cpus s}"
      using cok run(2) by (auto simp: cpu_ok_def inj_on_def)
    moreover have "state_of ?s (((current s)(c := u)) x) = RUNNING" if "x < cpus s" for x
      using run [OF that] by (auto simp: frame)
    moreover have "x' = x" if "x < cpus s" "x' < cpus s" "((current s)(c := u)) x' = idle s x" for x x'
      using that idle cok c by (auto simp: cpu_ok_def is_idle_def dest: inj_onD split: if_splits)
    ultimately show ?thesis
      using cok unfolding cpu_ok_def by (simp add: frame)
  qed
  moreover have "distinct (ready ?s @ deferred s @ finalizer s)"
    using d tlist u by (auto simp: switched_def Let_def on_a_list_def)
  moreover have "sleep_ok ?s"
    using inv u(2) t by (auto simp: sched_inv_def sleep_ok_def frame base on)
  moreover have "process_ok {} ?s p = process_ok {} s p" for p
    by (intro process_ok_cong) (simp_all add: frame base)
  moreover have "killers_ok ?s p" if "killers_ok s p" for p
    using u by (intro killers_ok_mono [OF that]) (auto simp: frame split: if_splits)
  ultimately show ?thesis
    using inv u(2) unfolding sched_inv_def by (simp add: frame base)
qed

lemma switch_thread_inv:
  assumes inv: "sched_inv {c} {} {} s" and c: "c < cpus s"
  shows "\<exists>s'. switch_thread c s = Inr s' \<and> sched_inv {} {} {} s' \<and> idle s' = idle s \<and> cpus s' = cpus s \<and> finalizer s' = finalizer s
    \<and> (\<forall>u us. ready s = u # us \<longrightarrow> current s' c = u \<and> (\<exists>ts. ready s' = us @ ts))"
proof -
  let ?t = "current s c"
  have cok: "cpu_ok {c} s" and d: "distinct (ready s)"
    using inv by (simp_all add: sched_inv_def)
  have tidle: "is_idle s ?t \<longleftrightarrow> ?t = idle s c"
    using cok c by (auto simp: cpu_ok_def is_idle_def)
  have tlist: "state_of s ?t = RUNNING \<Longrightarrow> \<not> on_a_list s ?t"
    using sched_inv_thread [OF inv, of ?t] by (simp add: thread_ok_def)
  have t: "state_of s ?t \<in> {RUNNING, BLOCKED, DEAD}"
    using cok c by (auto simp: cpu_ok_def)
  have "cpu_ok {} s" if "state_of s ?t = RUNNING"
    using cok that unfolding cpu_ok_def by (metis empty_iff singletonD)
  then have strong: "sched_inv {} {} {} s" if "state_of s ?t = RUNNING"
    using inv that by (simp add: sched_inv_def)
  show ?thesis
  proof (cases "ready s")
    case (Cons u us)
    have u: "state_of s u = READY" "\<not> is_idle s u" "u \<notin> set (finalizer s)" "u \<noteq> ?t"
      using ready_threads [OF inv, of u] Cons t by auto
    have "switch_thread c s = Inr (switched c u s)"
      using Cons u tlist by (auto simp: switch_thread_def insert_ready_def pick_next_thread_def activate_def deactivate_def upd_defs
          switched_def Let_def)
    then show ?thesis
      using switched_inv [OF inv c u(4,1,3)] u(2) Cons by (auto simp: switched_def Let_def)
  next
    case Nil
    then have same: "s\<lparr>ready := []\<rparr> = s"
      by (cases s) simp
    show ?thesis
    proof (cases "state_of s ?t = RUNNING")
      case True
      then show ?thesis
        using Nil strong tlist by (simp add: switch_thread_def insert_ready_def pick_next_thread_def Let_def same)
    next
      case False
      then have nt: "\<not> is_idle s ?t"
        using sched_inv_thread [OF inv, of ?t] t by (auto simp: thread_ok_def)
      have run: "state_of s (idle s c) = READY"
      proof (rule ccontr)
        assume "state_of s (idle s c) \<noteq> READY"
        then have "state_of s (idle s c) = RUNNING"
          using cok c by (auto simp: cpu_ok_def)
        then obtain c' where "c' < cpus s" "current s c' = idle s c"
          using sched_inv_thread [OF inv, of "idle s c"] by (auto simp: thread_ok_def)
        then show False
          using nt tidle cok c by (auto simp: cpu_ok_def)
      qed
      have "idle s c \<notin> set (finalizer s)"
        using sched_inv_thread [OF inv, of "idle s c"] run c by (auto simp: thread_ok_def is_idle_def on_a_list_def split: if_splits)
      moreover have "idle s c \<noteq> ?t"
        using nt tidle by simp
      moreover have "switch_thread c s = Inr (switched c (idle s c) s)"
        using False Nil run \<open>idle s c \<noteq> ?t\<close>
        by (auto simp: switch_thread_def pick_next_thread_def activate_def deactivate_def upd_defs switched_def Let_def)
      ultimately show ?thesis
        using switched_inv [OF inv c, of "idle s c"] run Nil by (auto simp: switched_def Let_def)
    qed
  qed
qed

text \<open>One switch takes a thread in the queue one place further at least.\<close>

definition moves_up :: "cpu \<Rightarrow> tid \<Rightarrow> scheduler \<Rightarrow> scheduler \<Rightarrow> bool" where
  "moves_up c u s s' \<longleftrightarrow> set (finalizer s) \<subseteq> set (finalizer s')
     \<and> (u \<in> set (ready s) \<longrightarrow> u \<in> set (finalizer s') \<or> current s' c = u \<or> u \<in> set (ready s') \<and> ahead u s' < ahead u s)"

lemma keeps_moves_up: "keeps u s s' \<Longrightarrow> moves_up c u s' s'' \<Longrightarrow> moves_up c u s s''"
  by (auto simp: keeps_def moves_up_def)

lemma switch_moves_up:
  assumes "\<forall>v vs. ready s = v # vs \<longrightarrow> current s' c = v \<and> (\<exists>ts. ready s' = vs @ ts)" "finalizer s' = finalizer s"
  shows "moves_up c u s s'"
  using assms by (cases "ready s") (auto simp: moves_up_def ahead_def)

lemma pick_next_inv:
  assumes inv: "sched_inv {} {} P s" and c: "c < cpus s" and P: "P \<subseteq> {current s c}"
  shows "\<exists>s'. pick_next c now s = Inr s' \<and> sched_inv {} {} {} s' \<and> idle s' = idle s \<and> cpus s' = cpus s \<and> (\<forall>u. moves_up c u s s')"
proof -
  let ?s = "free_deferred_threads s"
  obtain s1 ts where s1: "wake_ready_threads now ?s = Inr s1" "sched_inv {} {} P s1" "current s1 = current s" "idle s1 = idle s" "cpus s1 = cpus s"
      "finalizer s1 = finalizer ?s" "ready s1 = ready s @ ts"
    using wake_loop_inv [OF free_deferred_inv [OF inv] refl, of now] by (auto simp: wake_ready_threads_def)
  have "keeps u s s1" for u
    using s1 by (intro keeps_append) (auto simp: free_deferred_threads_def split: prod.splits)
  moreover obtain s2 where s2: "settle_current c s1 = Inr s2" "sched_inv {c} {} {} s2" "current s2 = current s" "idle s2 = idle s" "cpus s2 = cpus s"
      "\<And>u. keeps u s1 s2"
    using settle_current_inv [OF s1(2), of c] s1 c P by auto
  moreover obtain s3 where s3: "switch_thread c s2 = Inr s3" "sched_inv {} {} {} s3" "idle s3 = idle s" "cpus s3 = cpus s" "finalizer s3 = finalizer s2"
      "\<forall>v vs. ready s2 = v # vs \<longrightarrow> current s3 c = v \<and> (\<exists>ts. ready s3 = vs @ ts)"
    using switch_thread_inv [OF s2(2)] s2(4,5) c by auto
  ultimately have "moves_up c u s s3" for u
    using switch_moves_up [OF s3(6,5)] keeps_moves_up by metis
  then show ?thesis
    using s1 s2 s3 by (simp add: pick_next_def)
qed

subsection \<open>Operations that end in a switch\<close>

lemma block_request_inv:
  assumes inv: "sched_inv {} {} {} s" and c: "c < cpus s" "current s c = t" "\<not> is_idle s t"
    and b: "b_thread (blockers s b) = t" "b \<notin> set (sleeping s)"
  shows "\<exists>s'. thread_block t b s = Inr s' \<and> sched_inv {} {} {t} s' \<and> current s' = current s \<and> idle s' = idle s \<and> cpus s' = cpus s
    \<and> ready s' = ready s \<and> finalizer s' = finalizer s"
proof -
  let ?s = "s\<lparr>threads := (threads s)(t := (threads s t)\<lparr>t_blocker := Some b, t_requested := BLOCKED\<rparr>)\<rparr>"
  have run: "state_of s t = RUNNING"
    using inv c by (auto simp: sched_inv_def cpu_ok_def)
  then have tok: "\<not> on_a_list s t" "blocker_of s t = None" "t_requested (threads s t) = UNDEFINED"
    using sched_inv_thread [OF inv, of t] by (simp_all add: thread_ok_def)
  have base: "is_idle ?s = is_idle s" "on_a_list ?s = on_a_list s" "wake_time ?s = wake_time s" "alive_threads D ?s p = alive_threads D s p"
      "u \<noteq> t \<Longrightarrow> waiting ?s u = waiting s u" "u \<noteq> t \<Longrightarrow> killed_sleeper ?s u = killed_sleeper s u" for D p u
    by (auto simp: is_idle_def on_a_list_def wake_time_def alive_threads_def waiting_def killed_sleeper_def fun_eq_iff)
  have "pending ?s t"
    using b c(3) by (simp add: pending_def base)
  then have "thread_ok {} {t} ?s u" for u
    using sched_inv_thread [OF inv, of u] run tok c by (cases "u = t") (auto simp: thread_ok_def base)
  then have "threads_ok {} {t} ?s"
    by (rule threads_okI)
  moreover have "cpu_ok {} ?s"
    using inv by (auto simp: sched_inv_def cpu_ok_def)
  moreover have "sleep_ok ?s"
    using inv run by (auto simp: sched_inv_def sleep_ok_def base)
  moreover have "process_ok {} ?s p = process_ok {} s p" for p
    by (intro process_ok_cong) (simp_all add: base)
  moreover have "killers_ok ?s p" if "killers_ok s p" for p
    by (rule killers_ok_mono [OF that]) (auto split: if_splits)
  ultimately have "sched_inv {} {} {t} ?s"
    using inv unfolding sched_inv_def by (simp add: base)
  then show ?thesis
    using tok by (simp add: thread_block_def upd_thread_def)
qed

text \<open>The first thread that ends its process is the one that kills the others.\<close>

lemma killer_inv:
  assumes inv: "sched_inv {} {} {} s" and t: "\<not> is_idle s t" "state_of s t = RUNNING"
    and alive: "p_state (processes s (owner_of s t)) = ALIVE"
  shows "sched_inv {} {} {} (upd_thread t (t_kill_all_update (\<lambda>_. True)) (snd (process_exit (owner_of s t) code s)))"
proof -
  let ?p = "owner_of s t"
  let ?r = "snd (process_exit ?p code s)"
  let ?s = "upd_thread t (t_kill_all_update (\<lambda>_. True)) ?r"
  have own: "?p \<in> set (registered s)" "t \<in> set (p_threads (processes s ?p))"
    using inv t unfolding sched_inv_def by auto
  then have pok: "process_ok {} s ?p" "killers_ok s ?p" and r: "sched_inv {} {} {} ?r"
    using inv exiting_inv [OF inv] by (simp_all add: sched_inv_def)
  have no: "\<not> t_kill_all (threads s u)" if "u \<in> set (p_threads (processes s ?p))" for u
    using pok(1) that alive by (auto simp: process_ok_def)
  have frame: "processes ?s = processes ?r" "registered ?s = registered ?r" "sleeping ?s = sleeping ?r" "blockers ?s = blockers ?r"
    "deferred ?s = deferred ?r" "ready ?s = ready ?r" "finalizer ?s = finalizer ?r" "processes_to_free ?s = processes_to_free ?r"
    "cpus ?s = cpus ?r" "current ?s = current ?r" "idle ?s = idle ?r"
    "state_of ?s u = state_of ?r u" "owner_of ?s u = owner_of ?r u" "blocker_of ?s u = blocker_of ?r u"
    "t_requested (threads ?s u) = t_requested (threads ?r u)" "t_should_die (threads ?s u) = t_should_die (threads ?r u)"
    "t_kill_all (threads ?s u) \<longleftrightarrow> u = t \<or> t_kill_all (threads ?r u)" for u
    by (simp_all add: upd_thread_def)
  have base: "is_idle ?s = is_idle ?r" "on_a_list ?s = on_a_list ?r" "waiting ?s = waiting ?r"
      "killed_sleeper ?s = killed_sleeper ?r" "alive_threads {} ?s = alive_threads {} ?r" "wake_time ?s = wake_time ?r"
    by (simp_all add: is_idle_def on_a_list_def waiting_def killed_sleeper_def alive_threads_def wake_time_def frame fun_eq_iff)
  then have preds: "threads_ok {} {} ?s = threads_ok {} {} ?r" "sleep_ok ?s = sleep_ok ?r" "cpu_ok {} ?s = cpu_ok {} ?r"
    by (simp_all add: threads_ok_def thread_ok_def sleep_ok_def cpu_ok_def frame base fun_eq_iff)
  have rf: "threads ?r = threads s" "finalizer ?r = finalizer s" "p_threads (processes ?r q) = p_threads (processes s q)"
      "p_state (processes ?r ?p) = EXITING" for q
    using alive by (simp_all add: process_exit_def upd_process_def)
  have other: "t \<notin> set (p_threads (processes ?r q))" if "process_ok {} ?r q" "q \<noteq> ?p" for q
    using that by (auto simp: process_ok_def rf)
  have "process_ok {} ?s q" if "process_ok {} ?r q" for q
    using that other [OF that] rf(4) by (cases "q = ?p") (auto simp: process_ok_def frame base)
  moreover have "killers_ok ?s q" if "killers_ok ?r q" "process_ok {} ?r q" for q
  proof (cases "q = ?p")
    case True
    have "u \<in> set (p_threads (processes s ?p)) \<Longrightarrow> u \<in> set (finalizer s) \<Longrightarrow> state_of s u = DEAD" for u
      using pok(2) alive by (simp add: killers_ok_def)
    then show ?thesis
      using no True rf(4) by (auto simp: killers_ok_def frame rf)
  next
    case False
    then show ?thesis
      using that(1) other [OF that(2)] unfolding killers_ok_def frame by blast
  qed
  ultimately show ?thesis
    using r unfolding sched_inv_def preds by (simp add: frame base)
qed

lemma exit_code_inv:
  assumes inv: "sched_inv X D P s"
  shows "sched_inv X D P (upd_process p (p_exit_code_update (\<lambda>_. code)) s)"
proof -
  let ?s = "upd_process p (p_exit_code_update (\<lambda>_. code)) s"
  have frame: "registered ?s = registered s" "sleeping ?s = sleeping s" "blockers ?s = blockers s" "deferred ?s = deferred s"
    "ready ?s = ready s" "finalizer ?s = finalizer s" "processes_to_free ?s = processes_to_free s"
    "cpus ?s = cpus s" "current ?s = current s" "idle ?s = idle s" "threads ?s = threads s"
    "p_threads (processes ?s q) = p_threads (processes s q)" "p_alive (processes ?s q) = p_alive (processes s q)"
    "p_state (processes ?s q) = p_state (processes s q)" for q
    by (auto simp: upd_process_def)
  have base: "is_idle ?s = is_idle s" "on_a_list ?s = on_a_list s" "waiting ?s = waiting s"
      "killed_sleeper ?s = killed_sleeper s" "alive_threads D ?s = alive_threads D s" "wake_time ?s = wake_time s" "pending ?s = pending s"
    by (simp_all add: is_idle_def on_a_list_def waiting_def killed_sleeper_def alive_threads_def wake_time_def pending_def frame fun_eq_iff)
  then have "threads_ok D P ?s = threads_ok D P s" "sleep_ok ?s = sleep_ok s" "cpu_ok X ?s = cpu_ok X s"
      "process_ok D ?s q = process_ok D s q" "killers_ok ?s q = killers_ok s q" for q
    by (simp_all add: threads_ok_def thread_ok_def sleep_ok_def cpu_ok_def process_ok_def killers_ok_def frame base)
  then show ?thesis
    using inv unfolding sched_inv_def by (simp add: frame base)
qed

lemma make_blocker_inv:
  assumes inv: "sched_inv {} {} {} s" and b: "\<forall>u. blocker_of s u \<noteq> Some b"
  shows "sched_inv {} {} {} (make_blocker b t ty w s)"
proof -
  let ?s = "make_blocker b t ty w s"
  have frame: "threads ?s = threads s" "processes ?s = processes s" "registered ?s = registered s" "sleeping ?s = sleeping s"
    "deferred ?s = deferred s" "ready ?s = ready s" "finalizer ?s = finalizer s" "processes_to_free ?s = processes_to_free s"
    "cpus ?s = cpus s" "current ?s = current s" "idle ?s = idle s" "a \<noteq> b \<Longrightarrow> blockers ?s a = blockers s a" for a
    by (simp_all add: make_blocker_def upd_blocker_def)
  have nb: "b \<notin> set (sleeping s)"
    using inv b by (auto simp: sched_inv_def sleep_ok_def)
  have same: "blockers ?s a = blockers s a" if "blocker_of s u = Some a" for u a
    using that b frame(12) by metis
  have base: "is_idle ?s = is_idle s" "on_a_list ?s = on_a_list s" "alive_threads D ?s = alive_threads D s" for D
    by (simp_all add: is_idle_def on_a_list_def alive_threads_def frame(1-11) fun_eq_iff)
  have blk: "waiting ?s = waiting s" "killed_sleeper ?s = killed_sleeper s" "pending ?s = pending s"
    using same by (simp_all add: waiting_def killed_sleeper_def pending_def frame(1-11) base fun_eq_iff cong: conj_cong)
  have sl: "sleep_ok s"
    using inv by (simp add: sched_inv_def)
  have in_use: "blockers ?s x = blockers s x" if "x \<in> set (sleeping s)" for x
    using that nb frame(12) by metis
  then have "map (wake_time ?s) (sleeping s) = map (wake_time s) (sleeping s)"
    by (simp add: wake_time_def)
  then have "sorted (map (wake_time ?s) (sleeping s))"
    using sl by (simp only: sleep_ok_def)
  moreover have "b_should_block (blockers ?s x) \<longleftrightarrow> b_result (blockers ?s x) = NO_RESULT" for x
    using sl by (simp add: sleep_ok_def make_blocker_def upd_blocker_def)
  ultimately have "sleep_ok ?s"
    using sl in_use by (simp add: sleep_ok_def frame(1-11) base)
  moreover have "threads_ok {} {} ?s = threads_ok {} {} s" "cpu_ok {} ?s = cpu_ok {} s"
      "process_ok {} ?s q = process_ok {} s q" "killers_ok ?s q = killers_ok s q" for q
    by (simp_all add: threads_ok_def thread_ok_def cpu_ok_def process_ok_def killers_ok_def frame(1-11) base blk)
  ultimately show ?thesis
    using inv unfolding sched_inv_def by (simp add: frame(1-11) base)
qed

subsection \<open>New threads and processes\<close>

text \<open>A number that no thread uses.\<close>

definition unused :: "tid \<Rightarrow> scheduler \<Rightarrow> bool" where
  "unused t s \<longleftrightarrow> state_of s t = UNDEFINED \<and> \<not> is_idle s t \<and> (\<forall>p \<in> set (registered s). t \<notin> set (p_threads (processes s p)))"

definition spawned :: "pid \<Rightarrow> tid \<Rightarrow> scheduler \<Rightarrow> scheduler" where
  "spawned p t s = s\<lparr>threads := (threads s)(t := fresh_thread\<lparr>t_owner := p, t_state := READY\<rparr>),
     processes := (processes s)(p := fresh_process\<lparr>p_threads := [t], p_alive := 1\<rparr>), registered := p # registered s, ready := ready s @ [t]\<rparr>"

lemma create_supervisor_eq:
  assumes "p \<notin> set (registered s)" "\<not> on_a_list s t"
  shows "create_supervisor p t s = Inr (spawned p t s)"
  using assms by (simp add: create_supervisor_def register_process_def insert_ready_def increment_alive_thread_count_def upd_defs
      on_a_list_def fresh_process_def fresh_thread_def spawned_def)

lemma spawned_inv:
  assumes inv: "sched_inv {} {} {} s" and t: "unused t s" and p: "p \<notin> set (registered s)" "p \<notin> set (processes_to_free s)"
  shows "sched_inv {} {} {} (spawned p t s)"
proof -
  let ?s = "spawned p t s"
  have tu: "state_of s t = UNDEFINED" "\<not> is_idle s t" "\<not> on_a_list s t" "\<And>q. q \<in> set (registered s) \<Longrightarrow> t \<notin> set (p_threads (processes s q))"
    using t sched_inv_thread [OF inv, of t] by (auto simp: unused_def thread_ok_def)
  have frame: "blockers ?s = blockers s" "sleeping ?s = sleeping s" "deferred ?s = deferred s" "finalizer ?s = finalizer s"
    "processes_to_free ?s = processes_to_free s" "cpus ?s = cpus s" "current ?s = current s" "idle ?s = idle s"
    "registered ?s = p # registered s" "ready ?s = ready s @ [t]"
    "threads ?s u = (if u = t then fresh_thread\<lparr>t_owner := p, t_state := READY\<rparr> else threads s u)"
    "processes ?s q = (if q = p then fresh_process\<lparr>p_threads := [t], p_alive := 1\<rparr> else processes s q)" for u q
    by (simp_all add: spawned_def)
  have base: "is_idle ?s = is_idle s" "on_a_list ?s u \<longleftrightarrow> u = t \<or> on_a_list s u" "wake_time ?s = wake_time s"
      "u \<noteq> t \<Longrightarrow> waiting ?s u = waiting s u" "u \<noteq> t \<Longrightarrow> killed_sleeper ?s u = killed_sleeper s u" for u
    by (auto simp: is_idle_def on_a_list_def wake_time_def waiting_def killed_sleeper_def frame fun_eq_iff)
  have "t \<notin> set (deferred s)"
    using tu(3) by (simp add: on_a_list_def)
  then have "thread_ok {} {} ?s u" for u
    using sched_inv_thread [OF inv, of u] tu by (cases "u = t") (auto simp: thread_ok_def base frame fresh_thread_def)
  then have "threads_ok {} {} ?s"
    by (rule threads_okI)
  moreover have "cpu_ok {} ?s"
    using inv tu by (auto simp: sched_inv_def cpu_ok_def frame is_idle_def)
  moreover have "sleep_ok ?s"
    using inv tu(1) by (auto simp: sched_inv_def sleep_ok_def frame base)
  moreover have "process_ok {} ?s q" if q: "q \<in> set (p # registered s)" for q
  proof (cases "q = p")
    case True
    have "alive_threads {} ?s p = {t}"
      using tu(3) by (auto simp: alive_threads_def frame on_a_list_def)
    then show ?thesis
      using True tu(2) by (simp add: process_ok_def frame base fresh_process_def fresh_thread_def thread_limit_def)
  next
    case False
    then have q': "q \<in> set (registered s)"
      using q by simp
    have "alive_threads {} ?s q = alive_threads {} s q"
      using False tu(4) [OF q'] by (auto simp: alive_threads_def frame)
    then show ?thesis
      using inv q' False tu(4) [OF q'] unfolding sched_inv_def process_ok_def by (auto simp: frame base)
  qed
  moreover have "killers_ok ?s q" if q: "q \<in> set (p # registered s)" for q
  proof (cases "q = p")
    case True
    then show ?thesis
      using tu(3) by (simp add: killers_ok_def frame on_a_list_def fresh_thread_def fresh_process_def)
  next
    case False
    then have q': "q \<in> set (registered s)" "killers_ok s q"
      using inv q by (simp_all add: sched_inv_def)
    show ?thesis
      using tu(4) [OF q'(1)] False by (intro killers_ok_shrink [OF q'(2)]) (auto simp: frame split: if_splits)
  qed
  moreover have "distinct (ready ?s @ deferred s @ finalizer s)" "distinct (registered ?s @ processes_to_free s)"
    using inv tu(3) p by (auto simp: sched_inv_def on_a_list_def frame)
  moreover have "owner_of ?s u \<in> set (p # registered s) \<and> u \<in> set (p_threads (processes ?s (owner_of ?s u)))"
    if "state_of ?s u \<noteq> UNDEFINED" "\<not> is_idle s u" for u
    using inv that p(1) by (auto simp: sched_inv_def frame)
  ultimately show ?thesis
    using inv p unfolding sched_inv_def by (auto simp: frame base)
qed

lemma create_thread_inv:
  assumes inv: "sched_inv {} {} {} s" and t: "unused t s" and p: "p \<in> set (registered s)" "Suc (length (p_threads (processes s p))) < thread_limit"
  shows "sched_inv {} {} {} (create_thread p t s)"
proof (cases "p_state (processes s p) = ALIVE")
  case True
  let ?s = "create_thread p t s"
  have tu: "state_of s t = UNDEFINED" "\<not> is_idle s t" "\<not> on_a_list s t" "\<And>q. q \<in> set (registered s) \<Longrightarrow> t \<notin> set (p_threads (processes s q))"
    using t sched_inv_thread [OF inv, of t] by (auto simp: unused_def thread_ok_def)
  have frame: "blockers ?s = blockers s" "sleeping ?s = sleeping s" "deferred ?s = deferred s" "finalizer ?s = finalizer s"
    "processes_to_free ?s = processes_to_free s" "cpus ?s = cpus s" "current ?s = current s" "idle ?s = idle s"
    "registered ?s = registered s" "ready ?s = ready s"
    "threads ?s u = (if u = t then fresh_thread\<lparr>t_owner := p\<rparr> else threads s u)"
    "p_threads (processes ?s q) = (if q = p then insort t (p_threads (processes s q)) else p_threads (processes s q))"
    "p_state (processes ?s q) = p_state (processes s q)" "p_alive (processes ?s q) = p_alive (processes s q)" for u q
    using True by (simp_all add: create_thread_def upd_defs)
  have base: "is_idle ?s = is_idle s" "on_a_list ?s u \<longleftrightarrow> on_a_list s u" "wake_time ?s = wake_time s"
      "u \<noteq> t \<Longrightarrow> waiting ?s u = waiting s u" "u \<noteq> t \<Longrightarrow> killed_sleeper ?s u = killed_sleeper s u" for u
    by (auto simp: is_idle_def on_a_list_def wake_time_def waiting_def killed_sleeper_def frame fun_eq_iff)
  have alive: "alive_threads {} ?s q = alive_threads {} s q" for q
    using tu(1) by (auto simp: alive_threads_def frame fresh_thread_def set_insort_key)
  have "thread_ok {} {} ?s u" for u
    using sched_inv_thread [OF inv, of u] tu by (cases "u = t") (auto simp: thread_ok_def base frame fresh_thread_def)
  then have "threads_ok {} {} ?s"
    by (rule threads_okI)
  moreover have "cpu_ok {} ?s"
    using inv tu by (auto simp: sched_inv_def cpu_ok_def frame is_idle_def)
  moreover have "sleep_ok ?s"
    using inv tu(1) by (auto simp: sched_inv_def sleep_ok_def frame base)
  moreover have "process_ok {} ?s q" if q: "q \<in> set (registered s)" for q
    using inv q tu(2) tu(4) [OF q] p(2) unfolding sched_inv_def process_ok_def
    by (auto simp: frame base alive set_insort_key distinct_insort fresh_thread_def)
  moreover have "killers_ok ?s q" if q: "q \<in> set (registered s)" for q
  proof -
    have k: "killers_ok s q" "t \<notin> set (finalizer s)"
      using inv q tu(3) by (simp_all add: sched_inv_def on_a_list_def)
    then show ?thesis
      using tu(4) [OF q] by (intro killers_ok_shrink [OF k(1)]) (auto simp: frame set_insort_key fresh_thread_def split: if_splits)
  qed
  moreover have "owner_of ?s u \<in> set (registered s) \<and> u \<in> set (p_threads (processes ?s (owner_of ?s u)))"
    if "state_of ?s u \<noteq> UNDEFINED" "\<not> is_idle s u" for u
    using inv that by (auto simp: sched_inv_def frame set_insort_key fresh_thread_def split: if_splits)
  ultimately show ?thesis
    using inv unfolding sched_inv_def by (auto simp: frame base)
qed (simp add: create_thread_def inv)

lemma register_thread_inv:
  assumes inv: "sched_inv {} {} {} s" and t: "state_of s t = UNDEFINED" "\<not> is_idle s t"
    and own: "owner_of s t \<in> set (registered s)" "t \<in> set (p_threads (processes s (owner_of s t)))"
  shows "\<exists>r s'. register_thread t s = Inr (r, s') \<and> sched_inv {} {} {} s' \<and> cpus s' = cpus s \<and> idle s' = idle s
    \<and> set (finalizer s) \<subseteq> set (finalizer s') \<and> (\<exists>ts. ready s' = ready s @ ts)"
proof -
  let ?p = "owner_of s t"
  have tok: "\<not> on_a_list s t" "blocker_of s t = None" "t_requested (threads s t) = UNDEFINED"
    using sched_inv_thread [OF inv, of t] t by (simp_all add: thread_ok_def)
  define a where "a \<longleftrightarrow> p_state (processes s ?p) = ALIVE"
  define s' where "s' = (if a
     then s\<lparr>threads := (threads s)(t := (threads s t)\<lparr>t_state := READY\<rparr>),
            processes := (processes s)(?p := (processes s ?p)\<lparr>p_alive := p_alive (processes s ?p) + 1\<rparr>), ready := ready s @ [t]\<rparr>
     else s\<lparr>threads := (threads s)(t := (threads s t)\<lparr>t_should_die := True, t_exit_code := 0, t_state := DEAD\<rparr>), finalizer := finalizer s @ [t]\<rparr>)"
  have frame: "blockers s' = blockers s" "sleeping s' = sleeping s" "deferred s' = deferred s"
    "processes_to_free s' = processes_to_free s" "cpus s' = cpus s" "current s' = current s" "idle s' = idle s" "registered s' = registered s"
    "ready s' = (if a then ready s @ [t] else ready s)" "finalizer s' = (if a then finalizer s else finalizer s @ [t])"
    "state_of s' u = (if u = t then if a then READY else DEAD else state_of s u)" "owner_of s' u = owner_of s u"
    "blocker_of s' u = blocker_of s u" "t_requested (threads s' u) = t_requested (threads s u)"
    "t_kill_all (threads s' u) = t_kill_all (threads s u)" "u \<noteq> t \<Longrightarrow> threads s' u = threads s u"
    "p_threads (processes s' q) = p_threads (processes s q)" "p_state (processes s' q) = p_state (processes s q)"
    "p_alive (processes s' q) = (if a \<and> q = ?p then p_alive (processes s q) + 1 else p_alive (processes s q))" for u q
    by (auto simp: s'_def)
  have base: "is_idle s' = is_idle s" "on_a_list s' u \<longleftrightarrow> u = t \<or> on_a_list s u" "wake_time s' = wake_time s"
      "waiting s' u = waiting s u" "killed_sleeper s' u = killed_sleeper s u" for u
    by (auto simp: is_idle_def on_a_list_def wake_time_def waiting_def killed_sleeper_def frame fun_eq_iff)
  have nl: "t \<notin> set (ready s)" "t \<notin> set (deferred s)" "t \<notin> set (finalizer s)"
    using tok(1) by (simp_all add: on_a_list_def)
  have alive: "alive_threads {} s' q = (if a \<and> q = ?p then insert t (alive_threads {} s q) else alive_threads {} s q)"
      if q: "process_ok {} s q" for q
  proof -
    have "t \<in> set (p_threads (processes s q)) \<longleftrightarrow> q = ?p"
      using q own(2) by (auto simp: process_ok_def)
    then show ?thesis
      using t(1) nl(3) by (auto simp: alive_threads_def frame)
  qed
  have "thread_ok {} {} s' u" for u
    using sched_inv_thread [OF inv, of u] t tok nl by (cases "u = t") (auto simp: thread_ok_def base frame)
  then have "threads_ok {} {} s'"
    by (rule threads_okI)
  moreover have "cpu_ok {} s'"
  proof -
    have "threads s' (current s c) = threads s (current s c)" "threads s' (idle s c) = threads s (idle s c)" if "c < cpus s" for c
      using inv that t by (intro frame(16); auto simp: sched_inv_def cpu_ok_def is_idle_def)+
    then show ?thesis
      using inv by (simp add: sched_inv_def cpu_ok_def frame(5-7))
  qed
  moreover have "sleep_ok s'"
    using inv t(1) by (auto simp: sched_inv_def sleep_ok_def frame base)
  moreover have "process_ok {} s' q" if q: "process_ok {} s q" for q
  proof -
    have "t \<notin> alive_threads {} s q"
      using t(1) by (simp add: alive_threads_def)
    then show ?thesis
      using q unfolding process_ok_def alive [OF q] by (auto simp: frame base add.commute)
  qed
  moreover have "killers_ok s' q" if q: "killers_ok s q" for q
    using nl t(1) by (intro killers_ok_mono [OF q]) (auto simp: frame split: if_splits)
  moreover have "distinct (ready s' @ deferred s @ finalizer s')"
    using inv nl by (auto simp: sched_inv_def frame)
  ultimately have "sched_inv {} {} {} s'"
    using inv own unfolding sched_inv_def by (auto simp: frame base)
  moreover have "register_thread t s = Inr (a, s')"
    using tok(1) own(1) by (simp add: register_thread_def a_def s'_def Let_def free_thread_def insert_ready_def thread_exit_def
        increment_alive_thread_count_def upd_defs on_a_list_def)
  ultimately show ?thesis
    using frame by (auto simp: frame)
qed

subsection \<open>The task finalizer\<close>

lemma finalizer_threads:
  assumes inv: "sched_inv X {} P s" and t: "t \<in> set (finalizer s)"
  shows "\<not> is_idle s t" "state_of s t \<in> {READY, BLOCKED, DEAD}" "owner_of s t \<in> set (registered s)"
    "t \<in> set (p_threads (processes s (owner_of s t)))" "t \<notin> alive_threads {} s p"
proof -
  have tok: "thread_ok {} P s t" "on_a_list s t"
    using sched_inv_thread [OF inv] t by (simp_all add: on_a_list_def)
  show i: "\<not> is_idle s t" and st: "state_of s t \<in> {READY, BLOCKED, DEAD}"
    using tok by (cases "state_of s t"; auto simp: thread_ok_def split: if_splits)+
  show "owner_of s t \<in> set (registered s)" "t \<in> set (p_threads (processes s (owner_of s t)))"
    using inv i st unfolding sched_inv_def by auto
  show "t \<notin> alive_threads {} s p"
    using t by (simp add: alive_threads_def)
qed

lemma finalize_inv:
  assumes inv: "sched_inv {} {} {} s"
  shows "\<exists>s'. finalize_next_thread s = Inr s' \<and> sched_inv {} {} {} s' \<and> cpus s' = cpus s \<and> idle s' = idle s \<and> ready s' = ready s \<and> current s' = current s"
proof (cases "finalizer s")
  case (Cons t rest)
  let ?p = "owner_of s t"
  define ts where "ts = remove1 t (p_threads (processes s ?p))"
  define s' where "s' = s\<lparr>threads := (threads s)(t := fresh_thread), processes := (processes s)(?p := (processes s ?p)\<lparr>p_threads := ts\<rparr>),
     registered := (if ts = [] then remove1 ?p (registered s) else registered s), finalizer := rest,
     processes_to_free := (if ts = [] then processes_to_free s @ [?p] else processes_to_free s)\<rparr>"
  have tin: "t \<in> set (finalizer s)"
    using Cons by simp
  note tf = finalizer_threads [OF inv tin]
  have d: "distinct (ready s @ deferred s @ finalizer s)" "distinct (registered s @ processes_to_free s)"
    and pok: "process_ok {} s ?p" "\<And>q. q \<in> set (registered s) \<Longrightarrow> process_ok {} s q"
    using inv tf(3) by (simp_all add: sched_inv_def)
  have nl: "t \<notin> set (ready s)" "t \<notin> set (deferred s)" "t \<notin> set rest"
    using d(1) Cons by auto
  have frame: "blockers s' = blockers s" "sleeping s' = sleeping s" "deferred s' = deferred s"
    "cpus s' = cpus s" "current s' = current s" "idle s' = idle s" "ready s' = ready s" "finalizer s' = rest"
    "registered s' = (if ts = [] then remove1 ?p (registered s) else registered s)"
    "processes_to_free s' = (if ts = [] then processes_to_free s @ [?p] else processes_to_free s)"
    "threads s' u = (if u = t then fresh_thread else threads s u)"
    "p_threads (processes s' q) = (if q = ?p then ts else p_threads (processes s q))" "p_state (processes s' q) = p_state (processes s q)"
    "p_alive (processes s' q) = p_alive (processes s q)" for u q
    by (simp_all add: s'_def)
  have dist: "distinct (p_threads (processes s ?p))"
    using pok(1) by (simp add: process_ok_def)
  have tset: "set (p_threads (processes s' q)) = set (p_threads (processes s q)) - {t}" if "q \<in> set (registered s)" for q
    using pok(2) [OF that] dist by (auto simp: frame ts_def process_ok_def)
  have base: "is_idle s' = is_idle s" "on_a_list s' u \<longleftrightarrow> u \<noteq> t \<and> on_a_list s u" "wake_time s' = wake_time s"
      "u \<noteq> t \<Longrightarrow> waiting s' u = waiting s u" "u \<noteq> t \<Longrightarrow> killed_sleeper s' u = killed_sleeper s u" for u
    using nl Cons by (auto simp: is_idle_def on_a_list_def wake_time_def waiting_def killed_sleeper_def frame fun_eq_iff)
  have alive: "alive_threads {} s' q = alive_threads {} s q" if "q \<in> set (registered s)" for q
    using tf(5) [of q] Cons by (auto simp: alive_threads_def frame(8,11) tset [OF that] fresh_thread_def)
  have "thread_ok {} {} s' u" for u
    using sched_inv_thread [OF inv, of u] Cons by (cases "u = t") (auto simp: thread_ok_def base frame fresh_thread_def)
  then have "threads_ok {} {} s'"
    by (rule threads_okI)
  moreover have "cpu_ok {} s'"
  proof -
    have "threads s' (current s c) = threads s (current s c)" "threads s' (idle s c) = threads s (idle s c)" if "c < cpus s" for c
      using inv that tf(1,2) by (auto simp: frame sched_inv_def cpu_ok_def is_idle_def)
    then show ?thesis
      using inv by (simp add: sched_inv_def cpu_ok_def frame(4-6))
  qed
  moreover have "sleep_ok s'"
    using inv tin Cons by (auto simp: sched_inv_def sleep_ok_def frame base on_a_list_def)
  moreover have sub: "q \<in> set (registered s) \<and> (q = ?p \<longrightarrow> ts \<noteq> [])" if "q \<in> set (registered s')" for q
    using that d(2) by (auto simp: frame split: if_splits)
  moreover have "process_ok {} s' q" if q: "q \<in> set (registered s')" for q
  proof -
    have "length ts \<le> length (p_threads (processes s ?p))" "distinct ts"
      using dist by (simp_all add: ts_def length_remove1)
    then show ?thesis
      using pok(2) [of q] sub [OF q] tset [of q] alive [of q] unfolding process_ok_def by (auto simp: frame base)
  qed
  moreover have "killers_ok s' q" if q: "q \<in> set (registered s')" for q
  proof -
    have k: "killers_ok s q"
      using inv sub [OF q] by (simp add: sched_inv_def)
    show ?thesis
      using tset [of q] sub [OF q] Cons by (intro killers_ok_shrink [OF k]) (auto simp: frame split: if_splits)
  qed
  moreover have "p_state (processes s' q) = EXITING" if "q \<in> set (processes_to_free s')" for q
  proof (cases "q \<in> set (processes_to_free s)")
    case True
    then show ?thesis
      using inv by (simp add: sched_inv_def frame)
  next
    case False
    then have q: "ts = []" "q = ?p"
      using that by (auto simp: frame split: if_splits)
    have "alive_threads {} s ?p = {}"
      using q tset [OF tf(3)] tf(5) [of ?p] by (auto simp: frame alive_threads_def)
    then show ?thesis
      using pok(1) q(2) by (cases "p_state (processes s ?p)") (auto simp: process_ok_def frame)
  qed
  moreover have "owner_of s' u \<in> set (registered s') \<and> u \<in> set (p_threads (processes s' (owner_of s' u)))"
    if u: "state_of s' u \<noteq> UNDEFINED" "\<not> is_idle s' u" for u
  proof -
    have ut: "u \<noteq> t" "state_of s u \<noteq> UNDEFINED"
      using u(1) by (auto simp: frame fresh_thread_def split: if_splits)
    then have "owner_of s u \<in> set (registered s)" "u \<in> set (p_threads (processes s (owner_of s u)))"
      using inv u(2) unfolding sched_inv_def base by blast+
    moreover from this have "u \<in> set (p_threads (processes s' (owner_of s u)))"
      using tset ut(1) by simp
    moreover have "owner_of s u = ?p \<Longrightarrow> ts \<noteq> []" "owner_of s' u = owner_of s u"
      using calculation(3) ut(1) by (auto simp: frame)
    ultimately show ?thesis
      by (cases "owner_of s u = ?p") (simp_all add: frame(9))
  qed
  moreover have "distinct (ready s' @ deferred s' @ finalizer s')" "distinct (registered s' @ processes_to_free s')"
    using d Cons tf(3) by (auto simp: frame)
  ultimately have "sched_inv {} {} {} s'"
    by (intro sched_invI)
  moreover have "finalize_next_thread s = Inr s'"
    using Cons tf(3) by (simp add: finalize_next_thread_def do_free_thread_def unregister_process_def upd_defs Let_def s'_def flip: ts_def)
  ultimately show ?thesis
    by (simp add: frame)
qed (simp add: finalize_next_thread_def inv)

lemma do_free_process_inv:
  assumes inv: "sched_inv {} {} {} s"
  shows "\<exists>s'. do_free_process s = Inr s' \<and> sched_inv {} {} {} s' \<and> cpus s' = cpus s \<and> idle s' = idle s \<and> ready s' = ready s \<and> current s' = current s
    \<and> finalizer s' = finalizer s"
proof (cases "processes_to_free s")
  case (Cons p ps)
  let ?s = "upd_process p (p_state_update (\<lambda>_. EXITED)) (s\<lparr>processes_to_free := ps\<rparr>)"
  have p: "p \<notin> set (registered s)" "p \<notin> set ps" "p_state (processes s p) = EXITING"
    using inv Cons by (auto simp: sched_inv_def)
  have frame: "blockers ?s = blockers s" "sleeping ?s = sleeping s" "deferred ?s = deferred s" "finalizer ?s = finalizer s"
    "processes_to_free ?s = ps" "cpus ?s = cpus s" "current ?s = current s" "idle ?s = idle s"
    "registered ?s = registered s" "ready ?s = ready s" "threads ?s = threads s" "q \<noteq> p \<Longrightarrow> processes ?s q = processes s q" for q
    by (simp_all add: upd_process_def)
  have base: "is_idle ?s = is_idle s" "on_a_list ?s = on_a_list s" "waiting ?s = waiting s"
      "killed_sleeper ?s = killed_sleeper s" "wake_time ?s = wake_time s" "pending ?s = pending s"
    by (simp_all add: is_idle_def on_a_list_def waiting_def killed_sleeper_def wake_time_def pending_def frame(1-11) fun_eq_iff)
  have "threads_ok {} {} ?s = threads_ok {} {} s" "sleep_ok ?s = sleep_ok s" "cpu_ok {} ?s = cpu_ok {} s"
    by (simp_all add: threads_ok_def thread_ok_def sleep_ok_def cpu_ok_def frame(1-11) base)
  moreover have "process_ok {} ?s q = process_ok {} s q" "killers_ok ?s q = killers_ok s q" "processes ?s q = processes s q"
    if "q \<in> set (registered s)" for q
  proof -
    have "processes ?s q = processes s q"
      using that p(1) frame(12) by metis
    then show "process_ok {} ?s q = process_ok {} s q" "killers_ok ?s q = killers_ok s q" "processes ?s q = processes s q"
      by (simp_all add: process_ok_def killers_ok_def alive_threads_def frame(1-11) base)
  qed
  moreover have "p_state (processes ?s q) = EXITING" if "q \<in> set ps" for q
  proof -
    have "q \<noteq> p" "p_state (processes s q) = EXITING"
      using that p(2) inv Cons by (auto simp: sched_inv_def)
    then show ?thesis
      by (simp add: frame(12))
  qed
  ultimately have "sched_inv {} {} {} ?s"
    using inv Cons by (intro sched_invI) (auto simp: sched_inv_def frame(1-11) base)
  then show ?thesis
    using Cons p(3) by (simp add: do_free_process_def frame(1-11))
qed (simp add: do_free_process_def inv)

subsection \<open>Sequences of operations\<close>

text \<open>
  The operations of the kernel on the scheduler, with the processor they run on and the time.
  A tick stands for every plain switch: the timer, \<^verbatim>\<open>yield\<close> and the return from an interrupt.
\<close>

datatype operation =
    Tick cpu u64
  | Make_Blocker cpu bid blocker_type u64
  | Block cpu bid u64
  | Sleep cpu bid u64 u64
  | Unblock bid
  | Exit_Thread cpu "32 word" u64
  | Exit_Process cpu "32 word" u64
  | Crash cpu "32 word" u64
  | Set_Invulnerable cpu bool
  | Create_Supervisor pid tid
  | Create_Thread pid tid
  | Register_Thread tid
  | Finalize_Thread
  | Free_Process

fun run_op :: "operation \<Rightarrow> scheduler \<Rightarrow> scheduler res" where
  "run_op (Tick c now) s = pick_next c now s"
| "run_op (Make_Blocker c b ty w) s = Inr (make_blocker b (current s c) ty w s)"
| "run_op (Block c b now) s = block_current c b now s"
| "run_op (Sleep c b w now) s = sleep_current c b w now s"
| "run_op (Unblock b) s = unblock b s"
| "run_op (Exit_Thread c code now) s = exit_thread c code now s"
| "run_op (Exit_Process c code now) s = exit_process c code now s"
| "run_op (Crash c code now) s = crash c code now s"
| "run_op (Set_Invulnerable c v) s = Inr (set_invulnerable (current s c) v s)"
| "run_op (Create_Supervisor p t) s = create_supervisor p t s"
| "run_op (Create_Thread p t) s = Inr (create_thread p t s)"
| "run_op (Register_Thread t) s = bind_res (register_thread t s) (\<lambda>(_, s). Inr s)"
| "run_op Finalize_Thread s = finalize_next_thread s"
| "run_op Free_Process s = do_free_process s"

text \<open>The processor on which an operation switches threads.\<close>

fun switches :: "operation \<Rightarrow> cpu option" where
  "switches (Tick c now) = Some c"
| "switches (Block c b now) = Some c"
| "switches (Sleep c b w now) = Some c"
| "switches (Exit_Thread c code now) = Some c"
| "switches (Exit_Process c code now) = Some c"
| "switches (Crash c code now) = Some c"
| "switches _ = None"

text \<open>
  How the rest of the kernel uses the scheduler. The idle thread of a processor neither blocks
  nor exits. A thread blocks on a blocker of its own, and the object is free for another use
  only when no thread is blocked on it. A sleeping thread is woken by the scheduler alone, and a
  blocked thread by its own blocker. New objects have numbers that are not in use.
\<close>

fun enabled :: "operation \<Rightarrow> scheduler \<Rightarrow> bool" where
  "enabled (Tick c now) s \<longleftrightarrow> c < cpus s"
| "enabled (Make_Blocker c b ty w) s \<longleftrightarrow> c < cpus s \<and> (\<forall>u. blocker_of s u \<noteq> Some b)"
| "enabled (Block c b now) s \<longleftrightarrow> c < cpus s \<and> \<not> is_idle s (current s c) \<and> b_thread (blockers s b) = current s c \<and> b \<notin> set (sleeping s)"
| "enabled (Sleep c b w now) s \<longleftrightarrow> c < cpus s \<and> \<not> is_idle s (current s c) \<and> (\<forall>u. blocker_of s u \<noteq> Some b)"
| "enabled (Unblock b) s \<longleftrightarrow> b_type (blockers s b) \<noteq> SLEEP
     \<and> (state_of s (b_thread (blockers s b)) = BLOCKED \<longrightarrow> blocker_of s (b_thread (blockers s b)) = Some b)"
| "enabled (Exit_Thread c code now) s \<longleftrightarrow> c < cpus s \<and> \<not> is_idle s (current s c)"
| "enabled (Exit_Process c code now) s \<longleftrightarrow> c < cpus s \<and> \<not> is_idle s (current s c)"
| "enabled (Crash c code now) s \<longleftrightarrow> c < cpus s \<and> \<not> is_idle s (current s c)"
| "enabled (Set_Invulnerable c v) s \<longleftrightarrow> c < cpus s \<and> \<not> is_idle s (current s c)"
| "enabled (Create_Supervisor p t) s \<longleftrightarrow> unused t s \<and> p \<notin> set (registered s) \<and> p \<notin> set (processes_to_free s)"
| "enabled (Create_Thread p t) s \<longleftrightarrow> unused t s \<and> p \<in> set (registered s) \<and> Suc (length (p_threads (processes s p))) < thread_limit"
| "enabled (Register_Thread t) s \<longleftrightarrow> state_of s t = UNDEFINED \<and> \<not> is_idle s t \<and> owner_of s t \<in> set (registered s)
     \<and> t \<in> set (p_threads (processes s (owner_of s t)))"
| "enabled Finalize_Thread s \<longleftrightarrow> True"
| "enabled Free_Process s \<longleftrightarrow> True"

text \<open>The state at boot: each processor runs its idle thread.\<close>

definition boot :: "nat \<Rightarrow> scheduler" where
  "boot n = \<lparr>threads = (\<lambda>t. fresh_thread\<lparr>t_state := (if t < n then RUNNING else UNDEFINED)\<rparr>), processes = (\<lambda>_. fresh_process),
     blockers = (\<lambda>_. \<lparr>b_thread = 0, b_type = IO, b_wake_time = 0, b_result = NO_RESULT, b_should_block = True\<rparr>),
     registered = [], sleeping = [], deferred = [], ready = [], finalizer = [], processes_to_free = [],
     cpus = n, current = (\<lambda>c. c), idle = (\<lambda>c. c)\<rparr>"

inductive steps :: "scheduler \<Rightarrow> operation list \<Rightarrow> scheduler \<Rightarrow> bool" where
  steps_Nil: "steps s [] s"
| steps_Cons: "enabled x s \<Longrightarrow> run_op x s = Inr s' \<Longrightarrow> steps s' xs s'' \<Longrightarrow> steps s (x # xs) s''"

inductive_cases steps_ConsE: "steps s (x # xs) s''"

definition reachable :: "scheduler \<Rightarrow> bool" where
  "reachable s \<longleftrightarrow> (\<exists>n xs. steps (boot n) xs s)"

lemma boot_inv: "sched_inv {} {} {} (boot n)"
proof -
  have "thread_ok {} {} (boot n) t" for t
    by (auto simp: thread_ok_def boot_def fresh_thread_def on_a_list_def is_idle_def)
  then have "threads_ok {} {} (boot n)"
    by (rule threads_okI)
  then show ?thesis
    by (rule sched_invI [rotated]) (auto simp: boot_def cpu_ok_def sleep_ok_def fresh_thread_def is_idle_def inj_on_def split: if_splits)
qed

text \<open>A thread in the queue is run, killed, or not further from the front; a switch brings it nearer.\<close>

definition advances :: "operation \<Rightarrow> tid \<Rightarrow> scheduler \<Rightarrow> scheduler \<Rightarrow> bool" where
  "advances x u s s' \<longleftrightarrow> (u \<in> set (ready s) \<longrightarrow> u \<in> set (finalizer s') \<or> (\<exists>c < cpus s'. current s' c = u)
     \<or> u \<in> set (ready s') \<and> (if switches x \<noteq> None then ahead u s' < ahead u s else ahead u s' \<le> ahead u s))"

lemma advances_switch: "moves_up c u s s' \<Longrightarrow> c < cpus s' \<Longrightarrow> advances x u s s'"
  by (auto simp: moves_up_def advances_def)

lemma advances_append: "switches x = None \<Longrightarrow> ready s' = ready s @ ts \<Longrightarrow> advances x u s s'"
  by (auto simp: advances_def ahead_def)

lemma moves_up_cong: "moves_up c u r s' \<Longrightarrow> ready r = ready s \<Longrightarrow> finalizer r = finalizer s \<Longrightarrow> moves_up c u s s'"
  by (simp add: moves_up_def ahead_def)

text \<open>An operation that changes the flags of the current thread and switches.\<close>

lemma pick_next_op:
  assumes "sched_inv {} {} P r" "P \<subseteq> {current r c}" "c < cpus s" "cpus r = cpus s" "idle r = idle s" "ready r = ready s" "finalizer r = finalizer s"
  shows "\<exists>s'. pick_next c now r = Inr s' \<and> sched_inv {} {} {} s' \<and> cpus s' = cpus s \<and> (\<forall>u. advances x u s s')"
proof -
  obtain s' where s': "pick_next c now r = Inr s'" "sched_inv {} {} {} s'" "cpus s' = cpus s" "\<And>u. moves_up c u r s'"
    using pick_next_inv [OF assms(1), of c now] assms by auto
  then have "advances x u s s'" for u
    using moves_up_cong [OF s'(4) assms(6,7)] assms(3) by (intro advances_switch) simp_all
  with s' show ?thesis
    by blast
qed

lemma current_running:
  assumes "sched_inv {} {} {} s" "c < cpus s"
  shows "state_of s (current s c) = RUNNING"
  using assms by (auto simp: sched_inv_def cpu_ok_def)

text \<open>The state in which \<^verbatim>\<open>exit_process\<close> and \<^verbatim>\<open>crash\<close> switch.\<close>

definition leaving :: "tid \<Rightarrow> 32 word \<Rightarrow> scheduler \<Rightarrow> scheduler" where
  "leaving t code s = (let (first, s) = process_exit (owner_of s t) code s
     in thread_exit t code (if first then upd_thread t (t_kill_all_update (\<lambda>_. True)) s else s))"

lemma leaving_inv:
  assumes inv: "sched_inv {} {} {} s" and t: "\<not> is_idle s t" "state_of s t = RUNNING"
  shows "sched_inv {} {} {} (leaving t code s)"
proof -
  let ?q = "if fst (process_exit (owner_of s t) code s)
     then upd_thread t (t_kill_all_update (\<lambda>_. True)) (snd (process_exit (owner_of s t) code s)) else s"
  have "sched_inv {} {} {} ?q"
    using inv killer_inv [OF inv t, of code] by (simp add: process_exit_def)
  moreover have "\<not> is_idle ?q t"
    using t(1) by (simp add: is_idle_def process_exit_def upd_defs)
  moreover have "leaving t code s = thread_exit t code ?q"
    by (simp add: leaving_def process_exit_def)
  ultimately show ?thesis
    using flags_inv [of "{}" "{}" "{}" ?q t "\<lambda>x. x\<lparr>t_should_die := True, t_exit_code := code\<rparr>"] by (simp add: thread_exit_def)
qed

lemma leaving_frame [simp]:
  "cpus (leaving t code s) = cpus s" "idle (leaving t code s) = idle s" "ready (leaving t code s) = ready s"
  "finalizer (leaving t code s) = finalizer s" "current (leaving t code s) = current s"
  by (simp_all add: leaving_def process_exit_def upd_defs)

lemma exit_process_eq: "exit_process c code now s = pick_next c now (leaving (current s c) code s)"
  by (simp add: exit_process_def leaving_def Let_def split: prod.split)

lemma crash_eq: "crash c code now s = pick_next c now (upd_process (owner_of s (current s c)) (p_exit_code_update (\<lambda>_. - code)) (leaving (current s c) (- code) s))"
  by (simp add: crash_def leaving_def Let_def thread_exit_def upd_defs split: prod.split)

lemma op_inv:
  assumes inv: "sched_inv {} {} {} s" and x: "enabled x s"
  shows "\<exists>s'. run_op x s = Inr s' \<and> sched_inv {} {} {} s' \<and> cpus s' = cpus s \<and> (\<forall>u. advances x u s s')"
proof (cases x)
  case (Tick c now)
  then show ?thesis
    using pick_next_op [OF inv, of c s] x by simp
next
  case (Make_Blocker c b ty w)
  then show ?thesis
    using make_blocker_inv [OF inv, of b] x by (auto simp: make_blocker_def upd_defs advances_append)
next
  case (Block c b now)
  then obtain r where "thread_block (current s c) b s = Inr r" "sched_inv {} {} {current s c} r"
      "current r = current s" "idle r = idle s" "cpus r = cpus s" "ready r = ready s" "finalizer r = finalizer s"
    using block_request_inv [OF inv, of c "current s c" b] x by auto
  then show ?thesis
    using pick_next_op [of "{current s c}" r c s now x] x Block by (simp add: block_current_def)
next
  case (Sleep c b w now)
  let ?s = "make_blocker b (current s c) SLEEP w s"
  have frame: "current ?s = current s" "idle ?s = idle s" "cpus ?s = cpus s" "ready ?s = ready s" "finalizer ?s = finalizer s" "sleeping ?s = sleeping s"
    "b_thread (blockers ?s b) = current s c"
    by (simp_all add: make_blocker_def upd_defs)
  have inv': "sched_inv {} {} {} ?s"
    using make_blocker_inv [OF inv] x Sleep by simp
  have "b \<notin> set (sleeping s)" "\<not> is_idle ?s (current s c)"
    using inv x Sleep by (auto simp: sched_inv_def sleep_ok_def is_idle_def frame)
  then obtain r where "thread_block (current s c) b ?s = Inr r" "sched_inv {} {} {current s c} r"
      "current r = current s" "idle r = idle s" "cpus r = cpus s" "ready r = ready s" "finalizer r = finalizer s"
    using block_request_inv [OF inv', of c "current s c" b] x Sleep by (auto simp: frame)
  then show ?thesis
    using pick_next_op [of "{current s c}" r c s now x] x Sleep by (simp add: sleep_current_def block_current_def frame)
next
  case (Unblock b)
  then show ?thesis
    using unblock_inv [OF inv, of b] x by (auto simp: advances_append)
next
  case (Exit_Thread c code now)
  then show ?thesis
    using pick_next_op [of "{}" "thread_exit (current s c) code s" c s now x] x
      flags_inv [OF inv, of "current s c" "\<lambda>x. x\<lparr>t_should_die := True, t_exit_code := code\<rparr>"]
    by (simp add: exit_thread_def) (simp add: thread_exit_def)
next
  case (Exit_Process c code now)
  then show ?thesis
    using leaving_inv [OF inv _ current_running [OF inv], of c code] x
      pick_next_op [of "{}" "leaving (current s c) code s" c s now x] by (simp add: exit_process_eq)
next
  case (Crash c code now)
  let ?r = "upd_process (owner_of s (current s c)) (p_exit_code_update (\<lambda>_. - code)) (leaving (current s c) (- code) s)"
  have frame: "current ?r = current s" "idle ?r = idle s" "cpus ?r = cpus s" "ready ?r = ready s" "finalizer ?r = finalizer s"
    by (simp_all add: upd_process_def)
  have "sched_inv {} {} {} ?r"
    using leaving_inv [OF inv _ current_running [OF inv], of c "- code"] x Crash by (intro exit_code_inv) simp
  then show ?thesis
    using pick_next_op [of "{}" ?r c s now x] x Crash by (simp add: crash_eq frame)
next
  case (Set_Invulnerable c v)
  then show ?thesis
    using flags_inv [OF inv, of "current s c" "t_invulnerable_update (\<lambda>_. v)"] x
    by (simp add: set_invulnerable_def) (simp add: upd_thread_def advances_append)
next
  case (Create_Supervisor p t)
  then show ?thesis
    using create_supervisor_eq [of p s t] spawned_inv [OF inv, of t p] sched_inv_thread [OF inv, of t] x
    by (auto simp: unused_def thread_ok_def spawned_def advances_append)
next
  case (Create_Thread p t)
  then show ?thesis
    using create_thread_inv [OF inv, of t p] x by (auto simp: create_thread_def upd_defs advances_append)
next
  case (Register_Thread t)
  then show ?thesis
    using register_thread_inv [OF inv, of t] x by (auto simp: advances_append)
next
  case Finalize_Thread
  then show ?thesis
    using finalize_inv [OF inv] by (auto simp: advances_append)
next
  case Free_Process
  then show ?thesis
    using do_free_process_inv [OF inv] by (auto simp: advances_append)
qed

lemma steps_inv:
  assumes "steps s xs s'" "sched_inv {} {} {} s"
  shows "sched_inv {} {} {} s'"
  using assms by (induction rule: steps.induct) (use op_inv in fastforce)+

lemma steps_append: "steps s xs s' \<Longrightarrow> steps s' ys s'' \<Longrightarrow> steps s (xs @ ys) s''"
  by (induction rule: steps.induct) (auto intro: steps_Cons)

lemma reachable_inv: "reachable s \<Longrightarrow> sched_inv {} {} {} s"
  using steps_inv boot_inv by (auto simp: reachable_def)

lemma reachable_step:
  assumes "reachable s" "enabled x s" "run_op x s = Inr s'"
  shows "reachable s'"
  using assms steps_append steps_Cons [OF assms(2,3) steps_Nil] unfolding reachable_def by blast

lemma sched_inv_facts:
  assumes inv: "sched_inv {} {} {} s"
  shows "inj_on (current s) {..<cpus s}"
    and "state_of s t = RUNNING \<longleftrightarrow> (\<exists>c < cpus s. current s c = t)"
    and "distinct (ready s @ deferred s @ finalizer s)"
    and "t \<in> set (ready s) \<Longrightarrow> state_of s t = READY"
    and "state_of s t = READY \<Longrightarrow> is_idle s t \<or> t \<in> set (ready s) \<or> t \<in> set (finalizer s)"
    and "state_of s t = DEAD \<Longrightarrow> t \<in> set (deferred s) \<or> t \<in> set (finalizer s)"
proof -
  have tok: "thread_ok {} {} s t"
    using sched_inv_thread [OF inv] .
  show "inj_on (current s) {..<cpus s}" "distinct (ready s @ deferred s @ finalizer s)"
    using inv by (simp_all add: sched_inv_def cpu_ok_def)
  show "state_of s t = RUNNING \<longleftrightarrow> (\<exists>c < cpus s. current s c = t)"
    using tok current_running [OF inv] by (auto simp: thread_ok_def)
  show "t \<in> set (ready s) \<Longrightarrow> state_of s t = READY"
    using ready_threads [OF inv] by blast
  show "state_of s t = READY \<Longrightarrow> is_idle s t \<or> t \<in> set (ready s) \<or> t \<in> set (finalizer s)"
    using tok by (auto simp: thread_ok_def on_a_list_def split: if_splits)
  show "state_of s t = DEAD \<Longrightarrow> t \<in> set (deferred s) \<or> t \<in> set (finalizer s)"
    using tok by (auto simp: thread_ok_def on_a_list_def)
qed

lemma queue_progress:
  assumes "sched_inv {} {} {} s" "steps s xs s'" "u \<in> set (ready s)" "ahead u s < length (filter (\<lambda>x. switches x \<noteq> None) xs)"
  shows "\<exists>ys zs s''. xs = ys @ zs \<and> steps s ys s'' \<and> ((\<exists>c < cpus s''. current s'' c = u) \<or> u \<in> set (finalizer s''))"
  using assms
proof (induction xs arbitrary: s)
  case (Cons x xs)
  from Cons.prems(2) obtain r where r: "enabled x s" "run_op x s = Inr r" "steps r xs s'"
    by (rule steps_ConsE)
  then have inv: "sched_inv {} {} {} r" and adv: "advances x u s r"
    using op_inv [OF Cons.prems(1) r(1)] by auto
  have one: "steps s [x] r"
    using r by (blast intro: steps.intros)
  consider (hit) "(\<exists>c < cpus r. current r c = u) \<or> u \<in> set (finalizer r)"
    | (queued) "u \<in> set (ready r)" "ahead u r < length (filter (\<lambda>x. switches x \<noteq> None) xs)"
    using adv Cons.prems(3,4) by (fastforce simp: advances_def split: if_splits)
  then show ?case
  proof cases
    case hit
    then show ?thesis
      using one by (intro exI [of _ "[x]"] exI [of _ xs] exI [of _ r]) simp
  next
    case queued
    from Cons.IH [OF inv r(3) this] obtain ys zs s'' where "xs = ys @ zs" "steps r ys s''"
        "(\<exists>c < cpus s''. current s'' c = u) \<or> u \<in> set (finalizer s'')"
      by blast
    moreover from this have "steps s (x # ys) s''"
      using r by (blast intro: steps_Cons)
    ultimately show ?thesis
      by (metis append_Cons)
  qed
qed simp

lemma wake_loop_wakes:
  assumes "sched_inv {} {} P s" "sleeping s = bs"
  shows "\<exists>s'. wake_loop now bs s = Inr s' \<and> sleeping s' = filter (\<lambda>b. now < wake_time s b) bs
    \<and> ready s' = ready s @ map (\<lambda>b. b_thread (blockers s b)) (filter (\<lambda>b. wake_time s b \<le> now) bs)"
  using assms
proof (induction bs arbitrary: s)
  case (Cons b bs)
  let ?t = "b_thread (blockers s b)"
  have b: "state_of s ?t = BLOCKED" "blocker_of s ?t = Some b" "\<not> on_a_list s ?t" "b \<notin> set bs"
      and later: "\<forall>a \<in> set bs. wake_time s b \<le> wake_time s a"
    using Cons.prems by (auto simp: sched_inv_def sleep_ok_def)
  show ?case
  proof (cases "b_wake_time (blockers s b) \<le> now")
    case True
    have f: "?t \<notin> set (finalizer s)"
      using b(3) by (simp add: on_a_list_def)
    let ?s = "woken UNBLOCKED ?t b s"
    have "unblock_unchecked b (s\<lparr>sleeping := bs\<rparr>) = Inr ?s"
      using unblock_unchecked_eq [OF Cons.prems(1) b(1) f b(2)] Cons.prems(2) by simp
    moreover have "sched_inv {} {} P ?s" "sleeping ?s = bs"
      using woken_inv [OF Cons.prems(1) b(1,3,2)] Cons.prems(2) by (simp_all add: woken_def)
    moreover have "wake_time ?s = wake_time s" "(\<lambda>a. b_thread (blockers ?s a)) = (\<lambda>a. b_thread (blockers s a))"
      by (auto simp: wake_time_def woken_def)
    ultimately show ?thesis
      using True Cons.IH [of ?s] by (auto simp: wake_time_def)
  next
    case False
    then have "\<forall>a \<in> set (b # bs). now < wake_time s a"
      using later by (auto simp: wake_time_def)
    then show ?thesis
      using False Cons.prems(2) by (auto simp: filter_id_conv filter_empty_conv)
  qed
qed auto

subsection \<open>Properties\<close>

text \<open>
  C5: In every state that the operations reach from the boot of any number of processors, every
  operation that the kernel may perform ends without a failed assertion: a thread is never put
  on a second list, woken without a blocker, activated without being ready, or counted below
  zero, and the state it ends in is again such a state.
\<close>

theorem scheduler_never_fails:
  assumes "reachable s" "enabled x s"
  shows "\<exists>s'. run_op x s = Inr s' \<and> reachable s'"
  using op_inv [OF reachable_inv [OF assms(1)] assms(2)] reachable_step [OF assms] by blast

text \<open>The states of the witnesses: one processor and one process with one thread.\<close>

definition one_process :: scheduler where
  "one_process = spawned 7 1 (boot 1)"

lemma boot_reachable: "reachable (boot n)"
  using steps_Nil by (auto simp: reachable_def)

lemma one_process_reachable: "reachable one_process"
proof -
  have "enabled (Create_Supervisor 7 1) (boot 1)"
    by (simp add: unused_def boot_def is_idle_def)
  moreover have "run_op (Create_Supervisor 7 1) (boot 1) = Inr one_process"
    by (simp add: one_process_def create_supervisor_eq boot_def on_a_list_def)
  ultimately show ?thesis
    by (rule reachable_step [OF boot_reachable])
qed

lemma one_process_tick: "enabled (Tick 0 100) one_process"
  by (simp add: one_process_def spawned_def boot_def)

theorem scheduler_never_fails_witness: "\<exists>s'. run_op (Tick 0 100) one_process = Inr s' \<and> reachable s'"
  by (rule scheduler_never_fails [OF one_process_reachable one_process_tick])

text \<open>
  C6: The states of the threads agree with the queues. No two processors run the same thread,
  the running threads are those that are current on a processor, the queues share no thread,
  the threads in the ready queue are ready, a ready thread other than an idle one is in that
  queue or was killed, a dead thread is on its way to the finalizer, and the count of a
  registered process is the number of its threads that are alive.
\<close>

theorem scheduler_states_consistent:
  assumes "reachable s"
  shows "inj_on (current s) {..<cpus s} \<and> distinct (ready s @ deferred s @ finalizer s)
    \<and> (\<forall>t. (state_of s t = RUNNING \<longleftrightarrow> (\<exists>c < cpus s. current s c = t))
        \<and> (t \<in> set (ready s) \<longrightarrow> state_of s t = READY)
        \<and> (state_of s t = READY \<longrightarrow> is_idle s t \<or> t \<in> set (ready s) \<or> t \<in> set (finalizer s))
        \<and> (state_of s t = DEAD \<longrightarrow> t \<in> set (deferred s) \<or> t \<in> set (finalizer s)))
    \<and> (\<forall>p \<in> set (registered s). unat (p_alive (processes s p)) = card (alive_threads {} s p))"
proof -
  have "unat (p_alive (processes s p)) = card (alive_threads {} s p)" if "p \<in> set (registered s)" for p
  proof -
    have "process_ok {} s p"
      using reachable_inv [OF assms] that by (simp add: sched_inv_def)
    then show ?thesis
      using card_alive_less [of "{}" s p] by (simp add: process_ok_def thread_limit_def unat_of_nat)
  qed
  then show ?thesis
    using sched_inv_facts [OF reachable_inv [OF assms]] by blast
qed

theorem scheduler_states_consistent_witness:
  "inj_on (current one_process) {..<1} \<and> ready one_process = [1] \<and> unat (p_alive (processes one_process 7)) = card (alive_threads {} one_process 7)"
  using scheduler_states_consistent [OF one_process_reachable] by (simp add: one_process_def spawned_def boot_def)

text \<open>
  C7: No thread starves in the ready queue. Whatever operations are performed from a reachable
  state, as soon as they contain more switches than there are threads ahead of it in the queue,
  the thread has been run by a processor or has been killed with its process.
\<close>

theorem ready_thread_runs:
  assumes "reachable s" "steps s xs s'" "u \<in> set (ready s)" "ahead u s < length (filter (\<lambda>x. switches x \<noteq> None) xs)"
  shows "\<exists>ys zs s''. xs = ys @ zs \<and> steps s ys s'' \<and> ((\<exists>c < cpus s''. current s'' c = u) \<or> u \<in> set (finalizer s''))"
  using queue_progress [OF reachable_inv] assms by blast

theorem ready_thread_runs_witness:
  "\<exists>ys zs s''. [Tick 0 100] = ys @ zs \<and> steps one_process ys s'' \<and> ((\<exists>c < cpus s''. current s'' c = 1) \<or> 1 \<in> set (finalizer s''))"
proof -
  obtain s' where "run_op (Tick 0 100) one_process = Inr s'"
    using op_inv [OF reachable_inv [OF one_process_reachable] one_process_tick] by blast
  then have "steps one_process [Tick 0 100] s'"
    by (intro steps_Cons [OF one_process_tick _ steps_Nil])
  moreover have "1 \<in> set (ready one_process)" "ahead 1 one_process = 0"
    by (simp_all add: one_process_def spawned_def boot_def ahead_def)
  ultimately show ?thesis
    by (intro ready_thread_runs [OF one_process_reachable]) simp_all
qed

text \<open>
  C18: At every switch the scheduler wakes exactly the sleeping threads whose time has come,
  although it stops at the first one whose time has not: they go to the end of the ready queue
  in the order of their times, and the others stay asleep.
\<close>

theorem wake_ready_threads_correct:
  assumes "reachable s"
  shows "\<exists>s'. wake_ready_threads now s = Inr s' \<and> sleeping s' = filter (\<lambda>b. now < wake_time s b) (sleeping s)
    \<and> ready s' = ready s @ map (\<lambda>b. b_thread (blockers s b)) (filter (\<lambda>b. wake_time s b \<le> now) (sleeping s))"
  using wake_loop_wakes [OF reachable_inv [OF assms] refl] by (simp add: wake_ready_threads_def)

text \<open>The thread of the process runs and goes to sleep.\<close>

definition one_sleeper :: scheduler where
  "one_sleeper = (case run_op (Tick 0 0) one_process of Inl _ \<Rightarrow> one_process | Inr s \<Rightarrow>
     (case run_op (Sleep 0 3 50 0) s of Inl _ \<Rightarrow> s | Inr s' \<Rightarrow> s'))"

lemmas run_defs = pick_next_def free_deferred_threads_def wake_ready_threads_def settle_current_def switch_thread_def pick_next_thread_def
  activate_def deactivate_def insert_ready_def on_a_list_def sleep_current_def block_current_def thread_block_def make_blocker_def
  insert_sleeping_def upd_defs

lemma one_sleeper_eq:
  "sleeping one_sleeper = [3]" "blockers one_sleeper 3 = \<lparr>b_thread = 1, b_type = SLEEP, b_wake_time = 50, b_result = NO_RESULT, b_should_block = True\<rparr>"
  "ready one_sleeper = []"
  by (simp_all add: one_sleeper_def one_process_def spawned_def boot_def fresh_thread_def run_defs Let_def)

lemma one_sleeper_reachable: "reachable one_sleeper"
proof -
  have tick: "enabled (Tick 0 0) one_process"
    by (simp add: one_process_def spawned_def boot_def)
  then obtain s where s: "run_op (Tick 0 0) one_process = Inr s" "reachable s"
    using op_inv [OF reachable_inv [OF one_process_reachable] tick] reachable_step [OF one_process_reachable tick] by blast
  from s(1) have sleep: "enabled (Sleep 0 3 50 0) s"
    by (auto simp: one_process_def spawned_def boot_def fresh_thread_def run_defs is_idle_def Let_def fun_upd_apply split: if_splits)
  then obtain s' where "run_op (Sleep 0 3 50 0) s = Inr s'" "reachable s'"
    using op_inv [OF reachable_inv [OF s(2)] sleep] reachable_step [OF s(2) sleep] by blast
  then show ?thesis
    using s(1) by (simp add: one_sleeper_def)
qed

theorem wake_ready_threads_correct_witness:
  "(\<exists>s'. wake_ready_threads 60 one_sleeper = Inr s' \<and> sleeping s' = [] \<and> ready s' = [1])
   \<and> (\<exists>s'. wake_ready_threads 40 one_sleeper = Inr s' \<and> sleeping s' = [3] \<and> ready s' = [])"
  using wake_ready_threads_correct [OF one_sleeper_reachable, of 60] wake_ready_threads_correct [OF one_sleeper_reachable, of 40]
  by (simp add: one_sleeper_eq wake_time_def)

end
