(* ===== verification/Disk_Cache.thy ===== *)
theory Disk_Cache
  imports Page_Range
begin

text \<open>
  \<^verbatim>\<open>Kernel/FileSystem/DiskCache.cpp\<close>: the write-back cache between a file system and its disk. A
  cached block is an object with a buffer in the region of the cache; the list of the blocks is
  kept in the order of their use. An object is a number into the list of all objects, so that
  the list and the map share it. The storage device is a parameter with its reads and writes
  as functions on its state; an operation on the cache waits for the device, and like the code
  it does not look at the outcome. The buffer of the caller is what can be accessed of it: for
  a write its bytes, for a read their number.
\<close>

record 'd device =
  read_lbas :: "'d \<Rightarrow> range \<Rightarrow> u8 list"
  write_lbas :: "'d \<Rightarrow> range \<Rightarrow> u8 list \<Rightarrow> 'd"
  read_ram :: "'d \<Rightarrow> size_t \<Rightarrow> size_t \<Rightarrow> error_code \<times> u8 list"
  write_ram :: "'d \<Rightarrow> size_t \<Rightarrow> u8 list \<Rightarrow> 'd"

record CachedBlock =
  virtual_address_and_dirty_bit :: addr
  first_block :: u64

record 'd disk_cache =
  m_device :: 'd
  m_fs_lba_range :: range
  m_io_size :: size_t
  m_logical_block_size :: size_t
  m_fs_block_size :: size_t
  m_fs_blocks_per_io :: size_t
  m_capacity :: size_t
  m_region :: range
  m_offset_within_region :: size_t
  m_cached_blocks :: "nat list"
  m_block_to_cache :: "u64 \<Rightarrow> nat option"
  block_objects :: "CachedBlock list"
  memory :: "addr \<Rightarrow> u8"

subsection \<open>Memory\<close>

definition load_bytes :: "(addr \<Rightarrow> u8) \<Rightarrow> addr \<Rightarrow> nat \<Rightarrow> u8 list" where
  "load_bytes m a n = map (\<lambda>i. m (a + word_of_nat i)) [0..<n]"

definition store_bytes :: "(addr \<Rightarrow> u8) \<Rightarrow> addr \<Rightarrow> u8 list \<Rightarrow> (addr \<Rightarrow> u8)" where
  "store_bytes m a bs = (\<lambda>x. if unat (x - a) < length bs then bs ! unat (x - a) else m x)"

subsection \<open>Cached blocks\<close>

definition mark_dirty :: "CachedBlock \<Rightarrow> CachedBlock" where
  "mark_dirty b = b\<lparr>virtual_address_and_dirty_bit := virtual_address_and_dirty_bit b OR 1\<rparr>"

definition mark_clean :: "CachedBlock \<Rightarrow> CachedBlock" where
  "mark_clean b = b\<lparr>virtual_address_and_dirty_bit := virtual_address_and_dirty_bit b AND NOT 1\<rparr>"

definition is_dirty :: "CachedBlock \<Rightarrow> bool" where
  "is_dirty b \<longleftrightarrow> virtual_address_and_dirty_bit b AND 1 \<noteq> 0"

definition virtual_address :: "CachedBlock \<Rightarrow> addr" where
  "virtual_address b = virtual_address_and_dirty_bit b AND NOT 1"

subsection \<open>Construction\<close>

text \<open>The medium is RAM or not; the region is the one the memory manager gives for the size asked for.\<close>

definition disk_cache_create ::
  "'d \<Rightarrow> size_t \<Rightarrow> bool \<Rightarrow> range \<Rightarrow> size_t \<Rightarrow> size_t \<Rightarrow> (size_t \<Rightarrow> range) \<Rightarrow> (addr \<Rightarrow> u8) \<Rightarrow> 'd disk_cache res" where
  "disk_cache_create dev logical is_ram lbas fs_block capacity allocate mem =
     bind_res (assert_that (capacity \<noteq> 0)) (\<lambda>_.
     bind_res (assert_that (logical = 512 \<or> logical = 4096)) (\<lambda>_.
     let c = \<lparr>m_device = dev, m_fs_lba_range = lbas, m_io_size = 0, m_logical_block_size = logical, m_fs_block_size = fs_block,
              m_fs_blocks_per_io = 0, m_capacity = capacity, m_region = empty_range, m_offset_within_region = 0,
              m_cached_blocks = [], m_block_to_cache = (\<lambda>_. None), block_objects = [], memory = mem\<rparr>
     in if is_ram then Inr c
        else bind_res
          (if fs_block \<ge> page_size then bind_res (assert_that (page_is_aligned fs_block)) (\<lambda>_. Inr (c\<lparr>m_io_size := fs_block\<rparr>))
           else if fs_block = 0 then Inl Divide_Error
           else bind_res (assert_that (m_io_size c mod fs_block = 0)) (\<lambda>_. Inr (c\<lparr>m_io_size := page_size\<rparr>))) (\<lambda>c.
        let c = c\<lparr>m_fs_blocks_per_io := m_io_size c div fs_block, m_region := allocate (fs_block * capacity)\<rparr>;
            c = c\<lparr>m_capacity := m_capacity c div m_fs_blocks_per_io c\<rparr>
        in bind_res (assert_that (m_capacity c \<noteq> 0)) (\<lambda>_. Inr c))))"

subsection \<open>Addresses on the disk\<close>

definition block_to_first_lba :: "'d disk_cache \<Rightarrow> u64 \<Rightarrow> u64" where
  "block_to_first_lba c block_index = block_index * m_fs_block_size c div m_logical_block_size c"

definition block_to_lba_range :: "'d disk_cache \<Rightarrow> u64 \<Rightarrow> range res" where
  "block_to_lba_range c block_index =
     (let lba = block_to_first_lba c block_index;
          lba = (if m_fs_block_size c < m_io_size c \<and> m_logical_block_size c = 512 then lba AND NOT 7 else lba)
      in mk_range (r_begin (m_fs_lba_range c) + lba) (m_io_size c div m_logical_block_size c))"

definition block_index_to_cached_index :: "'d disk_cache \<Rightarrow> u64 \<Rightarrow> u64" where
  "block_index_to_cached_index c block_index = block_index AND NOT (m_fs_blocks_per_io c - 1)"

subsection \<open>Blocks in the cache\<close>

definition allocate_next_block_buffer :: "'d disk_cache \<Rightarrow> addr \<times> 'd disk_cache" where
  "allocate_next_block_buffer c =
     (r_begin (m_region c) + m_offset_within_region c, c\<lparr>m_offset_within_region := m_offset_within_region c + m_io_size c\<rparr>)"

definition flush_block :: "'d device \<Rightarrow> nat \<Rightarrow> 'd disk_cache \<Rightarrow> 'd disk_cache res" where
  "flush_block D p c =
     (let b = block_objects c ! p
      in if \<not> is_dirty b then Inr c
         else bind_res (block_to_lba_range c (first_block b)) (\<lambda>r.
              bind_res (assert_that (contains_range (m_fs_lba_range c) r)) (\<lambda>_.
              Inr (c\<lparr>m_device := write_lbas D (m_device c) r
                      (load_bytes (memory c) (virtual_address b) (unat (range_length r * m_logical_block_size c))),
                     block_objects := (block_objects c)[p := mark_clean b]\<rparr>))))"

definition evict_one :: "'d device \<Rightarrow> 'd disk_cache \<Rightarrow> (nat \<times> 'd disk_cache) res" where
  "evict_one D c =
     bind_res (assert_that (m_cached_blocks c \<noteq> [])) (\<lambda>_.
     let p = last (m_cached_blocks c); c = c\<lparr>m_cached_blocks := butlast (m_cached_blocks c)\<rparr>
     in bind_res (if is_dirty (block_objects c ! p) then flush_block D p c else Inr c) (\<lambda>c.
        let b = block_objects c ! p
        in Inr (p, c\<lparr>m_block_to_cache := (m_block_to_cache c)(first_block b := None),
                     block_objects := (block_objects c)[p := b\<lparr>first_block := 0\<rparr>]\<rparr>)))"

definition new_cached_block :: "'d disk_cache \<Rightarrow> nat \<times> 'd disk_cache" where
  "new_cached_block c =
     (let (a, c) = allocate_next_block_buffer c
      in (length (block_objects c), c\<lparr>block_objects := block_objects c @ [\<lparr>virtual_address_and_dirty_bit = a, first_block = 0\<rparr>]\<rparr>))"

definition read_into_block :: "'d device \<Rightarrow> u64 \<Rightarrow> nat \<Rightarrow> 'd disk_cache \<Rightarrow> 'd disk_cache res" where
  "read_into_block D block_index p c =
     bind_res (block_to_lba_range c block_index) (\<lambda>r.
     bind_res (assert_that (contains_range (m_fs_lba_range c) r)) (\<lambda>_.
     let b = block_objects c ! p
     in Inr (c\<lparr>memory := store_bytes (memory c) (virtual_address b) (read_lbas D (m_device c) r),
               block_objects := (block_objects c)[p := b\<lparr>first_block := block_index\<rparr>],
               m_cached_blocks := p # m_cached_blocks c,
               m_block_to_cache := (m_block_to_cache c)(block_index \<mapsto> p)\<rparr>)))"

definition cached_block :: "'d device \<Rightarrow> u64 \<Rightarrow> 'd disk_cache \<Rightarrow> (nat \<times> size_t \<times> 'd disk_cache) res" where
  "cached_block D original_index c =
     (let block_index = block_index_to_cached_index c original_index; offset = (original_index - block_index) * m_fs_block_size c
      in case m_block_to_cache c block_index of
           Some p \<Rightarrow> Inr (p, offset, c\<lparr>m_cached_blocks := p # remove1 p (m_cached_blocks c)\<rparr>)
         | None \<Rightarrow>
             bind_res (if word_of_nat (length (m_cached_blocks c)) = m_capacity c then evict_one D c else Inr (new_cached_block c)) (\<lambda>(p, c).
             bind_res (read_into_block D block_index p c) (\<lambda>c. Inr (p, offset, c))))"

subsection \<open>Operations\<close>

definition no_caching_required :: size_t where
  "no_caching_required = 0"

definition read_one :: "'d device \<Rightarrow> u64 \<Rightarrow> size_t \<Rightarrow> size_t \<Rightarrow> nat \<Rightarrow> 'd disk_cache \<Rightarrow> (error_code \<times> u8 list \<times> 'd disk_cache) res" where
  "read_one D block_index offset bytes room c =
     bind_res (assert_that (offset + bytes \<le> m_fs_block_size c)) (\<lambda>_.
     if m_io_size c = no_caching_required
     then let (code, data) = read_ram D (m_device c) (offset + block_index * m_fs_block_size c) bytes
          in Inr (code, data, c)
     else bind_res (cached_block D block_index c) (\<lambda>(p, block_offset, c).
       let data = load_bytes (memory c) (virtual_address (block_objects c ! p) + block_offset + offset) (unat bytes)
       in if unat bytes \<le> room then Inr (NO_ERROR, data, c) else Inr (MEMORY_ACCESS_VIOLATION, take room data, c)))"

text \<open>The bytes that a write leaves in the buffer of its caller come second.\<close>

definition write_one :: "'d device \<Rightarrow> u64 \<Rightarrow> size_t \<Rightarrow> size_t \<Rightarrow> u8 list \<Rightarrow> 'd disk_cache \<Rightarrow> (error_code \<times> u8 list \<times> 'd disk_cache) res" where
  "write_one D block_index offset bytes buffer c =
     bind_res (assert_that (offset + bytes \<le> m_fs_block_size c)) (\<lambda>_.
     if m_io_size c = no_caching_required
     then let (code, data) = read_ram D (m_device c) (offset + block_index * m_fs_block_size c) bytes
          in Inr (code, data, c)
     else bind_res (cached_block D block_index c) (\<lambda>(p, block_offset, c).
       let b = block_objects c ! p; begin = virtual_address b + block_offset + offset;
           c = c\<lparr>block_objects := (block_objects c)[p := mark_dirty b],
                 memory := store_bytes (memory c) begin (take (unat bytes) buffer)\<rparr>
       in Inr (if unat bytes \<le> length buffer then NO_ERROR else MEMORY_ACCESS_VIOLATION, buffer, c)))"

definition zero_fill_one :: "'d device \<Rightarrow> u64 \<Rightarrow> 'd disk_cache \<Rightarrow> 'd disk_cache res" where
  "zero_fill_one D block_index c =
     (if m_io_size c = no_caching_required
      then Inr (c\<lparr>m_device := write_ram D (m_device c) (block_index * m_fs_block_size c) (replicate (unat (m_fs_block_size c)) 0)\<rparr>)
      else bind_res (cached_block D block_index c) (\<lambda>(p, block_offset, c).
        let b = block_objects c ! p
        in Inr (c\<lparr>memory := store_bytes (memory c) (virtual_address b + block_offset) (replicate (unat (m_fs_block_size c)) 0),
                  block_objects := (block_objects c)[p := mark_dirty b]\<rparr>)))"

fun flush_loop :: "'d device \<Rightarrow> nat list \<Rightarrow> 'd disk_cache \<Rightarrow> 'd disk_cache res" where
  "flush_loop D [] c = Inr c"
| "flush_loop D (p # ps) c =
     bind_res (if is_dirty (block_objects c ! p) then flush_block D p c else Inr c) (flush_loop D ps)"

definition flush_all :: "'d device \<Rightarrow> 'd disk_cache \<Rightarrow> 'd disk_cache res" where
  "flush_all D c = (if m_io_size c = no_caching_required then Inr c else flush_loop D (m_cached_blocks c) c)"

definition flush_specific :: "'d device \<Rightarrow> u64 \<Rightarrow> 'd disk_cache \<Rightarrow> 'd disk_cache res" where
  "flush_specific D block_index c =
     (if m_io_size c = no_caching_required then Inr c
      else case m_block_to_cache c (block_index_to_cached_index c block_index) of
             None \<Rightarrow> Inr c
           | Some p \<Rightarrow> flush_block D p c)"

subsection \<open>Geometry\<close>

abbreviation fs_block :: "'d disk_cache \<Rightarrow> nat" where "fs_block c \<equiv> unat (m_fs_block_size c)"
abbreviation io :: "'d disk_cache \<Rightarrow> nat" where "io c \<equiv> unat (m_io_size c)"
abbreviation per_io :: "'d disk_cache \<Rightarrow> nat" where "per_io c \<equiv> unat (m_fs_blocks_per_io c)"
abbreviation lb_size :: "'d disk_cache \<Rightarrow> nat" where "lb_size c \<equiv> unat (m_logical_block_size c)"
abbreviation base :: "'d disk_cache \<Rightarrow> nat" where "base c \<equiv> unat (r_begin (m_region c))"
abbreviation fs_lba :: "'d disk_cache \<Rightarrow> nat" where "fs_lba c \<equiv> unat (r_begin (m_fs_lba_range c))"
abbreviation capacity :: "'d disk_cache \<Rightarrow> nat" where "capacity c \<equiv> unat (m_capacity c)"

definition end_of_space :: nat where
  "end_of_space = 2 ^ 64"

text \<open>The number of bytes of the file system, and the bytes of the disk before it.\<close>

definition fs_size :: "'d disk_cache \<Rightarrow> nat" where
  "fs_size c = (unat (r_end (m_fs_lba_range c)) - fs_lba c) * lb_size c"

definition fs_start :: "'d disk_cache \<Rightarrow> nat" where
  "fs_start c = fs_lba c * lb_size c"

definition geometry :: "'d disk_cache \<Rightarrow> bool" where
  "geometry c \<longleftrightarrow>
     lb_size c \<in> {512, 4096} \<and> 0 < fs_block c \<and> per_io c * fs_block c = io c \<and> (\<exists>k < 64. per_io c = 2 ^ k)
     \<and> lb_size c dvd io c \<and> even (io c) \<and> (fs_block c < io c \<longrightarrow> io c = 4096)
     \<and> 0 < capacity c \<and> base c + capacity c * io c < end_of_space \<and> even (base c)
     \<and> unat (r_end (m_fs_lba_range c)) * lb_size c < end_of_space"

text \<open>The cache block with number \<open>k\<close> lies in the file system.\<close>

definition inside :: "'d disk_cache \<Rightarrow> nat \<Rightarrow> bool" where
  "inside c k \<longleftrightarrow> (k + 1) * io c \<le> fs_size c"

lemma end_of_space_unat: "n < end_of_space \<Longrightarrow> unat (word_of_nat n :: 64 word) = n"
  by (simp add: end_of_space_def unat_of_nat)

lemma geometry_pos:
  assumes "geometry c"
  shows "0 < io c" "0 < per_io c" "0 < lb_size c"
proof -
  show "0 < lb_size c" "0 < per_io c"
    using assms by (auto simp: geometry_def)
  then show "0 < io c"
    using assms by (metis geometry_def nat_0_less_mult_iff)
qed

lemma cached_index:
  assumes "geometry c"
  shows "unat (block_index_to_cached_index c i) = unat i div per_io c * per_io c"
proof -
  obtain k where k: "k < 64" "per_io c = 2 ^ k"
    using assms by (auto simp: geometry_def)
  then have "m_fs_blocks_per_io c = 2 ^ k"
    by (metis of_nat_numeral of_nat_power of_nat_unat ucast_id)
  then have "m_fs_blocks_per_io c - 1 = mask k"
    by (simp add: mask_eq_exp_minus_1)
  then show ?thesis
    by (simp add: block_index_to_cached_index_def unat_and_not_mask minus_mod_eq_div_mult k)
qed

lemma and_not_7: "(x :: 64 word) AND NOT 7 = x" if "8 dvd unat x"
proof -
  have "NOT (7 :: 64 word) = NOT (mask 3)"
    by (simp add: mask_eq_exp_minus_1)
  moreover have "unat (x AND NOT (mask 3)) = unat x"
    using that unat_and_not_mask [of x 3] by simp
  ultimately show ?thesis
    by (metis word_unat_eq_iff)
qed

lemma lba_range:
  assumes g: "geometry c" and i: "unat i = k * per_io c" and k: "inside c k"
  obtains r where "block_to_lba_range c i = Inr r" "contains_range (m_fs_lba_range c) r"
    "unat (r_begin r) * lb_size c = fs_start c + k * io c" "unat (range_length r) * lb_size c = io c"
    "unat (range_length r * m_logical_block_size c) = io c" "wf_range r"
proof -
  obtain n where n: "io c = n * lb_size c"
    using g by (auto simp: geometry_def mult.commute elim: dvdE)
  have pos: "0 < io c" "0 < lb_size c" and e: "unat (r_end (m_fs_lba_range c)) * lb_size c < end_of_space"
    using g geometry_pos [OF g] by (simp_all add: geometry_def)
  have n0: "0 < n"
    using pos(1) n by (cases n) simp_all
  have "((k + 1) * n) * lb_size c \<le> (unat (r_end (m_fs_lba_range c)) - fs_lba c) * lb_size c"
    using k unfolding inside_def fs_size_def n by (simp only: mult.assoc)
  then have fit: "fs_lba c + k * n + n \<le> unat (r_end (m_fs_lba_range c))" and "k * n + n \<le> unat (r_end (m_fs_lba_range c))"
    using pos(2) n0 unfolding mult_le_cancel2 by auto
  then have "(k * n) * lb_size c < end_of_space"
    using e pos(2) by (meson add_leD1 le_less_trans mult_le_mono1)
  then have "k * io c < 2 ^ 64"
    by (simp add: n end_of_space_def mult.assoc)
  moreover have "unat i * fs_block c = k * io c"
    using i g by (simp add: geometry_def mult.assoc)
  ultimately have "unat (i * m_fs_block_size c) = k * io c"
    by (simp add: unat_word_ariths)
  then have lba: "unat (block_to_first_lba c i) = k * n"
    using pos(2) by (simp add: block_to_first_lba_def unat_div n mult.assoc [symmetric])
  have "block_to_first_lba c i AND NOT 7 = block_to_first_lba c i" if "m_fs_block_size c < m_io_size c" "m_logical_block_size c = 512"
  proof -
    have "n = 8"
      using that g n by (simp add: geometry_def word_less_nat_alt)
    then show ?thesis
      using lba by (intro and_not_7) simp
  qed
  then have r: "block_to_lba_range c i = mk_range (r_begin (m_fs_lba_range c) + block_to_first_lba c i) (m_io_size c div m_logical_block_size c)"
    by (simp add: block_to_lba_range_def Let_def)
  let ?b = "r_begin (m_fs_lba_range c) + block_to_first_lba c i" and ?l = "m_io_size c div m_logical_block_size c"
  have small: "unat (r_end (m_fs_lba_range c)) < 2 ^ 64"
    by (rule unat_less_64)
  have b: "unat ?b = fs_lba c + k * n"
    using fit lba small by (subst unat_add_no_wrap) simp_all
  have l: "unat ?l = n"
    using pos(2) by (simp add: unat_div n)
  have bl: "unat (?b + ?l) = fs_lba c + k * n + n"
    using fit b l small by (subst unat_add_no_wrap) simp_all
  have "?b \<le> ?b + ?l"
    unfolding word_le_nat_alt b bl by simp
  with r have r': "block_to_lba_range c i = Inr \<lparr>r_begin = ?b, r_end = ?b + ?l\<rparr>"
    by (simp add: mk_range_def)
  show ?thesis
  proof (rule that [OF r'])
    show "contains_range (m_fs_lba_range c) \<lparr>r_begin = ?b, r_end = ?b + ?l\<rparr>"
      using fit b bl n0 by (simp add: contains_range_def contains_addr_def word_le_nat_alt word_less_nat_alt)
    show "unat (range_length \<lparr>r_begin = ?b, r_end = ?b + ?l\<rparr> * m_logical_block_size c) = io c"
      using l n unat_less_64 [of "m_io_size c"] by (simp add: range_length_def unat_word_ariths)
  qed (use b l n \<open>?b \<le> ?b + ?l\<close> in \<open>simp_all add: range_length_def fs_start_def wf_range_def algebra_simps\<close>)
qed

subsection \<open>Buffers\<close>

text \<open>The byte \<open>j\<close> of the buffer of object \<open>p\<close>.\<close>

definition byte_of :: "'d disk_cache \<Rightarrow> nat \<Rightarrow> nat \<Rightarrow> u8" where
  "byte_of c p j = memory c (word_of_nat (base c + p * io c + j))"

lemma store_bytes_nat:
  assumes "A + length bs \<le> end_of_space" "X < end_of_space"
  shows "store_bytes m (word_of_nat A) bs (word_of_nat X)
    = (if A \<le> X \<and> X < A + length bs then bs ! (X - A) else m (word_of_nat X))"
proof (cases "bs = []")
  case False
  then have A: "A < end_of_space"
    using assms(1) by (cases bs) simp_all
  note u = end_of_space_unat [OF A] end_of_space_unat [OF assms(2)]
  show ?thesis
  proof (cases "A \<le> X")
    case True
    then have "unat (word_of_nat X - word_of_nat A :: 64 word) = X - A"
      using u by (subst unat_diff_word) (simp_all add: word_le_nat_alt)
    then show ?thesis
      using True by (auto simp: store_bytes_def)
  next
    case False
    have "unat (word_of_nat X - word_of_nat A :: 64 word) = end_of_space - (A - X)"
      using False A assms(2) u by (simp add: unat_sub_if' end_of_space_def)
    then have "\<not> unat (word_of_nat X - word_of_nat A :: 64 word) < length bs"
      using assms(1) False by linarith
    then show ?thesis
      using False by (simp add: store_bytes_def)
  qed
qed (auto simp: store_bytes_def)

lemma buffer_bound:
  assumes "geometry c" "p < capacity c" "j \<le> io c"
  shows "base c + p * io c + j \<le> base c + capacity c * io c" "base c + p * io c + j < end_of_space"
proof -
  have "p * io c + io c \<le> capacity c * io c"
    using assms(2) mult_le_mono1 [of "Suc p" "capacity c" "io c"] by simp
  then show "base c + p * io c + j \<le> base c + capacity c * io c"
    using assms(3) by linarith
  then show "base c + p * io c + j < end_of_space"
    using assms(1) by (simp add: geometry_def)
qed

lemma load_buffer:
  "load_bytes (memory c) (word_of_nat (base c + p * io c + j)) n = map (\<lambda>i. byte_of c p (j + i)) [0..<n]"
  by (simp add: load_bytes_def byte_of_def add.assoc)

lemma store_buffer:
  assumes g: "geometry c" and p: "p < capacity c" "j + length bs \<le> io c" and q: "q < capacity c" "i < io c"
  shows "store_bytes (memory c) (word_of_nat (base c + p * io c + j)) bs (word_of_nat (base c + q * io c + i))
    = (if q = p \<and> j \<le> i \<and> i < j + length bs then bs ! (i - j) else byte_of c q i)"
proof -
  have "base c + p * io c + j + length bs \<le> end_of_space"
    using buffer_bound(2) [OF g p] by simp
  moreover have "base c + q * io c + i < end_of_space"
    using buffer_bound(2) [OF g q(1), of i] q(2) by simp
  moreover have "q = p" if "p * io c + j \<le> q * io c + i" "q * io c + i < p * io c + j + length bs"
  proof -
    have "p * io c < Suc q * io c" "q * io c < Suc p * io c"
      using that p(2) q(2) by simp_all
    then show ?thesis
      by (simp only: mult_less_cancel2) simp
  qed
  ultimately show ?thesis
    by (subst store_bytes_nat) (auto simp: byte_of_def)
qed

subsection \<open>Invariant\<close>

text \<open>What the storage device does: it holds bytes, reads them and writes them.\<close>

definition stores :: "'d device \<Rightarrow> ('d \<Rightarrow> nat \<Rightarrow> u8) \<Rightarrow> nat \<Rightarrow> bool" where
  "stores D content L \<longleftrightarrow>
     (\<forall>d r. wf_range r \<longrightarrow> read_lbas D d r = map (\<lambda>j. content d (unat (r_begin r) * L + j)) [0..<unat (range_length r) * L])
     \<and> (\<forall>d r bs j. wf_range r \<longrightarrow> length bs = unat (range_length r) * L \<longrightarrow> content (write_lbas D d r bs) j
          = (if unat (r_begin r) * L \<le> j \<and> j < unat (r_begin r) * L + length bs then bs ! (j - unat (r_begin r) * L) else content d j))"

text \<open>The number of the cache block that object \<open>p\<close> holds.\<close>

definition held :: "'d disk_cache \<Rightarrow> nat \<Rightarrow> nat" where
  "held c p = unat (first_block (block_objects c ! p)) div per_io c"

definition cache_inv :: "('d \<Rightarrow> nat \<Rightarrow> u8) \<Rightarrow> 'd disk_cache \<Rightarrow> bool" where
  "cache_inv content c \<longleftrightarrow> geometry c
     \<and> length (block_objects c) \<le> capacity c \<and> unat (m_offset_within_region c) = length (block_objects c) * io c
     \<and> distinct (m_cached_blocks c) \<and> set (m_cached_blocks c) = {..<length (block_objects c)}
     \<and> (\<forall>i p. m_block_to_cache c i = Some p \<longleftrightarrow> p < length (block_objects c) \<and> first_block (block_objects c ! p) = i)
     \<and> (\<forall>p < length (block_objects c). unat (virtual_address (block_objects c ! p)) = base c + p * io c
          \<and> unat (first_block (block_objects c ! p)) = held c p * per_io c \<and> inside c (held c p)
          \<and> (\<not> is_dirty (block_objects c ! p) \<longrightarrow>
               (\<forall>j < io c. byte_of c p j = content (m_device c) (fs_start c + held c p * io c + j))))"

text \<open>The bytes of the file system as the cache and the disk together hold them.\<close>

definition view :: "('d \<Rightarrow> nat \<Rightarrow> u8) \<Rightarrow> 'd disk_cache \<Rightarrow> nat \<Rightarrow> u8" where
  "view content c x =
     (case m_block_to_cache c (word_of_nat (x div io c * per_io c)) of
        Some p \<Rightarrow> byte_of c p (x mod io c)
      | None \<Rightarrow> content (m_device c) (fs_start c + x))"

lemma and_1_word: "(a :: 64 word) AND 1 = (if even (unat a) then 0 else 1)"
proof -
  have "unat (a AND 1) = unat a mod 2"
    using unat_and_mask [of a 1] by (simp add: mask_eq_exp_minus_1)
  then show ?thesis
    by (auto simp: word_unat_eq_iff even_iff_mod_2_eq_zero odd_iff_mod_2_eq_one)
qed

lemma block_flags [simp]:
  "virtual_address (mark_dirty b) = virtual_address b" "virtual_address (mark_clean b) = virtual_address b"
  "is_dirty (mark_dirty b)" "\<not> is_dirty (mark_clean b)" "first_block (mark_dirty b) = first_block b" "first_block (mark_clean b) = first_block b"
  "virtual_address (b\<lparr>first_block := i\<rparr>) = virtual_address b" "is_dirty (b\<lparr>first_block := i\<rparr>) = is_dirty b"
proof -
  show "virtual_address (mark_dirty b) = virtual_address b" "virtual_address (mark_clean b) = virtual_address b"
    unfolding virtual_address_def mark_dirty_def mark_clean_def by (rule bit_word_eqI; auto simp: bit_simps)+
  have "(x OR 1) AND 1 = (1 :: 64 word)" "(x AND NOT 1) AND 1 = (0 :: 64 word)" for x :: "64 word"
    by (rule bit_word_eqI; auto simp: bit_simps)+
  then show "is_dirty (mark_dirty b)" "\<not> is_dirty (mark_clean b)"
    unfolding is_dirty_def mark_dirty_def mark_clean_def by simp_all
qed (simp_all add: mark_dirty_def mark_clean_def virtual_address_def is_dirty_def)

lemma clean_address:
  assumes "\<not> is_dirty b"
  shows "virtual_address_and_dirty_bit b = virtual_address b"
proof -
  have "bit (virtual_address_and_dirty_bit b AND 1) n = bit (0 :: 64 word) n" for n
    using assms by (simp add: is_dirty_def)
  then show ?thesis
    unfolding virtual_address_def by (intro bit_word_eqI) (auto simp: bit_simps)
qed

lemma even_address:
  assumes "even (unat a)"
  shows "virtual_address \<lparr>virtual_address_and_dirty_bit = a, first_block = i\<rparr> = a" "\<not> is_dirty \<lparr>virtual_address_and_dirty_bit = a, first_block = i\<rparr>"
proof -
  show d: "\<not> is_dirty \<lparr>virtual_address_and_dirty_bit = a, first_block = i\<rparr>"
    using assms by (simp add: is_dirty_def and_1_word)
  show "virtual_address \<lparr>virtual_address_and_dirty_bit = a, first_block = i\<rparr> = a"
    using clean_address [OF d] by simp
qed

subsection \<open>The view\<close>

lemma inside_bound:
  assumes g: "geometry c" and k: "inside c k"
  shows "unat (word_of_nat (k * per_io c) :: u64) = k * per_io c" "k * io c + io c \<le> fs_size c" "fs_start c + k * io c + io c < end_of_space"
proof -
  have "fs_start c + fs_size c \<le> unat (r_end (m_fs_lba_range c)) * lb_size c \<or> fs_size c = 0"
    by (auto simp: fs_start_def fs_size_def simp flip: add_mult_distrib)
  moreover show le: "k * io c + io c \<le> fs_size c"
    using k by (simp add: inside_def)
  moreover have "0 < io c"
    by (rule geometry_pos [OF g])
  ultimately show b: "fs_start c + k * io c + io c < end_of_space"
    using g by (simp add: geometry_def)
  have "per_io c \<le> io c"
    using g unfolding geometry_def by (metis le_add1 mult_le_cancel1 mult.right_neutral Suc_leI One_nat_def)
  then have "k * per_io c \<le> k * io c"
    by simp
  with b show "unat (word_of_nat (k * per_io c) :: u64) = k * per_io c"
    by (intro end_of_space_unat) linarith
qed

lemma inside_of_byte:
  assumes "geometry c" "io c dvd fs_size c" "x < fs_size c"
  shows "inside c (x div io c)"
proof -
  obtain m where m: "fs_size c = io c * m"
    using assms(2) by (elim dvdE)
  have "x div io c < m"
    using assms(3) geometry_pos(1) [OF assms(1)] by (simp add: m less_mult_imp_div_less mult.commute)
  then have "(x div io c + 1) * io c \<le> m * io c"
    by (intro mult_le_mono1) simp
  then show ?thesis
    by (simp add: inside_def m mult.commute)
qed

lemma lookup:
  assumes inv: "cache_inv content c" and k: "inside c k"
  shows "m_block_to_cache c (word_of_nat (k * per_io c)) = Some p \<longleftrightarrow> p < length (block_objects c) \<and> held c p = k"
proof -
  have g: "geometry c"
    using inv by (simp add: cache_inv_def)
  have "first_block (block_objects c ! p) = word_of_nat (k * per_io c) \<longleftrightarrow> held c p = k" if "p < length (block_objects c)"
  proof -
    have "unat (first_block (block_objects c ! p)) = held c p * per_io c"
      using inv that by (simp add: cache_inv_def)
    then show ?thesis
      using inside_bound(1) [OF g k] geometry_pos(2) [OF g] by (simp add: word_unat_eq_iff)
  qed
  then show ?thesis
    using inv by (auto simp: cache_inv_def)
qed

lemma view_cached:
  assumes inv: "cache_inv content c" and p: "p < length (block_objects c)" and j: "j < io c"
  shows "view content c (held c p * io c + j) = byte_of c p j"
proof -
  have "inside c (held c p)"
    using inv p by (simp add: cache_inv_def)
  then have "m_block_to_cache c (word_of_nat (held c p * per_io c)) = Some p"
    using lookup [OF inv] p by simp
  then show ?thesis
    using j by (simp add: view_def)
qed

lemma view_uncached:
  assumes inv: "cache_inv content c" and k: "inside c k" "\<forall>p < length (block_objects c). held c p \<noteq> k" and j: "j < io c"
  shows "view content c (k * io c + j) = content (m_device c) (fs_start c + k * io c + j)"
proof -
  have "m_block_to_cache c (word_of_nat (k * per_io c)) = None"
    using lookup [OF inv k(1)] k(2) by (metis not_None_eq)
  then show ?thesis
    using j by (simp add: view_def add.assoc)
qed

definition same_shape :: "'d disk_cache \<Rightarrow> 'd disk_cache \<Rightarrow> bool" where
  "same_shape c c' \<longleftrightarrow> m_fs_lba_range c' = m_fs_lba_range c \<and> m_io_size c' = m_io_size c \<and> m_logical_block_size c' = m_logical_block_size c
     \<and> m_fs_block_size c' = m_fs_block_size c \<and> m_fs_blocks_per_io c' = m_fs_blocks_per_io c \<and> m_capacity c' = m_capacity c \<and> m_region c' = m_region c"

definition same_view :: "('d \<Rightarrow> nat \<Rightarrow> u8) \<Rightarrow> 'd disk_cache \<Rightarrow> 'd disk_cache \<Rightarrow> bool" where
  "same_view content c c' \<longleftrightarrow> same_shape c c'
     \<and> (\<forall>k j. inside c k \<longrightarrow> j < io c \<longrightarrow> view content c' (k * io c + j) = view content c (k * io c + j))"

lemma same_shapeD:
  assumes "same_shape c c'"
  shows "m_fs_lba_range c' = m_fs_lba_range c" "m_io_size c' = m_io_size c" "m_logical_block_size c' = m_logical_block_size c"
    "m_fs_block_size c' = m_fs_block_size c" "m_fs_blocks_per_io c' = m_fs_blocks_per_io c" "m_capacity c' = m_capacity c" "m_region c' = m_region c"
    "geometry c' = geometry c" "inside c' = inside c" "fs_start c' = fs_start c" "fs_size c' = fs_size c"
  using assms by (simp_all add: same_shape_def geometry_def inside_def fs_start_def fs_size_def fun_eq_iff)

lemma same_shape_trans: "same_shape c c' \<Longrightarrow> same_shape c' c'' \<Longrightarrow> same_shape c c''"
  by (simp add: same_shape_def)

lemma same_view_refl: "same_view content c c"
  by (simp add: same_view_def same_shape_def)

lemma same_view_trans:
  assumes "same_view content c c'" "same_view content c' c''"
  shows "same_view content c c''"
proof -
  have "same_shape c c'" "same_shape c' c''"
    using assms by (simp_all add: same_view_def)
  note sd = same_shapeD [OF this(1)]
  show ?thesis
    using assms same_shape_trans [OF \<open>same_shape c c'\<close> \<open>same_shape c' c''\<close>] unfolding same_view_def sd by simp
qed

lemma held_cong: "m_fs_blocks_per_io c' = m_fs_blocks_per_io c \<Longrightarrow> first_block (block_objects c' ! p) = first_block (block_objects c ! q) \<Longrightarrow> held c' p = held c q"
  by (simp add: held_def)

lemma byte_of_cong: "memory c' = memory c \<Longrightarrow> same_shape c c' \<Longrightarrow> byte_of c' = byte_of c"
  by (simp add: byte_of_def same_shape_def fun_eq_iff)

lemma held_inj:
  assumes inv: "cache_inv content c" and pq: "p < length (block_objects c)" "q < length (block_objects c)" "held c p = held c q"
  shows "p = q"
proof -
  have "inside c (held c p)"
    using inv pq(1) by (simp add: cache_inv_def)
  from lookup [OF inv this, of p] lookup [OF inv this, of q] pq show ?thesis
    by simp
qed

lemma stores_write:
  assumes "stores D content L" "wf_range r" "unat (r_begin r) * L = a" "unat (range_length r) * L = length bs"
  shows "content (write_lbas D d r bs) x = (if a \<le> x \<and> x < a + length bs then bs ! (x - a) else content d x)"
  using assms unfolding stores_def by metis

lemma stores_read:
  assumes "stores D content L" "wf_range r" "unat (r_begin r) * L = a" "unat (range_length r) * L = n"
  shows "read_lbas D d r = map (\<lambda>j. content d (a + j)) [0..<n]"
  using assms unfolding stores_def by blast

lemma block_apart: "k * n \<le> k' * n + j \<Longrightarrow> k' * n + j < k * n + n \<Longrightarrow> j < n \<Longrightarrow> k = k'" for n :: nat
proof -
  assume "k * n \<le> k' * n + j" "k' * n + j < k * n + n" "j < n"
  then have "k * n < Suc k' * n" "k' * n < Suc k * n"
    by simp_all
  then show "k = k'"
    by (simp only: mult_less_cancel2) simp
qed

text \<open>Writing a dirty block to the disk.\<close>

lemma flush_block_ok:
  assumes inv: "cache_inv content c" and D: "stores D content (lb_size c)" and p: "p < length (block_objects c)"
  shows "\<exists>c'. flush_block D p c = Inr c' \<and> cache_inv content c' \<and> same_view content c c' \<and> \<not> is_dirty (block_objects c' ! p)
    \<and> m_cached_blocks c' = m_cached_blocks c \<and> length (block_objects c') = length (block_objects c)
    \<and> (\<forall>q. q \<noteq> p \<longrightarrow> block_objects c' ! q = block_objects c ! q) \<and> (\<forall>q. held c' q = held c q)"
proof (cases "is_dirty (block_objects c ! p)")
  case True
  let ?b = "block_objects c ! p" and ?k = "held c p"
  have g: "geometry c" and n: "length (block_objects c) \<le> capacity c" and k: "inside c ?k" and va: "unat (virtual_address ?b) = base c + p * io c"
      and fb: "unat (first_block ?b) = ?k * per_io c"
    using inv p by (simp_all add: cache_inv_def)
  obtain r where r: "block_to_lba_range c (first_block ?b) = Inr r" "contains_range (m_fs_lba_range c) r"
    "unat (r_begin r) * lb_size c = fs_start c + ?k * io c" "unat (range_length r) * lb_size c = io c"
    "unat (range_length r * m_logical_block_size c) = io c" "wf_range r"
    using lba_range [OF g fb k] by blast
  have va': "virtual_address ?b = word_of_nat (base c + p * io c + 0)"
    using va by (metis add.right_neutral of_nat_unat ucast_id)
  define bs where "bs = map (\<lambda>j. byte_of c p j) [0..<io c]"
  define d where "d = write_lbas D (m_device c) r bs"
  define c' where "c' = c\<lparr>m_device := d, block_objects := (block_objects c)[p := mark_clean ?b]\<rparr>"
  have flush: "flush_block D p c = Inr c'"
    using True r load_buffer [of c p 0] by (simp add: flush_block_def Let_def va' bs_def d_def c'_def)
  have content: "content d x = (if fs_start c + ?k * io c \<le> x \<and> x < fs_start c + ?k * io c + io c
      then byte_of c p (x - (fs_start c + ?k * io c)) else content (m_device c) x)" for x
    using stores_write [OF D r(6,3), of bs "m_device c" x] r(4) by (auto simp: bs_def d_def)
  have shape: "same_shape c c'"
    by (simp add: same_shape_def c'_def)
  note sd = same_shapeD [OF shape]
  have held': "held c' q = held c q" for q
    using p by (cases "q = p") (simp_all add: held_def c'_def)
  have byte: "byte_of c' = byte_of c"
    by (rule byte_of_cong [OF _ shape]) (simp add: c'_def)
  have disk: "content d (fs_start c + k * io c + j) = content (m_device c) (fs_start c + k * io c + j)" if "k \<noteq> ?k" "j < io c" for k j
    using that by (subst content) (auto dest: block_apart)
  have own: "content d (fs_start c + ?k * io c + j) = byte_of c p j" if "j < io c" for j
    using that by (subst content) simp
  have objs: "block_objects c' ! q = (if q = p then mark_clean ?b else block_objects c ! q)" "length (block_objects c') = length (block_objects c)"
      "m_device c' = d" "m_block_to_cache c' = m_block_to_cache c" for q
    using p by (simp_all add: c'_def)
  have bytes: "byte_of c q j = content d (fs_start c + held c q * io c + j)"
    if "q < length (block_objects c)" "\<not> is_dirty (block_objects c' ! q)" "j < io c" for q j
  proof (cases "q = p")
    case False
    then have "held c q \<noteq> ?k"
      using held_inj [OF inv that(1) p] by blast
    moreover have "byte_of c q j = content (m_device c) (fs_start c + held c q * io c + j)"
      using inv that False by (simp add: cache_inv_def objs)
    ultimately show ?thesis
      using disk that(3) by simp
  qed (use own that in simp)
  have inv': "cache_inv content c'"
    using inv bytes unfolding cache_inv_def sd held' byte objs by (auto simp: c'_def)
  have "view content c' (k * io c + j) = view content c (k * io c + j)" if "inside c k" "j < io c" for k j
  proof (cases "\<exists>q < length (block_objects c). held c q = k")
    case True
    then obtain q where "q < length (block_objects c)" "held c q = k"
      by blast
    then show ?thesis
      using view_cached [OF inv, of q j] view_cached [OF inv', of q j] that by (simp add: objs held' sd byte)
  next
    case False
    then have "k \<noteq> ?k"
      using p by blast
    then show ?thesis
      using view_uncached [OF inv, of k j] view_uncached [OF inv', of k j] False that disk by (simp add: objs held' sd)
  qed
  then have "same_view content c c'"
    using shape by (simp add: same_view_def)
  then show ?thesis
    using flush inv' held' by (auto simp: objs) (simp add: c'_def)
qed (use assms in \<open>auto simp: flush_block_def same_view_refl\<close>)

subsection \<open>Bringing a block into the cache\<close>

text \<open>
  Object \<open>p\<close>, clean or new, comes to hold the cache block \<open>k\<close>, which no object holds.
\<close>

lemma fill_ok:
  assumes inv: "cache_inv content c" and k: "inside c k" "\<forall>q < length (block_objects c). held c q \<noteq> k"
    and p: "p < length (block_objects c) \<and> \<not> is_dirty (block_objects c ! p) \<or> p = length (block_objects c)" "p < capacity c"
    and shape: "same_shape c c'" and dev: "m_device c' = m_device c"
    and mem: "memory c' = store_bytes (memory c) (word_of_nat (base c + p * io c)) (map (\<lambda>j. content (m_device c) (fs_start c + k * io c + j)) [0..<io c])"
    and n: "length (block_objects c') = max (length (block_objects c)) (Suc p)"
    and objs: "\<forall>q < length (block_objects c'). block_objects c' ! q
      = (if q = p then \<lparr>virtual_address_and_dirty_bit = word_of_nat (base c + p * io c), first_block = word_of_nat (k * per_io c)\<rparr> else block_objects c ! q)"
    and lists: "distinct (m_cached_blocks c')" "set (m_cached_blocks c') = {..<length (block_objects c')}"
    and offset: "unat (m_offset_within_region c') = length (block_objects c') * io c"
    and map: "\<And>i. m_block_to_cache c' i = (if i = word_of_nat (k * per_io c) then Some p
      else if p < length (block_objects c) \<and> i = first_block (block_objects c ! p) then None else m_block_to_cache c i)"
  shows "cache_inv content c' \<and> same_view content c c'"
proof -
  note sd = same_shapeD [OF shape]
  have g: "geometry c" and cap: "length (block_objects c) \<le> capacity c"
    using inv by (simp_all add: cache_inv_def)
  have kk: "unat (word_of_nat (k * per_io c) :: u64) = k * per_io c"
    by (rule inside_bound [OF g k(1)])
  have n': "length (block_objects c') \<le> capacity c" "p < length (block_objects c')"
    using n p cap by auto
  have old: "q < length (block_objects c)" if "q < length (block_objects c')" "q \<noteq> p" for q
    using that n p by auto
  have held': "held c' q = (if q = p then k else held c q)" if "q < length (block_objects c')" for q
    using that objs kk geometry_pos(2) [OF g] by (simp add: held_def sd)
  have byte: "byte_of c' q j = (if q = p then content (m_device c) (fs_start c + k * io c + j) else byte_of c q j)"
    if "q < length (block_objects c')" "j < io c" for q j
    using store_buffer [OF g p(2), of 0 "map (\<lambda>j. content (m_device c) (fs_start c + k * io c + j)) [0..<io c]" q j] that n'
    by (simp add: byte_of_def mem sd)
  have addr: "unat (word_of_nat (base c + p * io c) :: 64 word) = base c + p * io c"
    using buffer_bound(2) [OF g p(2), of 0] by (intro end_of_space_unat) simp
  then have even: "even (unat (word_of_nat (base c + p * io c) :: 64 word))"
    using g by (simp add: geometry_def)
  have "m_block_to_cache c' i = Some q \<longleftrightarrow> q < length (block_objects c') \<and> first_block (block_objects c' ! q) = i" for i q
  proof -
    have m: "m_block_to_cache c i = Some q \<longleftrightarrow> q < length (block_objects c) \<and> first_block (block_objects c ! q) = i" for i q
      using inv by (simp add: cache_inv_def)
    have new: "first_block (block_objects c ! q) \<noteq> word_of_nat (k * per_io c)" if "q < length (block_objects c)" for q
      using lookup [OF inv k(1), of q] k(2) that m by blast
    show ?thesis
    proof (cases "q = p")
      case True
      then show ?thesis
        using n' objs m by (auto simp: map)
    next
      case False
      then have "q < length (block_objects c') \<longleftrightarrow> q < length (block_objects c)"
        using n p(1) by auto
      moreover have "first_block (block_objects c ! q) \<noteq> first_block (block_objects c ! p)"
        if "q < length (block_objects c)" "p < length (block_objects c)"
        using that False m by (metis option.inject)
      ultimately show ?thesis
        using False objs m [of _ q] new [of q] by (auto simp: map)
    qed
  qed
  moreover have "unat (virtual_address (block_objects c' ! q)) = base c + q * io c
        \<and> unat (first_block (block_objects c' ! q)) = held c' q * per_io c \<and> inside c (held c' q)
        \<and> (\<not> is_dirty (block_objects c' ! q) \<longrightarrow>
               (\<forall>j < io c. byte_of c' q j = content (m_device c) (fs_start c + held c' q * io c + j)))" if q: "q < length (block_objects c')" for q
  proof (cases "q = p")
    case True
    then show ?thesis
      using q objs even_address [OF even] addr kk k(1) held' [OF q] byte [OF q] by simp
  next
    case False
    then show ?thesis
      using inv q old [OF q] objs held' [OF q] byte [OF q] by (simp add: cache_inv_def)
  qed
  ultimately have inv': "cache_inv content c'"
    using g n' lists offset unfolding cache_inv_def by (simp add: sd dev)
  have "view content c' (k' * io c + j) = view content c (k' * io c + j)" if k': "inside c k'" and j: "j < io c" for k' j
  proof -
    have k'': "inside c' k'" "j < io c'"
      using k' j by (simp_all add: sd)
    consider (new) "k' = k" | (kept) q where "q < length (block_objects c)" "q \<noteq> p" "held c q = k'"
      | (evicted) "p < length (block_objects c)" "held c p = k'" "k' \<noteq> k"
      | (out) "k' \<noteq> k" "\<forall>q < length (block_objects c). held c q \<noteq> k'"
      by blast
    then show ?thesis
    proof cases
      case new
      then show ?thesis
        using view_cached [OF inv', of p j] view_uncached [OF inv k j] held' [of p] byte [of p j] n'(2) j by (simp add: sd)
    next
      case kept
      then have "q < length (block_objects c')"
        using n by simp
      then show ?thesis
        using view_cached [OF inv', of q j] view_cached [OF inv, of q j] held' [of q] byte [of q j] kept j by (simp add: sd)
    next
      case evicted
      have "\<forall>q < length (block_objects c'). held c' q \<noteq> k'"
        using held' evicted old held_inj [OF inv _ evicted(1)] by metis
      moreover have "byte_of c p j = content (m_device c) (fs_start c + k' * io c + j)"
        using inv evicted p(1) j by (auto simp: cache_inv_def)
      ultimately show ?thesis
        using view_uncached [OF inv' k''(1), of j] view_cached [OF inv evicted(1) j] evicted(2) j by (simp add: sd dev)
    next
      case out
      then have "\<forall>q < length (block_objects c'). held c' q \<noteq> k'"
        using held' old by metis
      then show ?thesis
        using view_uncached [OF inv' k''(1), of j] view_uncached [OF inv k' out(2) j] j by (simp add: sd dev)
    qed
  qed
  then show ?thesis
    using inv' shape by (simp add: same_view_def)
qed

lemma flush_block_list: "flush_block D p (c\<lparr>m_cached_blocks := xs\<rparr>) = bind_res (flush_block D p c) (\<lambda>c. Inr (c\<lparr>m_cached_blocks := xs\<rparr>))"
proof -
  have "block_to_lba_range (c\<lparr>m_cached_blocks := xs\<rparr>) i = block_to_lba_range c i" for i
    by (simp add: block_to_lba_range_def block_to_first_lba_def)
  then show ?thesis
    by (cases "block_to_lba_range c (first_block (block_objects c ! p))") (simp_all add: flush_block_def Let_def assert_that_def)
qed

lemma list_length:
  assumes "cache_inv content c"
  shows "length (m_cached_blocks c) = length (block_objects c)"
  using assms unfolding cache_inv_def by (metis card_lessThan distinct_card)

lemma read_into_block_ok:
  assumes inv: "cache_inv content c" and D: "stores D content (lb_size c)" and k: "inside c k" "\<forall>q < length (block_objects c). held c q \<noteq> k"
    and shape: "same_shape c c1" and frame: "m_device c1 = m_device c" "memory c1 = memory c"
    and p: "p < length (block_objects c) \<and> \<not> is_dirty (block_objects c ! p) \<or> p = length (block_objects c)" "p < capacity c"
    and n: "length (block_objects c1) = max (length (block_objects c)) (Suc p)"
    and objs: "\<forall>q < length (block_objects c1). q \<noteq> p \<longrightarrow> block_objects c1 ! q = block_objects c ! q"
    and addr: "virtual_address_and_dirty_bit (block_objects c1 ! p) = word_of_nat (base c + p * io c)"
    and lists: "distinct (m_cached_blocks c1)" "p \<notin> set (m_cached_blocks c1)" "insert p (set (m_cached_blocks c1)) = {..<length (block_objects c1)}"
    and offset: "unat (m_offset_within_region c1) = length (block_objects c1) * io c"
    and map: "\<And>i. m_block_to_cache c1 i = (if p < length (block_objects c) \<and> i = first_block (block_objects c ! p) then None else m_block_to_cache c i)"
  shows "\<exists>c'. read_into_block D (word_of_nat (k * per_io c)) p c1 = Inr c' \<and> cache_inv content c' \<and> same_view content c c'
    \<and> p < length (block_objects c') \<and> held c' p = k \<and> m_cached_blocks c' = p # m_cached_blocks c1"
proof -
  have g: "geometry c"
    using inv by (simp add: cache_inv_def)
  have kk: "unat (word_of_nat (k * per_io c) :: u64) = k * per_io c"
    by (rule inside_bound [OF g k(1)])
  obtain r where r: "block_to_lba_range c (word_of_nat (k * per_io c)) = Inr r" "contains_range (m_fs_lba_range c) r"
      "unat (r_begin r) * lb_size c = fs_start c + k * io c" "unat (range_length r) * lb_size c = io c" "wf_range r"
    using lba_range [OF g kk k(1)] by blast
  have r1: "block_to_lba_range c1 (word_of_nat (k * per_io c)) = Inr r"
    using r(1) shape by (simp add: block_to_lba_range_def block_to_first_lba_def same_shape_def)
  have pn: "p < length (block_objects c1)"
    using n by simp
  have "even (unat (word_of_nat (base c + p * io c) :: 64 word))"
    using g end_of_space_unat [of "base c + p * io c"] buffer_bound(2) [OF g p(2), of 0] by (simp add: geometry_def)
  then have va: "virtual_address (block_objects c1 ! p) = word_of_nat (base c + p * io c)"
    using even_address(1) [of "word_of_nat (base c + p * io c)"] addr by (simp add: virtual_address_def)
  define c' where "c' = c1\<lparr>memory := store_bytes (memory c1) (virtual_address (block_objects c1 ! p)) (read_lbas D (m_device c1) r),
     block_objects := (block_objects c1)[p := (block_objects c1 ! p)\<lparr>first_block := word_of_nat (k * per_io c)\<rparr>],
     m_cached_blocks := p # m_cached_blocks c1, m_block_to_cache := (m_block_to_cache c1)(word_of_nat (k * per_io c) \<mapsto> p)\<rparr>"
  have run: "read_into_block D (word_of_nat (k * per_io c)) p c1 = Inr c'"
    using r1 r(2) shape by (simp add: read_into_block_def same_shape_def c'_def Let_def)
  have obj: "(block_objects c1 ! p)\<lparr>first_block := i\<rparr> = \<lparr>virtual_address_and_dirty_bit = word_of_nat (base c + p * io c), first_block = i\<rparr>" for i
    using addr by (cases "block_objects c1 ! p") simp
  have "cache_inv content c' \<and> same_view content c c'"
  proof (rule fill_ok [OF inv k p])
    show "same_shape c c'"
      using shape by (simp add: same_shape_def c'_def)
    show "memory c' = store_bytes (memory c) (word_of_nat (base c + p * io c)) (map (\<lambda>j. content (m_device c) (fs_start c + k * io c + j)) [0..<io c])"
      using stores_read [OF D r(5,3,4)] by (simp add: c'_def frame va)
    show "\<forall>q < length (block_objects c'). block_objects c' ! q
      = (if q = p then \<lparr>virtual_address_and_dirty_bit = word_of_nat (base c + p * io c), first_block = word_of_nat (k * per_io c)\<rparr> else block_objects c ! q)"
      using objs pn obj by (auto simp: c'_def nth_list_update)
  qed (use n lists offset map frame in \<open>simp_all add: c'_def\<close>)
  moreover have "held c' p = k"
    using pn kk geometry_pos(2) [OF g] shape by (simp add: held_def c'_def same_shape_def)
  ultimately show ?thesis
    using run pn by (simp add: c'_def)
qed

lemma evict_ok:
  assumes inv: "cache_inv content c" and D: "stores D content (lb_size c)" and full: "length (block_objects c) = capacity c"
    and k: "inside c k" "\<forall>q < length (block_objects c). held c q \<noteq> k"
  shows "\<exists>p c1 c'. evict_one D c = Inr (p, c1) \<and> read_into_block D (word_of_nat (k * per_io c)) p c1 = Inr c' \<and> cache_inv content c'
    \<and> same_view content c c' \<and> p < length (block_objects c') \<and> held c' p = k \<and> m_cached_blocks c' = p # butlast (m_cached_blocks c)"
proof -
  have ne: "m_cached_blocks c \<noteq> []"
    using list_length [OF inv] full inv by (auto simp: cache_inv_def geometry_def)
  define p where "p = last (m_cached_blocks c)"
  have pin: "p \<in> set (m_cached_blocks c)" and split: "m_cached_blocks c = butlast (m_cached_blocks c) @ [p]"
    using ne by (simp_all add: p_def)
  then have p: "p < length (block_objects c)"
    using inv by (auto simp: cache_inv_def)
  obtain c2 where c2: "flush_block D p c = Inr c2" "cache_inv content c2" "same_view content c c2" "\<not> is_dirty (block_objects c2 ! p)"
      "m_cached_blocks c2 = m_cached_blocks c" "length (block_objects c2) = length (block_objects c)" "\<And>q. held c2 q = held c q"
    using flush_block_ok [OF inv D p] by blast
  have flush: "bind_res (if is_dirty (block_objects c ! p) then flush_block D p (c\<lparr>m_cached_blocks := butlast (m_cached_blocks c)\<rparr>)
      else Inr (c\<lparr>m_cached_blocks := butlast (m_cached_blocks c)\<rparr>)) f = f (c2\<lparr>m_cached_blocks := butlast (m_cached_blocks c)\<rparr>)" for f :: "_ \<Rightarrow> (nat \<times> _) res"
  proof (cases "is_dirty (block_objects c ! p)")
    case False
    then have "c2 = c"
      using c2(1) by (simp add: flush_block_def Let_def)
    then show ?thesis
      using False by simp
  qed (use c2(1) in \<open>simp add: flush_block_list\<close>)
  define c1 where "c1 = c2\<lparr>m_cached_blocks := butlast (m_cached_blocks c),
     m_block_to_cache := (m_block_to_cache c2)(first_block (block_objects c2 ! p) := None),
     block_objects := (block_objects c2)[p := (block_objects c2 ! p)\<lparr>first_block := 0\<rparr>]\<rparr>"
  have evict: "evict_one D c = Inr (p, c1)"
    using ne by (simp add: evict_one_def Let_def flush p_def [symmetric] c1_def)
  have shape: "same_shape c c2"
    using c2(3) by (simp add: same_view_def)
  note sd = same_shapeD [OF shape]
  have held2: "\<forall>q < length (block_objects c2). held c2 q \<noteq> k"
    using k(2) c2(6,7) by simp
  have dist: "distinct (butlast (m_cached_blocks c) @ [p])" "set (butlast (m_cached_blocks c) @ [p]) = {..<length (block_objects c)}"
    using inv unfolding split [symmetric] by (simp_all add: cache_inv_def)
  have "virtual_address_and_dirty_bit (block_objects c2 ! p) = word_of_nat (base c + p * io c)"
  proof -
    have "unat (virtual_address (block_objects c2 ! p)) = base c + p * io c"
      using c2(2,6) p by (simp add: cache_inv_def sd)
    then show ?thesis
      using clean_address [OF c2(4)] by (metis of_nat_unat ucast_id)
  qed
  then have "\<exists>c'. read_into_block D (word_of_nat (k * per_io c2)) p c1 = Inr c' \<and> cache_inv content c' \<and> same_view content c2 c'
    \<and> p < length (block_objects c') \<and> held c' p = k \<and> m_cached_blocks c' = p # m_cached_blocks c1"
    using D k p c2 held2 full dist
    by (intro read_into_block_ok [OF c2(2)]) (auto simp: sd c1_def same_shape_def max_def cache_inv_def)
  then show ?thesis
    using evict same_view_trans [OF c2(3)] by (auto simp: sd c1_def)
qed

lemma new_block_ok:
  assumes inv: "cache_inv content c" and D: "stores D content (lb_size c)" and room: "length (block_objects c) < capacity c"
    and k: "inside c k" "\<forall>q < length (block_objects c). held c q \<noteq> k"
  shows "\<exists>p c1 c'. new_cached_block c = (p, c1) \<and> read_into_block D (word_of_nat (k * per_io c)) p c1 = Inr c' \<and> cache_inv content c'
    \<and> same_view content c c' \<and> p < length (block_objects c') \<and> held c' p = k \<and> m_cached_blocks c' = p # m_cached_blocks c"
proof -
  let ?n = "length (block_objects c)"
  have g: "geometry c" and off: "unat (m_offset_within_region c) = ?n * io c"
    using inv by (simp_all add: cache_inv_def)
  have b: "base c + ?n * io c + io c < end_of_space"
    by (rule buffer_bound(2) [OF g room order.refl])
  then have "unat (m_offset_within_region c + m_io_size c) = ?n * io c + io c"
    by (subst unat_add_no_wrap) (simp_all add: off end_of_space_def)
  moreover have "r_begin (m_region c) + m_offset_within_region c = word_of_nat (base c + ?n * io c)"
    using off by (metis of_nat_add of_nat_unat ucast_id)
  moreover have "distinct (m_cached_blocks c)" "set (m_cached_blocks c) = {..<?n}"
      "p < ?n \<Longrightarrow> first_block (block_objects c ! p) = i \<Longrightarrow> m_block_to_cache c i = Some p" for p i
    using inv by (simp_all add: cache_inv_def)
  ultimately have "\<exists>c'. read_into_block D (word_of_nat (k * per_io c)) ?n (snd (new_cached_block c)) = Inr c' \<and> cache_inv content c' \<and> same_view content c c'
    \<and> ?n < length (block_objects c') \<and> held c' ?n = k \<and> m_cached_blocks c' = ?n # m_cached_blocks (snd (new_cached_block c))"
    using room
    by (intro read_into_block_ok [OF inv D k])
      (auto simp: new_cached_block_def allocate_next_block_buffer_def same_shape_def nth_append lessThan_Suc)
  then show ?thesis
    by (simp add: new_cached_block_def allocate_next_block_buffer_def)
qed

lemma view_cong:
  assumes "same_shape c c'" "m_device c' = m_device c" "memory c' = memory c" "m_block_to_cache c' = m_block_to_cache c"
  shows "view content c' = view content c"
  using assms by (simp add: view_def byte_of_def fs_start_def same_shape_def fun_eq_iff split: option.split)

text \<open>
  A block is found or read from the disk. The list of blocks is in the order of their use, and
  when the cache is full the least recently used one goes.
\<close>

lemma cached_block_ok:
  assumes inv: "cache_inv content c" and D: "stores D content (lb_size c)" and i: "inside c (unat i div per_io c)"
  shows "\<exists>p off c'. cached_block D i c = Inr (p, off, c') \<and> cache_inv content c' \<and> same_view content c c'
    \<and> p < length (block_objects c') \<and> held c' p = unat i div per_io c \<and> unat off = unat i mod per_io c * fs_block c
    \<and> m_cached_blocks c' = p # (if \<exists>q < length (block_objects c). held c q = unat i div per_io c then remove1 p (m_cached_blocks c)
         else if length (m_cached_blocks c) = capacity c then butlast (m_cached_blocks c) else m_cached_blocks c)"
proof -
  have g: "geometry c" and le: "length (block_objects c) \<le> capacity c"
    using inv by (simp_all add: cache_inv_def)
  let ?k = "unat i div per_io c" and ?off = "(i - block_index_to_cached_index c i) * m_fs_block_size c"
  have idx: "block_index_to_cached_index c i = word_of_nat (?k * per_io c)"
    using cached_index [OF g, of i] by (metis of_nat_unat ucast_id)
  have "unat (i - block_index_to_cached_index c i) = unat i mod per_io c"
    using cached_index [OF g, of i] by (subst unat_diff_word) (simp_all add: word_le_nat_alt minus_div_mult_eq_mod)
  moreover have "unat i mod per_io c * fs_block c < 2 ^ 64"
  proof -
    have "unat i mod per_io c * fs_block c \<le> per_io c * fs_block c"
      using geometry_pos(2) [OF g] by (intro mult_le_mono1) (simp add: less_imp_le)
    also have "\<dots> < 2 ^ 64"
      using g unat_less_64 [of "m_io_size c"] by (simp add: geometry_def)
    finally show ?thesis .
  qed
  ultimately have off: "unat ?off = unat i mod per_io c * fs_block c"
    by (simp add: unat_word_ariths)
  show ?thesis
  proof (cases "m_block_to_cache c (block_index_to_cached_index c i)")
    case (Some p)
    then have p: "p < length (block_objects c)" "held c p = ?k"
      using lookup [OF inv i, of p] idx by simp_all
    let ?c = "c\<lparr>m_cached_blocks := p # remove1 p (m_cached_blocks c)\<rparr>"
    have "cache_inv content ?c"
      using inv p(1) by (auto simp: cache_inv_def geometry_def inside_def fs_size_def fs_start_def held_def byte_of_def)
    moreover have "same_shape c ?c" "view content ?c = view content c" "held ?c p = ?k"
      using p(2) view_cong [of c ?c content] by (simp_all add: same_shape_def held_def)
    ultimately show ?thesis
      using Some p off by (auto simp: cached_block_def Let_def same_view_def)
  next
    case None
    then have k: "\<forall>q < length (block_objects c). held c q \<noteq> ?k"
      using lookup [OF inv i] idx by auto
    have full: "word_of_nat (length (m_cached_blocks c)) = m_capacity c \<longleftrightarrow> length (block_objects c) = capacity c"
      using list_length [OF inv] le unat_less_64 [of "m_capacity c"] by (simp add: word_unat_eq_iff unat_of_nat)
    show ?thesis
    proof (cases "length (block_objects c) = capacity c")
      case True
      then show ?thesis
        using evict_ok [OF inv D True i k] None off full k list_length [OF inv] by (auto simp: cached_block_def Let_def idx)
    next
      case False
      then show ?thesis
        using new_block_ok [OF inv D _ i k] le None off full k list_length [OF inv] by (auto simp: cached_block_def Let_def idx)
    qed
  qed
qed

subsection \<open>Reading and writing\<close>

lemma modify_ok:
  assumes inv: "cache_inv content c" and p: "p < length (block_objects c)" and o: "off + length bs \<le> io c"
  defines "c' \<equiv> c\<lparr>block_objects := (block_objects c)[p := mark_dirty (block_objects c ! p)],
     memory := store_bytes (memory c) (word_of_nat (base c + p * io c + off)) bs\<rparr>"
  shows "cache_inv content c'" "same_shape c c'"
    "inside c k \<Longrightarrow> j < io c \<Longrightarrow> view content c' (k * io c + j)
      = (if k = held c p \<and> off \<le> j \<and> j < off + length bs then bs ! (j - off) else view content c (k * io c + j))"
proof -
  have g: "geometry c" and cap: "length (block_objects c) \<le> capacity c"
    using inv by (simp_all add: cache_inv_def)
  show shape: "same_shape c c'"
    by (simp add: same_shape_def c'_def)
  note sd = same_shapeD [OF shape]
  have frame: "m_device c' = m_device c" "m_cached_blocks c' = m_cached_blocks c" "m_block_to_cache c' = m_block_to_cache c"
      "m_offset_within_region c' = m_offset_within_region c" "length (block_objects c') = length (block_objects c)"
      "first_block (block_objects c' ! q) = first_block (block_objects c ! q)" "virtual_address (block_objects c' ! q) = virtual_address (block_objects c ! q)"
      "is_dirty (block_objects c' ! q) \<longleftrightarrow> q = p \<or> is_dirty (block_objects c ! q)" "held c' q = held c q" for q
    using p by (auto simp: c'_def nth_list_update held_def)
  have byte: "byte_of c' q j = (if q = p \<and> off \<le> j \<and> j < off + length bs then bs ! (j - off) else byte_of c q j)"
    if "q < length (block_objects c)" "j < io c" for q j
  proof -
    have "p < capacity c" "q < capacity c"
      using p that(1) cap by simp_all
    then show ?thesis
      using store_buffer [OF g _ o _ that(2)] by (simp add: byte_of_def c'_def)
  qed
  show inv': "cache_inv content c'"
    using inv byte unfolding cache_inv_def sd frame by auto
  show "view content c' (k * io c + j)
      = (if k = held c p \<and> off \<le> j \<and> j < off + length bs then bs ! (j - off) else view content c (k * io c + j))"
    if k: "inside c k" and j: "j < io c"
  proof (cases "\<exists>q < length (block_objects c). held c q = k")
    case True
    then obtain q where q: "q < length (block_objects c)" "held c q = k"
      by blast
    then have "k = held c p \<longleftrightarrow> q = p"
      using held_inj [OF inv _ p] by auto
    then show ?thesis
      using q view_cached [OF inv q(1) j] view_cached [OF inv', of q j] byte [OF q(1) j] j by (simp add: frame sd)
  next
    case False
    then have "k \<noteq> held c p"
      using p by blast
    then show ?thesis
      using False view_uncached [OF inv k _ j] view_uncached [OF inv', of k j] k j by (simp add: frame sd)
  qed
qed

lemma block_position:
  assumes "geometry c"
  shows "unat i * fs_block c + x = unat i div per_io c * io c + (unat i mod per_io c * fs_block c + x)"
    "x \<le> fs_block c \<Longrightarrow> unat i mod per_io c * fs_block c + x \<le> io c"
proof -
  have io: "io c = per_io c * fs_block c" and pos: "0 < per_io c"
    using assms geometry_pos [OF assms] by (simp_all add: geometry_def)
  have "unat i * fs_block c = (unat i div per_io c * per_io c + unat i mod per_io c) * fs_block c"
    by simp
  then show "unat i * fs_block c + x = unat i div per_io c * io c + (unat i mod per_io c * fs_block c + x)"
    by (simp only: io add_mult_distrib mult.assoc add.assoc)
  have "Suc (unat i mod per_io c) * fs_block c \<le> per_io c * fs_block c"
    using pos by (intro mult_le_mono1) (simp add: Suc_le_eq)
  then show "x \<le> fs_block c \<Longrightarrow> unat i mod per_io c * fs_block c + x \<le> io c"
    by (simp add: io)
qed

text \<open>The address that an operation computes in the buffer of its block.\<close>

lemma buffer_address:
  assumes inv: "cache_inv content c" and p: "p < length (block_objects c)"
  shows "virtual_address (block_objects c ! p) + a + b = word_of_nat (base c + p * io c + (unat a + unat b))"
proof -
  have "unat (virtual_address (block_objects c ! p)) = base c + p * io c"
    using inv p by (simp add: cache_inv_def)
  then have "virtual_address (block_objects c ! p) = word_of_nat (base c + p * io c)"
    by (metis of_nat_unat ucast_id)
  then show ?thesis
    by simp
qed

text \<open>The cache, together with the disk, holds the bytes \<open>f\<close> of the file system.\<close>

definition represents :: "('d \<Rightarrow> nat \<Rightarrow> u8) \<Rightarrow> 'd disk_cache \<Rightarrow> (nat \<Rightarrow> u8) \<Rightarrow> bool" where
  "represents content c f \<longleftrightarrow> cache_inv content c \<and> (\<forall>k j. inside c k \<longrightarrow> j < io c \<longrightarrow> view content c (k * io c + j) = f (k * io c + j))"

definition overwrite :: "(nat \<Rightarrow> u8) \<Rightarrow> nat \<Rightarrow> u8 list \<Rightarrow> nat \<Rightarrow> u8" where
  "overwrite f a bs = (\<lambda>x. if a \<le> x \<and> x < a + length bs then bs ! (x - a) else f x)"

lemma represents_same_view:
  assumes "represents content c f" "cache_inv content c'" "same_view content c c'"
  shows "represents content c' f"
proof -
  have "same_shape c c'"
    using assms(3) by (simp add: same_view_def)
  note sd = same_shapeD [OF this]
  show ?thesis
    using assms unfolding represents_def same_view_def sd by simp
qed

lemma cached_block_represents:
  assumes f: "represents content c f" and D: "stores D content (lb_size c)" and i: "inside c (unat i div per_io c)"
  obtains p bo c' where "cached_block D i c = Inr (p, bo, c')" "represents content c' f" "same_shape c c'" "p < length (block_objects c')"
    "held c' p = unat i div per_io c" "unat bo = unat i mod per_io c * fs_block c"
proof -
  have "cache_inv content c"
    using f by (simp add: represents_def)
  from cached_block_ok [OF this D i] show ?thesis
    using that represents_same_view [OF f] by (auto simp: same_view_def)
qed

lemma access_ok:
  assumes g: "geometry c" and n: "unat off + unat n \<le> fs_block c"
  shows "off + n \<le> m_fs_block_size c" "m_io_size c \<noteq> no_caching_required"
  using n unat_less_64 [of "m_fs_block_size c"] geometry_pos(1) [OF g]
  by (auto simp: word_le_nat_alt unat_add_no_wrap no_caching_required_def)

lemma read_one_ok:
  assumes f: "represents content c f" and D: "stores D content (lb_size c)" and i: "inside c (unat i div per_io c)"
    and n: "unat off + unat n \<le> fs_block c"
  defines "data \<equiv> map (\<lambda>j. f (unat i * fs_block c + unat off + j)) [0..<unat n]"
  shows "\<exists>c'. read_one D i off n room c = Inr (if unat n \<le> room then NO_ERROR else MEMORY_ACCESS_VIOLATION, take room data, c')
    \<and> represents content c' f \<and> same_shape c c'"
proof -
  have g: "geometry c"
    using f by (simp add: represents_def cache_inv_def)
  obtain p bo c' where c': "cached_block D i c = Inr (p, bo, c')" "represents content c' f" "same_shape c c'" "p < length (block_objects c')"
      "held c' p = unat i div per_io c" "unat bo = unat i mod per_io c * fs_block c"
    using cached_block_represents [OF f D i] .
  note sd = same_shapeD [OF c'(3)]
  have inv: "cache_inv content c'"
    using c'(2) by (simp add: represents_def)
  have "byte_of c' p (unat bo + unat off + j) = f (unat i * fs_block c + unat off + j)" if "j < unat n" for j
  proof -
    have lt: "unat bo + unat off + j < io c"
      using block_position(2) [OF g, of "unat off + unat n" i] n that c'(6) by simp
    have "unat i * fs_block c + unat off + j = unat i div per_io c * io c + (unat bo + unat off + j)"
      using block_position(1) [OF g, of i "unat off + j"] c'(6) by (simp add: add.assoc)
    moreover have "view content c' (unat i div per_io c * io c + (unat bo + unat off + j)) = byte_of c' p (unat bo + unat off + j)"
      using view_cached [OF inv c'(4), of "unat bo + unat off + j"] lt c'(5) by (simp add: sd)
    ultimately show ?thesis
      using c'(2) i lt by (simp add: represents_def sd add.assoc)
  qed
  then have "load_bytes (memory c') (virtual_address (block_objects c' ! p) + bo + off) (unat n) = data"
    unfolding buffer_address [OF inv c'(4)] load_buffer by (simp add: data_def)
  then show ?thesis
    using c' access_ok [OF g n] by (auto simp: read_one_def Let_def data_def)
qed

lemma modify_represents:
  assumes f: "represents content c f" and g: "geometry c" and p: "p < length (block_objects c)" "held c p = unat i div per_io c"
    and x: "x + length bs \<le> fs_block c"
  defines "c' \<equiv> c\<lparr>block_objects := (block_objects c)[p := mark_dirty (block_objects c ! p)],
     memory := store_bytes (memory c) (word_of_nat (base c + p * io c + (unat i mod per_io c * fs_block c + x))) bs\<rparr>"
  shows "represents content c' (overwrite f (unat i * fs_block c + x) bs) \<and> same_shape c c'"
proof -
  let ?o = "unat i mod per_io c * fs_block c + x"
  have inv: "cache_inv content c"
    using f by (simp add: represents_def)
  have o: "?o + length bs \<le> io c"
    using block_position(2) [OF g x, of i] by simp
  note m = modify_ok [OF inv p(1) o, folded c'_def]
  note sd = same_shapeD [OF m(2)]
  have "overwrite f (unat i * fs_block c + x) bs (k * io c + j)
      = (if k = held c p \<and> ?o \<le> j \<and> j < ?o + length bs then bs ! (j - ?o) else f (k * io c + j))" if "j < io c" for k j
  proof (cases "k = held c p")
    case True
    then show ?thesis
      by (auto simp: overwrite_def block_position(1) [OF g] p(2) add.assoc)
  next
    case False
    have "\<not> (unat i * fs_block c + x \<le> k * io c + j \<and> k * io c + j < unat i * fs_block c + x + length bs)"
      using block_apart [of "held c p" "io c" k j] False that o by (auto simp: block_position(1) [OF g] p(2))
    then show ?thesis
      using False by (auto simp: overwrite_def)
  qed
  then show ?thesis
    using m f unfolding represents_def sd by simp
qed

lemma write_one_ok:
  assumes f: "represents content c f" and D: "stores D content (lb_size c)" and i: "inside c (unat i div per_io c)"
    and n: "unat off + unat n \<le> fs_block c"
  shows "\<exists>c'. write_one D i off n buffer c = Inr (if unat n \<le> length buffer then NO_ERROR else MEMORY_ACCESS_VIOLATION, buffer, c')
    \<and> represents content c' (overwrite f (unat i * fs_block c + unat off) (take (unat n) buffer)) \<and> same_shape c c'"
proof -
  have g: "geometry c"
    using f by (simp add: represents_def cache_inv_def)
  obtain p bo c1 where c1: "cached_block D i c = Inr (p, bo, c1)" "represents content c1 f" "same_shape c c1" "p < length (block_objects c1)"
      "held c1 p = unat i div per_io c" "unat bo = unat i mod per_io c * fs_block c"
    using cached_block_represents [OF f D i] .
  note sd = same_shapeD [OF c1(3)]
  have inv: "cache_inv content c1"
    using c1(2) by (simp add: represents_def)
  have "represents content (c1\<lparr>block_objects := (block_objects c1)[p := mark_dirty (block_objects c1 ! p)],
       memory := store_bytes (memory c1) (virtual_address (block_objects c1 ! p) + bo + off) (take (unat n) buffer)\<rparr>)
      (overwrite f (unat i * fs_block c + unat off) (take (unat n) buffer))"
    using modify_represents [OF c1(2) _ c1(4), of i "unat off" "take (unat n) buffer"] c1(5,6) g n
    unfolding buffer_address [OF inv c1(4)] by (simp add: sd)
  then show ?thesis
    using c1 access_ok [OF g n] by (auto simp: write_one_def Let_def same_shape_def)
qed

lemma memory_blocks_swap: "c\<lparr>memory := m, block_objects := bs\<rparr> = c\<lparr>block_objects := bs, memory := m\<rparr>"
  by (cases c) simp

lemma zero_fill_one_ok:
  assumes f: "represents content c f" and D: "stores D content (lb_size c)" and i: "inside c (unat i div per_io c)"
  shows "\<exists>c'. zero_fill_one D i c = Inr c' \<and> represents content c' (overwrite f (unat i * fs_block c) (replicate (fs_block c) 0)) \<and> same_shape c c'"
proof -
  have g: "geometry c"
    using f by (simp add: represents_def cache_inv_def)
  obtain p bo c1 where c1: "cached_block D i c = Inr (p, bo, c1)" "represents content c1 f" "same_shape c c1" "p < length (block_objects c1)"
      "held c1 p = unat i div per_io c" "unat bo = unat i mod per_io c * fs_block c"
    using cached_block_represents [OF f D i] .
  note sd = same_shapeD [OF c1(3)]
  have inv: "cache_inv content c1"
    using c1(2) by (simp add: represents_def)
  have "represents content (c1\<lparr>block_objects := (block_objects c1)[p := mark_dirty (block_objects c1 ! p)],
       memory := store_bytes (memory c1) (virtual_address (block_objects c1 ! p) + bo + 0) (replicate (fs_block c) 0)\<rparr>)
      (overwrite f (unat i * fs_block c) (replicate (fs_block c) 0))"
    using modify_represents [OF c1(2) _ c1(4), of i 0 "replicate (fs_block c) 0"] c1(5,6) g
    unfolding buffer_address [OF inv c1(4)] by (simp add: sd)
  then show ?thesis
    using c1 access_ok(2) [OF g, of 0 0] by (auto simp: zero_fill_one_def Let_def same_shape_def sd memory_blocks_swap)
qed

lemma flush_loop_ok:
  assumes "represents content c f" "stores D content (lb_size c)" "set ps \<subseteq> {..<length (block_objects c)}"
  shows "\<exists>c'. flush_loop D ps c = Inr c' \<and> represents content c' f \<and> same_shape c c' \<and> length (block_objects c') = length (block_objects c)
    \<and> (\<forall>q < length (block_objects c). q \<in> set ps \<or> \<not> is_dirty (block_objects c ! q) \<longrightarrow> \<not> is_dirty (block_objects c' ! q))"
  using assms
proof (induction ps arbitrary: c)
  case (Cons p ps)
  have inv: "cache_inv content c" and p: "p < length (block_objects c)"
    using Cons.prems by (simp_all add: represents_def)
  obtain c1 where c1: "flush_block D p c = Inr c1" "cache_inv content c1" "same_view content c c1" "\<not> is_dirty (block_objects c1 ! p)"
      "length (block_objects c1) = length (block_objects c)" "\<And>q. q \<noteq> p \<Longrightarrow> block_objects c1 ! q = block_objects c ! q"
    using flush_block_ok [OF inv Cons.prems(2) p] by blast
  have shape: "same_shape c c1"
    using c1(3) by (simp add: same_view_def)
  note sd = same_shapeD [OF shape]
  obtain c' where c': "flush_loop D ps c1 = Inr c'" "represents content c' f" "same_shape c1 c'" "length (block_objects c') = length (block_objects c1)"
      "\<forall>q < length (block_objects c1). q \<in> set ps \<or> \<not> is_dirty (block_objects c1 ! q) \<longrightarrow> \<not> is_dirty (block_objects c' ! q)"
    using Cons.IH [OF represents_same_view [OF Cons.prems(1) c1(2,3)]] Cons.prems(2,3) c1(5) by (auto simp: sd)
  have "bind_res (if is_dirty (block_objects c ! p) then flush_block D p c else Inr c) (flush_loop D ps) = Inr c'"
    using c1(1) c'(1) by (cases "is_dirty (block_objects c ! p)") (simp_all add: flush_block_def Let_def)
  moreover have "\<not> is_dirty (block_objects c' ! q)"
    if "q < length (block_objects c)" "q \<in> set (p # ps) \<or> \<not> is_dirty (block_objects c ! q)" for q
    using that c'(5) c1(4-6) by (cases "q = p") auto
  ultimately show ?case
    using c' c1(5) same_shape_trans [OF shape] by auto
qed (auto simp: same_shape_def)

lemma flush_all_ok:
  assumes f: "represents content c f" and D: "stores D content (lb_size c)"
  shows "\<exists>c'. flush_all D c = Inr c' \<and> represents content c' f \<and> same_shape c c'
    \<and> (\<forall>k j. inside c k \<longrightarrow> j < io c \<longrightarrow> content (m_device c') (fs_start c + k * io c + j) = f (k * io c + j))"
proof -
  have inv: "cache_inv content c" and g: "geometry c"
    using f by (simp_all add: represents_def cache_inv_def)
  then have ps: "set (m_cached_blocks c) = {..<length (block_objects c)}"
    by (simp add: cache_inv_def)
  then obtain c' where c': "flush_loop D (m_cached_blocks c) c = Inr c'" "represents content c' f" "same_shape c c'"
      "length (block_objects c') = length (block_objects c)" "\<forall>q < length (block_objects c). \<not> is_dirty (block_objects c' ! q)"
    using flush_loop_ok [OF f D, of "m_cached_blocks c"] by auto
  note sd = same_shapeD [OF c'(3)]
  have inv': "cache_inv content c'"
    using c'(2) by (simp add: represents_def)
  have "content (m_device c') (fs_start c + k * io c + j) = f (k * io c + j)" if "inside c k" "j < io c" for k j
  proof (cases "\<exists>q < length (block_objects c'). held c' q = k")
    case True
    then obtain q where q: "q < length (block_objects c')" "held c' q = k"
      by blast
    have "view content c' (k * io c + j) = byte_of c' q j"
      using view_cached [OF inv' q(1), of j] q(2) that(2) by (simp add: sd)
    also have "\<dots> = content (m_device c') (fs_start c + k * io c + j)"
      using inv' q c'(4,5) that(2) by (simp add: cache_inv_def sd)
    finally show ?thesis
      using c'(2) that by (simp add: represents_def sd)
  next
    case False
    then show ?thesis
      using view_uncached [OF inv', of k j] c'(2) that by (simp add: represents_def sd)
  qed
  then show ?thesis
    using c' access_ok(2) [OF g, of 0 0] by (simp add: flush_all_def)
qed

lemma flush_specific_ok:
  assumes f: "represents content c f" and D: "stores D content (lb_size c)"
  shows "\<exists>c'. flush_specific D i c = Inr c' \<and> represents content c' f \<and> same_shape c c'"
proof -
  have inv: "cache_inv content c" and g: "geometry c"
    using f by (simp_all add: represents_def cache_inv_def)
  show ?thesis
  proof (cases "m_block_to_cache c (block_index_to_cached_index c i)")
    case None
    then show ?thesis
      using f access_ok(2) [OF g, of 0 0] by (simp add: flush_specific_def same_shape_def)
  next
    case (Some p)
    then have "p < length (block_objects c)"
      using inv by (simp add: cache_inv_def)
    from flush_block_ok [OF inv D this] obtain c' where "flush_block D p c = Inr c'" "cache_inv content c'" "same_view content c c'"
      by blast
    then show ?thesis
      using Some f access_ok(2) [OF g, of 0 0] represents_same_view [OF f, of c'] by (simp add: flush_specific_def same_view_def)
  qed
qed

subsection \<open>The cache as an array of bytes\<close>

text \<open>
  The calls of a file system, in any order, against an array of the bytes of the file system:
  the specification of the cache.
\<close>

datatype cache_op =
    Read_One u64 size_t size_t nat
  | Write_One u64 size_t size_t "u8 list"
  | Zero_Fill_One u64
  | Flush_All
  | Flush_Specific u64

type_synonym cache_result = "error_code \<times> u8 list"

fun run_op :: "'d device \<Rightarrow> cache_op \<Rightarrow> 'd disk_cache \<Rightarrow> (cache_result \<times> 'd disk_cache) res" where
  "run_op D (Read_One i off n room) c = bind_res (read_one D i off n room c) (\<lambda>(code, data, c). Inr ((code, data), c))"
| "run_op D (Write_One i off n buffer) c = bind_res (write_one D i off n buffer c) (\<lambda>(code, data, c). Inr ((code, data), c))"
| "run_op D (Zero_Fill_One i) c = bind_res (zero_fill_one D i c) (\<lambda>c. Inr ((NO_ERROR, []), c))"
| "run_op D Flush_All c = bind_res (flush_all D c) (\<lambda>c. Inr ((NO_ERROR, []), c))"
| "run_op D (Flush_Specific i) c = bind_res (flush_specific D i c) (\<lambda>c. Inr ((NO_ERROR, []), c))"

fun run_ops :: "'d device \<Rightarrow> cache_op list \<Rightarrow> 'd disk_cache \<Rightarrow> (cache_result list \<times> 'd disk_cache) res" where
  "run_ops D [] c = Inr ([], c)"
| "run_ops D (x # xs) c = bind_res (run_op D x c) (\<lambda>(r, c). bind_res (run_ops D xs c) (\<lambda>(rs, c). Inr (r # rs, c)))"

fun array_op :: "nat \<Rightarrow> cache_op \<Rightarrow> (nat \<Rightarrow> u8) \<Rightarrow> cache_result \<times> (nat \<Rightarrow> u8)" where
  "array_op b (Read_One i off n room) f =
     ((if unat n \<le> room then NO_ERROR else MEMORY_ACCESS_VIOLATION, take room (map (\<lambda>j. f (unat i * b + unat off + j)) [0..<unat n])), f)"
| "array_op b (Write_One i off n buffer) f =
     ((if unat n \<le> length buffer then NO_ERROR else MEMORY_ACCESS_VIOLATION, buffer), overwrite f (unat i * b + unat off) (take (unat n) buffer))"
| "array_op b (Zero_Fill_One i) f = ((NO_ERROR, []), overwrite f (unat i * b) (replicate b 0))"
| "array_op b Flush_All f = ((NO_ERROR, []), f)"
| "array_op b (Flush_Specific i) f = ((NO_ERROR, []), f)"

fun array_ops :: "nat \<Rightarrow> cache_op list \<Rightarrow> (nat \<Rightarrow> u8) \<Rightarrow> cache_result list \<times> (nat \<Rightarrow> u8)" where
  "array_ops b [] f = ([], f)"
| "array_ops b (x # xs) f = (let (r, f) = array_op b x f; (rs, f) = array_ops b xs f in (r # rs, f))"

text \<open>A call is in bounds when it stays in its block and the cache block it needs lies in the file system.\<close>

fun in_bounds :: "'d disk_cache \<Rightarrow> cache_op \<Rightarrow> bool" where
  "in_bounds c (Read_One i off n room) \<longleftrightarrow> inside c (unat i div per_io c) \<and> unat off + unat n \<le> fs_block c"
| "in_bounds c (Write_One i off n buffer) \<longleftrightarrow> inside c (unat i div per_io c) \<and> unat off + unat n \<le> fs_block c"
| "in_bounds c (Zero_Fill_One i) \<longleftrightarrow> inside c (unat i div per_io c)"
| "in_bounds c Flush_All \<longleftrightarrow> True"
| "in_bounds c (Flush_Specific i) \<longleftrightarrow> True"

lemma run_op_ok:
  assumes f: "represents content c f" and D: "stores D content (lb_size c)" and x: "in_bounds c x"
  shows "\<exists>c'. run_op D x c = Inr (fst (array_op (fs_block c) x f), c') \<and> represents content c' (snd (array_op (fs_block c) x f)) \<and> same_shape c c'"
proof (cases x)
  case (Read_One i off n room)
  then show ?thesis
    using read_one_ok [OF f D, of i off n room] x by auto
next
  case (Write_One i off n buffer)
  then show ?thesis
    using write_one_ok [OF f D, of i off n buffer] x by auto
next
  case (Zero_Fill_One i)
  then show ?thesis
    using zero_fill_one_ok [OF f D, of i] x by auto
next
  case Flush_All
  then show ?thesis
    using flush_all_ok [OF f D] by auto
next
  case (Flush_Specific i)
  then show ?thesis
    using flush_specific_ok [OF f D, of i] by auto
qed

lemma in_bounds_shape:
  assumes "same_shape c c'"
  shows "in_bounds c' = in_bounds c"
proof
  fix x
  show "in_bounds c' x = in_bounds c x"
    by (cases x) (simp_all add: same_shapeD [OF assms])
qed

lemma run_ops_ok:
  assumes "represents content c f" "stores D content (lb_size c)" "list_all (in_bounds c) xs"
  shows "\<exists>c'. run_ops D xs c = Inr (fst (array_ops (fs_block c) xs f), c') \<and> represents content c' (snd (array_ops (fs_block c) xs f)) \<and> same_shape c c'"
  using assms
proof (induction xs arbitrary: c f)
  case (Cons x xs)
  let ?f = "snd (array_op (fs_block c) x f)"
  have x: "in_bounds c x" and xs: "list_all (in_bounds c) xs"
    using Cons.prems(3) by simp_all
  obtain c1 where c1: "run_op D x c = Inr (fst (array_op (fs_block c) x f), c1)" "represents content c1 ?f" "same_shape c c1"
    using run_op_ok [OF Cons.prems(1,2) x] by blast
  note sd = same_shapeD [OF c1(3)]
  obtain c' where "run_ops D xs c1 = Inr (fst (array_ops (fs_block c) xs ?f), c')" "represents content c' (snd (array_ops (fs_block c) xs ?f))"
      "same_shape c1 c'"
    using Cons.IH [OF c1(2)] Cons.prems(2) xs by (auto simp: sd in_bounds_shape [OF c1(3)])
  then show ?case
    using c1(1) same_shape_trans [OF c1(3)] by (auto simp: Let_def split: prod.splits)
qed (simp add: same_shape_def)

subsection \<open>A new cache\<close>

text \<open>The sizes of a block of a file system that the cache can hold: a power of two below a page, or whole pages.\<close>

definition block_size_ok :: "size_t \<Rightarrow> bool" where
  "block_size_ok b \<longleftrightarrow> (if unat b < 4096 then unat b \<in> set (map (\<lambda>k. 2 ^ k) [0..<12]) else unat b mod 4096 = 0)"

text \<open>
  The blocks of the size and the number asked for fill at least one block of the cache, the
  region has room for them in the address space, and the disk is addressable by byte.
\<close>

definition cache_parameters :: "size_t \<Rightarrow> range \<Rightarrow> size_t \<Rightarrow> size_t \<Rightarrow> range \<Rightarrow> bool" where
  "cache_parameters logical lbas b blocks region \<longleftrightarrow>
     logical \<in> {512, 4096} \<and> block_size_ok b \<and> unat blocks * unat b \<ge> max 4096 (unat b)
     \<and> page_is_aligned (r_begin region) \<and> unat (r_begin region) + unat blocks * unat b < end_of_space
     \<and> unat (r_end lbas) * unat logical < end_of_space"

lemma block_size_small:
  assumes "block_size_ok b" "unat b < 4096"
  shows "\<exists>k < 64. 4096 div unat b = 2 ^ k" "unat b dvd 4096" "0 < unat b"
proof -
  obtain k where k: "k < 12" "unat b = 2 ^ k"
    using assms by (auto simp: block_size_ok_def)
  have "(4096 :: nat) = 2 ^ 12"
    by simp
  also have "\<dots> = 2 ^ k * 2 ^ (12 - k)"
    using k(1) by (simp flip: power_add)
  finally have p: "(4096 :: nat) = 2 ^ k * 2 ^ (12 - k)" .
  have "4096 div unat b = 2 ^ (12 - k)"
    unfolding k(2) by (subst p) simp
  then show "\<exists>k < 64. 4096 div unat b = 2 ^ k"
    by (intro exI [of _ "12 - k"]) simp
  show "unat b dvd 4096" "0 < unat b"
    unfolding k(2) p by simp_all
qed


text \<open>The size of a block of the cache.\<close>

definition io_size :: "size_t \<Rightarrow> size_t" where
  "io_size b = (if page_size \<le> b then b else page_size)"

lemma io_size_facts:
  assumes "block_size_ok b"
  shows "0 < unat b" "unat (io_size b div b) * unat b = unat (io_size b)" "\<exists>k < 64. unat (io_size b div b) = 2 ^ k"
    and "4096 dvd unat (io_size b)" "unat b < unat (io_size b) \<longrightarrow> unat (io_size b) = 4096"
proof -
  have le: "page_size \<le> b \<longleftrightarrow> \<not> unat b < 4096"
    by (simp add: word_le_nat_alt not_less)
  have "0 < unat b \<and> unat (io_size b div b) * unat b = unat (io_size b) \<and> (\<exists>k < 64. unat (io_size b div b) = 2 ^ k)
    \<and> 4096 dvd unat (io_size b) \<and> (unat b < unat (io_size b) \<longrightarrow> unat (io_size b) = 4096)"
  proof (cases "unat b < 4096")
    case True
    then show ?thesis
      using block_size_small [OF assms True] le by (simp add: io_size_def unat_div_distrib)
  next
    case False
    then have "unat (b div b) = 1"
      by (simp add: unat_div_distrib)
    then show ?thesis
      using False assms le by (auto simp: io_size_def block_size_ok_def intro: exI [of _ 0])
  qed
  then show "0 < unat b" "unat (io_size b div b) * unat b = unat (io_size b)" "\<exists>k < 64. unat (io_size b div b) = 2 ^ k"
      "4096 dvd unat (io_size b)" "unat b < unat (io_size b) \<longrightarrow> unat (io_size b) = 4096"
    by simp_all
qed

text \<open>What the constructor gives for a disk.\<close>

definition new_cache :: "'d \<Rightarrow> size_t \<Rightarrow> range \<Rightarrow> size_t \<Rightarrow> size_t \<Rightarrow> range \<Rightarrow> (addr \<Rightarrow> u8) \<Rightarrow> 'd disk_cache" where
  "new_cache dev logical lbas b blocks region mem =
     \<lparr>m_device = dev, m_fs_lba_range = lbas, m_io_size = io_size b, m_logical_block_size = logical, m_fs_block_size = b,
      m_fs_blocks_per_io = io_size b div b, m_capacity = blocks div (io_size b div b), m_region = region, m_offset_within_region = 0,
      m_cached_blocks = [], m_block_to_cache = (\<lambda>_. None), block_objects = [], memory = mem\<rparr>"

lemma new_cache_capacity:
  assumes "cache_parameters logical lbas b blocks region"
  shows "0 < unat (blocks div (io_size b div b))"
    and "unat (blocks div (io_size b div b)) * unat (io_size b) \<le> unat blocks * unat b"
proof -
  let ?per = "io_size b div b"
  have ok: "block_size_ok b" and "max 4096 (unat b) \<le> unat blocks * unat b"
    using assms by (simp_all add: cache_parameters_def)
  then have "unat (io_size b) \<le> unat blocks * unat b"
    by (simp add: io_size_def)
  note f = io_size_facts [OF ok]
  have "unat ?per * unat b \<le> unat blocks * unat b"
    using \<open>unat (io_size b) \<le> _\<close> f(2) by simp
  then have "unat ?per \<le> unat blocks"
    using f(1) by simp
  moreover have "0 < unat ?per"
    using f(3) by auto
  ultimately show "0 < unat (blocks div ?per)"
    by (simp add: unat_div_distrib div_greater_zero_iff)
  have "unat (blocks div ?per) * unat (io_size b) = unat blocks div unat ?per * unat ?per * unat b"
    by (simp add: unat_div_distrib [of blocks] f(2) mult.assoc)
  also have "\<dots> \<le> unat blocks * unat b"
    by (intro mult_le_mono1) simp
  finally show "unat (blocks div ?per) * unat (io_size b) \<le> unat blocks * unat b" .
qed

lemma disk_cache_create_ok:
  assumes "cache_parameters logical lbas b blocks (allocate (b * blocks))"
  shows "disk_cache_create dev logical False lbas b blocks allocate mem = Inr (new_cache dev logical lbas b blocks (allocate (b * blocks)) mem)"
proof -
  have ok: "block_size_ok b" and l: "logical = 512 \<or> logical = 4096"
    using assms by (auto simp: cache_parameters_def)
  have cap: "blocks div (io_size b div b) \<noteq> 0"
    using new_cache_capacity(1) [OF assms] by (metis less_irrefl unat_0)
  then have "blocks \<noteq> 0" "b \<noteq> 0"
    using io_size_facts(1) [OF ok] by auto
  then show ?thesis
    using l cap io_size_facts(4) [OF ok]
    by (auto simp: disk_cache_create_def new_cache_def io_size_def page_is_aligned_iff Let_def assert_that_def split: if_splits)
qed

lemma new_cache_geometry:
  assumes "cache_parameters logical lbas b blocks region"
  shows "geometry (new_cache dev logical lbas b blocks region mem)"
proof -
  have ok: "block_size_ok b" and l: "unat logical \<in> {512, 4096}" "unat (r_end lbas) * unat logical < end_of_space"
      and r: "4096 dvd unat (r_begin region)" "unat (r_begin region) + unat blocks * unat b < end_of_space"
    using assms by (auto simp: cache_parameters_def page_is_aligned_iff)
  note f = io_size_facts [OF ok] and c = new_cache_capacity [OF assms]
  have "unat logical dvd 4096"
    using l(1) by auto
  then have "unat logical dvd unat (io_size b)"
    using f(4) by (rule dvd_trans)
  moreover have "even (unat (io_size b))" "even (unat (r_begin region))"
    using f(4) r(1) by (auto elim: dvd_trans [rotated])
  ultimately show ?thesis
    using f c r(2) l unfolding geometry_def new_cache_def by simp
qed

lemma new_cache_represents:
  assumes "cache_parameters logical lbas b blocks region"
  shows "represents content (new_cache dev logical lbas b blocks region mem) (\<lambda>x. content dev (unat (r_begin lbas) * unat logical + x))"
  using new_cache_geometry [OF assms, of dev mem]
  by (simp add: represents_def cache_inv_def new_cache_def view_def fs_start_def)

subsection \<open>The end of the file system\<close>

text \<open>
  A block of the file system whose cache block reaches beyond its end: such blocks exist when the
  size of the file system is no multiple of the size of a cache block.
\<close>

definition in_partial_cache_block :: "'d disk_cache \<Rightarrow> u64 \<Rightarrow> bool" where
  "in_partial_cache_block c i \<longleftrightarrow> (unat i + 1) * fs_block c \<le> fs_size c \<and> \<not> inside c (unat i div per_io c)"

lemma lba_range_partial:
  assumes g: "geometry c" and i: "in_partial_cache_block c i"
  obtains r where "block_to_lba_range c (block_index_to_cached_index c i) = Inr r" "\<not> contains_range (m_fs_lba_range c) r"
proof -
  let ?j = "block_index_to_cached_index c i" and ?k = "unat i div per_io c" and ?e = "unat (r_end (m_fs_lba_range c))"
  obtain n where n: "io c = n * lb_size c"
    using g by (auto simp: geometry_def mult.commute elim: dvdE)
  have pos: "0 < io c" "0 < lb_size c" and e: "?e * lb_size c < end_of_space" and lb: "512 \<le> lb_size c"
    using g geometry_pos [OF g] by (auto simp: geometry_def)
  have n0: "0 < n"
    using pos(1) n by (cases n) simp_all
  have j: "unat ?j * fs_block c = ?k * io c"
    using cached_index [OF g, of i] g by (simp add: geometry_def mult.assoc)
  have "unat ?j * fs_block c \<le> unat i * fs_block c"
    using cached_index [OF g, of i] by (intro mult_le_mono1) simp
  moreover have "unat i * fs_block c < fs_size c"
    using i g by (auto simp: in_partial_cache_block_def geometry_def)
  ultimately have "(?k * n) * lb_size c < (?e - fs_lba c) * lb_size c"
    using j unfolding fs_size_def n mult.assoc by linarith
  then have lt: "fs_lba c + ?k * n < ?e"
    by auto
  have "(?e - fs_lba c) * lb_size c < ((?k + 1) * n) * lb_size c"
    using i unfolding in_partial_cache_block_def inside_def fs_size_def n not_le mult.assoc by blast
  then have gt: "?e < fs_lba c + ?k * n + n"
    by (auto simp: mult_less_cancel2)
  have "?k * io c < 2 ^ 64"
    using lt e n pos(2) by (smt (verit) end_of_space_def add.commute le_add1 less_imp_le mult.assoc mult_le_mono1 order_le_less_trans trans_le_add1)
  then have "unat (?j * m_fs_block_size c) = ?k * io c"
    using j by (simp add: unat_word_ariths)
  then have lba: "unat (block_to_first_lba c ?j) = ?k * n"
    using pos(2) by (simp add: block_to_first_lba_def unat_div n mult.assoc [symmetric])
  have "block_to_first_lba c ?j AND NOT 7 = block_to_first_lba c ?j" if "m_fs_block_size c < m_io_size c" "m_logical_block_size c = 512"
  proof -
    have "n = 8"
      using that g n by (simp add: geometry_def word_less_nat_alt)
    then show ?thesis
      using lba by (intro and_not_7) simp
  qed
  then have r: "block_to_lba_range c ?j = mk_range (r_begin (m_fs_lba_range c) + block_to_first_lba c ?j) (m_io_size c div m_logical_block_size c)"
    by (simp add: block_to_lba_range_def Let_def)
  let ?b = "r_begin (m_fs_lba_range c) + block_to_first_lba c ?j" and ?l = "m_io_size c div m_logical_block_size c"
  have small: "?e * 512 < 2 ^ 64" "n * 512 < 2 ^ 64"
    using e n unat_less_64 [of "m_io_size c"] le_less_trans [OF mult_le_mono2 [OF lb, of ?e], of "2 ^ 64"]
      le_less_trans [OF mult_le_mono2 [OF lb, of n], of "2 ^ 64"] unfolding end_of_space_def by auto
  have b: "unat ?b = fs_lba c + ?k * n"
    using lt lba small by (subst unat_add_no_wrap) simp_all
  have l: "unat ?l = n"
    using pos(2) by (simp add: unat_div n)
  have bl: "unat (?b + ?l) = fs_lba c + ?k * n + n"
    using lt b l small by (subst unat_add_no_wrap) simp_all
  have "?b \<le> ?b + ?l"
    unfolding word_le_nat_alt b bl by simp
  with r have r': "block_to_lba_range c ?j = Inr \<lparr>r_begin = ?b, r_end = ?b + ?l\<rparr>"
    by (simp add: mk_range_def)
  show ?thesis
    using gt bl by (intro that [OF r']) (simp add: contains_range_def contains_addr_def word_le_nat_alt word_less_nat_alt)
qed

lemma block_to_lba_range_shape: "same_shape c c' \<Longrightarrow> block_to_lba_range c' i = block_to_lba_range c i"
  by (simp add: block_to_lba_range_def block_to_first_lba_def same_shape_def)

lemma evict_one_shape:
  assumes inv: "cache_inv content c" and D: "stores D content (lb_size c)" and ne: "m_cached_blocks c \<noteq> []"
  obtains p c' where "evict_one D c = Inr (p, c')" "same_shape c c'"
proof -
  have p: "last (m_cached_blocks c) < length (block_objects c)"
    using inv ne last_in_set [OF ne] by (auto simp: cache_inv_def)
  obtain c2 where c2: "flush_block D (last (m_cached_blocks c)) c = Inr c2" "same_view content c c2"
    using flush_block_ok [OF inv D p] by blast
  then have "same_shape c c2"
    by (simp add: same_view_def)
  then show ?thesis
    using that c2(1) ne by (cases "is_dirty (block_objects c ! last (m_cached_blocks c))") (simp_all add: evict_one_def Let_def flush_block_list same_shape_def)
qed

lemma cached_block_partial:
  assumes f: "represents content c f" and D: "stores D content (lb_size c)" and i: "in_partial_cache_block c i"
  shows "cached_block D i c = Inl Assertion"
proof -
  let ?j = "block_index_to_cached_index c i"
  have inv: "cache_inv content c" and g: "geometry c"
    using f by (simp_all add: represents_def cache_inv_def)
  have none: "m_block_to_cache c ?j = None"
  proof (rule ccontr)
    assume "m_block_to_cache c ?j \<noteq> None"
    then obtain p where "p < length (block_objects c)" "first_block (block_objects c ! p) = ?j"
      using inv by (auto simp: cache_inv_def)
    then have "inside c (held c p)" "held c p * per_io c = unat ?j"
      using inv by (auto simp: cache_inv_def)
    then show False
      using i cached_index [OF g, of i] geometry_pos(2) [OF g] by (simp add: in_partial_cache_block_def)
  qed
  obtain r where r: "block_to_lba_range c ?j = Inr r" "\<not> contains_range (m_fs_lba_range c) r"
    using lba_range_partial [OF g i] .
  have fails: "read_into_block D ?j p c' = Inl Assertion" if "same_shape c c'" for p c'
    using r that by (simp add: read_into_block_def block_to_lba_range_shape [OF that] same_shape_def assert_that_def)
  show ?thesis
  proof (cases "word_of_nat (length (m_cached_blocks c)) = m_capacity c")
    case True
    then have "m_cached_blocks c \<noteq> []"
      using g by (auto simp: geometry_def)
    then obtain p c' where "evict_one D c = Inr (p, c')" "same_shape c c'"
      using evict_one_shape [OF inv D] by blast
    then show ?thesis
      using True none fails by (simp add: cached_block_def Let_def)
  next
    case False
    have "same_shape c (snd (new_cached_block c))"
      by (simp add: new_cached_block_def allocate_next_block_buffer_def same_shape_def)
    then show ?thesis
      using False none fails by (simp add: cached_block_def Let_def split_beta)
  qed
qed

fun reaches_partial :: "'d disk_cache \<Rightarrow> cache_op \<Rightarrow> bool" where
  "reaches_partial c (Read_One i off n room) \<longleftrightarrow> in_partial_cache_block c i"
| "reaches_partial c (Write_One i off n buffer) \<longleftrightarrow> in_partial_cache_block c i"
| "reaches_partial c (Zero_Fill_One i) \<longleftrightarrow> in_partial_cache_block c i"
| "reaches_partial c Flush_All \<longleftrightarrow> False"
| "reaches_partial c (Flush_Specific i) \<longleftrightarrow> False"

lemma reaches_partial_shape:
  assumes "same_shape c c'"
  shows "reaches_partial c' x = reaches_partial c x"
  by (cases x) (simp_all add: in_partial_cache_block_def same_shapeD [OF assms])

lemma run_op_partial:
  assumes f: "represents content c f" and D: "stores D content (lb_size c)" and x: "reaches_partial c x"
  shows "run_op D x c = Inl Assertion"
proof -
  have "m_io_size c \<noteq> no_caching_required"
    using f geometry_pos(1) [of c] by (auto simp: represents_def cache_inv_def no_caching_required_def)
  then show ?thesis
    using x cached_block_partial [OF f D] by (cases x) (simp_all add: read_one_def write_one_def zero_fill_one_def assert_that_def)
qed

lemma run_ops_append:
  "run_ops D (xs @ ys) c = bind_res (run_ops D xs c) (\<lambda>(rs, c). bind_res (run_ops D ys c) (\<lambda>(rs', c). Inr (rs @ rs', c)))"
proof (induction xs arbitrary: c)
  case (Cons x xs)
  show ?case
  proof (cases "run_op D x c")
    case (Inr y)
    then show ?thesis
      by (cases "run_ops D xs (snd y)"; cases "run_ops D ys (snd (projr (run_ops D xs (snd y))))") (simp_all add: Cons.IH split_beta)
  qed simp
next
  case Nil
  show ?case
    by (cases "run_ops D ys c") (simp_all add: split_beta)
qed

subsection \<open>Properties\<close>

text \<open>
  C25: On a device that is no RAM disk, and for the parameters of \<open>cache_parameters\<close>, a new cache
  is an array of bytes for every sequence of calls that stay in their block and in cache blocks
  which lie wholly in the file system: each call returns what it returns on a plain array of the
  bytes of the disk, no assertion fails, and after a flush of everything the disk holds the bytes
  of that array, whichever blocks were evicted on the way. The other blocks of the file system,
  those of a last cache block that its end cuts off, cannot be used: after any such sequence a
  call that reads, writes or clears one of them stops at the assertion on the range of its cache
  block.
\<close>

theorem disk_cache_is_byte_array:
  fixes D :: "'d device"
  assumes D: "stores D content (unat logical)"
    and p: "cache_parameters logical lbas b blocks (allocate (b * blocks))"
    and new: "disk_cache_create dev logical False lbas b blocks allocate mem = Inr c"
    and xs: "list_all (in_bounds c) xs"
  defines "disk \<equiv> \<lambda>x. content dev (unat (r_begin lbas) * unat logical + x)"
  shows "(\<exists>c' c''. run_ops D xs c = Inr (fst (array_ops (unat b) xs disk), c') \<and> flush_all D c' = Inr c''
    \<and> (\<forall>k j. inside c k \<longrightarrow> j < io c \<longrightarrow>
         content (m_device c'') (unat (r_begin lbas) * unat logical + (k * io c + j)) = snd (array_ops (unat b) xs disk) (k * io c + j)))
    \<and> (\<forall>x ys. reaches_partial c x \<longrightarrow> run_ops D (xs @ x # ys) c = Inl Assertion)"
proof -
  have c: "c = new_cache dev logical lbas b blocks (allocate (b * blocks)) mem"
    using new disk_cache_create_ok [of logical lbas b blocks allocate dev mem, OF p] by simp
  then have l: "lb_size c = unat logical" "fs_block c = unat b" "fs_start c = unat (r_begin lbas) * unat logical"
    by (simp_all add: new_cache_def fs_start_def)
  have f: "represents content c disk"
    using new_cache_represents [OF p] by (simp add: c disk_def)
  obtain c' where c': "run_ops D xs c = Inr (fst (array_ops (unat b) xs disk), c')" "represents content c' (snd (array_ops (unat b) xs disk))"
      "same_shape c c'"
    using run_ops_ok [OF f _ xs] D l by auto
  note sd = same_shapeD [OF c'(3)]
  have "run_ops D (xs @ x # ys) c = Inl Assertion" if "reaches_partial c x" for x ys
    using c'(1) run_op_partial [OF c'(2), of D x] that D l by (simp add: run_ops_append sd reaches_partial_shape [OF c'(3)])
  then show ?thesis
    using flush_all_ok [OF c'(2), of D] c'(1) D l by (auto simp: sd add.assoc)
qed

definition array_device :: "(nat \<Rightarrow> u8) device" where
  "array_device =
     \<lparr>read_lbas = (\<lambda>d r. map (\<lambda>j. d (unat (r_begin r) * 512 + j)) [0..<unat (range_length r) * 512]),
      write_lbas = (\<lambda>d r bs. overwrite d (unat (r_begin r) * 512) bs),
      read_ram = (\<lambda>d a n. (NO_ERROR, map (\<lambda>j. d (unat a + j)) [0..<unat n])),
      write_ram = (\<lambda>d a bs. overwrite d (unat a) bs)\<rparr>"

lemma array_device_stores: "stores array_device id 512"
  by (simp add: stores_def array_device_def overwrite_def)

theorem disk_cache_is_byte_array_witness:
  "\<exists>c' c''. run_ops array_device [Write_One 3 1 2 [7, 8], Zero_Fill_One 9, Read_One 3 0 3 8]
      (new_cache (\<lambda>_. 0) 512 \<lparr>r_begin = 8, r_end = 36\<rparr> 512 8 \<lparr>r_begin = 4096, r_end = 8192\<rparr> (\<lambda>_. 0))
    = Inr ([(NO_ERROR, [7, 8]), (NO_ERROR, []), (NO_ERROR, [0, 7, 8])], c') \<and> flush_all array_device c' = Inr c''
    \<and> m_device c'' 5633 = 7 \<and> m_device c'' 5634 = 8 \<and> m_device c'' 5635 = 0
    \<and> run_ops array_device [Write_One 3 1 2 [7, 8], Zero_Fill_One 9, Read_One 3 0 3 8, Read_One 24 0 1 1]
         (new_cache (\<lambda>_. 0) 512 \<lparr>r_begin = 8, r_end = 36\<rparr> 512 8 \<lparr>r_begin = 4096, r_end = 8192\<rparr> (\<lambda>_. 0)) = Inl Assertion"
proof -
  define ops where "ops = [Write_One 3 1 2 [7, 8], Zero_Fill_One 9, Read_One 3 0 3 8]"
  let ?lbas = "\<lparr>r_begin = 8, r_end = 36\<rparr>"
    and ?region = "\<lparr>r_begin = 4096, r_end = 8192\<rparr>"
  let ?c = "new_cache (\<lambda>_ :: nat. 0 :: u8) 512 ?lbas 512 8 ?region (\<lambda>_. 0 :: u8)"
  have p: "cache_parameters 512 ?lbas 512 8 ?region"
    by (simp add: cache_parameters_def block_size_ok_def end_of_space_def page_is_aligned_def page_size_def upt_rec)
  have D: "stores array_device id (unat (512 :: size_t))"
    using array_device_stores by simp
  have new: "disk_cache_create (\<lambda>_. 0) 512 False ?lbas 512 8 (\<lambda>_. ?region) (\<lambda>_. 0) = Inr ?c"
    by (rule disk_cache_create_ok [OF p])
  have io: "io ?c = 4096" "per_io ?c = 8" "fs_block ?c = 512"
    by (simp_all add: new_cache_def io_size_def page_size_def unat_div_distrib)
  have inside: "inside ?c k \<longleftrightarrow> k < 3" for k
    unfolding inside_def io by (auto simp: fs_size_def new_cache_def)
  have xs: "list_all (in_bounds ?c) ops"
    by (simp add: inside io ops_def)
  let ?a = "array_ops 512 ops (\<lambda>x. 0)"
  have a: "fst ?a = [(NO_ERROR, [7, 8]), (NO_ERROR, []), (NO_ERROR, [0, 7, 8])]" "snd ?a 1537 = 7" "snd ?a 1538 = 8" "snd ?a 1539 = 0"
    by (simp_all add: Let_def overwrite_def upt_rec ops_def)
  from disk_cache_is_byte_array [OF D p new xs] obtain c' c'' where c: "run_ops array_device ops ?c = Inr (fst ?a, c')"
      "flush_all array_device c' = Inr c''" "\<forall>k j. inside ?c k \<longrightarrow> j < 4096 \<longrightarrow> m_device c'' (4096 + (k * 4096 + j)) = snd ?a (k * 4096 + j)"
      and partial: "reaches_partial ?c (Read_One 24 0 1 1) \<longrightarrow> run_ops array_device (ops @ [Read_One 24 0 1 1]) ?c = Inl Assertion"
    unfolding io by simp blast
  then have "m_device c'' (4096 + j) = snd ?a j" if "j < 4096" for j
    using that inside [of 0] by (metis add_0 mult_0 zero_less_numeral)
  from this [of 1537] this [of 1538] this [of 1539] have "m_device c'' 5633 = 7" "m_device c'' 5634 = 8" "m_device c'' 5635 = 0"
    using a by simp_all
  moreover have "reaches_partial ?c (Read_One 24 0 1 1)"
    using inside [of 3] io by (simp add: in_partial_cache_block_def) (simp add: fs_size_def new_cache_def)
  ultimately show ?thesis
    using c(1,2) partial unfolding a unfolding ops_def append.simps by blast
qed

text \<open>
  C35: The cache evicts the block that was not used for the longest time: the list of its blocks
  is in the order of their last use, with the block of the call in front. A block in the cache is
  reused, a block that is not in it takes a free buffer while there is one, and only then the
  last block of the list gives way. The bytes the file system sees stay the same.
\<close>

theorem cached_block_least_recently_used:
  assumes inv: "cache_inv content c" and D: "stores D content (lb_size c)" and i: "inside c (unat i div per_io c)"
  shows "\<exists>p off c'. cached_block D i c = Inr (p, off, c') \<and> cache_inv content c' \<and> same_view content c c'
    \<and> held c' p = unat i div per_io c \<and> length (m_cached_blocks c') \<le> capacity c
    \<and> m_cached_blocks c' = p # (if \<exists>q < length (block_objects c). held c q = unat i div per_io c then remove1 p (m_cached_blocks c)
         else if length (m_cached_blocks c) = capacity c then butlast (m_cached_blocks c) else m_cached_blocks c)"
proof -
  from cached_block_ok [OF inv D i] obtain p off c' where c': "cached_block D i c = Inr (p, off, c')" "cache_inv content c'" "same_view content c c'"
      "held c' p = unat i div per_io c"
      "m_cached_blocks c' = p # (if \<exists>q < length (block_objects c). held c q = unat i div per_io c then remove1 p (m_cached_blocks c)
         else if length (m_cached_blocks c) = capacity c then butlast (m_cached_blocks c) else m_cached_blocks c)"
    by blast
  have "length (m_cached_blocks c') = card {..<length (block_objects c')}"
    using c'(2) distinct_card [of "m_cached_blocks c'"] by (simp add: cache_inv_def)
  moreover have "length (block_objects c') \<le> capacity c"
    using c'(2,3) by (simp add: cache_inv_def same_view_def same_shape_def)
  ultimately show ?thesis
    using c' by auto
qed

theorem cached_block_least_recently_used_witness:
  "let c = new_cache (\<lambda>_. 0) 512 \<lparr>r_begin = 8, r_end = 32\<rparr> 512 8 \<lparr>r_begin = 4096, r_end = 8192\<rparr> (\<lambda>_. 0)
   in \<exists>p off c'. cached_block array_device 9 c = Inr (p, off, c') \<and> cache_inv id c' \<and> same_view id c c' \<and> held c' p = 1 \<and> m_cached_blocks c' = [p]"
proof -
  let ?lbas = "\<lparr>r_begin = 8, r_end = 32\<rparr>" and ?region = "\<lparr>r_begin = 4096, r_end = 8192\<rparr>"
  let ?c = "new_cache (\<lambda>_ :: nat. 0 :: u8) 512 ?lbas 512 8 ?region (\<lambda>_. 0 :: u8)"
  have p: "cache_parameters 512 ?lbas 512 8 ?region"
    by (simp add: cache_parameters_def block_size_ok_def end_of_space_def page_is_aligned_def page_size_def upt_rec)
  have inv: "cache_inv id ?c"
    using new_cache_represents [OF p, of id] by (simp add: represents_def)
  have D: "stores array_device id (lb_size ?c)"
    using array_device_stores by (simp add: new_cache_def)
  have io: "io ?c = 4096" "per_io ?c = 8"
    by (simp_all add: new_cache_def io_size_def page_size_def unat_div_distrib)
  have i: "inside ?c (unat (9 :: u64) div per_io ?c)"
    unfolding inside_def io by (simp add: fs_size_def new_cache_def)
  have e: "m_cached_blocks ?c = []" "block_objects ?c = []"
    by (simp_all add: new_cache_def)
  show ?thesis
    using cached_block_least_recently_used [OF inv D i] unfolding Let_def e io by (auto split: if_splits)
qed

end
