(* ===== verification/Physical_Memory.thy ===== *)
theory Physical_Memory
  imports Physical_Region Boot_Allocator
begin

text \<open>
  The physical pages of the machine in \<^verbatim>\<open>Kernel/Memory/MemoryManager.cpp\<close>: the constructor
  turns the free ranges of the memory map into regions, \<^verbatim>\<open>allocate_page\<close> asks them in turn and
  \<^verbatim>\<open>free_page\<close> finds the region of a page by binary search. The contents of physical memory is a
  function from the addresses of aligned 8-byte units; the kernel reaches all of it through the
  direct map at \<open>physical_memory_base\<close>.
\<close>

record physical_memory =
  m_physical_regions :: "physical_region list"
  m_initial_physical_bytes :: size_t
  m_free_physical_bytes :: size_t
  ram :: "addr \<Rightarrow> u64"

subsection \<open>The direct map\<close>

definition max_memory_address :: addr where
  "max_memory_address = 0xFFFFFFFFFFFFFFFF"

definition kernel_reserved_base :: addr where
  "kernel_reserved_base = max_memory_address - 2 * 0x40000000 + 1"

definition physical_memory_base :: addr where
  "physical_memory_base = 0xFFFF800000000000"

definition physical_to_virtual :: "addr \<Rightarrow> addr" where
  "physical_to_virtual physical_address = physical_memory_base + physical_address"

definition virtual_to_physical :: "addr \<Rightarrow> addr res" where
  "virtual_to_physical virtual_address =
     bind_res (assert_that (virtual_address \<ge> physical_memory_base)) (\<lambda>_.
     if virtual_address \<ge> kernel_reserved_base then Inr (virtual_address - kernel_reserved_base)
     else Inr (virtual_address - physical_memory_base))"

subsection \<open>Construction\<close>

definition kernel_image_size :: size_t where
  "kernel_image_size = 3 * 0x100000"

definition kernel_first_heap_block_size :: size_t where
  "kernel_first_heap_block_size = 4 * 0x100000"

definition minimum_viable_range_length :: size_t where
  "minimum_viable_range_length = page_size * 3"

definition lowest_allowed_physical_address :: addr where
  "lowest_allowed_physical_address = 0x100000"

definition highest_allowed_physical_address :: addr where
  "highest_allowed_physical_address = page_round_down max_memory_address"

text \<open>One turn of the loop over the map; a range that is not used gives no region.\<close>

definition region_of_range :: "phys_range \<Rightarrow> physical_region option res" where
  "region_of_range r =
     (if is_reserved r then Inr None
      else if range_length r < minimum_viable_range_length then Inr None
      else bind_res (phys_constrained_by r lowest_allowed_physical_address highest_allowed_physical_address) (\<lambda>potential_range.
        if range_length potential_range < page_size then Inr None
        else bind_res (from_two_pointers (r_begin potential_range) (r_end potential_range)) (\<lambda>allocator_range.
          bind_res (physical_region_new allocator_range) (\<lambda>this_region. Inr (Some this_region)))))"

fun regions_of_ranges :: "phys_range list \<Rightarrow> physical_memory \<Rightarrow> physical_memory res" where
  "regions_of_ranges [] pm = Inr pm"
| "regions_of_ranges (r # rs) pm =
     bind_res (region_of_range r) (\<lambda>region.
       case region of
         None \<Rightarrow> regions_of_ranges rs pm
       | Some this_region \<Rightarrow> regions_of_ranges rs
           (pm\<lparr>m_physical_regions := m_physical_regions pm @ [this_region],
               m_initial_physical_bytes := m_initial_physical_bytes pm + word_of_nat (pr_free_pages this_region) * page_size\<rparr>))"

text \<open>The step back from the first range is undefined at the begin of the map.\<close>

definition first_viable_range :: "phys_range list \<Rightarrow> nat res" where
  "first_viable_range entries =
     (let first = lower_bound addr_lt_range range_lt_addr entries lowest_allowed_physical_address
      in if first = length entries \<or> (first \<noteq> 0 \<and> r_begin (entries ! first) \<noteq> lowest_allowed_physical_address)
         then if first = 0 then Inl Undefined else Inr (first - 1)
         else Inr first)"

definition lowest_sane_ram_amount :: size_t where
  "lowest_sane_ram_amount = 64 * 0x100000"

definition memory_manager_new :: "memory_map \<Rightarrow> (addr \<Rightarrow> u64) \<Rightarrow> physical_memory res" where
  "memory_manager_new mm memory =
     bind_res (first_viable_range (m_entries mm)) (\<lambda>first.
     bind_res (regions_of_ranges (drop first (m_entries mm))
       \<lparr>m_physical_regions = [], m_initial_physical_bytes = 0, m_free_physical_bytes = 0, ram = memory\<rparr>) (\<lambda>pm.
     let initial_bytes = m_initial_physical_bytes pm;
         pm = pm\<lparr>m_free_physical_bytes := initial_bytes\<rparr>;
         initial_bytes = initial_bytes + kernel_image_size + kernel_first_heap_block_size;
         pm = pm\<lparr>m_initial_physical_bytes := initial_bytes\<rparr>
     in if initial_bytes < lowest_sane_ram_amount then Inl Panic else Inr pm))"

subsection \<open>Pages\<close>

definition zero_page :: "addr \<Rightarrow> (addr \<Rightarrow> u64) \<Rightarrow> (addr \<Rightarrow> u64)" where
  "zero_page page memory = (\<lambda>a. if unat (a - page) < 4096 then 0 else memory a)"

fun allocate_from :: "physical_region list \<Rightarrow> (addr option \<times> physical_region list) res" where
  "allocate_from [] = Inr (None, [])"
| "allocate_from (region # regions) =
     bind_res (allocate_page region) (\<lambda>(page, region).
       case page of
         Some p \<Rightarrow> Inr (Some p, region # regions)
       | None \<Rightarrow> bind_res (allocate_from regions) (\<lambda>(page, regions). Inr (page, region # regions)))"

definition mm_allocate_page :: "bool \<Rightarrow> physical_memory \<Rightarrow> (addr \<times> physical_memory) res" where
  "mm_allocate_page should_zero pm =
     bind_res (allocate_from (m_physical_regions pm)) (\<lambda>(page, regions).
       case page of
         None \<Rightarrow> Inl Panic
       | Some p \<Rightarrow> Inr (p, pm\<lparr>m_physical_regions := regions, m_free_physical_bytes := m_free_physical_bytes pm - page_size,
                              ram := (if should_zero then zero_page p (ram pm) else ram pm)\<rparr>))"

definition address_lt_region :: "addr \<Rightarrow> physical_region \<Rightarrow> bool" where
  "address_lt_region address region \<longleftrightarrow> address < r_begin (pr_range region)"

definition region_lt_address :: "physical_region \<Rightarrow> addr \<Rightarrow> bool" where
  "region_lt_address region address \<longleftrightarrow> r_begin (pr_range region) < address"

definition physical_region_responsible_for_page :: "addr \<Rightarrow> physical_memory \<Rightarrow> nat option" where
  "physical_region_responsible_for_page page pm =
     (let regions = m_physical_regions pm; physical_region = lower_bound address_lt_region region_lt_address regions page
      in if physical_region = length regions \<or> r_begin (pr_range (regions ! physical_region)) \<noteq> page
         then if physical_region = 0 then None
              else if contains_addr (pr_range (regions ! (physical_region - 1))) page then Some (physical_region - 1)
              else None
         else Some physical_region)"

definition mm_free_page :: "addr \<Rightarrow> physical_memory \<Rightarrow> physical_memory res" where
  "mm_free_page page pm =
     (case physical_region_responsible_for_page page pm of
        None \<Rightarrow> Inl Panic
      | Some i \<Rightarrow> bind_res (free_page page (m_physical_regions pm ! i)) (\<lambda>region.
          Inr (pm\<lparr>m_physical_regions := (m_physical_regions pm)[i := region],
                  m_free_physical_bytes := m_free_physical_bytes pm + page_size\<rparr>)))"

interpretation region_search: key_comparators address_lt_region region_lt_address "\<lambda>r. r_begin (pr_range r)"
  by unfold_locales (simp_all add: address_lt_region_def region_lt_address_def)

subsection \<open>Invariant and abstraction\<close>

definition managed_pages :: "physical_memory \<Rightarrow> addr set" where
  "managed_pages pm = (\<Union>r \<in> set (m_physical_regions pm). region_pages r)"

definition used_pages :: "physical_memory \<Rightarrow> addr set" where
  "used_pages pm = (\<Union>r \<in> set (m_physical_regions pm). allocated_pages r)"

definition free_pages :: "physical_memory \<Rightarrow> addr set" where
  "free_pages pm = managed_pages pm - used_pages pm"

definition region_before :: "physical_region \<Rightarrow> physical_region \<Rightarrow> bool" where
  "region_before r s \<longleftrightarrow> r_end (pr_range r) \<le> r_begin (pr_range s)"

definition regions_ok :: "physical_region list \<Rightarrow> bool" where
  "regions_ok rs \<longleftrightarrow>
     (\<forall>r \<in> set rs. region_inv r \<and> r_begin (pr_range r) < r_end (pr_range r)
        \<and> lowest_allowed_physical_address \<le> r_begin (pr_range r))
     \<and> sorted_wrt region_before rs"

definition free_bytes :: "physical_region list \<Rightarrow> size_t" where
  "free_bytes rs = (\<Sum>r \<leftarrow> rs. word_of_nat (pr_free_pages r) * page_size)"

definition pm_inv :: "physical_memory \<Rightarrow> bool" where
  "pm_inv pm \<longleftrightarrow> regions_ok (m_physical_regions pm) \<and> m_free_physical_bytes pm = free_bytes (m_physical_regions pm)"

lemma regions_disjoint:
  assumes "regions_ok rs" "i < length rs" "j < length rs" "a \<in> addrs (pr_range (rs ! i))" "a \<in> addrs (pr_range (rs ! j))"
  shows "i = j"
proof (rule ccontr)
  have before: "r_end (pr_range (rs ! m)) \<le> r_begin (pr_range (rs ! n))" if "m < n" "n < length rs" for m n
    using assms(1) that by (simp add: regions_ok_def region_before_def sorted_wrt_iff_nth_less)
  assume "i \<noteq> j"
  then consider "i < j" | "j < i"
    by linarith
  then show False
    using before assms(2-5) by cases (force simp: addrs_def)+
qed

lemma allocated_in_region: "region_inv r \<Longrightarrow> a \<in> allocated_pages r \<Longrightarrow> a \<in> addrs (pr_range r)"
  using allocated_pages_subset by (auto simp: region_pages_def)

text \<open>Replacing one region by the same region with other pages in use.\<close>

lemma regions_ok_update:
  assumes "regions_ok rs" "i < length rs" "region_inv r" "pr_range r = pr_range (rs ! i)"
  shows "regions_ok (rs[i := r])"
proof -
  have "map pr_range (rs[i := r]) = map pr_range rs"
    using assms(2,4) by (metis list_update_id map_update)
  moreover have "sorted_wrt region_before xs \<longleftrightarrow> sorted_wrt (\<lambda>r s. r_end r \<le> r_begin s) (map pr_range xs)" for xs
    by (simp add: sorted_wrt_map region_before_def [abs_def])
  ultimately have "sorted_wrt region_before (rs[i := r])"
    using assms(1) by (simp add: regions_ok_def)
  then show ?thesis
    using assms set_update_subset_insert [of rs i r] nth_mem [OF assms(2)] unfolding regions_ok_def by fastforce
qed

lemma pages_of_update:
  assumes ok: "regions_ok rs" and i: "i < length rs" and r: "region_inv r" "pr_range r = pr_range (rs ! i)"
  shows "(\<Union>x \<in> set (rs[i := r]). region_pages x) = (\<Union>x \<in> set rs. region_pages x)"
    and "(\<Union>x \<in> set (rs[i := r]). allocated_pages x) = (\<Union>x \<in> set rs. allocated_pages x) - allocated_pages (rs ! i) \<union> allocated_pages r"
proof -
  have p: "region_pages r = region_pages (rs ! i)"
    by (simp add: region_pages_def r(2))
  have set: "set (rs[i := r]) = insert r {rs ! j | j. j < length rs \<and> j \<noteq> i}"
    using i by (auto simp: set_conv_nth nth_list_update)
  have set0: "set rs = insert (rs ! i) {rs ! j | j. j < length rs \<and> j \<noteq> i}"
    using i by (auto simp: set_conv_nth)
  show "(\<Union>x \<in> set (rs[i := r]). region_pages x) = (\<Union>x \<in> set rs. region_pages x)"
    unfolding set set0 by (simp add: p)
  have "a \<notin> allocated_pages (rs ! i)" if "j < length rs" "j \<noteq> i" "a \<in> allocated_pages (rs ! j)" for a j
    using regions_disjoint [OF ok that(1) i, of a] that ok i allocated_in_region nth_mem
    unfolding regions_ok_def by metis
  then show "(\<Union>x \<in> set (rs[i := r]). allocated_pages x) = (\<Union>x \<in> set rs. allocated_pages x) - allocated_pages (rs ! i) \<union> allocated_pages r"
    unfolding set set0 by fastforce
qed

lemma free_bytes_update:
  assumes "i < length rs"
  shows "free_bytes (rs[i := r]) = free_bytes rs - word_of_nat (pr_free_pages (rs ! i)) * page_size + word_of_nat (pr_free_pages r) * page_size"
  using assms unfolding free_bytes_def
  by (induction rs arbitrary: i) (auto simp: algebra_simps split: nat.splits)

lemma page_of_region_nonzero:
  assumes "regions_ok rs" "r \<in> set rs" "p \<in> region_pages r"
  shows "lowest_allowed_physical_address \<le> p" "page_is_aligned p"
  using assms by (auto simp: regions_ok_def region_pages_def addrs_def)

subsection \<open>Allocation\<close>

lemma allocate_page_count:
  "allocate_page r = Inr (Some p, r') \<Longrightarrow> Suc (pr_free_pages r') = pr_free_pages r"
  by (auto simp: allocate_page_def bind_res_def Let_def split: if_splits sum.splits option.splits)

lemma free_page_count: "free_page p r = Inr r' \<Longrightarrow> pr_free_pages r' = Suc (pr_free_pages r)"
  by (auto simp: free_page_def bind_res_def split: if_splits sum.splits)

text \<open>One region of the list hands out the page.\<close>

definition hands_out :: "addr \<Rightarrow> nat \<Rightarrow> physical_region \<Rightarrow> physical_region list \<Rightarrow> bool" where
  "hands_out p i r rs \<longleftrightarrow> i < length rs \<and> region_inv r \<and> pr_range r = pr_range (rs ! i)
     \<and> p \<in> region_pages (rs ! i) \<and> p \<notin> allocated_pages (rs ! i) \<and> allocated_pages r = insert p (allocated_pages (rs ! i))
     \<and> Suc (pr_free_pages r) = pr_free_pages (rs ! i)"

lemma hands_out_Cons: "hands_out p (Suc i) r (a # rs) \<longleftrightarrow> hands_out p i r rs"
  by (simp add: hands_out_def)

lemma allocate_from_ok:
  assumes "\<forall>r \<in> set rs. region_inv r"
  shows "allocate_from rs = Inr (None, rs) \<and> (\<forall>r \<in> set rs. allocated_pages r = region_pages r)
    \<or> (\<exists>p i r. allocate_from rs = Inr (Some p, rs[i := r]) \<and> hands_out p i r rs)"
  using assms
proof (induction rs)
  case (Cons a rs)
  have a: "region_inv a" and rs: "\<forall>r \<in> set rs. region_inv r"
    using Cons.prems by simp_all
  obtain page a' where p: "allocate_page a = Inr (page, a')" "region_inv a'" "pr_range a' = pr_range a" "case page of
      None \<Rightarrow> allocated_pages a = region_pages a \<and> a' = a
    | Some p \<Rightarrow> p \<in> region_pages a \<and> p \<notin> allocated_pages a \<and> allocated_pages a' = insert p (allocated_pages a)"
    using allocate_page_step [OF a] by blast
  show ?case
  proof (cases page)
    case (Some q)
    then have "hands_out q 0 a' (a # rs)"
      using p allocate_page_count [of a q a'] by (simp add: hands_out_def)
    moreover have "allocate_from (a # rs) = Inr (Some q, (a # rs)[0 := a'])"
      using p(1) Some by simp
    ultimately show ?thesis
      by blast
  next
    case None
    then have *: "allocate_page a = Inr (None, a)" "allocated_pages a = region_pages a"
      using p by simp_all
    from Cons.IH [OF rs] show ?thesis
    proof
      assume "\<exists>p i r. allocate_from rs = Inr (Some p, rs[i := r]) \<and> hands_out p i r rs"
      then obtain q i r where "allocate_from rs = Inr (Some q, rs[i := r])" "hands_out q i r rs"
        by blast
      then have "allocate_from (a # rs) = Inr (Some q, (a # rs)[Suc i := r])" "hands_out q (Suc i) r (a # rs)"
        using * by (simp_all add: hands_out_Cons)
      then show ?thesis
        by blast
    qed (use * in simp)
  qed
qed simp

lemma mm_allocate_page_ok:
  assumes inv: "pm_inv pm"
  shows "if free_pages pm = {} then mm_allocate_page z pm = Inl Panic
    else \<exists>p pm'. mm_allocate_page z pm = Inr (p, pm') \<and> pm_inv pm' \<and> p \<in> free_pages pm \<and> p \<noteq> 0 \<and> page_is_aligned p
      \<and> managed_pages pm' = managed_pages pm \<and> used_pages pm' = insert p (used_pages pm)
      \<and> ram pm' = (if z then zero_page p (ram pm) else ram pm)
      \<and> m_free_physical_bytes pm' = m_free_physical_bytes pm - page_size"
proof -
  let ?rs = "m_physical_regions pm"
  have ok: "regions_ok ?rs" and all: "\<forall>r \<in> set ?rs. region_inv r"
    using inv by (simp_all add: pm_inv_def regions_ok_def)
  from allocate_from_ok [OF all] show ?thesis
  proof
    assume "allocate_from ?rs = Inr (None, ?rs) \<and> (\<forall>r \<in> set ?rs. allocated_pages r = region_pages r)"
    then show ?thesis
      by (auto simp: free_pages_def managed_pages_def used_pages_def mm_allocate_page_def)
  next
    assume "\<exists>p i r. allocate_from ?rs = Inr (Some p, ?rs[i := r]) \<and> hands_out p i r ?rs"
    then obtain q i r where p: "allocate_from ?rs = Inr (Some q, ?rs[i := r])" and i: "i < length ?rs" "region_inv r"
        "pr_range r = pr_range (?rs ! i)" "q \<in> region_pages (?rs ! i)" "q \<notin> allocated_pages (?rs ! i)"
        "allocated_pages r = insert q (allocated_pages (?rs ! i))" "Suc (pr_free_pages r) = pr_free_pages (?rs ! i)"
      by (auto simp: hands_out_def)
    have "?rs ! i \<in> set ?rs"
      using i(1) by simp
    have "q \<notin> allocated_pages (?rs ! j)" if "j < length ?rs" for j
    proof
      assume "q \<in> allocated_pages (?rs ! j)"
      moreover have "region_inv (?rs ! j)"
        using all that by simp
      ultimately have "q \<in> addrs (pr_range (?rs ! j))"
        by (intro allocated_in_region)
      then have "j = i"
        using regions_disjoint [OF ok that i(1)] i(4) by (simp add: region_pages_def)
      then show False
        using i(5) \<open>q \<in> allocated_pages (?rs ! j)\<close> by simp
    qed
    then have "q \<notin> allocated_pages x" if "x \<in> set ?rs" for x
      using that by (metis in_set_conv_nth)
    then have free: "q \<in> free_pages pm"
      using i(4) \<open>?rs ! i \<in> _\<close> by (auto simp: free_pages_def managed_pages_def used_pages_def)
    have "(word_of_nat (pr_free_pages (?rs ! i)) :: size_t) = word_of_nat (pr_free_pages r) + 1"
      unfolding i(7) [symmetric] by simp
    then have "free_bytes (?rs[i := r]) = free_bytes ?rs - page_size"
      unfolding free_bytes_update [OF i(1)] by (simp add: algebra_simps)
    moreover have "lowest_allowed_physical_address \<le> q" "page_is_aligned q"
      using page_of_region_nonzero [OF ok \<open>?rs ! i \<in> _\<close> i(4)] by simp_all
    then have "q \<noteq> 0"
      by (auto simp: lowest_allowed_physical_address_def)
    moreover have "(\<Union>x \<in> set (?rs[i := r]). allocated_pages x) = insert q (\<Union>x \<in> set ?rs. allocated_pages x)"
      unfolding pages_of_update(2) [OF ok i(1-3)] i(6) using \<open>?rs ! i \<in> _\<close> by auto
    moreover define pm' where "pm' = pm\<lparr>m_physical_regions := ?rs[i := r], m_free_physical_bytes := m_free_physical_bytes pm - page_size,
        ram := (if z then zero_page q (ram pm) else ram pm)\<rparr>"
    ultimately have "pm_inv pm'" "managed_pages pm' = managed_pages pm" "used_pages pm' = insert q (used_pages pm)"
        "ram pm' = (if z then zero_page q (ram pm) else ram pm)" "m_free_physical_bytes pm' = m_free_physical_bytes pm - page_size" "q \<noteq> 0"
      using inv regions_ok_update [OF ok i(1-3)] pages_of_update(1) [OF ok i(1-3)]
      by (simp_all add: pm_inv_def managed_pages_def used_pages_def)
    moreover have "mm_allocate_page z pm = Inr (q, pm')"
      using p by (simp add: mm_allocate_page_def pm'_def)
    ultimately show ?thesis
      using free \<open>page_is_aligned q\<close> by auto
  qed
qed

subsection \<open>Release\<close>

lemma regions_strict:
  assumes "regions_ok rs"
  shows "sorted_wrt (<) (map (\<lambda>r. r_begin (pr_range r)) rs)"
proof -
  have "sorted_wrt (\<lambda>r s. r_begin (pr_range r) < r_begin (pr_range s)) rs"
    unfolding sorted_wrt_iff_nth_less
  proof (intro allI impI)
    fix i j assume "i < j" "j < length rs"
    then have "r_end (pr_range (rs ! i)) \<le> r_begin (pr_range (rs ! j))" "r_begin (pr_range (rs ! i)) < r_end (pr_range (rs ! i))"
      using assms by (simp_all add: regions_ok_def region_before_def sorted_wrt_iff_nth_less)
    then show "r_begin (pr_range (rs ! i)) < r_begin (pr_range (rs ! j))"
      by simp
  qed
  then show ?thesis
    by (simp add: sorted_wrt_map)
qed

lemma takeWhile_length_nth:
  assumes "i = length (takeWhile P xs)"
  shows "\<And>j. j < i \<Longrightarrow> P (xs ! j)" "i < length xs \<Longrightarrow> \<not> P (xs ! i)"
  using assms nth_length_takeWhile [of P xs] takeWhile_nth [of _ P xs] set_takeWhileD nth_mem by metis+

lemma responsible_region_iff:
  assumes ok: "regions_ok (m_physical_regions pm)"
  shows "physical_region_responsible_for_page p pm = Some i
    \<longleftrightarrow> i < length (m_physical_regions pm) \<and> p \<in> addrs (pr_range (m_physical_regions pm ! i))"
proof -
  let ?rs = "m_physical_regions pm" and ?b = "\<lambda>i. r_begin (pr_range (m_physical_regions pm ! i))"
    and ?e = "\<lambda>i. r_end (pr_range (m_physical_regions pm ! i))"
  define k where "k = lower_bound address_lt_region region_lt_address ?rs p"
  have k: "k = length (takeWhile (\<lambda>r. r_begin (pr_range r) < p) ?rs)"
    unfolding k_def by (rule region_search.lower_bound_strict [OF regions_strict [OF ok]])
  then have le: "k \<le> length ?rs"
    by (simp add: length_takeWhile_le)
  have below: "j < k \<Longrightarrow> ?b j < p" and above: "k < length ?rs \<Longrightarrow> p \<le> ?b k" for j
    using takeWhile_length_nth [OF k] by auto
  have ends: "?b m < ?e m" "m < n \<Longrightarrow> n < length ?rs \<Longrightarrow> ?e m \<le> ?b n" if "m < length ?rs" for m n
    using ok that by (simp_all add: regions_ok_def region_before_def sorted_wrt_iff_nth_less)
  have unfold: "physical_region_responsible_for_page p pm = Some i
    \<longleftrightarrow> (if k = length ?rs \<or> ?b k \<noteq> p then k \<noteq> 0 \<and> p < ?e (k - 1) \<and> ?b (k - 1) \<le> p \<and> i = k - 1 else i = k)"
    by (auto simp: physical_region_responsible_for_page_def Let_def k_def contains_addr_def)
  have mem: "p \<in> addrs (pr_range (?rs ! i)) \<longleftrightarrow> ?b i \<le> p \<and> p < ?e i"
    by (simp add: addrs_def)
  show ?thesis
  proof
    assume "physical_region_responsible_for_page p pm = Some i"
    then show "i < length ?rs \<and> p \<in> addrs (pr_range (?rs ! i))"
      using le ends(1) [of k] unfolding unfold mem by (auto split: if_splits)
  next
    assume "i < length ?rs \<and> p \<in> addrs (pr_range (?rs ! i))"
    then have i: "i < length ?rs" "?b i \<le> p" "p < ?e i"
      by (simp_all add: addrs_def)
    show "physical_region_responsible_for_page p pm = Some i"
    proof (cases "i < k")
      case True
      have "i = k - 1"
      proof (rule ccontr)
        assume "i \<noteq> k - 1"
        then have "?e i \<le> ?b (k - 1)"
          using True le by (intro ends(2) [OF i(1)]) auto
        moreover have "?b (k - 1) < p"
          using True by (intro below) simp
        ultimately show False
          using i(3) by simp
      qed
      moreover have "k = length ?rs \<or> ?b k \<noteq> p"
        using ends(2) [OF i(1) True] i(3) le by force
      ultimately show ?thesis
        using i True unfolding unfold by auto
    next
      case False
      have "i = k"
      proof (rule ccontr)
        assume "i \<noteq> k"
        then have "?e k \<le> ?b i" "k < length ?rs"
          using False i(1) by (auto intro!: ends(2))
        then show False
          using above ends(1) [of k] i(2) by force
      qed
      then show ?thesis
        using i above unfolding unfold by auto
    qed
  qed
qed

lemma mm_free_page_ok:
  assumes inv: "pm_inv pm"
  shows "if p \<in> used_pages pm then \<exists>pm'. mm_free_page p pm = Inr pm' \<and> pm_inv pm' \<and> managed_pages pm' = managed_pages pm
        \<and> used_pages pm' = used_pages pm - {p} \<and> ram pm' = ram pm
        \<and> m_free_physical_bytes pm' = m_free_physical_bytes pm + page_size
    else mm_free_page p pm \<in> {Inl Panic, Inl Assertion}"
proof -
  let ?rs = "m_physical_regions pm"
  have ok: "regions_ok ?rs" and all: "i < length ?rs \<Longrightarrow> region_inv (?rs ! i)" for i
    using inv by (simp_all add: pm_inv_def regions_ok_def)
  show ?thesis
  proof (cases "physical_region_responsible_for_page p pm")
    case None
    then have "p \<notin> addrs (pr_range (?rs ! i))" if "i < length ?rs" for i
      using responsible_region_iff [OF ok, of p i] that by simp
    then have "p \<notin> used_pages pm"
      using allocated_in_region all unfolding used_pages_def by (metis UN_E in_set_conv_nth)
    then show ?thesis
      using None by (simp add: mm_free_page_def)
  next
    case (Some i)
    then have i: "i < length ?rs" "p \<in> addrs (pr_range (?rs ! i))"
      using responsible_region_iff [OF ok, of p i] by simp_all
    have used: "p \<in> used_pages pm \<longleftrightarrow> p \<in> allocated_pages (?rs ! i)"
    proof
      assume "p \<in> used_pages pm"
      then obtain j where j: "j < length ?rs" "p \<in> allocated_pages (?rs ! j)"
        unfolding used_pages_def by (metis UN_E in_set_conv_nth)
      then have "j = i"
        using regions_disjoint [OF ok j(1) i(1), of p] allocated_in_region [OF all [OF j(1)]] i(2) by blast
      then show "p \<in> allocated_pages (?rs ! i)"
        using j(2) by simp
    qed (use i(1) in \<open>auto simp: used_pages_def\<close>)
    show ?thesis
    proof (cases "p \<in> allocated_pages (?rs ! i)")
      case True
      then obtain r where r: "free_page p (?rs ! i) = Inr r" "region_inv r" "pr_range r = pr_range (?rs ! i)"
          "allocated_pages r = allocated_pages (?rs ! i) - {p}"
        using free_page_step [OF all [OF i(1)], of p] by auto
      define pm' where "pm' = pm\<lparr>m_physical_regions := ?rs[i := r], m_free_physical_bytes := m_free_physical_bytes pm + page_size\<rparr>"
      have "(\<Union>x \<in> set (?rs[i := r]). allocated_pages x) = (\<Union>x \<in> set ?rs. allocated_pages x) - {p}"
        unfolding pages_of_update(2) [OF ok i(1) r(2,3)] r(4) using True nth_mem [OF i(1)] by blast
      moreover have "free_bytes (?rs[i := r]) = free_bytes ?rs + page_size"
        unfolding free_bytes_update [OF i(1)] free_page_count [OF r(1)] by (simp add: algebra_simps)
      ultimately have "pm_inv pm'" "managed_pages pm' = managed_pages pm" "used_pages pm' = used_pages pm - {p}" "ram pm' = ram pm"
          "m_free_physical_bytes pm' = m_free_physical_bytes pm + page_size"
        using inv regions_ok_update [OF ok i(1) r(2,3)] pages_of_update(1) [OF ok i(1) r(2,3)]
        by (simp_all add: pm'_def pm_inv_def managed_pages_def used_pages_def)
      moreover have "mm_free_page p pm = Inr pm'"
        using Some r(1) by (simp add: mm_free_page_def pm'_def)
      ultimately show ?thesis
        using True used by auto
    next
      case False
      then show ?thesis
        using Some used free_page_step [OF all [OF i(1)], of p] by (simp add: mm_free_page_def)
    qed
  qed
qed

subsection \<open>The regions of a memory map\<close>

definition usable :: "phys_range \<Rightarrow> bool" where
  "usable e \<longleftrightarrow> is_free e \<and> minimum_viable_range_length \<le> range_length e"

definition allowed_window :: "addr set" where
  "allowed_window = {lowest_allowed_physical_address..<highest_allowed_physical_address}"

lemma window_limits:
  "lowest_allowed_physical_address < highest_allowed_physical_address"
  "page_is_aligned lowest_allowed_physical_address" "page_is_aligned highest_allowed_physical_address"
proof -
  show "page_is_aligned highest_allowed_physical_address"
    by (simp add: highest_allowed_physical_address_def)
  show "page_is_aligned lowest_allowed_physical_address"
    by (simp add: lowest_allowed_physical_address_def page_is_aligned_def page_size_def)
  have "unat highest_allowed_physical_address = 2 ^ 64 - 4096"
    by (simp add: highest_allowed_physical_address_def unat_page_round_down max_memory_address_def)
  then show "lowest_allowed_physical_address < highest_allowed_physical_address"
    by (simp add: lowest_allowed_physical_address_def word_less_nat_alt)
qed

lemma constrained_by_bounds:
  assumes "wf_range r" "lowest < highest" "constrained_by r lowest highest = Inr r'"
    and "page_is_aligned (r_begin r)" "page_is_aligned (r_end r)" "page_is_aligned lowest" "page_is_aligned highest"
  shows "page_is_aligned (r_begin r')" "page_is_aligned (r_end r')" "r_begin r \<le> r_begin r'" "r_end r' \<le> r_end r"
    "r_begin r' < r_end r' \<Longrightarrow> lowest \<le> r_begin r'"
  using assms by (auto simp: constrained_by_def Let_def range_defs min_def max_def split: if_splits)

lemma aligned_length_of_bounds:
  assumes "page_is_aligned (r_begin r)" "page_is_aligned (r_end r)" "wf_range r"
  shows "page_is_aligned (range_length r)" "range_length r < page_size \<Longrightarrow> r_begin r = r_end r"
proof -
  have d: "4096 dvd unat (r_end r) - unat (r_begin r)"
    using assms(1,2) by (intro dvd_diff_nat) (auto simp: page_is_aligned_iff)
  have l: "unat (range_length r) = unat (r_end r) - unat (r_begin r)"
    using assms(3) by (simp add: range_length_def wf_range_def unat_sub)
  show "page_is_aligned (range_length r)"
    using d by (simp add: page_is_aligned_iff l)
  assume "range_length r < page_size"
  then have "unat (r_end r) - unat (r_begin r) < 4096"
    using l by (simp add: word_less_nat_alt)
  then have "unat (r_end r) - unat (r_begin r) = 0"
    using d by (meson dvd_imp_le not_less zero_less_iff_neq_zero)
  then show "r_begin r = r_end r"
    using assms(3) by (simp add: wf_range_def word_le_nat_alt word_unat_eq_iff)
qed

definition region_for :: "phys_range \<Rightarrow> physical_region \<Rightarrow> bool" where
  "region_for e r \<longleftrightarrow> usable e \<and> region_inv r \<and> allocated_pages r = {} \<and> addrs (pr_range r) = addrs e \<inter> allowed_window
     \<and> r_begin (pr_range r) < r_end (pr_range r) \<and> lowest_allowed_physical_address \<le> r_begin (pr_range r)
     \<and> r_begin e \<le> r_begin (pr_range r) \<and> r_end (pr_range r) \<le> r_end e"

lemma region_of_range_ok:
  assumes e: "entry_ok e"
  shows "region_of_range e = Inr None \<and> (usable e \<longrightarrow> addrs e \<inter> allowed_window = {})
    \<or> (\<exists>r. region_of_range e = Inr (Some r) \<and> region_for e r)"
proof (cases "usable e")
  case False
  then show ?thesis
    by (auto simp: region_of_range_def usable_def is_reserved_def)
next
  case True
  let ?t = "range.truncate e"
  have t: "r_begin ?t = r_begin e" "r_end ?t = r_end e"
    by (simp_all add: range.truncate_def)
  have te: "addrs ?t = addrs e"
    by (simp add: addrs_def t)
  have wf: "wf_range ?t" and al: "page_is_aligned (r_begin ?t)" "page_is_aligned (r_end ?t)"
    using e by (simp_all add: entry_ok_def wf_range_def t)
  obtain p where p: "constrained_by ?t lowest_allowed_physical_address highest_allowed_physical_address = Inr p" "wf_range p"
      "addrs p = addrs ?t \<inter> allowed_window"
    using constrained_by_addrs [OF wf window_limits(1)] by (auto simp: allowed_window_def)
  note b = constrained_by_bounds [OF wf window_limits(1) p(1) al window_limits(2,3)]
  note l = aligned_length_of_bounds [OF b(1,2) p(2)]
  define q where "q = (reset_with_range p default_phys_range)\<lparr>r_type := r_type e\<rparr>"
  have q: "r_begin q = r_begin p" "r_end q = r_end p" "range_length q = range_length p"
    by (simp_all add: q_def reset_with_range_def range_length_def)
  have unfold: "region_of_range e = (if range_length p < page_size then Inr None
      else bind_res (from_two_pointers (r_begin p) (r_end p)) (\<lambda>allocator_range.
          bind_res (physical_region_new allocator_range) (\<lambda>this_region. Inr (Some this_region))))"
    using True p(1) q by (auto simp: region_of_range_def usable_def is_reserved_def phys_constrained_by_def q_def)
  show ?thesis
  proof (cases "range_length p < page_size")
    case True
    then have "addrs p = {}"
      using l(2) by (auto simp: addrs_def)
    then show ?thesis
      using True unfold p(3) te by simp
  next
    case False
    let ?r = "\<lparr>r_begin = r_begin p, r_end = r_end p\<rparr>"
    have lt: "r_begin p < r_end p"
      using False p(2) by (auto simp: wf_range_def range_length_def order_le_less)
    have "physical_region_new ?r \<noteq> Inl Assertion"
      using b(1) l(1) by (simp add: physical_region_new_def range_length_def Let_def)
    then obtain r where r: "physical_region_new ?r = Inr r" "pr_range r = ?r"
      by (auto simp: physical_region_new_def Let_def split: if_splits)
    have "wf_range ?r"
      using p(2) by (simp add: wf_range_def)
    from physical_region_new_inv [OF this r(1)] have "region_for e r"
      using True lt b(3-5) p(3) by (simp add: region_for_def r(2) addrs_def t)
    moreover have "region_of_range e = Inr (Some r)"
      using False unfold r(1) lt by (simp add: from_two_pointers_def)
    ultimately show ?thesis
      by blast
  qed
qed

definition usable_pages :: "phys_range list \<Rightarrow> addr set" where
  "usable_pages es = {p. page_is_aligned p \<and> p \<in> allowed_window \<and> (\<exists>e \<in> set es. usable e \<and> p \<in> addrs e)}"

lemma usable_pages_Cons:
  "usable_pages (e # es) = usable_pages es \<union> (if usable e then {p. page_is_aligned p \<and> p \<in> addrs e \<inter> allowed_window} else {})"
  by (auto simp: usable_pages_def)

lemma regions_of_ranges_ok:
  assumes "\<forall>e \<in> set es. entry_ok e" "sorted_wrt (\<lambda>l r. r_end l \<le> r_begin r) es" "regions_ok (m_physical_regions pm)"
    and "\<forall>r \<in> set (m_physical_regions pm). \<forall>e \<in> set es. r_end (pr_range r) \<le> r_begin e"
    and "m_initial_physical_bytes pm = free_bytes (m_physical_regions pm)" "used_pages pm = {}"
  shows "\<exists>pm'. regions_of_ranges es pm = Inr pm' \<and> regions_ok (m_physical_regions pm') \<and> used_pages pm' = {}
    \<and> m_initial_physical_bytes pm' = free_bytes (m_physical_regions pm') \<and> ram pm' = ram pm
    \<and> managed_pages pm' = managed_pages pm \<union> usable_pages es"
  using assms
proof (induction es arbitrary: pm)
  case Nil
  then show ?case
    by (simp add: usable_pages_def)
next
  case (Cons e es)
  have e: "entry_ok e"
    using Cons.prems(1) by simp
  from region_of_range_ok [OF e] show ?case
  proof
    assume none: "region_of_range e = Inr None \<and> (usable e \<longrightarrow> addrs e \<inter> allowed_window = {})"
    then have "usable_pages (e # es) = usable_pages es"
      by (simp add: usable_pages_Cons)
    then show ?thesis
      using none Cons.IH [of pm] Cons.prems by simp
  next
    assume "\<exists>r. region_of_range e = Inr (Some r) \<and> region_for e r"
    then obtain r where r: "region_of_range e = Inr (Some r)" "region_for e r"
      by blast
    define pm1 where "pm1 = pm\<lparr>m_physical_regions := m_physical_regions pm @ [r],
      m_initial_physical_bytes := m_initial_physical_bytes pm + word_of_nat (pr_free_pages r) * page_size\<rparr>"
    have "regions_ok (m_physical_regions pm1)"
      using Cons.prems(3,4) r(2) by (fastforce simp: pm1_def regions_ok_def region_for_def region_before_def sorted_wrt_append)
    moreover have "\<forall>s \<in> set (m_physical_regions pm1). \<forall>x \<in> set es. r_end (pr_range s) \<le> r_begin x"
      using Cons.prems(2,4) r(2) by (fastforce simp: pm1_def region_for_def)
    moreover have "m_initial_physical_bytes pm1 = free_bytes (m_physical_regions pm1)" "used_pages pm1 = {}" "ram pm1 = ram pm"
      using Cons.prems(5,6) r(2) by (simp_all add: pm1_def free_bytes_def used_pages_def region_for_def)
    ultimately obtain pm' where pm': "regions_of_ranges es pm1 = Inr pm'" "regions_ok (m_physical_regions pm')" "used_pages pm' = {}"
        "m_initial_physical_bytes pm' = free_bytes (m_physical_regions pm')" "ram pm' = ram pm" "managed_pages pm' = managed_pages pm1 \<union> usable_pages es"
      using Cons.IH [of pm1] Cons.prems(1,2) by auto
    have "managed_pages pm1 = managed_pages pm \<union> {p. page_is_aligned p \<and> p \<in> addrs e \<inter> allowed_window}"
      using r(2) by (auto simp: pm1_def managed_pages_def region_pages_def region_for_def)
    then have "managed_pages pm' = managed_pages pm \<union> usable_pages (e # es)"
      using pm'(6) r(2) by (auto simp: usable_pages_Cons region_for_def)
    then show ?thesis
      using pm' r(1) by (simp add: pm1_def)
  qed
qed

lemma ordered_map: "map_good es \<Longrightarrow> sorted_wrt (\<lambda>l r. r_end l \<le> r_begin r) es"
  by (simp add: sorted_wrt_iff_nth_less good_nth_le)

lemma first_viable_range_ok:
  assumes good: "map_good es" and ne: "es \<noteq> []"
  shows "\<exists>k. first_viable_range es = Inr k \<and> usable_pages (drop k es) = usable_pages es"
proof -
  define f where "f = lower_bound addr_lt_range range_lt_addr es lowest_allowed_physical_address"
  have f: "f = length (takeWhile (\<lambda>e. r_begin e < lowest_allowed_physical_address) es)"
    unfolding f_def by (rule map_search.lower_bound_strict [OF good_strict [OF good]])
  then have le: "f \<le> length es"
    by (simp add: length_takeWhile_le)
  define k where "k = (if f = length es \<or> (f \<noteq> 0 \<and> r_begin (es ! f) \<noteq> lowest_allowed_physical_address) then f - 1 else f)"
  have "first_viable_range es = Inr k"
    using ne by (auto simp: first_viable_range_def Let_def f_def k_def)
  moreover have below: "r_end (es ! j) \<le> lowest_allowed_physical_address" if "j < k" for j
  proof -
    have k: "k \<le> f" "k < length es"
      using le ne by (auto simp: k_def)
    have "r_begin (es ! k) \<le> lowest_allowed_physical_address"
    proof (cases "k < f")
      case True
      then show ?thesis
        using takeWhile_length_nth(1) [OF f, of k] by simp
    next
      case False
      then show ?thesis
        using that k by (auto simp: k_def split: if_splits)
    qed
    then show ?thesis
      using good_nth_le [OF good that k(2)] by simp
  qed
  have "addrs e \<inter> allowed_window = {}" if e: "e \<in> set (take k es)" for e
  proof -
    obtain j where "j < k" "e = es ! j"
      using e by (auto simp: in_set_conv_nth)
    then show ?thesis
      using below [of j] by (auto simp: addrs_def allowed_window_def)
  qed
  then have "usable_pages (take k es @ drop k es) = usable_pages (drop k es)"
    unfolding usable_pages_def set_append by blast
  then have "usable_pages (drop k es) = usable_pages es"
    by simp
  ultimately show ?thesis
    by blast
qed

lemma memory_manager_new_ok:
  assumes good: "map_good (m_entries mm)" and ne: "m_entries mm \<noteq> []"
  shows "\<exists>pm. memory_manager_new mm memory = (if m_initial_physical_bytes pm < lowest_sane_ram_amount then Inl Panic else Inr pm)
    \<and> pm_inv pm \<and> managed_pages pm = usable_pages (m_entries mm) \<and> used_pages pm = {} \<and> ram pm = memory
    \<and> m_initial_physical_bytes pm = m_free_physical_bytes pm + kernel_image_size + kernel_first_heap_block_size"
proof -
  obtain k where k: "first_viable_range (m_entries mm) = Inr k" "usable_pages (drop k (m_entries mm)) = usable_pages (m_entries mm)"
    using first_viable_range_ok [OF good ne] by blast
  let ?pm = "\<lparr>m_physical_regions = [], m_initial_physical_bytes = 0, m_free_physical_bytes = 0, ram = memory\<rparr>"
  have ok: "\<forall>e \<in> set (drop k (m_entries mm)). entry_ok e" "sorted_wrt (\<lambda>l r. r_end l \<le> r_begin r) (drop k (m_entries mm))"
    using good ordered_map [OF good] by (auto simp: map_good_def map_inv_def dest: in_set_dropD intro: sorted_wrt_drop)
  have empty: "regions_ok []" "free_bytes [] = 0" "used_pages ?pm = {}" "managed_pages ?pm = {}"
    by (simp_all add: regions_ok_def free_bytes_def used_pages_def managed_pages_def)
  obtain pm where pm: "regions_of_ranges (drop k (m_entries mm)) ?pm = Inr pm" "regions_ok (m_physical_regions pm)" "used_pages pm = {}"
      "m_initial_physical_bytes pm = free_bytes (m_physical_regions pm)" "ram pm = memory" "managed_pages pm = usable_pages (m_entries mm)"
    using regions_of_ranges_ok [OF ok, of ?pm] empty k(2) by auto
  let ?pm' = "pm\<lparr>m_free_physical_bytes := m_initial_physical_bytes pm,
    m_initial_physical_bytes := m_initial_physical_bytes pm + kernel_image_size + kernel_first_heap_block_size\<rparr>"
  have "pm_inv ?pm'" "managed_pages ?pm' = usable_pages (m_entries mm)" "used_pages ?pm' = {}"
    using pm by (simp_all add: pm_inv_def managed_pages_def used_pages_def)
  then show ?thesis
    using k(1) pm by (intro exI [of _ ?pm']) (simp add: memory_manager_new_def Let_def)
qed

lemma usable_pages_free:
  assumes "map_good es" "p \<in> usable_pages es"
  shows "strongest es p type_FREE" "p \<in> allowed_window" "page_is_aligned p"
proof -
  obtain e where e: "e \<in> set es" "usable e" "p \<in> addrs e"
    using assms(2) by (auto simp: usable_pages_def)
  then obtain k where "k < length es" "es ! k = e"
    by (auto simp: in_set_conv_nth)
  then show "strongest es p type_FREE"
    using good_strongest [OF assms(1), of k p type_FREE] e by (simp add: usable_def is_free_def)
  show "p \<in> allowed_window" "page_is_aligned p"
    using assms(2) by (simp_all add: usable_pages_def)
qed

subsection \<open>A running memory manager\<close>

text \<open>The calls that hand out and take back pages, after the manager was made from a map; the set holds the pages handed out.\<close>

inductive memory_run :: "memory_map \<Rightarrow> addr set \<Rightarrow> physical_memory \<Rightarrow> bool" where
  made: "memory_manager_new mm memory = Inr pm \<Longrightarrow> memory_run mm {} pm"
| allocated: "memory_run mm held pm \<Longrightarrow> mm_allocate_page z pm = Inr (p, pm') \<Longrightarrow> memory_run mm (insert p held) pm'"
| freed: "memory_run mm held pm \<Longrightarrow> mm_free_page p pm = Inr pm' \<Longrightarrow> memory_run mm (held - {p}) pm'"
| written: "memory_run mm held pm \<Longrightarrow> memory_run mm held (pm\<lparr>ram := memory\<rparr>)"

lemma memory_run_inv:
  assumes "memory_run mm held pm" "map_good (m_entries mm)" "m_entries mm \<noteq> []"
  shows "pm_inv pm \<and> managed_pages pm = usable_pages (m_entries mm) \<and> used_pages pm = held \<and> held \<subseteq> usable_pages (m_entries mm)"
  using assms
proof (induction rule: memory_run.induct)
  case (made mm memory pm)
  then show ?case
    using memory_manager_new_ok [OF made(2,3), of memory] by (auto split: if_splits)
next
  case (allocated mm held pm z p pm')
  then show ?case
    using mm_allocate_page_ok [of pm z] by (auto simp: free_pages_def split: if_splits)
next
  case (freed mm held pm p pm')
  then show ?case
    using mm_free_page_ok [of pm p] by (auto split: if_splits)
next
  case (written mm held pm memory)
  then show ?case
    by (simp add: pm_inv_def managed_pages_def used_pages_def)
qed

definition page_bytes :: "addr \<Rightarrow> addr set" where
  "page_bytes p = {x. p \<le> x \<and> unat x < unat p + 4096}"

lemma usable_page_bytes:
  assumes good: "map_good es" and p: "p \<in> usable_pages es" and x: "x \<in> page_bytes p"
  shows "strongest es x type_FREE"
proof -
  obtain e where e: "e \<in> set es" "usable e" "p \<in> addrs e" "page_is_aligned p"
    using p by (auto simp: usable_pages_def)
  then obtain k where k: "k < length es" "es ! k = e"
    by (auto simp: in_set_conv_nth)
  have "page_is_aligned (r_end e)"
    using good_ok [OF good k(1)] k(2) by (simp add: entry_ok_def)
  then obtain m n where mn: "unat (r_end e) = 4096 * m" "unat p = 4096 * n"
    using e(4) by (auto simp: page_is_aligned_iff elim!: dvdE)
  have "unat p < unat (r_end e)" "unat (r_begin e) \<le> unat p"
    using e(3) by (simp_all add: addrs_def word_less_nat_alt word_le_nat_alt)
  then have "unat p + 4096 \<le> unat (r_end e)"
    unfolding mn by simp
  then have "x \<in> addrs e"
    using x \<open>unat (r_begin e) \<le> unat p\<close> by (simp add: page_bytes_def addrs_def word_less_nat_alt word_le_nat_alt)
  then show ?thesis
    using good_strongest [OF good k(1), of x type_FREE] k(2) e(2) by (simp add: usable_def is_free_def)
qed

text \<open>
  C4: whatever calls were made, a call for a page hands out a page of usable memory that is not
  handed out, cleared when this was asked for, and panics exactly when every usable page is
  handed out; freeing a page that is handed out takes back exactly it, and any other address is
  refused.
\<close>

theorem physical_pages_refine_set:
  assumes "map_good (m_entries mm)" "m_entries mm \<noteq> []" "memory_run mm held pm"
  shows "(if held = usable_pages (m_entries mm) then mm_allocate_page z pm = Inl Panic
      else \<exists>p pm'. mm_allocate_page z pm = Inr (p, pm') \<and> p \<in> usable_pages (m_entries mm) - held \<and> used_pages pm' = insert p held
        \<and> ram pm' = (if z then zero_page p (ram pm) else ram pm))
    \<and> (if q \<in> held then \<exists>pm'. mm_free_page q pm = Inr pm' \<and> used_pages pm' = held - {q} \<and> ram pm' = ram pm
       else mm_free_page q pm \<in> {Inl Panic, Inl Assertion})"
proof -
  have inv: "pm_inv pm" "managed_pages pm = usable_pages (m_entries mm)" "used_pages pm = held" "held \<subseteq> usable_pages (m_entries mm)"
    using memory_run_inv [OF assms(3,1,2)] by simp_all
  then have free: "free_pages pm = usable_pages (m_entries mm) - held" "free_pages pm = {} \<longleftrightarrow> held = usable_pages (m_entries mm)"
    by (auto simp: free_pages_def)
  have "if held = usable_pages (m_entries mm) then mm_allocate_page z pm = Inl Panic
      else \<exists>p pm'. mm_allocate_page z pm = Inr (p, pm') \<and> p \<in> usable_pages (m_entries mm) - held \<and> used_pages pm' = insert p held
        \<and> ram pm' = (if z then zero_page p (ram pm) else ram pm)"
    using mm_allocate_page_ok [OF inv(1), of z] unfolding free(2) unfolding free(1) inv(3) by (metis (full_types))
  then show ?thesis
    using mm_free_page_ok [OF inv(1), of q] unfolding inv(3) by (simp split: if_splits) blast
qed

definition sample_map :: memory_map where
  "sample_map = \<lparr>m_entries = [\<lparr>r_begin = 0, r_end = 0x100000, r_type = type_RESERVED\<rparr>,
     \<lparr>r_begin = 0x100000, r_end = 0x8000000, r_type = type_FREE\<rparr>], m_capacity = 170\<rparr>"

lemma sample_map_good: "map_good (m_entries sample_map)"
proof -
  have "\<not> (0x100000 \<le> a \<and> a < 0x100000)" for a :: addr
    by auto
  then show "map_good (m_entries sample_map)"
    by (simp add: map_good_def map_inv_def sample_map_def entry_ok_def range_defs page_is_aligned_def
        page_size_def trivially_mergeable_def type_RESERVED_def type_FREE_def)
qed

lemmas manager_defs = region_of_range_def range_defs is_reserved_def is_free_def type_FREE_def page_size_def minimum_viable_range_length_def
  physical_region_new_def page_is_aligned_def kernel_image_size_def kernel_first_heap_block_size_def lowest_sane_ram_amount_def

lemma sample_manager: "\<exists>pm. memory_manager_new sample_map memory = Inr pm"
proof -
  have "first_viable_range (m_entries sample_map) = Inr 1"
    by code_simp
  moreover have "phys_constrained_by \<lparr>r_begin = 0x100000, r_end = 0x8000000, r_type = type_FREE\<rparr> lowest_allowed_physical_address highest_allowed_physical_address
      = Inr \<lparr>r_begin = 0x100000, r_end = 0x8000000, r_type = type_FREE\<rparr>"
    by code_simp
  ultimately show ?thesis
    by (simp add: memory_manager_new_def sample_map_def manager_defs)
qed

theorem physical_pages_refine_set_witness:
  "\<exists>pm p pm'. memory_run sample_map {} pm \<and> mm_allocate_page True pm = Inr (p, pm') \<and> p \<in> usable_pages (m_entries sample_map) \<and> used_pages pm' = {p}"
proof -
  obtain pm where "memory_manager_new sample_map (\<lambda>_. 7) = Inr pm"
    using sample_manager by blast
  then have run: "memory_run sample_map {} pm"
    by (rule memory_run.made)
  have "0x100000 \<in> allowed_window"
    unfolding allowed_window_def atLeastLessThan_iff by code_simp
  then have "m_entries sample_map \<noteq> []" "0x100000 \<in> usable_pages (m_entries sample_map)"
    by (simp_all add: sample_map_def usable_pages_def usable_def is_free_def range_defs minimum_viable_range_length_def page_size_def
        page_is_aligned_def)
  then have "m_entries sample_map \<noteq> []" "{} \<noteq> usable_pages (m_entries sample_map)"
    by auto
  then show ?thesis
    using physical_pages_refine_set [OF sample_map_good _ run, of True 0] run by auto
qed

end
