(* ===== verification/Address_Space.thy ===== *)
theory Address_Space
  imports Physical_Memory
begin

text \<open>
  \<^verbatim>\<open>Kernel/Memory/AddressSpace.cpp\<close> and \<^verbatim>\<open>GenericPagingEntry.h\<close>: the four levels of page tables of
  AMD64, in physical memory. A table is its physical address, an entry is the 64-bit word that
  the bit fields of the class lay out. The functions of the kernel change the words;
  \<open>translate\<close> is the walk of the processor over them. The caches of the processor and their
  invalidation are not modelled.
\<close>

subsection \<open>Entries\<close>

definition PRESENT :: u16 where "PRESENT = 1"
definition READ_WRITE :: u16 where "READ_WRITE = 2"
definition SUPERVISOR :: u16 where "SUPERVISOR = 0"
definition USER :: u16 where "USER = 4"
definition PAGE_2MB :: u16 where "PAGE_2MB = 128"

definition attributes :: "u64 \<Rightarrow> u16" where
  "attributes e = ucast (take_bit 12 e)"

definition set_attributes :: "u16 \<Rightarrow> u64 \<Rightarrow> u64" where
  "set_attributes a e = (e AND NOT (mask 12)) OR take_bit 12 (ucast a)"

definition set_present :: "bool \<Rightarrow> u64 \<Rightarrow> u64" where
  "set_present setting e =
     (if setting then set_attributes (attributes e OR PRESENT) e else set_attributes (attributes e AND NOT PRESENT) e)"

definition is_present :: "u64 \<Rightarrow> bool" where
  "is_present e \<longleftrightarrow> attributes e AND PRESENT \<noteq> 0"



definition set_huge :: "bool \<Rightarrow> u64 \<Rightarrow> u64" where
  "set_huge setting e =
     (if setting then set_attributes (attributes e OR PAGE_2MB) e else set_attributes (attributes e AND NOT PAGE_2MB) e)"



definition make_supervisor_present :: "u64 \<Rightarrow> u64" where
  "make_supervisor_present e = set_attributes (PRESENT OR READ_WRITE OR SUPERVISOR) e"

definition make_user_present :: "u64 \<Rightarrow> u64" where
  "make_user_present e = set_attributes (PRESENT OR READ_WRITE OR USER) e"

definition set_physical_address :: "addr \<Rightarrow> u64 \<Rightarrow> u64" where
  "set_physical_address address e = (e AND NOT (push_bit 12 (mask 40))) OR push_bit 12 (take_bit 40 (drop_bit 12 address))"

definition physical_address :: "u64 \<Rightarrow> addr" where
  "physical_address e = push_bit 12 (take_bit 40 (drop_bit 12 e))"

subsection \<open>Tables\<close>

datatype is_supervisor = UNSPECIFIED | YES | NO

record address_space =
  m_physical_pages :: "addr list"
  m_main_page :: addr

definition entry_count :: size_t where
  "entry_count = 512"

definition entry_size :: size_t where
  "entry_size = 8"

text \<open>The physical address of an entry of a table.\<close>

definition entry_at :: "addr \<Rightarrow> size_t \<Rightarrow> addr" where
  "entry_at table index = table + entry_size * index"

definition pml4_index :: "addr \<Rightarrow> size_t" where "pml4_index va = drop_bit 39 va AND (entry_count - 1)"
definition pdpt_index :: "addr \<Rightarrow> size_t" where "pdpt_index va = drop_bit 30 va AND (entry_count - 1)"
definition pdt_index :: "addr \<Rightarrow> size_t" where "pdt_index va = drop_bit 21 va AND (entry_count - 1)"
definition pt_index :: "addr \<Rightarrow> size_t" where "pt_index va = drop_bit 12 va AND (entry_count - 1)"

definition virtual_address_as_paging_indices :: "addr \<Rightarrow> size_t \<times> size_t \<times> size_t \<times> size_t" where
  "virtual_address_as_paging_indices va = (pml4_index va, pdpt_index va, pdt_index va, pt_index va)"

definition table_of :: "(addr \<Rightarrow> u64) \<Rightarrow> addr \<Rightarrow> size_t \<Rightarrow> addr" where
  "table_of memory table index = physical_address (memory (entry_at table index))"

definition make_present :: "is_supervisor \<Rightarrow> u64 \<Rightarrow> u64" where
  "make_present sv e = (if sv = YES then make_supervisor_present e else make_user_present e)"

definition write_entry :: "addr \<Rightarrow> u64 \<Rightarrow> physical_memory \<Rightarrow> physical_memory" where
  "write_entry a e pm = pm\<lparr>ram := (ram pm)(a := e)\<rparr>"

subsection \<open>Mapping\<close>

text \<open>An entry of an upper level that is not present gets a new table.\<close>

definition ensure_table :: "is_supervisor \<Rightarrow> addr \<Rightarrow> address_space \<times> physical_memory \<Rightarrow> (address_space \<times> physical_memory) res" where
  "ensure_table sv a s =
     (let (space, pm) = s
      in if is_present (ram pm a) then Inr s
         else bind_res (mm_allocate_page True pm) (\<lambda>(page, pm).
           Inr (space\<lparr>m_physical_pages := m_physical_pages space @ [page]\<rparr>,
                write_entry a (make_present sv (set_physical_address page (ram pm a))) pm)))"

definition map_page :: "addr \<Rightarrow> addr \<Rightarrow> is_supervisor \<Rightarrow> address_space \<times> physical_memory \<Rightarrow> (address_space \<times> physical_memory) res" where
  "map_page va pa sv s =
     bind_res (assert_that (page_is_aligned va)) (\<lambda>_.
     bind_res (assert_that (page_is_aligned pa)) (\<lambda>_.
     let (first, second, third, fourth) = virtual_address_as_paging_indices va; pml4 = m_main_page (fst s)
     in bind_res (ensure_table sv (entry_at pml4 first) s) (\<lambda>s.
        let pdpt = table_of (ram (snd s)) pml4 first
        in bind_res (ensure_table sv (entry_at pdpt second) s) (\<lambda>s.
        let pdt = table_of (ram (snd s)) pdpt second
        in bind_res (ensure_table sv (entry_at pdt third) s) (\<lambda>(space, pm).
        let pt = table_of (ram pm) pdt third; a = entry_at pt fourth
        in Inr (space, write_entry a (make_present sv (set_physical_address pa (ram pm a))) pm))))))"

definition map_huge_page :: "addr \<Rightarrow> addr \<Rightarrow> is_supervisor \<Rightarrow> address_space \<times> physical_memory \<Rightarrow> (address_space \<times> physical_memory) res" where
  "map_huge_page va pa sv s =
     bind_res (assert_that (page_is_huge_aligned va)) (\<lambda>_.
     bind_res (assert_that (page_is_huge_aligned pa)) (\<lambda>_.
     let (first, second, third, _) = virtual_address_as_paging_indices va; pml4 = m_main_page (fst s)
     in bind_res (ensure_table sv (entry_at pml4 first) s) (\<lambda>s.
        let pdpt = table_of (ram (snd s)) pml4 first
        in bind_res (ensure_table sv (entry_at pdpt second) s) (\<lambda>(space, pm).
        let pdt = table_of (ram pm) pdpt second; a = entry_at pdt third
        in Inr (space, write_entry a (set_huge True (make_present sv (set_physical_address pa (ram pm a)))) pm)))))"

text \<open>A loop that runs its body on every element of a list in turn.\<close>

fun for_each :: "('a \<Rightarrow> 's \<Rightarrow> 's res) \<Rightarrow> 'a list \<Rightarrow> 's \<Rightarrow> 's res" where
  "for_each f [] s = Inr s"
| "for_each f (x # xs) s = bind_res (f x s) (for_each f xs)"

definition map_range :: "range \<Rightarrow> range \<Rightarrow> is_supervisor \<Rightarrow> address_space \<times> physical_memory \<Rightarrow> (address_space \<times> physical_memory) res" where
  "map_range virtual_range physical_range sv s =
     bind_res (assert_that (page_is_aligned (r_begin virtual_range))) (\<lambda>_.
     bind_res (assert_that (page_is_aligned (r_begin physical_range))) (\<lambda>_.
     let page_count = range_length virtual_range div page_size
     in for_each (\<lambda>i. let offset = word_of_nat i * page_size in map_page (r_begin virtual_range + offset) (r_begin physical_range + offset) sv)
          [0..<unat page_count] s))"

definition map_huge_range :: "range \<Rightarrow> range \<Rightarrow> is_supervisor \<Rightarrow> address_space \<times> physical_memory \<Rightarrow> (address_space \<times> physical_memory) res" where
  "map_huge_range virtual_range physical_range sv s =
     bind_res (assert_that (page_is_huge_aligned (r_begin virtual_range))) (\<lambda>_.
     bind_res (assert_that (page_is_huge_aligned (range_length virtual_range))) (\<lambda>_.
     bind_res (assert_that (page_is_huge_aligned (r_begin physical_range))) (\<lambda>_.
     bind_res (assert_that (page_is_huge_aligned (range_length physical_range))) (\<lambda>_.
     let page_count = range_length virtual_range div page_huge_size
     in for_each (\<lambda>i. let offset = word_of_nat i * page_huge_size
                      in map_huge_page (r_begin virtual_range + offset) (r_begin physical_range + offset) sv)
          [0..<unat page_count] s))))"

subsection \<open>Mapping before there is an allocator\<close>

definition early_map_page :: "addr \<Rightarrow> addr \<Rightarrow> addr \<Rightarrow> physical_memory \<Rightarrow> physical_memory res" where
  "early_map_page kernel_base_table va pa pm =
     bind_res (assert_that (page_is_aligned va)) (\<lambda>_.
     let (first, second, third, fourth) = virtual_address_as_paging_indices va; m = ram pm
     in bind_res (assert_that (is_present (m (entry_at kernel_base_table first)))) (\<lambda>_.
        let pdpt = table_of m kernel_base_table first
        in bind_res (assert_that (is_present (m (entry_at pdpt second)))) (\<lambda>_.
        let pdt = table_of m pdpt second
        in bind_res (assert_that (is_present (m (entry_at pdt third)))) (\<lambda>_.
        let a = entry_at (table_of m pdt third) fourth
        in Inr (write_entry a (make_supervisor_present (set_physical_address pa (m a))) pm)))))"

definition early_map_huge_page :: "addr \<Rightarrow> addr \<Rightarrow> addr \<Rightarrow> physical_memory \<Rightarrow> physical_memory res" where
  "early_map_huge_page kernel_base_table va pa pm =
     bind_res (assert_that (page_is_huge_aligned va)) (\<lambda>_.
     bind_res (assert_that (page_is_huge_aligned pa)) (\<lambda>_.
     let (first, second, third, _) = virtual_address_as_paging_indices va; m = ram pm
     in bind_res (assert_that (is_present (m (entry_at kernel_base_table first)))) (\<lambda>_.
        let pdpt = table_of m kernel_base_table first
        in bind_res (assert_that (is_present (m (entry_at pdpt second)))) (\<lambda>_.
        let a = entry_at (table_of m pdpt second) third
        in Inr (write_entry a (set_huge True (make_supervisor_present (set_physical_address pa (m a)))) pm)))))"

definition early_map_range :: "addr \<Rightarrow> range \<Rightarrow> range \<Rightarrow> physical_memory \<Rightarrow> physical_memory res" where
  "early_map_range kernel_base_table virtual_range physical_range pm =
     bind_res (assert_that (page_is_aligned (r_begin virtual_range))) (\<lambda>_.
     bind_res (assert_that (page_is_aligned (range_length virtual_range))) (\<lambda>_.
     bind_res (assert_that (page_is_aligned (r_begin physical_range))) (\<lambda>_.
     bind_res (assert_that (page_is_aligned (range_length physical_range))) (\<lambda>_.
     for_each (\<lambda>i. let offset = word_of_nat i * page_size
                   in early_map_page kernel_base_table (r_begin virtual_range + offset) (r_begin physical_range + offset))
       [0..<unat (range_length virtual_range div page_size)] pm))))"

definition early_map_huge_range :: "addr \<Rightarrow> range \<Rightarrow> range \<Rightarrow> physical_memory \<Rightarrow> physical_memory res" where
  "early_map_huge_range kernel_base_table virtual_range physical_range pm =
     bind_res (assert_that (page_is_huge_aligned (r_begin virtual_range))) (\<lambda>_.
     bind_res (assert_that (page_is_huge_aligned (range_length virtual_range))) (\<lambda>_.
     bind_res (assert_that (page_is_huge_aligned (r_begin physical_range))) (\<lambda>_.
     bind_res (assert_that (page_is_huge_aligned (range_length physical_range))) (\<lambda>_.
     for_each (\<lambda>i. let offset = word_of_nat i * page_huge_size
                   in early_map_huge_page kernel_base_table (r_begin virtual_range + offset) (r_begin physical_range + offset))
       [0..<unat (range_length virtual_range div page_huge_size)] pm))))"

subsection \<open>Unmapping and looking up\<close>

definition local_unmap_page :: "addr \<Rightarrow> address_space \<times> physical_memory \<Rightarrow> (address_space \<times> physical_memory) res" where
  "local_unmap_page va s =
     bind_res (assert_that (page_is_aligned va)) (\<lambda>_.
     let (first, second, third, fourth) = virtual_address_as_paging_indices va; (space, pm) = s; m = ram pm;
         pdpt = table_of m (m_main_page space) first; pdt = table_of m pdpt second; pt = table_of m pdt third;
         a = entry_at pt fourth
     in Inr (space, write_entry a (set_present False (m a)) pm))"

definition local_unmap_range :: "range \<Rightarrow> address_space \<times> physical_memory \<Rightarrow> (address_space \<times> physical_memory) res" where
  "local_unmap_range r s =
     bind_res (assert_that (page_is_aligned (r_begin r))) (\<lambda>_.
     for_each (\<lambda>i. local_unmap_page (r_begin r + word_of_nat i * page_size)) [0..<unat (range_length r div page_size)] s)"

definition physical_address_of :: "addr \<Rightarrow> address_space \<Rightarrow> (addr \<Rightarrow> u64) \<Rightarrow> addr res" where
  "physical_address_of va space m =
     bind_res (assert_that (page_is_aligned va)) (\<lambda>_.
     let (first, second, third, fourth) = virtual_address_as_paging_indices va; pml4 = m_main_page space
     in if \<not> is_present (m (entry_at pml4 first)) then Inr 0
        else let pdpt = table_of m pml4 first
        in if \<not> is_present (m (entry_at pdpt second)) then Inr 0
        else let pdt = table_of m pdpt second
        in if \<not> is_present (m (entry_at pdt third)) then Inr 0
        else Inr (physical_address (m (entry_at (table_of m pdt third) fourth))))"

subsection \<open>Creating and destroying\<close>

definition kernel_first_table_index :: size_t where
  "kernel_first_table_index = 256"

definition kernel_last_table_index :: size_t where
  "kernel_last_table_index = 511"

text \<open>The entries of the kernel are copied from the table of the current address space.\<close>

definition mm_initialize :: "addr \<Rightarrow> address_space \<times> physical_memory \<Rightarrow> physical_memory" where
  "mm_initialize current s =
     (let (directory, pm) = s; byte_offset = kernel_first_table_index * entry_size;
          bytes_to_copy = (kernel_last_table_index - kernel_first_table_index + 1) * entry_size;
          target = m_main_page directory + byte_offset
      in pm\<lparr>ram := (\<lambda>a. if a - target < bytes_to_copy then ram pm (current + byte_offset + (a - target)) else ram pm a)\<rparr>)"

definition address_space_new :: "addr \<Rightarrow> physical_memory \<Rightarrow> (address_space \<times> physical_memory) res" where
  "address_space_new current pm =
     bind_res (mm_allocate_page True pm) (\<lambda>(page, pm).
     let space = \<lparr>m_physical_pages = [], m_main_page = page\<rparr>
     in Inr (space, mm_initialize current (space, pm)))"

definition free_address_space :: "addr \<Rightarrow> addr \<Rightarrow> address_space \<Rightarrow> physical_memory \<Rightarrow> physical_memory res" where
  "free_address_space kernel_table active space pm =
     bind_res (assert_that (m_main_page space \<noteq> kernel_table)) (\<lambda>_.
     bind_res (assert_that (m_main_page space \<noteq> active)) (\<lambda>_.
     bind_res (for_each mm_free_page (m_physical_pages space) pm) (\<lambda>pm. mm_free_page (m_main_page space) pm)))"

subsection \<open>Facts on entries\<close>

lemma bit_set_attributes: "bit (set_attributes a e) n \<longleftrightarrow> (if n < 12 then bit a n else bit e n)"
  using bit_imp_le_length [of e n] by (auto simp: set_attributes_def bit_simps)

lemma bit_attributes: "bit (attributes e) n \<longleftrightarrow> n < 12 \<and> bit e n"
  by (auto simp: attributes_def bit_simps)

lemma bit_set_physical_address: "bit (set_physical_address a e) n \<longleftrightarrow> (if 12 \<le> n \<and> n < 52 then bit a n else bit e n)"
  using bit_imp_le_length [of e n] by (auto simp: set_physical_address_def bit_simps)

lemma bit_physical_address: "bit (physical_address e) n \<longleftrightarrow> 12 \<le> n \<and> n < 52 \<and> bit e n"
  by (auto simp: physical_address_def bit_simps)

lemma bit_of_attribute:
  "bit PRESENT n \<longleftrightarrow> n = 0" "bit READ_WRITE n \<longleftrightarrow> n = 1" "bit USER n \<longleftrightarrow> n = 2" "bit PAGE_2MB n \<longleftrightarrow> n = 7" "\<not> bit SUPERVISOR n"
proof -
  have e: "bit (2 ^ m :: u16) n \<longleftrightarrow> n = m" if "m < 16" for m
    using that by (auto simp: bit_exp_iff)
  have "PRESENT = 2 ^ 0" "READ_WRITE = 2 ^ 1" "USER = 2 ^ 2" "PAGE_2MB = 2 ^ 7"
    by (simp_all add: PRESENT_def READ_WRITE_def USER_def PAGE_2MB_def)
  then show "bit PRESENT n \<longleftrightarrow> n = 0" "bit READ_WRITE n \<longleftrightarrow> n = 1" "bit USER n \<longleftrightarrow> n = 2" "bit PAGE_2MB n \<longleftrightarrow> n = 7"
    using e [of 0] e [of 1] e [of 2] e [of 7] by simp_all
qed (simp add: SUPERVISOR_def)

lemma is_present_bit: "is_present e \<longleftrightarrow> bit e 0"
proof -
  have "attributes e AND PRESENT \<noteq> 0 \<longleftrightarrow> bit (attributes e) 0"
    using and_exp_eq_0_iff_not_bit [of "attributes e" 0] by (simp add: PRESENT_def)
  then show ?thesis
    by (simp add: is_present_def bit_attributes)
qed

definition is_huge :: "u64 \<Rightarrow> bool" where
  "is_huge e \<longleftrightarrow> bit e 7"

definition is_user :: "u64 \<Rightarrow> bool" where
  "is_user e \<longleftrightarrow> bit e 2"

lemma bit_make_present:
  "bit (make_present sv e) n \<longleftrightarrow> (if n < 12 then n = 0 \<or> n = 1 \<or> n = 2 \<and> sv \<noteq> YES else bit e n)"
  by (auto simp: make_present_def make_supervisor_present_def make_user_present_def bit_set_attributes bit_of_attribute bit_or_iff)

lemma bit_set_present: "bit (set_present b e) n \<longleftrightarrow> (if n = 0 then b else bit e n)"
  by (auto simp: set_present_def bit_set_attributes bit_attributes bit_of_attribute bit_or_iff bit_and_iff bit_not_iff)

lemma bit_set_huge: "bit (set_huge b e) n \<longleftrightarrow> (if n = 7 then b else bit e n)"
  by (auto simp: set_huge_def bit_set_attributes bit_attributes bit_of_attribute bit_or_iff bit_and_iff bit_not_iff)

lemma page_aligned_bits: "page_is_aligned a \<longleftrightarrow> (\<forall>n < 12. \<not> bit a n)"
proof -
  have "page_is_aligned a \<longleftrightarrow> take_bit 12 a = 0"
    by (simp add: page_is_aligned_def page_size_def take_bit_eq_mod)
  also have "\<dots> \<longleftrightarrow> (\<forall>n < 12. \<not> bit a n)"
    by (auto simp: bit_eq_iff bit_simps)
  finally show ?thesis .
qed

text \<open>A physical address that an entry can hold.\<close>

definition page_frame :: "addr \<Rightarrow> bool" where
  "page_frame a \<longleftrightarrow> page_is_aligned a \<and> a < 2 ^ 52"

lemma page_frame_bits: "page_frame a \<longleftrightarrow> (\<forall>n. bit a n \<longrightarrow> 12 \<le> n \<and> n < 52)"
proof -
  have "a < 2 ^ 52 \<longleftrightarrow> take_bit 52 a = a"
    by (simp add: word_less_nat_alt word_unat_eq_iff unsigned_take_bit_eq take_bit_nat_eq_self_iff)
  also have "\<dots> \<longleftrightarrow> (\<forall>n. bit a n \<longrightarrow> n < 52)"
    using bit_imp_le_length [of a] by (auto simp: bit_eq_iff bit_simps)
  finally show ?thesis
    unfolding page_frame_def page_aligned_bits by (meson linorder_not_le)
qed

lemma physical_address_frame [simp]: "page_frame (physical_address e)"
  by (simp add: page_frame_bits bit_physical_address)

lemma page_frame_aligned: "page_frame a \<Longrightarrow> page_is_aligned a"
  by (simp add: page_frame_def)

named_theorems entry_simps \<open>fields of an entry after an update\<close>

lemmas entry_bits = bit_physical_address bit_make_present bit_set_physical_address is_present_bit is_huge_def is_user_def
  bit_set_huge bit_set_present

lemma fresh_entry [entry_simps]:
  assumes "page_frame a"
  shows "physical_address (make_present sv (set_physical_address a e)) = a"
    and "is_present (make_present sv (set_physical_address a e))" "\<not> is_huge (make_present sv (set_physical_address a e))"
    and "is_user (make_present sv (set_physical_address a e)) \<longleftrightarrow> sv \<noteq> YES"
proof -
  show "physical_address (make_present sv (set_physical_address a e)) = a"
    by (rule bit_word_eqI) (use assms in \<open>auto simp: entry_bits page_frame_bits\<close>)
qed (simp_all add: entry_bits)

lemma huge_entry [entry_simps]:
  assumes "page_frame a"
  shows "physical_address (set_huge True (make_present sv (set_physical_address a e))) = a"
    and "is_present (set_huge True (make_present sv (set_physical_address a e)))"
    and "is_huge (set_huge True (make_present sv (set_physical_address a e)))"
    and "is_user (set_huge True (make_present sv (set_physical_address a e))) \<longleftrightarrow> sv \<noteq> YES"
proof -
  show "physical_address (set_huge True (make_present sv (set_physical_address a e))) = a"
    by (rule bit_word_eqI) (use assms in \<open>auto simp: entry_bits page_frame_bits\<close>)
qed (simp_all add: entry_bits)

lemma unmapped_entry [entry_simps]:
  "\<not> is_present (set_present False e)" "physical_address (set_present False e) = physical_address e"
proof -
  show "physical_address (set_present False e) = physical_address e"
    by (rule bit_word_eqI) (auto simp: entry_bits)
qed (simp add: entry_bits)

lemma zero_entry [simp]: "\<not> is_present 0"
  by (simp add: is_present_bit)

subsection \<open>Addresses of entries\<close>

lemma index_less [simp]: "pml4_index va < 512" "pdpt_index va < 512" "pdt_index va < 512" "pt_index va < 512"
proof -
  have "w AND (entry_count - 1) < 512" for w :: size_t
  proof -
    have "w AND (entry_count - 1) \<le> 511"
      by (simp add: entry_count_def word_and_le1)
    then show ?thesis
      by (rule order.strict_trans1) simp
  qed
  then show "pml4_index va < 512" "pdpt_index va < 512" "pdt_index va < 512" "pt_index va < 512"
    by (simp_all add: pml4_index_def pdpt_index_def pdt_index_def pt_index_def)
qed

lemma unat_entry_at:
  assumes "page_is_aligned t" "i < 512"
  shows "unat (entry_at t i) = unat t + 8 * unat i" "unat i < 512"
proof -
  show i: "unat i < 512"
    using assms(2) by (simp add: word_less_nat_alt)
  have d: "4096 dvd unat t"
    using assms(1) by (auto simp: page_is_aligned_iff)
  have "unat t + 4096 \<le> 2 ^ 64"
  proof -
    obtain k where k: "unat t = 4096 * k"
      using d by (elim dvdE)
    then have "k < 2 ^ 52"
      using unat_less_64 [of t] by simp
    then show ?thesis
      using k by simp
  qed
  moreover have "unat (8 * i) = 8 * unat i"
    using i by (simp add: unat_word_ariths)
  ultimately show "unat (entry_at t i) = unat t + 8 * unat i"
    using i by (simp add: entry_at_def entry_size_def unat_add_no_wrap)
qed

lemma entry_at_eq:
  assumes "page_is_aligned t" "page_is_aligned t'" "i < 512" "j < 512"
  shows "entry_at t i = entry_at t' j \<longleftrightarrow> t = t' \<and> i = j"
proof
  assume "entry_at t i = entry_at t' j"
  then have e: "unat t + 8 * unat i = unat t' + 8 * unat j"
    using unat_entry_at(1) [OF assms(1,3)] unat_entry_at(1) [OF assms(2,4)] by simp
  have m: "unat t mod 4096 = 0" "unat t' mod 4096 = 0"
    using assms(1,2) by (simp_all add: page_is_aligned_iff)
  have lt: "unat i < 512" "unat j < 512"
    using unat_entry_at(2) assms by simp_all
  have "(unat t + 8 * unat i) div 4096 = unat t div 4096" "(unat t' + 8 * unat j) div 4096 = unat t' div 4096"
    using m lt by (simp_all add: div_add1_eq [of "unat t"] div_add1_eq [of "unat t'"])
  then have "unat t = unat t'"
    using e m by (metis div_mult_mod_eq)
  then show "t = t' \<and> i = j"
    using e by (simp add: word_unat_eq_iff)
qed simp

lemma entry_in_page:
  assumes "page_is_aligned t" "page_is_aligned p" "i < 512"
  shows "unat (entry_at t i - p) < 4096 \<longleftrightarrow> t = p"
proof
  assume "t = p"
  then have "p \<le> entry_at t i"
    using unat_entry_at(1) [OF assms(1,3)] by (simp add: word_le_nat_alt)
  then show "unat (entry_at t i - p) < 4096"
    using unat_entry_at [OF assms(1,3)] \<open>t = p\<close> by (simp add: unat_sub)
next
  assume lt: "unat (entry_at t i - p) < 4096"
  define k where "k = unat (entry_at t i - p)"
  obtain m where m: "unat p = 4096 * m"
    using assms(2) by (auto simp: page_is_aligned_iff)
  have "m < 2 ^ 52"
    using m unat_less_64 [of p] by simp
  then have no: "unat p + k < 2 ^ 64"
    using lt m by (simp add: k_def)
  have "entry_at t i = p + (entry_at t i - p)"
    by simp
  then have "unat (entry_at t i) = unat p + k"
    using no unat_add_no_wrap [of p "entry_at t i - p"] by (simp add: k_def)
  then have e: "unat t + 8 * unat i = unat p + k"
    using unat_entry_at(1) [OF assms(1,3)] by simp
  have "unat i < 512"
    using unat_entry_at(2) [OF assms(1,3)] .
  then have "(unat t + 8 * unat i) div 4096 = unat t div 4096" "(unat p + k) div 4096 = unat p div 4096"
    using assms(1,2) lt by (simp_all add: div_add1_eq [of "unat t"] div_add1_eq [of "unat p"] page_is_aligned_iff k_def)
  then show "t = p"
    using e assms(1,2) unfolding page_is_aligned_iff by (metis div_mult_mod_eq word_unat_eq_iff)
qed

subsection \<open>The walk of the processor\<close>

text \<open>
  The processor follows the entries of the four levels. It stops at an entry that is not present,
  and with the entry, the number of levels left and the permission of user mode where a page
  begins: in the last table, or above it where bit 7 is set. In the first table bit 7 is reserved.
\<close>

fun walk :: "(addr \<Rightarrow> u64) \<Rightarrow> addr \<Rightarrow> bool \<Rightarrow> size_t list \<Rightarrow> (u64 \<times> nat \<times> bool) option" where
  "walk m t u [] = None"
| "walk m t u (i # is) =
     (let e = m (entry_at t i); u = (u \<and> is_user e)
      in if \<not> is_present e then None
         else if is = [] then Some (e, 0, u)
         else if is_huge e then (if length is \<le> 2 then Some (e, length is, u) else None)
         else walk m (physical_address e) u is)"

definition indices :: "addr \<Rightarrow> size_t list" where
  "indices va = [pml4_index va, pdpt_index va, pdt_index va, pt_index va]"

text \<open>The physical address of a virtual address, and whether user mode may use it.\<close>

definition translate :: "(addr \<Rightarrow> u64) \<Rightarrow> addr \<Rightarrow> addr \<Rightarrow> (addr \<times> bool) option" where
  "translate m root va =
     map_option (\<lambda>(e, l, u). ((physical_address e AND NOT (mask (12 + 9 * l))) + take_bit (12 + 9 * l) va, u))
       (walk m root True (indices va))"

text \<open>The table that a path of indices leads to.\<close>

fun table_at :: "(addr \<Rightarrow> u64) \<Rightarrow> addr \<Rightarrow> size_t list \<Rightarrow> addr option" where
  "table_at m t [] = Some t"
| "table_at m t (i # is) =
     (let e = m (entry_at t i) in if is_present e \<and> \<not> is_huge e then table_at m (physical_address e) is else None)"

fun users :: "(addr \<Rightarrow> u64) \<Rightarrow> addr \<Rightarrow> size_t list \<Rightarrow> bool" where
  "users m t [] \<longleftrightarrow> True"
| "users m t (i # is) \<longleftrightarrow> is_user (m (entry_at t i)) \<and> users m (physical_address (m (entry_at t i))) is"

lemma table_at_append: "table_at m t (p @ q) = Option.bind (table_at m t p) (\<lambda>t'. table_at m t' q)"
  by (induction p arbitrary: t) (simp_all add: Let_def)

lemma table_at_snoc:
  "table_at m t (p @ [i]) = Some t' \<longleftrightarrow>
     (\<exists>s. table_at m t p = Some s \<and> is_present (m (entry_at s i)) \<and> \<not> is_huge (m (entry_at s i)) \<and> t' = physical_address (m (entry_at s i)))"
  by (auto simp: table_at_append bind_eq_Some_conv Let_def)

lemma walk_append:
  "table_at m t p = Some t' \<Longrightarrow> q \<noteq> [] \<Longrightarrow> walk m t u (p @ q) = walk m t' (u \<and> users m t p) q"
  by (induction p arbitrary: t u) (auto simp: Let_def conj_assoc split: if_splits)

lemma table_at_frame: "page_frame t \<Longrightarrow> table_at m t p = Some t' \<Longrightarrow> page_frame t'"
proof (induction p arbitrary: t)
  case (Cons i p)
  then show ?case
    using physical_address_frame by (auto simp: Let_def split: if_splits simp del: physical_address_frame)
qed simp

text \<open>Two memories that agree on the entries along a path agree on what it leads to.\<close>

definition same_entries :: "(addr \<Rightarrow> u64) \<Rightarrow> (addr \<Rightarrow> u64) \<Rightarrow> addr \<Rightarrow> size_t list \<Rightarrow> bool" where
  "same_entries m m' t is \<longleftrightarrow>
     (\<forall>q j r s. is = q @ j # r \<longrightarrow> table_at m t q = Some s \<longrightarrow> m' (entry_at s j) = m (entry_at s j))"

lemma same_entries_Cons:
  "same_entries m m' t (i # is) \<longleftrightarrow> m' (entry_at t i) = m (entry_at t i)
     \<and> (is_present (m (entry_at t i)) \<and> \<not> is_huge (m (entry_at t i)) \<longrightarrow> same_entries m m' (physical_address (m (entry_at t i))) is)"
  (is "?l \<longleftrightarrow> ?r")
proof
  assume l: ?l
  have "m' (entry_at t i) = m (entry_at t i)"
    using l unfolding same_entries_def by (metis append_Nil table_at.simps(1))
  moreover have "same_entries m m' (physical_address (m (entry_at t i))) is"
    if e: "is_present (m (entry_at t i))" "\<not> is_huge (m (entry_at t i))"
    unfolding same_entries_def
  proof (intro allI impI)
    fix q j r s assume "is = q @ j # r" "table_at m (physical_address (m (entry_at t i))) q = Some s"
    then have "i # is = (i # q) @ j # r" "table_at m t (i # q) = Some s"
      using e by (simp_all add: Let_def)
    then show "m' (entry_at s j) = m (entry_at s j)"
      using l unfolding same_entries_def by blast
  qed
  ultimately show ?r
    by blast
next
  assume r: ?r
  show ?l
    unfolding same_entries_def
  proof (intro allI impI)
    fix q j r' s assume q: "i # is = q @ j # r'" "table_at m t q = Some s"
    show "m' (entry_at s j) = m (entry_at s j)"
    proof (cases q)
      case Nil
      then show ?thesis
        using q r by simp
    next
      case (Cons a q')
      then show ?thesis
        using q r unfolding same_entries_def by (auto simp: Let_def split: if_splits)
    qed
  qed
qed

lemma same_entries_walk: "same_entries m m' t is \<Longrightarrow> walk m' t u is = walk m t u is"
  by (induction "is" arbitrary: t u) (auto simp: same_entries_Cons Let_def)

lemma same_entries_table: "same_entries m m' t is \<Longrightarrow> table_at m' t is = table_at m t is"
  by (induction "is" arbitrary: t) (auto simp: same_entries_Cons Let_def)

lemma same_entries_append: "same_entries m m' t (p @ q) \<Longrightarrow> same_entries m m' t p"
  unfolding same_entries_def by (metis append.assoc append_Cons)

subsection \<open>Tables that are not shared\<close>

definition wf_path :: "size_t list \<Rightarrow> bool" where
  "wf_path p \<longleftrightarrow> (\<forall>i \<in> set p. i < 512)"

definition tables_of :: "(addr \<Rightarrow> u64) \<Rightarrow> addr \<Rightarrow> addr set" where
  "tables_of m root = {t. \<exists>p. wf_path p \<and> length p \<le> 3 \<and> table_at m root p = Some t}"

definition space_ok :: "addr set \<Rightarrow> (addr \<Rightarrow> u64) \<Rightarrow> addr \<Rightarrow> bool" where
  "space_ok F m root \<longleftrightarrow> page_frame root \<and> tables_of m root \<inter> F = {}
     \<and> (\<forall>p q t. wf_path p \<longrightarrow> wf_path q \<longrightarrow> length p \<le> 3 \<longrightarrow> length q \<le> 3 \<longrightarrow>
          table_at m root p = Some t \<longrightarrow> table_at m root q = Some t \<longrightarrow> p = q)"

lemma wf_path_simps [simp]: "wf_path []" "wf_path (i # p) \<longleftrightarrow> i < 512 \<and> wf_path p" "wf_path (p @ q) \<longleftrightarrow> wf_path p \<and> wf_path q"
  by (auto simp: wf_path_def)

lemma wf_indices [simp]: "wf_path (indices va)" "length (indices va) = 4"
  by (simp_all add: indices_def)

lemma space_ok_unique:
  "space_ok F m root \<Longrightarrow> wf_path p \<Longrightarrow> wf_path q \<Longrightarrow> length p \<le> 3 \<Longrightarrow> length q \<le> 3 \<Longrightarrow>
     table_at m root p = Some t \<Longrightarrow> table_at m root q = Some t \<Longrightarrow> p = q"
  unfolding space_ok_def by blast

text \<open>Writing one entry leaves alone every path that does not use it.\<close>

lemma same_entries_write:
  assumes ok: "space_ok F m root" and p: "wf_path p" "length p \<le> 3" "table_at m root p = Some t" "i < 512"
    and q: "wf_path is" "length is \<le> 4" "\<nexists>r. is = p @ i # r"
  shows "same_entries m (m(entry_at t i := e)) root is"
  unfolding same_entries_def
proof (intro allI impI)
  fix q j r s assume s: "is = q @ j # r" "table_at m root q = Some s"
  have wf: "wf_path q" "j < 512" "length q \<le> 3"
    using q s(1) by simp_all
  have "page_is_aligned t" "page_is_aligned s"
    using ok table_at_frame p(3) s(2) by (auto simp: space_ok_def intro!: page_frame_aligned)
  then have "entry_at s j = entry_at t i \<longleftrightarrow> s = t \<and> j = i"
    using wf(2) p(4) by (intro entry_at_eq)
  moreover have "\<not> (s = t \<and> j = i)"
    using space_ok_unique [OF ok wf(1) p(1) wf(3) p(2)] s p(3) q(3) by blast
  ultimately show "(m(entry_at t i := e)) (entry_at s j) = m (entry_at s j)"
    by simp
qed

text \<open>Zeroing a page that is not a table leaves every path alone.\<close>

lemma same_entries_zero:
  assumes ok: "space_ok F m root" and f: "f \<in> F" "page_is_aligned f" and q: "wf_path is" "length is \<le> 4"
  shows "same_entries m (zero_page f m) root is"
  unfolding same_entries_def
proof (intro allI impI)
  fix q j r s assume s: "is = q @ j # r" "table_at m root q = Some s"
  have wf: "wf_path q" "j < 512" "length q \<le> 3"
    using \<open>wf_path is\<close> \<open>length is \<le> 4\<close> s(1) by simp_all
  have "page_is_aligned s"
    using ok table_at_frame s(2) by (auto simp: space_ok_def intro!: page_frame_aligned)
  moreover have "s \<in> tables_of m root"
    using wf s(2) by (auto simp: tables_of_def)
  then have "s \<noteq> f"
    using ok f(1) by (auto simp: space_ok_def)
  ultimately show "zero_page f m (entry_at s j) = m (entry_at s j)"
    using entry_in_page [OF _ f(2) wf(2), of s] by (simp add: zero_page_def)
qed

subsection \<open>Adding a table\<close>

lemma space_ok_cong:
  assumes eq: "\<And>q. wf_path q \<Longrightarrow> length q \<le> 3 \<Longrightarrow> table_at m' root q = table_at m root q"
  shows "space_ok F m' root \<longleftrightarrow> space_ok F m root" "tables_of m' root = tables_of m root"
proof -
  show tables: "tables_of m' root = tables_of m root"
    unfolding tables_of_def using eq by metis
  show "space_ok F m' root \<longleftrightarrow> space_ok F m root"
    unfolding space_ok_def tables by (simp add: eq cong: imp_cong)
qed

definition attach :: "(addr \<Rightarrow> u64) \<Rightarrow> addr \<Rightarrow> addr \<Rightarrow> size_t \<Rightarrow> u64 \<Rightarrow> (addr \<Rightarrow> u64)" where
  "attach m f t i e = (zero_page f m)(entry_at t i := e)"

definition can_attach :: "addr set \<Rightarrow> (addr \<Rightarrow> u64) \<Rightarrow> addr \<Rightarrow> size_t list \<Rightarrow> addr \<Rightarrow> size_t \<Rightarrow> addr \<Rightarrow> u64 \<Rightarrow> bool" where
  "can_attach F m root p t i f e \<longleftrightarrow> space_ok F m root \<and> wf_path p \<and> length p \<le> 2 \<and> table_at m root p = Some t \<and> i < 512
     \<and> \<not> is_present (m (entry_at t i)) \<and> f \<in> F \<and> page_frame f
     \<and> is_present e \<and> \<not> is_huge e \<and> physical_address e = f"

lemma attach_zeroed:
  assumes c: "can_attach F m root p t i f e"
  shows "space_ok F (zero_page f m) root" "table_at (zero_page f m) root p = Some t"
    and "\<And>q. wf_path q \<Longrightarrow> length q \<le> 4 \<Longrightarrow> table_at (zero_page f m) root q = table_at m root q"
    and "\<And>q u. wf_path q \<Longrightarrow> length q \<le> 4 \<Longrightarrow> walk (zero_page f m) root u q = walk m root u q"
proof -
  have f: "f \<in> F" "page_is_aligned f" and ok: "space_ok F m root"
    using c by (simp_all add: can_attach_def page_frame_def)
  show eq: "table_at (zero_page f m) root q = table_at m root q" if "wf_path q" "length q \<le> 4" for q
    using same_entries_table [OF same_entries_zero [OF ok f that]] .
  show "walk (zero_page f m) root u q = walk m root u q" if "wf_path q" "length q \<le> 4" for q u
    using same_entries_walk [OF same_entries_zero [OF ok f that]] .
  show "table_at (zero_page f m) root p = Some t"
    using eq [of p] c by (simp add: can_attach_def)
  show "space_ok F (zero_page f m) root"
    using ok eq by (subst space_ok_cong [of _ _ m]) simp_all
qed

lemma attach_table_at:
  assumes c: "can_attach F m root p t i f e" and q: "wf_path q" "length q \<le> 3"
  shows "table_at (attach m f t i e) root q = Some s \<longleftrightarrow> table_at m root q = Some s \<or> q = p @ [i] \<and> s = f"
proof -
  note z = attach_zeroed [OF c]
  have p: "wf_path p" "length p \<le> 3" "i < 512" "table_at m root p = Some t"
    and e: "is_present e" "\<not> is_huge e" "physical_address e = f"
    and old: "\<not> is_present (m (entry_at t i))" and f: "f \<in> F" "page_is_aligned f" and al: "page_is_aligned t"
    using c table_at_frame [of root m p t] by (auto simp: can_attach_def space_ok_def intro: page_frame_aligned)
  let ?m = "attach m f t i e"
  show ?thesis
  proof (cases "\<exists>r. q = p @ i # r")
    case False
    then have "same_entries (zero_page f m) ?m root q"
      unfolding attach_def using q by (intro same_entries_write [OF z(1) p(1,2) z(2) p(3)]) auto
    then show ?thesis
      using same_entries_table z(3) [OF q(1)] q(2) False by fastforce
  next
    case True
    then obtain r where r: "q = p @ i # r"
      by blast
    have "same_entries (zero_page f m) ?m root p"
      unfolding attach_def using p(1,2) by (intro same_entries_write [OF z(1) p(1,2) z(2) p(3)]) auto
    then have "table_at ?m root p = Some t"
      using same_entries_table z(2) by metis
    then have new: "table_at ?m root q = table_at ?m f r"
      using e by (simp add: r table_at_append attach_def Let_def)
    have "t \<in> tables_of m root"
      using p by (auto simp: tables_of_def)
    then have "t \<noteq> f"
      using c f(1) by (auto simp: can_attach_def space_ok_def)
    then have "?m (entry_at f j) = 0" if "j < 512" for j
      using that f(2) al p(3) entry_in_page [OF f(2,2) that] by (simp add: attach_def zero_page_def entry_at_eq)
    then have "table_at ?m f r = (if r = [] then Some f else None)"
      using q(1) r by (cases r) simp_all
    moreover have "table_at m root q = None"
      using p(4) old by (simp add: r table_at_append)
    ultimately show ?thesis
      using new r by auto
  qed
qed

lemma attach_ok:
  assumes c: "can_attach F m root p t i f e"
  shows "space_ok (F - {f}) (attach m f t i e) root" "table_at (attach m f t i e) root (p @ [i]) = Some f"
    and "\<And>q s. wf_path q \<Longrightarrow> length q \<le> 3 \<Longrightarrow> table_at m root q = Some s \<Longrightarrow> table_at (attach m f t i e) root q = Some s"
proof -
  note at = attach_table_at [OF c]
  have ok: "space_ok F m root" and f: "f \<in> F" and p: "wf_path (p @ [i])" "length (p @ [i]) \<le> 3"
    using c by (simp_all add: can_attach_def)
  show "table_at (attach m f t i e) root (p @ [i]) = Some f"
    using at [OF p] by simp
  show "\<And>q s. wf_path q \<Longrightarrow> length q \<le> 3 \<Longrightarrow> table_at m root q = Some s \<Longrightarrow> table_at (attach m f t i e) root q = Some s"
    using at by blast
  have no_f: "table_at m root q \<noteq> Some f" if "wf_path q" "length q \<le> 3" for q
    using ok f that unfolding space_ok_def tables_of_def by blast
  have "tables_of (attach m f t i e) root \<subseteq> insert f (tables_of m root)"
    using at by (auto simp: tables_of_def)
  moreover have "q = r" if "wf_path q" "wf_path r" "length q \<le> 3" "length r \<le> 3" "table_at (attach m f t i e) root q = Some s"
      "table_at (attach m f t i e) root r = Some s" for q r s
    using that at [OF that(1,3)] at [OF that(2,4)] no_f space_ok_unique [OF ok that(1-4), of s] by metis
  ultimately show "space_ok (F - {f}) (attach m f t i e) root"
    using ok unfolding space_ok_def by blast
qed

text \<open>No address gets a translation from a new table.\<close>

lemma attach_walk:
  assumes c: "can_attach F m root p t i f e" and q: "wf_path is" "length is = 4"
  shows "walk (attach m f t i e) root u is = walk m root u is"
proof -
  note z = attach_zeroed [OF c]
  have p: "wf_path p" "length p \<le> 2" "i < 512" "table_at m root p = Some t"
    and e: "is_present e" "\<not> is_huge e" "physical_address e = f"
    and old: "\<not> is_present (m (entry_at t i))" and f: "f \<in> F" "page_is_aligned f" and al: "page_is_aligned t"
    using c table_at_frame [of root m p t] by (auto simp: can_attach_def space_ok_def intro: page_frame_aligned)
  have p3: "length p \<le> 3"
    using p(2) by simp
  let ?m = "attach m f t i e"
  show ?thesis
  proof (cases "\<exists>r. is = p @ i # r")
    case False
    then have "same_entries (zero_page f m) ?m root is"
      unfolding attach_def using q by (intro same_entries_write [OF z(1) p(1) p3 z(2) p(3)]) auto
    then show ?thesis
      using same_entries_walk z(4) [OF q(1)] q(2) by fastforce
  next
    case True
    then obtain r where r: "is = p @ i # r"
      by blast
    then obtain j r' where j: "r = j # r'"
      using q(2) p(2) by (cases r) auto
    have "table_at ?m root p = Some t"
      using attach_ok(3) [OF c p(1) p3 p(4)] .
    then have new: "walk ?m root u is = walk ?m f (u \<and> users ?m root p \<and> is_user e) r"
      using e by (simp add: r j walk_append attach_def Let_def conj_assoc)
    have "t \<in> tables_of m root"
      using p p3 by (auto simp: tables_of_def)
    then have "t \<noteq> f"
      using c f(1) by (auto simp: can_attach_def space_ok_def)
    moreover have "j < 512"
      using q(1) r j by simp
    ultimately have "?m (entry_at f j) = 0"
      using f(2) al p(3) entry_in_page [OF f(2,2), of j] by (simp add: attach_def zero_page_def entry_at_eq)
    then have "walk ?m root u is = None"
      unfolding new by (simp add: j)
    moreover have "walk m root u is = None"
      using p(4) old by (simp add: r walk_append)
    ultimately show ?thesis
      by simp
  qed
qed

subsection \<open>Other address spaces\<close>

text \<open>The tables that an address space does not share with the kernel: the first one, and those for the lower half of the addresses.\<close>

definition user_path :: "size_t list \<Rightarrow> bool" where
  "user_path p \<longleftrightarrow> p = [] \<or> hd p < kernel_first_table_index"

definition user_tables :: "(addr \<Rightarrow> u64) \<Rightarrow> addr \<Rightarrow> addr set" where
  "user_tables m root = {t. \<exists>p. wf_path p \<and> length p \<le> 3 \<and> user_path p \<and> table_at m root p = Some t}"

definition other_space :: "addr set \<Rightarrow> (addr \<Rightarrow> u64) \<Rightarrow> addr \<Rightarrow> addr \<Rightarrow> bool" where
  "other_space F m root r \<longleftrightarrow> page_frame r \<and> tables_of m r \<inter> (F \<union> user_tables m root) = {}"

lemma other_same_entries:
  assumes r: "page_frame r" "f \<notin> tables_of m r" "t \<notin> tables_of m r" "page_is_aligned f" "page_is_aligned t" "i < 512"
    and q: "wf_path is" "length is \<le> 4"
  shows "same_entries m (attach m f t i e) r is" "same_entries m (m(entry_at t i := e)) r is"
proof -
  have "m1 (entry_at s j) = m (entry_at s j)"
    if "is = q @ j # r'" "table_at m r q = Some s" "m1 = attach m f t i e \<or> m1 = m(entry_at t i := e)" for m1 q j r' s
  proof -
    have wf: "wf_path q" "j < 512" "length q \<le> 3"
      using q that(1) by simp_all
    then have "s \<in> tables_of m r"
      using that(2) by (auto simp: tables_of_def)
    then have "s \<noteq> f" "s \<noteq> t"
      using r by auto
    moreover have "page_is_aligned s"
      using table_at_frame [OF r(1) that(2)] by (rule page_frame_aligned)
    ultimately show ?thesis
      using that(3) r(4-6) wf(2) entry_in_page [of s f j] entry_at_eq [of s t j i] by (auto simp: attach_def zero_page_def)
  qed
  then show "same_entries m (attach m f t i e) r is" "same_entries m (m(entry_at t i := e)) r is"
    unfolding same_entries_def by blast+
qed

lemma other_unchanged:
  assumes "\<And>is. wf_path is \<Longrightarrow> length is \<le> 4 \<Longrightarrow> same_entries m m' r is"
  shows "tables_of m' r = tables_of m r" "\<And>u is. wf_path is \<Longrightarrow> length is \<le> 4 \<Longrightarrow> walk m' r u is = walk m r u is"
proof -
  show "tables_of m' r = tables_of m r"
    by (rule space_ok_cong(2)) (use assms in \<open>auto intro!: same_entries_table\<close>)
  show "\<And>u is. wf_path is \<Longrightarrow> length is \<le> 4 \<Longrightarrow> walk m' r u is = walk m r u is"
    using assms by (intro same_entries_walk)
qed

lemma other_attach:
  assumes c: "can_attach F m root p t i f e" and u: "user_path (p @ [i])" and r: "other_space F m root r"
  shows "other_space (F - {f}) (attach m f t i e) root r"
    and "\<And>u is. wf_path is \<Longrightarrow> length is \<le> 4 \<Longrightarrow> walk (attach m f t i e) r u is = walk m r u is"
proof -
  have up: "user_path p"
    using u by (cases p) (simp_all add: user_path_def)
  have cc: "page_frame root" "wf_path p" "length p \<le> 3" "table_at m root p = Some t"
    and f: "f \<in> F" "page_is_aligned f" "i < 512"
    using c by (simp_all add: can_attach_def space_ok_def page_frame_def)
  have al: "page_is_aligned t"
    using table_at_frame [OF cc(1,4)] by (rule page_frame_aligned)
  have "t \<in> user_tables m root"
    using cc up unfolding user_tables_def by blast
  then have no: "f \<notin> tables_of m r" "t \<notin> tables_of m r" "page_frame r"
    using r f(1) by (auto simp: other_space_def)
  note same = other_unchanged [of m "attach m f t i e" r, OF other_same_entries(1) [OF no(3,1,2) f(2) al f(3)]]
  show "\<And>u is. wf_path is \<Longrightarrow> length is \<le> 4 \<Longrightarrow> walk (attach m f t i e) r u is = walk m r u is"
    by (rule same(2))
  have "user_tables (attach m f t i e) root \<subseteq> insert f (user_tables m root)"
    using attach_table_at [OF c] by (auto simp: user_tables_def)
  then show "other_space (F - {f}) (attach m f t i e) root r"
    using r no same(1) by (auto simp: other_space_def)
qed

subsection \<open>Steps that add tables\<close>

definition path_users :: "(addr \<Rightarrow> u64) \<Rightarrow> addr \<Rightarrow> size_t list \<Rightarrow> bool" where
  "path_users m root is \<longleftrightarrow> (\<forall>q r s. is = q @ r \<longrightarrow> table_at m root q = Some s \<longrightarrow> users m root q)"

lemma users_append: "table_at m t p = Some t' \<Longrightarrow> users m t (p @ q) \<longleftrightarrow> users m t p \<and> users m t' q"
  by (induction p arbitrary: t) (auto simp: Let_def split: if_splits)

lemma same_entries_users: "same_entries m m' t p \<Longrightarrow> table_at m t p = Some s \<Longrightarrow> users m' t p = users m t p"
  by (induction p arbitrary: t) (auto simp: same_entries_Cons Let_def split: if_splits)

lemma attach_users:
  assumes c: "can_attach F m root p t i f e"
  shows "\<And>q s. wf_path q \<Longrightarrow> length q \<le> 3 \<Longrightarrow> table_at m root q = Some s \<Longrightarrow> users (attach m f t i e) root q = users m root q"
    and "path_users m root is \<Longrightarrow> is_user e \<Longrightarrow> wf_path is \<Longrightarrow> length is \<le> 3 \<Longrightarrow> path_users (attach m f t i e) root is"
proof -
  note z = attach_zeroed [OF c]
  have p: "wf_path p" "length p \<le> 3" "i < 512" "table_at m root p = Some t" "\<not> is_present (m (entry_at t i))"
    and ok: "space_ok F m root" and f: "f \<in> F" "page_is_aligned f"
    using c by (simp_all add: can_attach_def page_frame_def)
  show old: "users (attach m f t i e) root q = users m root q" if q: "wf_path q" "length q \<le> 3" "table_at m root q = Some s" for q s
  proof -
    have "\<nexists>r. q = p @ i # r"
      using q(3) p(4,5) by (auto simp: table_at_append)
    then have "same_entries (zero_page f m) (attach m f t i e) root q"
      unfolding attach_def using q(1,2) by (intro same_entries_write [OF z(1) p(1,2) z(2) p(3)]) auto
    moreover have "same_entries m (zero_page f m) root q"
      using q(1,2) by (intro same_entries_zero [OF ok f]) auto
    ultimately show ?thesis
      using same_entries_users q(3) same_entries_table by metis
  qed
  assume us: "path_users m root is" "is_user e" "wf_path is" "length is \<le> 3"
  show "path_users (attach m f t i e) root is"
    unfolding path_users_def
  proof (intro allI impI)
    fix q r s assume q: "is = q @ r" "table_at (attach m f t i e) root q = Some s"
    then have wf: "wf_path q" "length q \<le> 3"
      using us(3,4) by simp_all
    from q(2) consider "table_at m root q = Some s" | "q = p @ [i]"
      unfolding attach_table_at [OF c wf] by blast
    then show "users (attach m f t i e) root q"
    proof cases
      case 1
      then show ?thesis
        using old [OF wf] us(1) q(1) by (auto simp: path_users_def)
    next
      case 2
      have "users (attach m f t i e) root p"
        using old [OF p(1,2,4)] us(1) p(4) q(1) 2 unfolding path_users_def by (metis append.assoc)
      then show ?thesis
        using us(2) attach_ok(3) [OF c p(1,2,4)] by (simp add: 2 users_append attach_def)
    qed
  qed
qed

text \<open>No huge page lies on the path.\<close>

definition no_huge :: "(addr \<Rightarrow> u64) \<Rightarrow> addr \<Rightarrow> size_t list \<Rightarrow> bool" where
  "no_huge m root is \<longleftrightarrow> (\<forall>q j r s. is = q @ j # r \<longrightarrow> table_at m root q = Some s \<longrightarrow>
     is_present (m (entry_at s j)) \<longrightarrow> \<not> is_huge (m (entry_at s j)))"

lemma attach_no_huge:
  assumes c: "can_attach F m root p t i f e" and path: "wf_path is" "length is \<le> 3" and old: "no_huge m root is"
  shows "no_huge (attach m f t i e) root is"
  unfolding no_huge_def
proof (intro allI impI)
  fix q j r s
  assume q: "is = q @ j # r" "table_at (attach m f t i e) root q = Some s" and pr: "is_present (attach m f t i e (entry_at s j))"
  have wf: "wf_path q" "length q \<le> 3" "j < 512"
    using path q(1) by simp_all
  have f: "f \<in> F" "page_is_aligned f" and ok: "space_ok F m root" and e: "\<not> is_huge e"
    and t: "table_at m root p = Some t" "i < 512"
    using c by (simp_all add: can_attach_def page_frame_def)
  have root: "page_frame root"
    using ok by (simp add: space_ok_def)
  have al: "page_is_aligned t" "page_is_aligned s"
    using page_frame_aligned [OF table_at_frame [OF root]] t(1) q(2) by blast+
  show "\<not> is_huge (attach m f t i e (entry_at s j))"
  proof (cases "entry_at s j = entry_at t i")
    case True
    then show ?thesis
      using e by (simp add: attach_def)
  next
    case False
    then have at: "attach m f t i e (entry_at s j) = (if s = f then 0 else m (entry_at s j))"
      using entry_in_page [OF al(2) f(2) wf(3)] by (simp add: attach_def zero_page_def)
    then have "s \<noteq> f"
      using pr by auto
    then have "table_at m root q = Some s"
      using q(2) attach_table_at [OF c wf(1,2)] by blast
    then show ?thesis
      using old q(1) pr at \<open>s \<noteq> f\<close> by (auto simp: no_huge_def)
  qed
qed

definition memory_ok :: "physical_memory \<Rightarrow> bool" where
  "memory_ok pm \<longleftrightarrow> pm_inv pm \<and> (\<forall>p \<in> managed_pages pm. page_frame p)"

text \<open>
  Pages were added to an address space: they were free and now belong to it, every table that
  was there is still there, and no translation has changed, neither here nor, as far as tables
  of the lower half are concerned, in an address space that shares only the kernel's tables.
\<close>

definition adds_pages :: "address_space \<times> physical_memory \<Rightarrow> addr list \<Rightarrow> address_space \<times> physical_memory \<Rightarrow> bool" where
  "adds_pages s ps s' \<longleftrightarrow> memory_ok (snd s') \<and> m_main_page (fst s') = m_main_page (fst s)
     \<and> managed_pages (snd s') = managed_pages (snd s) \<and> m_physical_pages (fst s') = m_physical_pages (fst s) @ ps
     \<and> distinct ps \<and> set ps \<subseteq> free_pages (snd s) \<and> used_pages (snd s') = used_pages (snd s) \<union> set ps"

definition same_translations :: "(addr \<Rightarrow> u64) \<Rightarrow> (addr \<Rightarrow> u64) \<Rightarrow> addr \<Rightarrow> bool" where
  "same_translations m m' root \<longleftrightarrow> (\<forall>is u. wf_path is \<longrightarrow> length is = 4 \<longrightarrow> walk m' root u is = walk m root u is)"

definition keeps_others :: "address_space \<times> physical_memory \<Rightarrow> address_space \<times> physical_memory \<Rightarrow> bool" where
  "keeps_others s s' \<longleftrightarrow>
     (\<forall>r. other_space (free_pages (snd s)) (ram (snd s)) (m_main_page (fst s)) r \<longrightarrow>
        other_space (free_pages (snd s')) (ram (snd s')) (m_main_page (fst s')) r \<and> same_translations (ram (snd s)) (ram (snd s')) r)"

definition space_inv :: "address_space \<times> physical_memory \<Rightarrow> bool" where
  "space_inv s \<longleftrightarrow> memory_ok (snd s) \<and> space_ok (free_pages (snd s)) (ram (snd s)) (m_main_page (fst s))"

lemma adds_pages_refl: "memory_ok (snd s) \<Longrightarrow> adds_pages s [] s"
  by (simp add: adds_pages_def)

lemma adds_pages_trans: "adds_pages s ps s1 \<Longrightarrow> adds_pages s1 qs s2 \<Longrightarrow> adds_pages s (ps @ qs) s2"
  by (auto simp: adds_pages_def free_pages_def)

lemma same_translations_trans: "same_translations m m1 r \<Longrightarrow> same_translations m1 m2 r \<Longrightarrow> same_translations m m2 r"
  by (simp add: same_translations_def)

lemma keeps_others_refl: "keeps_others s s"
  by (simp add: keeps_others_def same_translations_def)

lemma keeps_others_trans: "keeps_others s s1 \<Longrightarrow> keeps_others s1 s2 \<Longrightarrow> keeps_others s s2"
  unfolding keeps_others_def by (blast intro: same_translations_trans)

definition ensures_table :: "is_supervisor \<Rightarrow> bool \<Rightarrow> address_space \<times> physical_memory \<Rightarrow> addr list \<Rightarrow> address_space \<times> physical_memory \<Rightarrow> bool" where
  "ensures_table sv usr s ps s' \<longleftrightarrow> space_inv s' \<and> adds_pages s ps s' \<and> length ps \<le> 1
     \<and> same_translations (ram (snd s)) (ram (snd s')) (m_main_page (fst s))
     \<and> (\<forall>q t. wf_path q \<longrightarrow> length q \<le> 3 \<longrightarrow> table_at (ram (snd s)) (m_main_page (fst s)) q = Some t \<longrightarrow>
          table_at (ram (snd s')) (m_main_page (fst s)) q = Some t)
     \<and> (usr \<longrightarrow> keeps_others s s')
     \<and> (\<forall>is. wf_path is \<longrightarrow> length is \<le> 3 \<longrightarrow> no_huge (ram (snd s)) (m_main_page (fst s)) is \<longrightarrow> no_huge (ram (snd s')) (m_main_page (fst s)) is)
     \<and> (\<forall>is. sv \<noteq> YES \<longrightarrow> wf_path is \<longrightarrow> length is \<le> 3 \<longrightarrow> path_users (ram (snd s)) (m_main_page (fst s)) is \<longrightarrow> path_users (ram (snd s')) (m_main_page (fst s)) is)"

lemma ensure_table_ok:
  assumes inv: "space_inv s" and p: "wf_path p" "length p \<le> 2" "i < 512" "table_at (ram (snd s)) (m_main_page (fst s)) p = Some t"
    and e: "is_present (ram (snd s) (entry_at t i)) \<longrightarrow> \<not> is_huge (ram (snd s) (entry_at t i))"
    and path: "usr \<longrightarrow> user_path (p @ [i])"
  shows "ensure_table sv (entry_at t i) s = Inl Panic \<and> free_pages (snd s) = {}
    \<or> (\<exists>ps s'. ensure_table sv (entry_at t i) s = Inr s' \<and> ensures_table sv usr s ps s'
         \<and> table_at (ram (snd s')) (m_main_page (fst s)) (p @ [i]) = Some (table_of (ram (snd s')) t i))"
proof -
  obtain space pm where s: "s = (space, pm)"
    by (cases s)
  let ?m = "ram pm" and ?root = "m_main_page space" and ?F = "free_pages pm" and ?a = "entry_at t i"
  have mem: "memory_ok pm" and ok: "space_ok ?F ?m ?root" and t: "table_at ?m ?root p = Some t"
    using inv p(4) by (simp_all add: space_inv_def s)
  show ?thesis
  proof (cases "is_present (?m ?a)")
    case True
    then have "ensures_table sv usr s [] s"
      using inv adds_pages_refl [of s] mem by (simp add: ensures_table_def same_translations_def keeps_others_refl s)
    moreover have "table_at ?m ?root (p @ [i]) = Some (table_of ?m t i)"
      using t True e by (simp add: table_at_append table_of_def s)
    ultimately show ?thesis
      using True by (auto simp: ensure_table_def s)
  next
    case False
    show ?thesis
    proof (cases "?F = {}")
      case True
      then show ?thesis
        using False mm_allocate_page_ok [of pm True] mem by (simp add: ensure_table_def s memory_ok_def)
    next
      case free: False
      obtain f pm1 where f: "mm_allocate_page True pm = Inr (f, pm1)" "pm_inv pm1" "f \<in> ?F" "managed_pages pm1 = managed_pages pm"
          "used_pages pm1 = insert f (used_pages pm)" "ram pm1 = zero_page f ?m"
        using mm_allocate_page_ok [of pm True] mem free by (auto simp: memory_ok_def)
      define e where "e = make_present sv (set_physical_address f (ram pm1 ?a))"
      define s' where "s' = (space\<lparr>m_physical_pages := m_physical_pages space @ [f]\<rparr>, write_entry ?a e pm1)"
      have frame: "page_frame f"
        using f(3) mem by (simp add: memory_ok_def free_pages_def)
      have c: "can_attach ?F ?m ?root p t i f e"
        using ok p t f(3) frame False by (simp add: can_attach_def e_def entry_simps)
      have m': "ram (snd s') = attach ?m f t i e" and F: "free_pages (snd s') = ?F - {f}"
          and sets: "managed_pages (snd s') = managed_pages pm" "used_pages (snd s') = insert f (used_pages pm)"
        using f(4-6) by (auto simp: s'_def write_entry_def attach_def free_pages_def managed_pages_def used_pages_def)
      have mem': "memory_ok (snd s')"
        using f(2,4) mem by (simp add: memory_ok_def s'_def write_entry_def pm_inv_def managed_pages_def)
      have "space_inv s'"
        using mem' attach_ok(1) [OF c] by (simp add: space_inv_def m' F) (simp add: s'_def)
      moreover have "adds_pages s [f] s'"
        using mem' f(3) sets by (auto simp: adds_pages_def s s'_def)
      moreover have "same_translations ?m (ram (snd s')) ?root"
        using attach_walk [OF c] by (simp add: same_translations_def m')
      moreover have "keeps_others s s'" if usr
        using other_attach [OF c] path that by (auto simp: keeps_others_def m' F same_translations_def s) (auto simp: s'_def)
      moreover have "path_users (ram (snd s')) ?root is" if "sv \<noteq> YES" "path_users ?m ?root is" "wf_path is" "length is \<le> 3" for "is"
        using attach_users(2) [OF c that(2) _ that(3,4)] that(1) frame by (simp add: m' e_def entry_simps)
      ultimately have "ensures_table sv usr s [f] s'"
        using attach_ok(3) [OF c] attach_no_huge [OF c] by (simp add: ensures_table_def s m')
      moreover have "ensure_table sv ?a s = Inr s'"
        using False f(1) by (simp add: ensure_table_def s s'_def e_def)
      moreover have "table_of (ram (snd s')) t i = f"
        using frame by (simp add: table_of_def m' attach_def e_def entry_simps)
      ultimately show ?thesis
        using attach_ok(2) [OF c] by (auto simp: m' s)
    qed
  qed
qed

subsection \<open>Mapping a page\<close>

text \<open>What three levels of tables are for: the table for the last index exists.\<close>

definition prepared :: "is_supervisor \<Rightarrow> bool \<Rightarrow> address_space \<times> physical_memory \<Rightarrow> addr list \<Rightarrow> address_space \<times> physical_memory \<Rightarrow> bool" where
  "prepared sv usr s ps s' \<longleftrightarrow> space_inv s' \<and> adds_pages s ps s'
     \<and> same_translations (ram (snd s)) (ram (snd s')) (m_main_page (fst s))
     \<and> (usr \<longrightarrow> keeps_others s s')
     \<and> (\<forall>is. sv \<noteq> YES \<longrightarrow> wf_path is \<longrightarrow> length is \<le> 3 \<longrightarrow> path_users (ram (snd s)) (m_main_page (fst s)) is \<longrightarrow> path_users (ram (snd s')) (m_main_page (fst s)) is)
     \<and> (\<forall>is. wf_path is \<longrightarrow> length is \<le> 3 \<longrightarrow> no_huge (ram (snd s)) (m_main_page (fst s)) is \<longrightarrow> no_huge (ram (snd s')) (m_main_page (fst s)) is)"

lemma prepared_refl: "space_inv s \<Longrightarrow> prepared sv usr s [] s"
  using adds_pages_refl [of s] by (simp add: prepared_def space_inv_def same_translations_def keeps_others_refl)

lemma prepared_step:
  assumes "prepared sv usr s ps s1" "ensures_table sv usr s1 qs s2"
  shows "prepared sv usr s (ps @ qs) s2"
proof -
  have "m_main_page (fst s1) = m_main_page (fst s)"
    using assms(1) by (simp add: prepared_def adds_pages_def)
  then show ?thesis
    using assms by (auto simp: prepared_def ensures_table_def intro: adds_pages_trans same_translations_trans keeps_others_trans)
qed

fun ensure_path :: "is_supervisor \<Rightarrow> addr \<Rightarrow> size_t list \<Rightarrow> address_space \<times> physical_memory \<Rightarrow> (addr \<times> address_space \<times> physical_memory) res" where
  "ensure_path sv t [] s = Inr (t, s)"
| "ensure_path sv t (i # is) s =
     bind_res (ensure_table sv (entry_at t i) s) (\<lambda>s. ensure_path sv (table_of (ram (snd s)) t i) is s)"

lemma free_pages_added:
  assumes "adds_pages s ps s'" "free_pages (snd s') = {}"
  shows "card (free_pages (snd s)) \<le> length ps"
proof -
  have "free_pages (snd s) \<subseteq> set ps"
    using assms by (auto simp: adds_pages_def free_pages_def)
  then show ?thesis
    by (meson List.finite_set card_length card_mono le_trans)
qed

lemma ensure_path_ok:
  assumes "prepared sv usr s0 ps s" "root = m_main_page (fst s0)" "table_at (ram (snd s)) root p = Some t" "wf_path (p @ r)" "length (p @ r) \<le> 3"
    "no_huge (ram (snd s0)) root (p @ r)" "usr \<Longrightarrow> user_path (p @ r)" "length ps \<le> length p"
  shows "ensure_path sv t r s = Inl Panic \<and> card (free_pages (snd s0)) < length (p @ r)
    \<or> (\<exists>ps' s' t'. ensure_path sv t r s = Inr (t', s') \<and> prepared sv usr s0 ps' s' \<and> length ps' \<le> length (p @ r)
        \<and> table_at (ram (snd s')) root (p @ r) = Some t')"
  using assms
proof (induction r arbitrary: p t s ps)
  case Nil
  then show ?case
    by auto
next
  case (Cons i r)
  have inv: "space_inv s" and root: "root = m_main_page (fst s)" and nh: "no_huge (ram (snd s)) root (p @ i # r)"
    using Cons.prems(1,2,4-6) unfolding prepared_def adds_pages_def by auto
  have p: "wf_path p" "length p \<le> 2" "i < 512"
    using Cons.prems(4,5) by simp_all
  have up: "usr \<longrightarrow> user_path (p @ [i])"
    using Cons.prems(7) by (cases p) (simp_all add: user_path_def)
  have "is_present (ram (snd s) (entry_at t i)) \<longrightarrow> \<not> is_huge (ram (snd s) (entry_at t i))"
    using nh Cons.prems(3) unfolding no_huge_def by blast
  from ensure_table_ok [OF inv p Cons.prems(3) [unfolded root] this up, of sv]
  show ?case
  proof (elim disjE conjE exE)
    assume "ensure_table sv (entry_at t i) s = Inl Panic" "free_pages (snd s) = {}"
    moreover have "card (free_pages (snd s0)) \<le> length ps"
      using free_pages_added [of s0 ps s] Cons.prems(1) \<open>free_pages (snd s) = {}\<close> by (simp add: prepared_def)
    ultimately show ?thesis
      using Cons.prems(8) by simp
  next
    fix qs s1
    assume e: "ensure_table sv (entry_at t i) s = Inr s1" "ensures_table sv usr s qs s1"
      "table_at (ram (snd s1)) (m_main_page (fst s)) (p @ [i]) = Some (table_of (ram (snd s1)) t i)"
    have "length qs \<le> 1"
      using e(2) by (simp add: ensures_table_def)
    then show ?thesis
      using Cons.IH [OF prepared_step [OF Cons.prems(1) e(2)] Cons.prems(2), of "p @ [i]"] e(1,3) Cons.prems(4-8) root by simp
  qed
qed

subsection \<open>Writing the entry of a page\<close>

definition page_entry :: "(addr \<Rightarrow> u64) \<Rightarrow> addr \<Rightarrow> size_t list \<Rightarrow> addr \<Rightarrow> size_t \<Rightarrow> u64 \<Rightarrow> bool" where
  "page_entry m root q t j e \<longleftrightarrow> wf_path q \<and> 1 \<le> length q \<and> length q \<le> 3 \<and> j < 512 \<and> table_at m root q = Some t
     \<and> (length q = 3 \<or> is_huge e)"

lemma write_table_at:
  assumes ok: "space_ok F m root" and w: "page_entry m root q t j e" and p: "wf_path p" "length p \<le> 3"
  shows "table_at (m(entry_at t j := e)) root p = (if \<exists>r. p = q @ j # r then None else table_at m root p)"
proof (cases "\<exists>r. p = q @ j # r")
  case True
  then obtain r where r: "p = q @ j # r"
    by blast
  have q: "wf_path q" "length q \<le> 3" "j < 512" "table_at m root q = Some t"
    using w by (simp_all add: page_entry_def)
  have "same_entries m (m(entry_at t j := e)) root q"
    using q by (intro same_entries_write [OF ok q(1,2,4,3)]) auto
  then have "table_at (m(entry_at t j := e)) root q = Some t"
    using same_entries_table q(4) by metis
  moreover have "is_huge e"
    using w p(2) r by (auto simp: page_entry_def)
  ultimately show ?thesis
    by (simp add: r table_at_append Let_def)
next
  case False
  then have "same_entries m (m(entry_at t j := e)) root p"
    using w p by (intro same_entries_write [OF ok, of q]) (auto simp: page_entry_def)
  then show ?thesis
    using False same_entries_table by simp
qed

lemma write_space_ok:
  assumes ok: "space_ok F m root" and w: "page_entry m root q t j e"
  shows "space_ok F (m(entry_at t j := e)) root"
proof -
  have sub: "table_at m root p = Some s" if "wf_path p" "length p \<le> 3" "table_at (m(entry_at t j := e)) root p = Some s" for p s
    using write_table_at [OF ok w that(1,2)] that(3) by (simp split: if_splits)
  then have "tables_of (m(entry_at t j := e)) root \<subseteq> tables_of m root"
    unfolding tables_of_def by blast
  then show ?thesis
    using ok sub unfolding space_ok_def by blast
qed

lemma write_walk:
  assumes ok: "space_ok F m root" and w: "page_entry m root q t j e" and p: "wf_path is" "length is = 4"
  shows "walk (m(entry_at t j := e)) root u is
    = (if take (Suc (length q)) is = q @ [j]
       then if is_present e then Some (e, 3 - length q, u \<and> users m root q \<and> is_user e) else None
       else walk m root u is)"
proof (cases "take (Suc (length q)) is = q @ [j]")
  case True
  define r where "r = drop (Suc (length q)) is"
  have r: "is = q @ j # r"
    using True append_take_drop_id [of "Suc (length q)" "is"] by (simp add: r_def)
  have q: "wf_path q" "length q \<le> 3" "j < 512" "table_at m root q = Some t" "1 \<le> length q" "length q = 3 \<or> is_huge e"
    using w by (simp_all add: page_entry_def)
  have len: "length r = 3 - length q"
    using p(2) r q(2) by simp
  have same: "same_entries m (m(entry_at t j := e)) root q"
    using q by (intro same_entries_write [OF ok q(1,2,4,3)]) auto
  then have "table_at (m(entry_at t j := e)) root q = Some t"
    using same_entries_table q(4) by metis
  then have "walk (m(entry_at t j := e)) root u is = walk (m(entry_at t j := e)) t (u \<and> users m root q) (j # r)"
    using same_entries_users [OF same q(4)] by (simp add: r walk_append)
  moreover have "r = [] \<longleftrightarrow> length q = 3" "length r \<le> 2"
    using len q(2,5) by auto
  ultimately show ?thesis
    using True q(6) len by (auto simp: Let_def)
next
  case False
  then have "same_entries m (m(entry_at t j := e)) root is"
    using w p by (intro same_entries_write [OF ok, of q]) (auto simp: page_entry_def)
  then show ?thesis
    using False same_entries_walk by simp
qed

lemma write_other:
  assumes ok: "space_ok F m root" and w: "page_entry m root q t j e" and u: "user_path q" and r: "other_space F m root r"
  shows "other_space F (m(entry_at t j := e)) root r" "same_translations m (m(entry_at t j := e)) r"
proof -
  have q: "wf_path q" "length q \<le> 3" "j < 512" "table_at m root q = Some t"
    using w by (simp_all add: page_entry_def)
  have "t \<in> user_tables m root"
    using q u unfolding user_tables_def by blast
  then have no: "t \<notin> tables_of m r" "page_frame r"
    using r by (auto simp: other_space_def)
  have "page_frame root"
    using ok by (simp add: space_ok_def)
  then have al: "page_is_aligned t"
    using table_at_frame q(4) page_frame_aligned by blast
  note same = other_unchanged [of m "m(entry_at t j := e)" r, OF other_same_entries(2) [OF no(2,1,1) al al q(3)]]
  show "same_translations m (m(entry_at t j := e)) r"
    using same(2) by (simp add: same_translations_def)
  have "user_tables (m(entry_at t j := e)) root \<subseteq> user_tables m root"
    using write_table_at [OF ok w] by (auto simp: user_tables_def split: if_splits)
  then show "other_space F (m(entry_at t j := e)) root r"
    using r same(1) by (auto simp: other_space_def)
qed

lemma write_no_huge:
  assumes ok: "space_ok F m root" and w: "page_entry m root q t j e" "length q = 3"
    and path: "wf_path is" "length is \<le> 3" "no_huge m root is"
  shows "no_huge (m(entry_at t j := e)) root is"
  unfolding no_huge_def
proof (intro allI impI)
  fix p k r s
  assume p: "is = p @ k # r" "table_at (m(entry_at t j := e)) root p = Some s" "is_present ((m(entry_at t j := e)) (entry_at s k))"
  have wf: "wf_path p" "length p \<le> 2" "k < 512"
    using path p(1) by simp_all
  then have s: "table_at m root p = Some s"
    using p(2) write_table_at [OF ok w(1), of p] by (simp split: if_splits)
  have "\<nexists>r. p @ [k] = q @ j # r"
    using wf(2) w(2) by (auto dest: arg_cong [where f = length])
  then have "same_entries m (m(entry_at t j := e)) root (p @ [k])"
    using w wf by (intro same_entries_write [OF ok, of q]) (simp_all add: page_entry_def)
  then have "(m(entry_at t j := e)) (entry_at s k) = m (entry_at s k)"
    using s unfolding same_entries_def by blast
  then show "\<not> is_huge ((m(entry_at t j := e)) (entry_at s k))"
    using path(3) p(1,3) s unfolding no_huge_def by auto
qed

lemma write_entry_simps [simp]:
  "ram (write_entry a e pm) = (ram pm)(a := e)" "managed_pages (write_entry a e pm) = managed_pages pm"
  "used_pages (write_entry a e pm) = used_pages pm" "free_pages (write_entry a e pm) = free_pages pm"
  "memory_ok (write_entry a e pm) = memory_ok pm"
  by (simp_all add: write_entry_def managed_pages_def used_pages_def free_pages_def memory_ok_def pm_inv_def)

definition page_entry_for :: "is_supervisor \<Rightarrow> size_t list \<Rightarrow> addr \<Rightarrow> u64 \<Rightarrow> u64" where
  "page_entry_for sv q pa e =
     (if length q = 3 then make_present sv (set_physical_address pa e) else set_huge True (make_present sv (set_physical_address pa e)))"

text \<open>A page was mapped: the addresses below a path of indices lead to it, every other address is translated as before.\<close>

definition maps_page :: "is_supervisor \<Rightarrow> size_t list \<Rightarrow> size_t \<Rightarrow> addr \<Rightarrow> address_space \<times> physical_memory \<Rightarrow> addr list \<Rightarrow> address_space \<times> physical_memory \<Rightarrow> bool" where
  "maps_page sv q j pa s ps s' \<longleftrightarrow> space_inv s' \<and> adds_pages s ps s' \<and> length ps \<le> length q
     \<and> (user_path q \<longrightarrow> keeps_others s s')
     \<and> (\<exists>e u. physical_address e = pa \<and> (sv = YES \<longrightarrow> \<not> u) \<and> (sv \<noteq> YES \<and> path_users (ram (snd s)) (m_main_page (fst s)) q \<longrightarrow> u)
          \<and> (\<forall>is v. wf_path is \<longrightarrow> length is = 4 \<longrightarrow> walk (ram (snd s')) (m_main_page (fst s)) v is
               = (if take (Suc (length q)) is = q @ [j] then Some (e, 3 - length q, v \<and> u) else walk (ram (snd s)) (m_main_page (fst s)) v is)))
     \<and> (length q = 3 \<longrightarrow> (\<forall>is. wf_path is \<longrightarrow> length is \<le> 3 \<longrightarrow> no_huge (ram (snd s)) (m_main_page (fst s)) is \<longrightarrow>
          no_huge (ram (snd s')) (m_main_page (fst s)) is))"

lemma map_entry_ok:
  fixes sv :: is_supervisor
  assumes inv: "space_inv s" and q: "wf_path q" "1 \<le> length q" "length q \<le> 3" "j < 512" "no_huge (ram (snd s)) (m_main_page (fst s)) q"
    and pa: "page_frame pa"
  defines "result \<equiv> bind_res (ensure_path sv (m_main_page (fst s)) q s) (\<lambda>(t, space, pm).
      Inr (space, write_entry (entry_at t j) (page_entry_for sv q pa (ram pm (entry_at t j))) pm))"
  shows "result = Inl Panic \<and> card (free_pages (snd s)) < length q \<or> (\<exists>ps s'. result = Inr s' \<and> maps_page sv q j pa s ps s')"
proof -
  let ?root = "m_main_page (fst s)" and ?usr = "user_path q"
  have "prepared sv ?usr s [] s"
    using prepared_refl [OF inv] .
  from ensure_path_ok [OF this refl, of "[]" ?root q] q
  consider "ensure_path sv ?root q s = Inl Panic" "card (free_pages (snd s)) < length q"
    | ps s1 t where "ensure_path sv ?root q s = Inr (t, s1)" "prepared sv ?usr s ps s1" "length ps \<le> length q" "table_at (ram (snd s1)) ?root q = Some t"
    by auto
  then show ?thesis
  proof cases
    case 1
    then show ?thesis
      by (simp add: result_def)
  next
    case 2
    obtain space1 pm1 where s1: "s1 = (space1, pm1)"
      by (cases s1)
    define e where "e = page_entry_for sv q pa (ram pm1 (entry_at t j))"
    define s' where "s' = (space1, write_entry (entry_at t j) e pm1)"
    have res: "result = Inr s'"
      by (simp add: result_def 2(1) s1 s'_def e_def)
    have e: "physical_address e = pa" "is_present e" "is_user e \<longleftrightarrow> sv \<noteq> YES" "length q = 3 \<or> is_huge e"
      using pa by (simp_all add: e_def page_entry_for_def entry_simps)
    have root: "m_main_page space1 = ?root"
      using 2(2) by (simp add: prepared_def adds_pages_def s1)
    have ok: "space_ok (free_pages pm1) (ram pm1) ?root" and mem: "memory_ok pm1"
      using 2(2) root by (simp_all add: prepared_def space_inv_def s1)
    have w: "page_entry (ram pm1) ?root q t j e"
      using q 2(4) e(4) by (simp add: page_entry_def s1)
    have inv': "space_inv s'"
      using mem write_space_ok [OF ok w] root by (simp add: space_inv_def s'_def)
    have adds: "adds_pages s ps s'"
      using 2(2) mem by (simp add: prepared_def adds_pages_def s1 s'_def)
    have others: "keeps_others s s'" if "?usr"
    proof -
      have "keeps_others s1 s'"
        using write_other [OF ok w that] root by (simp add: keeps_others_def s1 s'_def)
      then show ?thesis
        using 2(2) that keeps_others_trans [of s s1 s'] by (simp add: prepared_def)
    qed
    have walk: "walk (ram (snd s')) ?root v is = (if take (Suc (length q)) is = q @ [j]
        then Some (e, 3 - length q, v \<and> users (ram pm1) ?root q \<and> is_user e) else walk (ram (snd s)) ?root v is)"
      if "wf_path is" "length is = 4" for "is" v
      using write_walk [OF ok w that] e(2) 2(2) that by (simp add: s'_def prepared_def same_translations_def s1)
    have us: "users (ram pm1) ?root q" if "sv \<noteq> YES" "path_users (ram (snd s)) ?root q"
    proof -
      have "path_users (ram pm1) ?root q"
        using 2(2) that q(1,3) by (simp add: prepared_def s1)
      then show ?thesis
        using 2(4) unfolding path_users_def s1 by (metis append_Nil2 snd_conv)
    qed
    have nh: "no_huge (ram (snd s')) ?root is"
      if "length q = 3" "wf_path is" "length is \<le> 3" "no_huge (ram (snd s)) ?root is" for "is"
      using write_no_huge [OF ok w that(1-3)] 2(2) that by (simp add: s'_def prepared_def s1)
    have "maps_page sv q j pa s ps s'"
      unfolding maps_page_def using inv' adds others walk us nh e(1,3) 2(3)
      by (intro conjI exI [of _ e] exI [of _ "users (ram pm1) ?root q \<and> is_user e"]) simp_all
    then show ?thesis
      using res by blast
  qed
qed

lemma map_page_eq:
  assumes "page_is_aligned va" "page_is_aligned pa"
  shows "map_page va pa sv s = bind_res (ensure_path sv (m_main_page (fst s)) [pml4_index va, pdpt_index va, pdt_index va] s) (\<lambda>(t, space, pm).
      Inr (space, write_entry (entry_at t (pt_index va))
        (page_entry_for sv [pml4_index va, pdpt_index va, pdt_index va] pa (ram pm (entry_at t (pt_index va)))) pm))"
  using assms
  by (simp add: map_page_def virtual_address_as_paging_indices_def Let_def bind_res_assoc page_entry_for_def case_prod_unfold)

lemma map_huge_page_eq:
  assumes "page_is_huge_aligned va" "page_is_huge_aligned pa"
  shows "map_huge_page va pa sv s = bind_res (ensure_path sv (m_main_page (fst s)) [pml4_index va, pdpt_index va] s) (\<lambda>(t, space, pm).
      Inr (space, write_entry (entry_at t (pdt_index va))
        (page_entry_for sv [pml4_index va, pdpt_index va] pa (ram pm (entry_at t (pdt_index va)))) pm))"
  using assms
  by (simp add: map_huge_page_def virtual_address_as_paging_indices_def Let_def bind_res_assoc page_entry_for_def case_prod_unfold)

subsection \<open>Canonical addresses\<close>

definition canonical :: "addr \<Rightarrow> bool" where
  "canonical a \<longleftrightarrow> (\<forall>n. 47 \<le> n \<longrightarrow> n < 64 \<longrightarrow> bit a n = bit a 47)"

lemma bit_index:
  "bit (pml4_index va) k \<longleftrightarrow> k < 9 \<and> bit va (k + 39)" "bit (pdpt_index va) k \<longleftrightarrow> k < 9 \<and> bit va (k + 30)"
  "bit (pdt_index va) k \<longleftrightarrow> k < 9 \<and> bit va (k + 21)" "bit (pt_index va) k \<longleftrightarrow> k < 9 \<and> bit va (k + 12)"
proof -
  have "entry_count - 1 = mask 9"
    by (simp add: entry_count_def mask_eq_exp_minus_1)
  then show "bit (pml4_index va) k \<longleftrightarrow> k < 9 \<and> bit va (k + 39)" "bit (pdpt_index va) k \<longleftrightarrow> k < 9 \<and> bit va (k + 30)"
    "bit (pdt_index va) k \<longleftrightarrow> k < 9 \<and> bit va (k + 21)" "bit (pt_index va) k \<longleftrightarrow> k < 9 \<and> bit va (k + 12)"
    by (auto simp: pml4_index_def pdpt_index_def pdt_index_def pt_index_def bit_simps add.commute)
qed

lemma index_eq_bits:
  assumes "\<And>k. bit (f a) k \<longleftrightarrow> k < 9 \<and> bit a (k + n)" "\<And>k. bit (f b) k \<longleftrightarrow> k < 9 \<and> bit b (k + n)"
  shows "f a = (f b :: size_t) \<longleftrightarrow> (\<forall>k. n \<le> k \<longrightarrow> k < n + 9 \<longrightarrow> bit a k = bit b k)"
proof
  assume "f a = f b"
  then have eq: "k < 9 \<Longrightarrow> bit a (k + n) = bit b (k + n)" for k
    using assms by metis
  show "\<forall>k. n \<le> k \<longrightarrow> k < n + 9 \<longrightarrow> bit a k = bit b k"
  proof (intro allI impI)
    fix k assume "n \<le> k" "k < n + 9"
    then show "bit a k = bit b k"
      using eq [of "k - n"] by simp
  qed
next
  assume eq: "\<forall>k. n \<le> k \<longrightarrow> k < n + 9 \<longrightarrow> bit a k = bit b k"
  show "f a = f b"
  proof (rule bit_word_eqI)
    fix k
    show "bit (f a) k = bit (f b) k"
      using assms(1) [of k] assms(2) [of k] eq [rule_format, of "k + n"] by auto
  qed
qed

lemmas index_eqs = index_eq_bits [of pml4_index, OF bit_index(1) bit_index(1)] index_eq_bits [of pdpt_index, OF bit_index(2) bit_index(2)]
  index_eq_bits [of pdt_index, OF bit_index(3) bit_index(3)] index_eq_bits [of pt_index, OF bit_index(4) bit_index(4)]

lemma indices_eq_bits: "indices a = indices b \<longleftrightarrow> (\<forall>k. 12 \<le> k \<longrightarrow> k < 48 \<longrightarrow> bit a k = bit b k)"
proof -
  have "bit a k = bit b k" if "\<forall>k. 39 \<le> k \<longrightarrow> k < 48 \<longrightarrow> bit a k = bit b k" "\<forall>k. 30 \<le> k \<longrightarrow> k < 39 \<longrightarrow> bit a k = bit b k"
      "\<forall>k. 21 \<le> k \<longrightarrow> k < 30 \<longrightarrow> bit a k = bit b k" "\<forall>k. 12 \<le> k \<longrightarrow> k < 21 \<longrightarrow> bit a k = bit b k" "12 \<le> k" "k < 48" for k
    using that by (meson linorder_not_le)
  then show ?thesis
    unfolding indices_def list.inject index_eqs by auto
qed

lemma page_round_down_bits: "bit (page_round_down a) k \<longleftrightarrow> 12 \<le> k \<and> bit a k"
proof -
  have "page_round_down a = a AND NOT (mask 12)"
    by (simp add: word_unat_eq_iff unat_page_round_down unat_and_not_mask)
  then show ?thesis
    using bit_imp_le_length [of a k] by (auto simp: bit_simps)
qed

lemma same_page_iff:
  assumes "canonical a" "canonical b"
  shows "indices a = indices b \<longleftrightarrow> page_round_down a = page_round_down b"
proof
  assume "indices a = indices b"
  then have eq: "bit a k = bit b k" if "12 \<le> k" "k < 48" for k
    using that by (simp add: indices_eq_bits)
  have "bit a k = bit b k" if "12 \<le> k" "k < 64" for k
  proof (cases "k < 48")
    case False
    then have "bit a k = bit a 47" "bit b k = bit b 47"
      using that(2) by (auto intro!: assms(1) [unfolded canonical_def, rule_format] assms(2) [unfolded canonical_def, rule_format])
    then show ?thesis
      using eq [of 47] by simp
  qed (use eq that in simp)
  then show "page_round_down a = page_round_down b"
    by (intro bit_word_eqI) (auto simp: page_round_down_bits)
next
  assume "page_round_down a = page_round_down b"
  then have "12 \<le> k \<Longrightarrow> bit a k = bit b k" for k
    by (metis page_round_down_bits)
  then show "indices a = indices b"
    by (simp add: indices_eq_bits)
qed

subsection \<open>Translations after an operation\<close>

lemma path_of: "take 4 (indices va) = [pml4_index va, pdpt_index va, pdt_index va] @ [pt_index va]"
  by (simp add: indices_def)

lemma translate_mapped:
  assumes m: "maps_page sv [pml4_index va, pdpt_index va, pdt_index va] (pt_index va) pa s ps s'" and pa: "page_frame pa"
    and va: "canonical va" "page_is_aligned va"
  shows "\<exists>u. (sv = YES \<longrightarrow> \<not> u) \<and> (sv \<noteq> YES \<and> path_users (ram (snd s)) (m_main_page (fst s)) [pml4_index va, pdpt_index va, pdt_index va] \<longrightarrow> u)
    \<and> (\<forall>a. canonical a \<longrightarrow> translate (ram (snd s')) (m_main_page (fst s)) a
         = (if page_round_down a = va then Some (pa + (a - va), u) else translate (ram (snd s)) (m_main_page (fst s)) a))"
proof -
  let ?q = "[pml4_index va, pdpt_index va, pdt_index va]" and ?root = "m_main_page (fst s)"
  obtain e u where e: "physical_address e = pa" and u: "sv = YES \<longrightarrow> \<not> u" "sv \<noteq> YES \<and> path_users (ram (snd s)) ?root ?q \<longrightarrow> u"
      and walk: "\<And>is v. wf_path is \<Longrightarrow> length is = 4 \<Longrightarrow> walk (ram (snd s')) ?root v is
               = (if take 4 is = ?q @ [pt_index va] then Some (e, 0, v \<and> u) else walk (ram (snd s)) ?root v is)"
  proof -
    have l: "Suc (length ?q) = 4" "3 - length ?q = 0"
      by simp_all
    show ?thesis
      using m that unfolding maps_page_def l by blast
  qed
  have tr: "translate (ram (snd s')) ?root a
      = (if indices a = indices va then Some ((pa AND NOT (mask 12)) + take_bit 12 a, u) else translate (ram (snd s)) ?root a)" for a
  proof -
    have "take 4 (indices a) = ?q @ [pt_index va] \<longleftrightarrow> indices a = indices va"
      by (simp add: indices_def)
    then show ?thesis
      using walk [of "indices a" True] e by (simp add: translate_def)
  qed
  have "page_round_down va = va"
    using va(2) by simp
  then have same: "indices a = indices va \<longleftrightarrow> page_round_down a = va" if "canonical a" for a
    using same_page_iff [OF that va(1)] by simp
  have "pa AND NOT (mask 12) = pa"
    using pa by (intro bit_word_eqI) (auto simp: page_frame_bits bit_simps)
  moreover have "take_bit 12 a = a - page_round_down a" for a
  proof -
    have "page_round_down a = a AND NOT (mask 12)"
      by (simp add: word_unat_eq_iff unat_page_round_down unat_and_not_mask)
    then show ?thesis
      by (simp add: and_not_mask_eq take_bit_eq_mask)
  qed
  ultimately show ?thesis
    using tr same u by (intro exI [of _ u]) auto
qed

lemma translate_unchanged:
  assumes "same_translations m m' r"
  shows "translate m' r a = translate m r a"
  using assms by (simp add: translate_def same_translations_def)

definition upper_path :: "addr \<Rightarrow> size_t list" where
  "upper_path va = [pml4_index va, pdpt_index va, pdt_index va]"

lemma upper_path_simps [simp]: "wf_path (upper_path va)" "length (upper_path va) = 3"
  by (simp_all add: upper_path_def)

lemma indices_upper_path: "indices va = upper_path va @ [pt_index va]"
  by (simp add: indices_def upper_path_def)

lemma map_page_step:
  assumes inv: "space_inv s" and va: "page_is_aligned va" "canonical va" and pa: "page_frame pa"
    and nh: "no_huge (ram (snd s)) (m_main_page (fst s)) (upper_path va)"
  shows "map_page va pa sv s = Inl Panic \<and> card (free_pages (snd s)) < 3
    \<or> (\<exists>ps s' u. map_page va pa sv s = Inr s' \<and> space_inv s' \<and> adds_pages s ps s' \<and> length ps \<le> 3
         \<and> (sv = YES \<longrightarrow> \<not> u) \<and> (sv \<noteq> YES \<and> path_users (ram (snd s)) (m_main_page (fst s)) (upper_path va) \<longrightarrow> u)
         \<and> (\<forall>a. canonical a \<longrightarrow> translate (ram (snd s')) (m_main_page (fst s)) a
              = (if page_round_down a = va then Some (pa + (a - va), u) else translate (ram (snd s)) (m_main_page (fst s)) a))
         \<and> (user_path (upper_path va) \<longrightarrow> keeps_others s s')
         \<and> (\<forall>is. wf_path is \<longrightarrow> length is \<le> 3 \<longrightarrow> no_huge (ram (snd s)) (m_main_page (fst s)) is \<longrightarrow> no_huge (ram (snd s')) (m_main_page (fst s)) is))"
proof -
  have eq: "map_page va pa sv s = bind_res (ensure_path sv (m_main_page (fst s)) (upper_path va) s) (\<lambda>(t, space, pm).
      Inr (space, write_entry (entry_at t (pt_index va)) (page_entry_for sv (upper_path va) pa (ram pm (entry_at t (pt_index va)))) pm))"
    using map_page_eq [OF va(1) page_frame_aligned [OF pa]] by (simp add: upper_path_def)
  have "map_page va pa sv s = Inl Panic \<and> card (free_pages (snd s)) < 3
      \<or> (\<exists>ps s'. map_page va pa sv s = Inr s' \<and> maps_page sv (upper_path va) (pt_index va) pa s ps s')"
    using map_entry_ok [OF inv, of "upper_path va" "pt_index va" pa sv] nh pa by (simp add: eq)
  then show ?thesis
  proof (elim disjE exE conjE)
    fix ps s' assume r: "map_page va pa sv s = Inr s'" and m: "maps_page sv (upper_path va) (pt_index va) pa s ps s'"
    from translate_mapped [OF m [unfolded upper_path_def] pa va(2,1)] obtain u where u: "sv = YES \<longrightarrow> \<not> u"
        "sv \<noteq> YES \<and> path_users (ram (snd s)) (m_main_page (fst s)) (upper_path va) \<longrightarrow> u"
        "\<forall>a. canonical a \<longrightarrow> translate (ram (snd s')) (m_main_page (fst s)) a
              = (if page_round_down a = va then Some (pa + (a - va), u) else translate (ram (snd s)) (m_main_page (fst s)) a)"
      unfolding upper_path_def by blast
    have "space_inv s' \<and> adds_pages s ps s' \<and> length ps \<le> 3 \<and> (user_path (upper_path va) \<longrightarrow> keeps_others s s')
        \<and> (\<forall>is. wf_path is \<longrightarrow> length is \<le> 3 \<longrightarrow> no_huge (ram (snd s)) (m_main_page (fst s)) is \<longrightarrow> no_huge (ram (snd s')) (m_main_page (fst s)) is)"
      using m by (simp add: maps_page_def)
    with r u show ?thesis
      by blast
  qed simp
qed

subsection \<open>Unmapping\<close>

lemma table_of_path:
  "table_at m root (upper_path va) = Some t \<Longrightarrow>
     t = table_of m (table_of m (table_of m root (pml4_index va)) (pdpt_index va)) (pdt_index va)"
  by (auto simp: upper_path_def table_of_def Let_def split: if_splits)

lemma local_unmap_page_step:
  assumes inv: "space_inv (space, pm)" and va: "page_is_aligned va" "canonical va"
    and t: "table_at (ram pm) (m_main_page space) (upper_path va) = Some t"
  defines "pm' \<equiv> write_entry (entry_at t (pt_index va)) (set_present False (ram pm (entry_at t (pt_index va)))) pm"
  shows "local_unmap_page va (space, pm) = Inr (space, pm')" "space_inv (space, pm')"
    and "canonical a \<Longrightarrow> translate (ram pm') (m_main_page space) a = (if page_round_down a = va then None else translate (ram pm) (m_main_page space) a)"
    and "user_path (upper_path va) \<Longrightarrow> keeps_others (space, pm) (space, pm')"
    and "table_at (ram pm') (m_main_page space) (upper_path va) = Some t"
    and "wf_path is \<Longrightarrow> length is \<le> 3 \<Longrightarrow> no_huge (ram pm) (m_main_page space) is \<Longrightarrow> no_huge (ram pm') (m_main_page space) is"
proof -
  let ?root = "m_main_page space" and ?a = "entry_at t (pt_index va)"
  let ?e = "set_present False (ram pm ?a)"
  show "local_unmap_page va (space, pm) = Inr (space, pm')"
    using va(1) table_of_path [OF t] by (simp add: local_unmap_page_def virtual_address_as_paging_indices_def Let_def pm'_def)
  have ok: "space_ok (free_pages pm) (ram pm) ?root" and mem: "memory_ok pm"
    using inv by (simp_all add: space_inv_def)
  have w: "page_entry (ram pm) ?root (upper_path va) t (pt_index va) ?e"
    using t by (simp add: page_entry_def)
  show "space_inv (space, pm')"
    using mem write_space_ok [OF ok w] by (simp add: space_inv_def pm'_def)
  show "keeps_others (space, pm) (space, pm')" if "user_path (upper_path va)"
    using write_other [OF ok w that] by (simp add: keeps_others_def pm'_def)
  show "table_at (ram pm') ?root (upper_path va) = Some t"
    using write_table_at [OF ok w, of "upper_path va"] t by (simp add: pm'_def)
  show "no_huge (ram pm') ?root is" if "wf_path is" "length is \<le> 3" "no_huge (ram pm) ?root is"
    using write_no_huge [OF ok w _ that] by (simp add: pm'_def)
  assume a: "canonical a"
  have "take 4 (indices a) = upper_path va @ [pt_index va] \<longleftrightarrow> page_round_down a = va"
    using same_page_iff [OF a va(2)] va(1) by (simp add: indices_upper_path)
  then show "translate (ram pm') ?root a = (if page_round_down a = va then None else translate (ram pm) ?root a)"
    using write_walk [OF ok w, of "indices a" True] by (simp add: translate_def pm'_def entry_simps)
qed

lemma physical_address_of_table:
  assumes "page_is_aligned va" "table_at m (m_main_page space) (upper_path va) = Some t"
  shows "physical_address_of va space m = Inr (physical_address (m (entry_at t (pt_index va))))"
  using assms table_of_path [OF assms(2)]
  by (auto simp: physical_address_of_def virtual_address_as_paging_indices_def upper_path_def table_of_def Let_def split: if_splits)

text \<open>A page that is translated and not huge has a table of the last level.\<close>

lemma translated_table:
  assumes tr: "translate m root va = Some (pa, u)" and nh: "no_huge m root (upper_path va)"
  shows "\<exists>t. table_at m root (upper_path va) = Some t \<and> pa = (physical_address (m (entry_at t (pt_index va))) AND NOT (mask 12)) + take_bit 12 va
    \<and> is_present (m (entry_at t (pt_index va)))"
proof -
  have n1: "is_present (m (entry_at root (pml4_index va))) \<Longrightarrow> \<not> is_huge (m (entry_at root (pml4_index va)))"
    using nh unfolding no_huge_def upper_path_def by (metis append_Nil table_at.simps(1))
  have n2: "\<not> is_huge (m (entry_at t (pdpt_index va)))" if "table_at m root [pml4_index va] = Some t" "is_present (m (entry_at t (pdpt_index va)))" for t
    using nh that unfolding no_huge_def upper_path_def by (metis append_Cons append_Nil)
  have n3: "\<not> is_huge (m (entry_at t (pdt_index va)))"
    if "table_at m root [pml4_index va, pdpt_index va] = Some t" "is_present (m (entry_at t (pdt_index va)))" for t
    using nh that unfolding no_huge_def upper_path_def by (metis append_Cons append_Nil)
  show ?thesis
    using tr n1 n2 n3 by (auto simp: translate_def indices_def upper_path_def Let_def split: if_splits)
qed

subsection \<open>Mapping a range\<close>

definition page_number :: "addr \<Rightarrow> nat \<Rightarrow> addr" where
  "page_number b i = b + word_of_nat i * page_size"

definition range_fits :: "addr \<Rightarrow> addr \<Rightarrow> nat \<Rightarrow> bool" where
  "range_fits vb pb n \<longleftrightarrow> page_is_aligned vb \<and> page_frame pb \<and> unat pb + 4096 * n \<le> 2 ^ 52 \<and> unat vb + 4096 * n \<le> 2 ^ 64
     \<and> (\<forall>i < n. canonical (page_number vb i))"

lemma unat_page_number:
  assumes "unat b + 4096 * n \<le> 2 ^ 64" "i < n"
  shows "unat (page_number b i) = unat b + 4096 * i"
proof -
  have "i < 2 ^ 52"
    using assms by simp
  then have "unat (word_of_nat i * page_size :: addr) = 4096 * i"
    by (simp add: unat_word_ariths unat_word_of_nat_64)
  then show ?thesis
    using assms by (simp add: page_number_def unat_add_no_wrap)
qed

lemma page_number_facts:
  assumes "range_fits vb pb n" "i < n"
  shows "page_is_aligned (page_number vb i)" "canonical (page_number vb i)" "page_frame (page_number pb i)"
    and "\<And>j. j < n \<Longrightarrow> page_number vb i = page_number vb j \<longleftrightarrow> i = j"
proof -
  have r: "unat vb mod 4096 = 0" "unat pb mod 4096 = 0" "unat pb + 4096 * n \<le> 2 ^ 52" "unat vb + 4096 * n \<le> 2 ^ 64"
    using assms(1) by (simp_all add: range_fits_def page_frame_def page_is_aligned_iff)
  have pb: "unat pb + 4096 * n \<le> 2 ^ 64"
    using r(3) by (rule le_trans) simp
  show "page_is_aligned (page_number vb i)"
    using r(1) unat_page_number [OF r(4) assms(2)] by (simp add: page_is_aligned_iff)
  show "canonical (page_number vb i)"
    using assms by (simp add: range_fits_def)
  have "unat (page_number pb i) < 2 ^ 52"
    using r(3) assms(2) unat_page_number [OF pb assms(2)] by linarith
  then show "page_frame (page_number pb i)"
    using r(2) unat_page_number [OF pb assms(2)] by (simp add: page_frame_def page_is_aligned_iff word_less_nat_alt)
  show "page_number vb i = page_number vb j \<longleftrightarrow> i = j" if "j < n" for j
    using unat_page_number [OF r(4)] assms(2) that by (metis add_left_cancel mult_cancel1 zero_neq_numeral)
qed

lemma card_free_added:
  assumes "adds_pages s ps s'" "finite (free_pages (snd s))"
  shows "card (free_pages (snd s)) \<le> card (free_pages (snd s')) + length ps" "finite (free_pages (snd s'))"
proof -
  have eq: "free_pages (snd s') = free_pages (snd s) - set ps"
    using assms(1) by (auto simp: adds_pages_def free_pages_def)
  then show "finite (free_pages (snd s'))"
    using assms(2) by simp
  have "card (free_pages (snd s)) \<le> card ((free_pages (snd s) - set ps) \<union> set ps)"
    using assms(2) by (intro card_mono) auto
  also have "\<dots> \<le> card (free_pages (snd s) - set ps) + card (set ps)"
    by (rule card_Un_le)
  also have "card (set ps) \<le> length ps"
    by (rule card_length)
  finally show "card (free_pages (snd s)) \<le> card (free_pages (snd s')) + length ps"
    by (simp add: eq)
qed

lemma map_pages_ok:
  assumes "space_inv s" "range_fits vb pb n" "\<forall>i < n. no_huge (ram (snd s)) (m_main_page (fst s)) (upper_path (page_number vb i))"
    "k \<le> n" "finite (free_pages (snd s))" "3 * (n - k) \<le> card (free_pages (snd s))"
  shows "\<exists>ps s'. for_each (\<lambda>i. map_page (page_number vb i) (page_number pb i) sv) [k..<n] s = Inr s' \<and> space_inv s' \<and> adds_pages s ps s'
    \<and> (\<forall>a. canonical a \<longrightarrow> map_option fst (translate (ram (snd s')) (m_main_page (fst s)) a)
         = (case find (\<lambda>i. page_round_down a = page_number vb i) [k..<n] of
              Some i \<Rightarrow> Some (page_number pb i + (a - page_number vb i))
            | None \<Rightarrow> map_option fst (translate (ram (snd s)) (m_main_page (fst s)) a)))"
  using assms(1,3-6)
proof (induction "n - k" arbitrary: k s)
  case 0
  then show ?case
    using adds_pages_refl [of s] by (auto simp: space_inv_def)
next
  case (Suc d)
  then have kn: "k < n" and up: "[k..<n] = k # [Suc k..<n]"
    by (simp_all add: upt_conv_Cons)
  note pf = page_number_facts [OF assms(2) kn]
  have "no_huge (ram (snd s)) (m_main_page (fst s)) (upper_path (page_number vb k))" and "\<not> card (free_pages (snd s)) < 3"
    using Suc.prems(2,5) Suc.hyps(2) kn by auto
  then obtain ps1 s1 u where s1: "map_page (page_number vb k) (page_number pb k) sv s = Inr s1" "space_inv s1" "adds_pages s ps1 s1" "length ps1 \<le> 3"
      "\<And>a. canonical a \<Longrightarrow> translate (ram (snd s1)) (m_main_page (fst s)) a
         = (if page_round_down a = page_number vb k then Some (page_number pb k + (a - page_number vb k), u)
            else translate (ram (snd s)) (m_main_page (fst s)) a)"
      "\<And>is. wf_path is \<Longrightarrow> length is \<le> 3 \<Longrightarrow> no_huge (ram (snd s)) (m_main_page (fst s)) is \<Longrightarrow> no_huge (ram (snd s1)) (m_main_page (fst s)) is"
    using map_page_step [OF Suc.prems(1) pf(1,2,3), of sv] by blast
  have root: "m_main_page (fst s1) = m_main_page (fst s)"
    using s1(3) by (simp add: adds_pages_def)
  have nh: "\<forall>i < n. no_huge (ram (snd s1)) (m_main_page (fst s1)) (upper_path (page_number vb i))"
    using s1(6) Suc.prems(2) unfolding root by (auto simp: upper_path_def wf_path_def)
  have d: "d = n - Suc k" "Suc k \<le> n"
    using Suc.hyps(2) kn by simp_all
  have free: "3 * (n - Suc k) \<le> card (free_pages (snd s1))" "finite (free_pages (snd s1))"
    using card_free_added [OF s1(3) Suc.prems(4)] s1(4) Suc.prems(5) kn by auto
  obtain ps2 s2 where s2: "for_each (\<lambda>i. map_page (page_number vb i) (page_number pb i) sv) [Suc k..<n] s1 = Inr s2" "space_inv s2" "adds_pages s1 ps2 s2"
      "\<And>a. canonical a \<Longrightarrow> map_option fst (translate (ram (snd s2)) (m_main_page (fst s)) a)
         = (case find (\<lambda>i. page_round_down a = page_number vb i) [Suc k..<n] of
              Some i \<Rightarrow> Some (page_number pb i + (a - page_number vb i))
            | None \<Rightarrow> map_option fst (translate (ram (snd s1)) (m_main_page (fst s)) a))"
    using Suc.hyps(1) [of "Suc k" s1, OF d(1) s1(2) nh d(2) free(2,1)] unfolding root by blast
  have "find (\<lambda>i. page_round_down a = page_number vb i) [Suc k..<n] = None" if "page_round_down a = page_number vb k" for a
    using that pf(4) by (auto simp: find_None_iff)
  then have "map_option fst (translate (ram (snd s2)) (m_main_page (fst s)) a)
         = (case find (\<lambda>i. page_round_down a = page_number vb i) [k..<n] of
              Some i \<Rightarrow> Some (page_number pb i + (a - page_number vb i))
            | None \<Rightarrow> map_option fst (translate (ram (snd s)) (m_main_page (fst s)) a))" if "canonical a" for a
    using s2(4) [OF that] s1(5) [OF that] unfolding up by (auto split: option.splits)
  then show ?case
    using s1(1) s2(1,2) adds_pages_trans [OF s1(3) s2(3)] unfolding up by auto
qed

lemma find_page:
  assumes f: "range_fits vb pb n"
  shows "find (\<lambda>i. page_round_down a = page_number vb i) [0..<n]
    = (if vb \<le> a \<and> unat a < unat vb + 4096 * n then Some ((unat a - unat vb) div 4096) else None)"
proof -
  have r: "unat vb mod 4096 = 0" "unat vb + 4096 * n \<le> 2 ^ 64"
    using f by (simp_all add: range_fits_def page_is_aligned_iff)
  have eq: "page_round_down a = page_number vb i \<longleftrightarrow> unat vb \<le> unat a \<and> (unat a - unat vb) div 4096 = i" if "i < n" for i
  proof -
    obtain k where k: "unat vb = 4096 * k"
      using r(1) by auto
    have "page_round_down a = page_number vb i \<longleftrightarrow> unat a - unat a mod 4096 = unat vb + 4096 * i"
      by (simp add: word_unat_eq_iff unat_page_round_down unat_page_number [OF r(2) that])
    also have "\<dots> \<longleftrightarrow> unat a div 4096 = k + i"
      unfolding minus_mod_eq_mult_div k by auto
    also have "\<dots> \<longleftrightarrow> unat vb \<le> unat a \<and> (unat a - unat vb) div 4096 = i"
      unfolding k by auto
    finally show ?thesis .
  qed
  show ?thesis
  proof (cases "vb \<le> a \<and> unat a < unat vb + 4096 * n")
    case True
    then have "unat vb \<le> unat a" "(unat a - unat vb) div 4096 < n"
      by (auto simp: word_le_nat_alt less_mult_imp_div_less)
    then show ?thesis
      using True eq by (subst find_upt_Some [THEN iffD2]) auto
  next
    case False
    then have "\<not> (unat vb \<le> unat a \<and> (unat a - unat vb) div 4096 < n)"
      by (auto simp: word_le_nat_alt div_less_iff_less_mult)
    then show ?thesis
      using False eq by (auto simp: find_None_iff)
  qed
qed

lemma map_range_step:
  assumes inv: "space_inv s" and fits: "range_fits (r_begin vr) (r_begin pr) n" and n: "unat (range_length vr) = 4096 * n"
    and nh: "\<forall>i < n. no_huge (ram (snd s)) (m_main_page (fst s)) (upper_path (page_number (r_begin vr) i))"
    and free: "finite (free_pages (snd s))" "3 * n \<le> card (free_pages (snd s))"
  shows "\<exists>ps s'. map_range vr pr sv s = Inr s' \<and> space_inv s' \<and> adds_pages s ps s'
    \<and> (\<forall>a. canonical a \<longrightarrow> map_option fst (translate (ram (snd s')) (m_main_page (fst s)) a)
         = (if r_begin vr \<le> a \<and> unat a < unat (r_begin vr) + 4096 * n then Some (r_begin pr + (a - r_begin vr))
            else map_option fst (translate (ram (snd s)) (m_main_page (fst s)) a)))"
proof -
  let ?vb = "r_begin vr" and ?pb = "r_begin pr"
  have al: "page_is_aligned ?vb" "page_is_aligned ?pb" 
    using fits by (simp_all add: range_fits_def page_frame_def)
  have "unat (range_length vr div page_size) = n"
    by (simp add: n unat_div)
  then have eq: "map_range vr pr sv s = for_each (\<lambda>i. map_page (page_number ?vb i) (page_number ?pb i) sv) [0..<n] s"
    using al by (simp add: map_range_def page_number_def Let_def)
  obtain ps s' where s': "for_each (\<lambda>i. map_page (page_number ?vb i) (page_number ?pb i) sv) [0..<n] s = Inr s'" "space_inv s'" "adds_pages s ps s'"
      "\<And>a. canonical a \<Longrightarrow> map_option fst (translate (ram (snd s')) (m_main_page (fst s)) a)
         = (case find (\<lambda>i. page_round_down a = page_number ?vb i) [0..<n] of
              Some i \<Rightarrow> Some (page_number ?pb i + (a - page_number ?vb i))
            | None \<Rightarrow> map_option fst (translate (ram (snd s)) (m_main_page (fst s)) a))"
    using map_pages_ok [OF inv fits nh, of 0] free by fastforce
  have "map_option fst (translate (ram (snd s')) (m_main_page (fst s)) a)
         = (if ?vb \<le> a \<and> unat a < unat ?vb + 4096 * n then Some (?pb + (a - ?vb))
            else map_option fst (translate (ram (snd s)) (m_main_page (fst s)) a))" if "canonical a" for a
    unfolding s'(4) [OF that] find_page [OF fits] by (simp add: page_number_def)
  then show ?thesis
    using s'(1-3) by (intro exI [of _ ps] exI [of _ s']) (simp add: eq)
qed

subsection \<open>A new address space\<close>

lemma new_entries:
  fixes f current :: addr and m :: "addr \<Rightarrow> u64" and pm :: physical_memory
  assumes f: "page_is_aligned f" and c: "page_is_aligned current"
  defines "m' \<equiv> ram (mm_initialize current (\<lparr>m_physical_pages = [], m_main_page = f\<rparr>, pm\<lparr>ram := zero_page f m\<rparr>))"
  assumes ne: "current \<noteq> f"
  shows "i < 512 \<Longrightarrow> m' (entry_at f i) = (if i < kernel_first_table_index then 0 else m (entry_at current i))"
    and "page_is_aligned s \<Longrightarrow> s \<noteq> f \<Longrightarrow> j < 512 \<Longrightarrow> m' (entry_at s j) = m (entry_at s j)"
proof -
  have m': "m' a = (if a - (f + 2048) < 2048 then zero_page f m (current + 2048 + (a - (f + 2048))) else zero_page f m a)" for a
    by (simp add: m'_def mm_initialize_def kernel_first_table_index_def kernel_last_table_index_def entry_size_def Let_def)
  have d: "entry_at f i - (f + 2048) = (i - 256) * 8" for i
    by (simp add: entry_at_def entry_size_def algebra_simps)
  show "m' (entry_at f i) = (if i < kernel_first_table_index then 0 else m (entry_at current i))" if i: "i < 512"
  proof (cases "i < 256")
    case True
    then have "unat (entry_at f i - (f + 2048)) = 2 ^ 64 - (256 - unat i) * 8"
      unfolding d by (simp add: word_less_nat_alt unat_word_ariths unat_sub_if')
    then have "\<not> entry_at f i - (f + 2048) < 2048"
      using True by (simp add: word_less_nat_alt)
    then show ?thesis
      using True entry_in_page [OF f f i] by (simp add: m' kernel_first_table_index_def zero_page_def)
  next
    case False
    then have "unat ((i - 256) * 8) = (unat i - 256) * 8" "unat i < 512"
      using i by (simp_all add: word_less_nat_alt unat_word_ariths unat_sub_if')
    then have "(i - 256) * 8 < 2048"
      using False by (simp add: word_less_nat_alt)
    moreover have "current + 2048 + (i - 256) * 8 = entry_at current i"
      by (simp add: entry_at_def entry_size_def algebra_simps)
    ultimately show ?thesis
      using False entry_in_page [OF c f i] ne by (simp add: m' d kernel_first_table_index_def zero_page_def)
  qed
  show "m' (entry_at s j) = m (entry_at s j)" if s: "page_is_aligned s" "s \<noteq> f" "j < 512"
  proof -
    have "unat (entry_at s j - f) < 4096" if lt: "entry_at s j - (f + 2048) < 2048"
    proof -
      have "unat (entry_at s j - (f + 2048) + 2048) = unat (entry_at s j - (f + 2048)) + 2048"
        using lt by (intro unat_add_no_wrap [THEN trans]) (simp_all add: word_less_nat_alt)
      then show ?thesis
        using lt by (simp add: word_less_nat_alt)
    qed
    then have "\<not> entry_at s j - (f + 2048) < 2048"
      using entry_in_page [OF s(1) f s(3)] s(2) by blast
    then show ?thesis
      using entry_in_page [OF s(1) f s(3)] s(2) by (simp add: m' zero_page_def)
  qed
qed

text \<open>What a memory in which the table of a new address space was filled in shows.\<close>

definition new_space_memory :: "addr set \<Rightarrow> (addr \<Rightarrow> u64) \<Rightarrow> (addr \<Rightarrow> u64) \<Rightarrow> addr \<Rightarrow> addr \<Rightarrow> bool" where
  "new_space_memory F m m' current f \<longleftrightarrow> f \<in> F \<and> page_frame f \<and> space_ok F m current
     \<and> (\<forall>i < 512. m' (entry_at f i) = (if i < kernel_first_table_index then 0 else m (entry_at current i)))
     \<and> (\<forall>s j. page_is_aligned s \<longrightarrow> s \<noteq> f \<longrightarrow> j < 512 \<longrightarrow> m' (entry_at s j) = m (entry_at s j))"

lemma new_other_entries:
  assumes new: "new_space_memory F m m' current f" and r: "page_frame r" "tables_of m r \<inter> F = {}" and path: "wf_path is" "length is \<le> 4"
  shows "same_entries m m' r is"
  unfolding same_entries_def
proof (intro allI impI)
  fix q j t s assume s: "is = q @ j # t" "table_at m r q = Some s"
  have wf: "wf_path q" "j < 512" "length q \<le> 3"
    using path s(1) by simp_all
  then have "s \<in> tables_of m r"
    using s(2) by (auto simp: tables_of_def)
  then have "s \<noteq> f"
    using new r(2) by (auto simp: new_space_memory_def)
  then show "m' (entry_at s j) = m (entry_at s j)"
    using new wf(2) page_frame_aligned [OF table_at_frame [OF r(1) s(2)]] by (simp add: new_space_memory_def)
qed

lemma new_root:
  assumes new: "new_space_memory F m m' current f" and i: "i < 512" and path: "wf_path is"
  shows "length is \<le> 2 \<Longrightarrow> table_at m' f (i # is) = (if i < kernel_first_table_index then None else table_at m current (i # is))"
    and "length is = 3 \<Longrightarrow> walk m' f u (i # is) = (if i < kernel_first_table_index then None else walk m current u (i # is))"
proof -
  have c: "page_frame current" "tables_of m current \<inter> F = {}"
    using new by (simp_all add: new_space_memory_def space_ok_def)
  note same = new_other_entries [OF new c]
  have e: "m' (entry_at current i) = m (entry_at current i)" if "length is \<le> 3"
    using same [of "i # is", unfolded same_entries_def, rule_format, of "[]" i "is" current] that i path by simp
  have f: "m' (entry_at f i) = (if i < kernel_first_table_index then 0 else m (entry_at current i))"
    using new i by (simp add: new_space_memory_def)
  show "table_at m' f (i # is) = (if i < kernel_first_table_index then None else table_at m current (i # is))" if "length is \<le> 2"
    using same_entries_table [OF same [of "i # is"]] e f that i path by (auto simp: Let_def split: if_splits)
  show "walk m' f u (i # is) = (if i < kernel_first_table_index then None else walk m current u (i # is))" if "length is = 3"
    using same_entries_walk [OF same [of "i # is"], of u] e f that i path by (auto simp: Let_def split: if_splits)
qed

lemma new_tables:
  assumes new: "new_space_memory F m m' current f" and p: "wf_path p" "length p \<le> 3" "table_at m' f p = Some t"
  shows "p = [] \<and> t = f \<or> p \<noteq> [] \<and> \<not> user_path p \<and> table_at m current p = Some t \<and> t \<in> tables_of m current \<and> t \<noteq> f"
proof (cases p)
  case (Cons i q)
  then have "\<not> i < kernel_first_table_index" "table_at m current p = Some t"
    using new_root(1) [OF new, of i q] p by (auto split: if_splits)
  moreover have "t \<in> tables_of m current"
    using calculation(2) p by (auto simp: tables_of_def)
  moreover have "t \<noteq> f"
    using calculation(3) new by (auto simp: new_space_memory_def space_ok_def)
  ultimately show ?thesis
    using Cons by (simp add: user_path_def)
qed (use p in simp)

lemma new_space_ok:
  assumes new: "new_space_memory F m m' current f"
  shows "space_ok (F - {f}) m' f" "user_tables m' f = {f}" "tables_of m' f \<subseteq> insert f (tables_of m current)"
    and "user_path is \<Longrightarrow> wf_path is \<Longrightarrow> length is \<le> 3 \<Longrightarrow> no_huge m' f is"
proof -
  have c: "space_ok F m current" "page_frame f"
    using new by (simp_all add: new_space_memory_def)
  note tables = new_tables [OF new]
  show sub: "tables_of m' f \<subseteq> insert f (tables_of m current)"
    using tables by (auto simp: tables_of_def)
  have "p = q" if "wf_path p" "wf_path q" "length p \<le> 3" "length q \<le> 3" "table_at m' f p = Some t" "table_at m' f q = Some t" for p q t
    using tables [OF that(1,3,5)] tables [OF that(2,4,6)] space_ok_unique [OF c(1)] that(1-4) by blast
  moreover have "tables_of m' f \<inter> (F - {f}) = {}"
    using sub c(1) by (auto simp: space_ok_def)
  ultimately show "space_ok (F - {f}) m' f"
    using c(2) unfolding space_ok_def by blast
  have "t = f" if "wf_path p" "length p \<le> 3" "user_path p" "table_at m' f p = Some t" for p t
    using tables [OF that(1,2,4)] that(3) by blast
  moreover have "table_at m' f [] = Some f" "wf_path []" "user_path []" "length ([] :: size_t list) \<le> 3"
    by (simp_all add: user_path_def)
  ultimately show "user_tables m' f = {f}"
    unfolding user_tables_def by blast
  show "no_huge m' f is" if u: "user_path is" and wf: "wf_path is" "length is \<le> 3"
    unfolding no_huge_def
  proof (intro allI impI)
    fix q j r s assume s: "is = q @ j # r" "table_at m' f q = Some s" "is_present (m' (entry_at s j))"
    have "user_path q" "wf_path q" "length q \<le> 3" "j < 512"
      using u wf s(1) by (cases q; simp add: user_path_def)+
    then have "q = []" "s = f"
      using tables [of q s] s(2) by blast+
    then have "m' (entry_at s j) = 0"
      using new u s(1) \<open>j < 512\<close> by (simp add: new_space_memory_def user_path_def)
    then show "\<not> is_huge (m' (entry_at s j))"
      using s(3) by simp
  qed
qed

text \<open>
  What making an address space achieves: the kernel's half of it is the current one's, the
  user's half is empty, and no other address space notices.
\<close>

definition makes_space :: "addr \<Rightarrow> physical_memory \<Rightarrow> address_space \<times> physical_memory \<Rightarrow> bool" where
  "makes_space current pm s' \<longleftrightarrow>
     (let F = free_pages pm; F' = free_pages (snd s'); m = ram pm; m' = ram (snd s'); root = m_main_page (fst s')
      in space_inv s' \<and> root \<in> F \<and> m_physical_pages (fst s') = [] \<and> managed_pages (snd s') = managed_pages pm
       \<and> used_pages (snd s') = insert root (used_pages pm)
       \<and> (\<forall>a. translate m' root a = (if pml4_index a < kernel_first_table_index then None else translate m current a))
       \<and> (\<forall>is. user_path is \<longrightarrow> wf_path is \<longrightarrow> length is \<le> 3 \<longrightarrow> no_huge m' root is)
       \<and> (\<forall>r. page_frame r \<longrightarrow> tables_of m r \<inter> F = {} \<longrightarrow> same_translations m m' r \<and> other_space F' m' root r)
       \<and> (\<forall>r. page_frame r \<longrightarrow> tables_of m r \<inter> F = {} \<longrightarrow> other_space F m r current \<longrightarrow> other_space F' m' r root)
       \<and> other_space F' m' current root)"

lemma new_others:
  assumes new: "new_space_memory F m m' current f" and r: "page_frame r" "tables_of m r \<inter> F = {}"
  shows "same_translations m m' r" "other_space (F - {f}) m' f r" "user_tables m' r = user_tables m r"
    "other_space F m r current \<Longrightarrow> other_space (F - {f}) m' r f"
proof -
  note same = new_other_entries [OF new r]
  note un = other_unchanged [of m m' r, OF same]
  show "same_translations m m' r"
    using un(2) by (simp add: same_translations_def)
  have "f \<in> F" "page_frame f"
    using new by (simp_all add: new_space_memory_def)
  then show "other_space (F - {f}) m' f r"
    using r un(1) new_space_ok(2) [OF new] by (auto simp: other_space_def)
  have "table_at m' r p = table_at m r p" if "wf_path p" "length p \<le> 3" for p
    using same_entries_table [OF same] that by simp
  then show ut: "user_tables m' r = user_tables m r"
    unfolding user_tables_def by (metis (mono_tags, lifting))
  have "user_tables m r \<subseteq> tables_of m r"
    by (auto simp: user_tables_def tables_of_def)
  then show "other_space (F - {f}) m' r f" if "other_space F m r current"
    using that \<open>page_frame f\<close> \<open>f \<in> F\<close> r(2) new_space_ok(3) [OF new] by (auto simp: other_space_def ut)
qed

lemma new_current:
  assumes new: "new_space_memory F m m' current f"
  shows "other_space (F - {f}) m' current f"
proof -
  have c: "page_frame current" "tables_of m current \<inter> F = {}" "space_ok F m current" and f: "f \<in> F" "page_frame f"
    using new by (simp_all add: new_space_memory_def space_ok_def)
  have "t \<notin> user_tables m current" if t: "t \<in> tables_of m' f" for t
  proof
    assume "t \<in> user_tables m current"
    then obtain q where q: "wf_path q" "length q \<le> 3" "user_path q" "table_at m current q = Some t"
      by (auto simp: user_tables_def)
    obtain p where p: "wf_path p" "length p \<le> 3" "table_at m' f p = Some t"
      using t by (auto simp: tables_of_def)
    have "t \<noteq> f"
      using q c(2) f(1) by (auto simp: tables_of_def)
    then have "\<not> user_path p" "table_at m current p = Some t"
      using new_tables [OF new p] by blast+
    then show False
      using space_ok_unique [OF c(3) p(1) q(1) p(2) q(2)] q(3,4) by blast
  qed
  moreover have "tables_of m' f \<inter> (F - {f}) = {}"
    using new_space_ok(3) [OF new] c(2) by auto
  ultimately show ?thesis
    using f(2) new_others(3) [OF new c(1,2)] by (auto simp: other_space_def)
qed

lemma address_space_new_step:
  assumes ok: "memory_ok pm" and c: "space_ok (free_pages pm) (ram pm) current"
  shows "if free_pages pm = {} then address_space_new current pm = Inl Panic
    else \<exists>s'. address_space_new current pm = Inr s' \<and> makes_space current pm s'"
proof (cases "free_pages pm = {}")
  case True
  then show ?thesis
    using mm_allocate_page_ok [of pm True] ok by (simp add: memory_ok_def address_space_new_def)
next
  case False
  then obtain f pm1 where a: "mm_allocate_page True pm = Inr (f, pm1)" "pm_inv pm1" "f \<in> free_pages pm" "page_is_aligned f"
      "managed_pages pm1 = managed_pages pm" "used_pages pm1 = insert f (used_pages pm)" "ram pm1 = zero_page f (ram pm)"
    using mm_allocate_page_ok [of pm True] ok by (auto simp: memory_ok_def)
  define space where "space = \<lparr>m_physical_pages = [], m_main_page = f\<rparr>"
  define pm' where "pm' = mm_initialize current (space, pm1)"
  have same: "m_physical_regions pm' = m_physical_regions pm1" "m_free_physical_bytes pm' = m_free_physical_bytes pm1"
    by (simp_all add: pm'_def mm_initialize_def Let_def)
  then have keep: "pm_inv pm'" "managed_pages pm' = managed_pages pm" "used_pages pm' = insert f (used_pages pm)"
    using a by (simp_all add: pm_inv_def managed_pages_def used_pages_def)
  have F: "free_pages pm' = free_pages pm - {f}"
    using keep by (auto simp: free_pages_def)
  have f: "page_frame f"
    using ok a(3) by (auto simp: memory_ok_def free_pages_def)
  have cf: "page_frame current" "current \<noteq> f"
    using c a(3) by (force simp: space_ok_def tables_of_def intro: exI [of _ "[]"])+
  have "pm1\<lparr>ram := zero_page f (ram pm)\<rparr> = pm1"
    using a(7) by (cases pm1) simp
  then have new: "new_space_memory (free_pages pm) (ram pm) (ram pm') current f"
    using new_entries [OF page_frame_aligned [OF f] page_frame_aligned [OF cf(1)] cf(2), where pm = pm1 and m = "ram pm"] a(3) f c
    by (simp add: new_space_memory_def pm'_def space_def)
  have "translate (ram pm') f a = (if pml4_index a < kernel_first_table_index then None else translate (ram pm) current a)" for a
    using new_root(2) [OF new, of "pml4_index a" "[pdpt_index a, pdt_index a, pt_index a]" True] by (simp add: translate_def indices_def)
  moreover have "space_inv (space, pm')"
    using keep ok new_space_ok(1) [OF new] by (simp add: space_inv_def memory_ok_def F space_def)
  ultimately have "makes_space current pm (space, pm')"
    using keep a(3) new_space_ok(4) [OF new] new_others(1,2,4) [OF new] new_current [OF new]
    unfolding makes_space_def Let_def fst_conv snd_conv F by (simp add: space_def)
  then show ?thesis
    using False a(1) by (simp add: address_space_new_def pm'_def space_def Let_def)
qed

subsection \<open>The life of an address space\<close>

text \<open>
  An address space is made, pages are mapped and unmapped in it, and meanwhile the rest of the
  kernel allocates pages, frees pages that are no tables of it, and writes memory that is no
  table of it. The set holds the pages that are in use by others.
\<close>

inductive lives :: "addr set \<Rightarrow> address_space \<times> physical_memory \<Rightarrow> bool" where
  created: "memory_ok pm \<Longrightarrow> space_ok (free_pages pm) (ram pm) current \<Longrightarrow> address_space_new current pm = Inr s \<Longrightarrow> lives (used_pages pm) s"
| mapped: "lives U s \<Longrightarrow> page_frame pa \<Longrightarrow> no_huge (ram (snd s)) (m_main_page (fst s)) (upper_path va) \<Longrightarrow>
    map_page va pa sv s = Inr s' \<Longrightarrow> lives U s'"
| mapped_huge: "lives U s \<Longrightarrow> page_frame pa \<Longrightarrow> no_huge (ram (snd s)) (m_main_page (fst s)) [pml4_index va, pdpt_index va] \<Longrightarrow>
    map_huge_page va pa sv s = Inr s' \<Longrightarrow> lives U s'"
| unmapped: "lives U s \<Longrightarrow> canonical va \<Longrightarrow> table_at (ram (snd s)) (m_main_page (fst s)) (upper_path va) \<noteq> None \<Longrightarrow>
    local_unmap_page va s = Inr s' \<Longrightarrow> lives U s'"
| allocated: "lives U (space, pm) \<Longrightarrow> mm_allocate_page z pm = Inr (p, pm') \<Longrightarrow> lives (insert p U) (space, pm')"
| freed: "lives U (space, pm) \<Longrightarrow> p \<in> U \<Longrightarrow> p \<notin> tables_of (ram pm) (m_main_page space) \<Longrightarrow> mm_free_page p pm = Inr pm' \<Longrightarrow>
    lives (U - {p}) (space, pm')"
| written: "lives U (space, pm) \<Longrightarrow> (\<forall>t \<in> tables_of (ram pm) (m_main_page space). \<forall>i < 512. m (entry_at t i) = ram pm (entry_at t i)) \<Longrightarrow>
    lives U (space, pm\<lparr>ram := m\<rparr>)"

text \<open>The pages in use are those of others and those that the address space will give back.\<close>

definition owns_pages :: "addr set \<Rightarrow> address_space \<times> physical_memory \<Rightarrow> bool" where
  "owns_pages U s \<longleftrightarrow> space_inv s \<and> used_pages (snd s) = U \<union> insert (m_main_page (fst s)) (set (m_physical_pages (fst s)))
     \<and> distinct (m_main_page (fst s) # m_physical_pages (fst s)) \<and> U \<inter> insert (m_main_page (fst s)) (set (m_physical_pages (fst s))) = {}"

lemma owns_added:
  assumes "owns_pages U s" "adds_pages s ps s'" "space_inv s'"
  shows "owns_pages U s'"
  using assms by (auto simp: owns_pages_def adds_pages_def free_pages_def)

lemma unchanged_entries:
  assumes r: "page_frame r" and eq: "\<forall>t \<in> tables_of m r. \<forall>i < 512. m' (entry_at t i) = m (entry_at t i)" and path: "wf_path is" "length is \<le> 4"
  shows "same_entries m m' r is"
  unfolding same_entries_def
proof (intro allI impI)
  fix q j t s assume s: "is = q @ j # t" "table_at m r q = Some s"
  have wf: "wf_path q" "j < 512" "length q \<le> 3"
    using path s(1) by simp_all
  then have "s \<in> tables_of m r"
    using s(2) by (auto simp: tables_of_def)
  then show "m' (entry_at s j) = m (entry_at s j)"
    using eq wf(2) by blast
qed

lemma space_ok_mono: "space_ok F m root \<Longrightarrow> tables_of m root \<inter> F' = {} \<Longrightarrow> space_ok F' m root"
  by (auto simp: space_ok_def)

lemma map_huge_page_maps:
  assumes "space_inv s" "page_frame pa" "no_huge (ram (snd s)) (m_main_page (fst s)) [pml4_index va, pdpt_index va]" "map_huge_page va pa sv s = Inr s'"
  shows "\<exists>ps. space_inv s' \<and> adds_pages s ps s'"
proof -
  have al: "page_is_huge_aligned va" "page_is_huge_aligned pa"
    using assms(4) by (auto simp: map_huge_page_def assert_that_def split: if_splits)
  show ?thesis
    using map_entry_ok [OF assms(1), of "[pml4_index va, pdpt_index va]" "pdt_index va" pa sv] assms(2-4) unfolding map_huge_page_eq [OF al]
    by (auto simp: maps_page_def)
qed

lemma map_page_maps:
  assumes "space_inv s" "page_frame pa" "no_huge (ram (snd s)) (m_main_page (fst s)) (upper_path va)" "map_page va pa sv s = Inr s'"
  shows "\<exists>ps. space_inv s' \<and> adds_pages s ps s'"
proof -
  have al: "page_is_aligned va" "page_is_aligned pa"
    using assms(4) by (auto simp: map_page_def assert_that_def split: if_splits)
  show ?thesis
    using map_entry_ok [OF assms(1), of "upper_path va" "pt_index va" pa sv] assms(2-4) unfolding map_page_eq [OF al]
    by (auto simp: maps_page_def upper_path_def)
qed

lemma lives_owns: "lives U s \<Longrightarrow> owns_pages U s"
proof (induction rule: lives.induct)
  case (created pm current s)
  then have "makes_space current pm s"
    using address_space_new_step [OF created(1,2)] by (auto split: if_splits)
  then show ?case
    by (auto simp: makes_space_def owns_pages_def free_pages_def Let_def)
next
  case (mapped U s pa va sv s')
  then have "space_inv s"
    by (simp add: owns_pages_def)
  then show ?case
    using map_page_maps mapped owns_added by blast
next
  case (mapped_huge U s pa va sv s')
  then have "space_inv s"
    by (simp add: owns_pages_def)
  then show ?case
    using map_huge_page_maps mapped_huge owns_added by blast
next
  case (unmapped U s va s')
  then obtain space pm t where s: "s = (space, pm)" and t: "table_at (ram pm) (m_main_page space) (upper_path va) = Some t"
    by (cases s) auto
  have al: "page_is_aligned va" and inv: "space_inv (space, pm)"
    using unmapped s by (auto simp: local_unmap_page_def assert_that_def owns_pages_def split: if_splits)
  show ?case
    using local_unmap_page_step(1,2) [OF inv al unmapped(2) t] unmapped(4,5) s by (auto simp: owns_pages_def)
next
  case (allocated U space pm z p pm')
  then have inv: "memory_ok pm" "space_ok (free_pages pm) (ram pm) (m_main_page space)"
    by (simp_all add: owns_pages_def space_inv_def)
  then have a: "pm_inv pm'" "p \<in> free_pages pm" "page_is_aligned p" "managed_pages pm' = managed_pages pm" "used_pages pm' = insert p (used_pages pm)"
      "ram pm' = (if z then zero_page p (ram pm) else ram pm)"
    using mm_allocate_page_ok [of pm z] allocated(2) by (auto simp: memory_ok_def split: if_splits)
  have "table_at (ram pm') (m_main_page space) q = table_at (ram pm) (m_main_page space) q" if "wf_path q" "length q \<le> 3" for q
    using same_entries_table [OF same_entries_zero [OF inv(2) a(2,3) that(1)]] that(2) a(6) by simp
  then have "space_ok (free_pages pm) (ram pm') (m_main_page space)"
    using space_ok_cong(1) inv(2) by blast
  moreover have "free_pages pm' = free_pages pm - {p}"
    using a by (auto simp: free_pages_def)
  ultimately have "space_ok (free_pages pm') (ram pm') (m_main_page space)"
    by (auto simp: space_ok_def)
  then show ?case
    using allocated(3) a inv(1) by (auto simp: owns_pages_def space_inv_def memory_ok_def free_pages_def)
next
  case (freed U space pm p pm')
  then have inv: "memory_ok pm" "space_ok (free_pages pm) (ram pm) (m_main_page space)" "p \<in> used_pages pm"
    by (auto simp: owns_pages_def space_inv_def)
  then have a: "pm_inv pm'" "managed_pages pm' = managed_pages pm" "used_pages pm' = used_pages pm - {p}" "ram pm' = ram pm"
    using mm_free_page_ok [of pm p] freed(4) by (auto simp: memory_ok_def)
  have "free_pages pm' \<subseteq> insert p (free_pages pm)"
    using a by (auto simp: free_pages_def)
  then have "space_ok (free_pages pm') (ram pm') (m_main_page space)"
    using inv(2) freed(3) a(4) by (auto simp: space_ok_def)
  then show ?case
    using freed(2,5) a inv(1) by (auto simp: owns_pages_def space_inv_def memory_ok_def)
next
  case (written U space pm m)
  let ?pm = "pm\<lparr>ram := m\<rparr>"
  have same: "managed_pages ?pm = managed_pages pm" "used_pages ?pm = used_pages pm" "memory_ok ?pm = memory_ok pm" "free_pages ?pm = free_pages pm"
    by (simp_all add: managed_pages_def used_pages_def memory_ok_def pm_inv_def free_pages_def)
  have ok: "space_ok (free_pages pm) (ram pm) (m_main_page space)" "page_frame (m_main_page space)"
    using written(3) by (simp_all add: owns_pages_def space_inv_def space_ok_def)
  have "table_at m (m_main_page space) q = table_at (ram pm) (m_main_page space) q" if "wf_path q" "length q \<le> 3" for q
    using same_entries_table [OF unchanged_entries [OF ok(2) written(2) that(1)]] that(2) by simp
  then have "space_ok (free_pages pm) m (m_main_page space)"
    using space_ok_cong(1) ok(1) by blast
  then show ?case
    using written(3) by (auto simp: owns_pages_def space_inv_def same)
qed

lemma free_pages_in_turn:
  assumes "pm_inv pm" "distinct ps" "set ps \<subseteq> used_pages pm"
  shows "\<exists>pm'. for_each mm_free_page ps pm = Inr pm' \<and> pm_inv pm' \<and> managed_pages pm' = managed_pages pm \<and> used_pages pm' = used_pages pm - set ps
    \<and> ram pm' = ram pm"
  using assms
proof (induction ps arbitrary: pm)
  case (Cons p ps)
  then obtain pm1 where pm1: "mm_free_page p pm = Inr pm1" "pm_inv pm1" "managed_pages pm1 = managed_pages pm" "used_pages pm1 = used_pages pm - {p}"
      "ram pm1 = ram pm"
    using mm_free_page_ok [of pm p] by auto
  then obtain pm2 where "for_each mm_free_page ps pm1 = Inr pm2" "pm_inv pm2" "managed_pages pm2 = managed_pages pm1"
      "used_pages pm2 = used_pages pm1 - set ps" "ram pm2 = ram pm1"
    using Cons.IH [of pm1] Cons.prems by auto
  then show ?case
    using pm1 by auto
qed simp

lemma free_address_space_step:
  assumes own: "owns_pages U (space, pm)" and root: "m_main_page space \<noteq> kernel_table" "m_main_page space \<noteq> active"
  shows "\<exists>pm'. free_address_space kernel_table active space pm = Inr pm' \<and> memory_ok pm' \<and> managed_pages pm' = managed_pages pm
    \<and> used_pages pm' = U \<and> ram pm' = ram pm"
proof -
  have inv: "memory_ok pm" and u: "used_pages pm = U \<union> insert (m_main_page space) (set (m_physical_pages space))"
    and d: "distinct (m_physical_pages space)" "m_main_page space \<notin> set (m_physical_pages space)"
      "U \<inter> insert (m_main_page space) (set (m_physical_pages space)) = {}"
    using own by (simp_all add: owns_pages_def space_inv_def)
  obtain pm1 where pm1: "for_each mm_free_page (m_physical_pages space) pm = Inr pm1" "pm_inv pm1" "managed_pages pm1 = managed_pages pm"
      "used_pages pm1 = used_pages pm - set (m_physical_pages space)" "ram pm1 = ram pm"
    using free_pages_in_turn [of pm "m_physical_pages space"] inv u d(1) by (auto simp: memory_ok_def)
  then have "m_main_page space \<in> used_pages pm1"
    using u d(2) by simp
  then obtain pm2 where pm2: "mm_free_page (m_main_page space) pm1 = Inr pm2" "pm_inv pm2" "managed_pages pm2 = managed_pages pm1"
      "used_pages pm2 = used_pages pm1 - {m_main_page space}" "ram pm2 = ram pm1"
    using mm_free_page_ok [OF pm1(2), of "m_main_page space"] by auto
  have "used_pages pm2 = U"
    using u d(3) pm1(4) pm2(4) by auto
  then show ?thesis
    using root pm1 pm2 inv by (simp add: free_address_space_def memory_ok_def)
qed

subsection \<open>A small machine\<close>

definition sample_frames :: physical_region where
  "sample_frames = \<lparr>pr_range = \<lparr>r_begin = 0x100000, r_end = 0x110000\<rparr>, pr_free_pages = 16,
     pr_next_hint = 0, pr_allocation_map = new_bit_array 16\<rparr>"

definition sample_memory :: physical_memory where
  "sample_memory = \<lparr>m_physical_regions = [sample_frames], m_initial_physical_bytes = 0x10000, m_free_physical_bytes = 0x10000, ram = (\<lambda>_. 0)\<rparr>"

lemma sample_frames_inv: "region_inv sample_frames"
proof -
  have "count_list (replicate 16 False) False = 16"
    by (simp add: numeral_eq_Suc)
  then show ?thesis
    by (simp add: sample_frames_def region_inv_def page_bits_def new_bit_array_correct wf_range_def
        range_length_def page_is_aligned_def page_size_def)
qed

lemma sample_pages:
  "used_pages sample_memory = {}" "managed_pages sample_memory = region_pages sample_frames"
  "free_pages sample_memory = region_pages sample_frames"
  "finite (free_pages sample_memory)" "6 \<le> card (free_pages sample_memory)"
  "p \<in> free_pages sample_memory \<Longrightarrow> page_frame p \<and> 0x100000 \<le> p"
proof -
  show used: "used_pages sample_memory = {}"
    by (simp add: used_pages_def sample_memory_def allocated_pages_def sample_frames_def page_bits_def new_bit_array_correct)
  show man: "managed_pages sample_memory = region_pages sample_frames"
    by (simp add: managed_pages_def sample_memory_def)
  show free: "free_pages sample_memory = region_pages sample_frames"
    using used man by (simp add: free_pages_def)
  let ?ps = "{0x100000, 0x101000, 0x102000, 0x103000, 0x104000, 0x105000} :: addr set"
  have sub: "?ps \<subseteq> free_pages sample_memory"
    by (simp add: free region_pages_def sample_frames_def addrs_def page_is_aligned_def page_size_def)
  show fin: "finite (free_pages sample_memory)"
    by (rule finite_subset [OF subset_UNIV]) simp
  have "card ?ps \<le> card (free_pages sample_memory)"
    by (rule card_mono [OF fin sub])
  then show "6 \<le> card (free_pages sample_memory)"
    by simp
  show "page_frame p \<and> 0x100000 \<le> p" if "p \<in> free_pages sample_memory"
  proof -
    have p: "page_is_aligned p" "0x100000 \<le> p" "p < 0x110000"
      using that by (simp_all add: free region_pages_def sample_frames_def addrs_def)
    moreover have "p < 2 ^ 52"
      using p(3) by (rule order.strict_trans) simp
    ultimately show ?thesis
      by (simp add: page_frame_def)
  qed
qed

lemma sample_memory_ok: "memory_ok sample_memory"
proof -
  have "regions_ok [sample_frames]"
    using sample_frames_inv by (simp add: regions_ok_def sample_frames_def lowest_allowed_physical_address_def)
  moreover have "page_frame p" if "p \<in> managed_pages sample_memory" for p
    using sample_pages(6) [of p] that unfolding sample_pages(2,3) by blast
  ultimately show ?thesis
    by (simp add: memory_ok_def pm_inv_def sample_memory_def free_bytes_def sample_frames_def page_size_def)
qed

definition sample_space :: address_space where
  "sample_space = \<lparr>m_physical_pages = [], m_main_page = 0x1000\<rparr>"

lemma blank_tables: "table_at (\<lambda>_. 0) root p = (if p = [] then Some root else None)"
  by (cases p) (simp_all add: Let_def)

lemma sample_space_ok: "space_ok (free_pages sample_memory) (ram sample_memory) 0x1000"
proof -
  have "\<not> (0x100000 :: addr) \<le> 0x1000"
    by simp
  then have "0x1000 \<notin> free_pages sample_memory"
    using sample_pages(6) by blast
  then show ?thesis
    by (auto simp: space_ok_def tables_of_def sample_memory_def blank_tables page_frame_def page_is_aligned_def page_size_def split: if_splits)
qed

lemma sample_space_inv: "space_inv (sample_space, sample_memory)"
  using sample_space_ok sample_memory_ok by (simp add: space_inv_def sample_space_def)

lemma sample_no_huge: "no_huge (ram sample_memory) root is"
  by (simp add: no_huge_def sample_memory_def)

lemma canonical_low: "a < 2 ^ 47 \<Longrightarrow> canonical a"
proof -
  assume "a < 2 ^ 47"
  then have "take_bit 47 a = a"
    by (simp add: word_less_nat_alt word_unat_eq_iff unsigned_take_bit_eq take_bit_nat_eq_self_iff)
  then have "\<not> bit a n" if "47 \<le> n" for n
    using that by (metis bit_take_bit_iff linorder_not_less)
  then show ?thesis
    by (simp add: canonical_def)
qed

lemma sample_page: "page_is_aligned 0x400000" "canonical 0x400000" "canonical 0x400123" "page_round_down 0x400000 = 0x400000" "page_frame 0x200000"
proof -
  show "page_round_down 0x400000 = 0x400000"
    by code_simp
qed (use canonical_low [of "0x400000"] canonical_low [of "0x400123"] in \<open>simp_all add: page_frame_def page_is_aligned_def page_size_def\<close>)

subsection \<open>Properties\<close>

text \<open>
  C9: in a consistent address space, mapping a page either panics, which needs fewer than three
  free pages, or makes exactly the addresses of this page lead to the physical page, with the
  permission asked for, and leaves every other translation as it was. At most three free pages
  become tables of the address space. When the page lies in the user's half, no other address
  space that shares only the kernel's tables sees a change.
\<close>

theorem map_page_correct:
  assumes "space_inv s" "page_is_aligned va" "canonical va" "page_frame pa" "no_huge (ram (snd s)) (m_main_page (fst s)) (upper_path va)"
  shows "map_page va pa sv s = Inl Panic \<and> card (free_pages (snd s)) < 3
    \<or> (\<exists>ps s' u. map_page va pa sv s = Inr s' \<and> space_inv s' \<and> adds_pages s ps s' \<and> length ps \<le> 3
         \<and> (sv = YES \<longrightarrow> \<not> u) \<and> (sv \<noteq> YES \<and> path_users (ram (snd s)) (m_main_page (fst s)) (upper_path va) \<longrightarrow> u)
         \<and> (\<forall>a. canonical a \<longrightarrow> translate (ram (snd s')) (m_main_page (fst s)) a
              = (if page_round_down a = va then Some (pa + (a - va), u) else translate (ram (snd s)) (m_main_page (fst s)) a))
         \<and> (user_path (upper_path va) \<longrightarrow> keeps_others s s'))"
  using map_page_step [OF assms, of sv] by blast

lemma sample_mapped:
  "\<exists>space pm u. map_page 0x400000 0x200000 YES (sample_space, sample_memory) = Inr (space, pm) \<and> space_inv (space, pm) \<and> m_main_page space = 0x1000
     \<and> translate (ram pm) 0x1000 0x400000 = Some (0x200000, u) \<and> no_huge (ram pm) 0x1000 (upper_path 0x400000)"
proof -
  let ?s = "(sample_space, sample_memory)"
  have "\<not> card (free_pages (snd ?s)) < 3"
    using sample_pages(5) by simp
  then obtain s' ps u where s': "map_page 0x400000 0x200000 YES ?s = Inr s'" "space_inv s'" "adds_pages ?s ps s'"
      "translate (ram (snd s')) 0x1000 0x400000 = Some (0x200000, u)" "no_huge (ram (snd s')) 0x1000 (upper_path 0x400000)"
    using map_page_step [OF sample_space_inv sample_page(1,2,5), of YES] sample_page(2,4) sample_no_huge by (fastforce simp: sample_space_def)
  then show ?thesis
    by (intro exI [of _ "fst s'"] exI [of _ "snd s'"] exI [of _ u]) (simp add: adds_pages_def sample_space_def)
qed

theorem map_page_correct_witness:
  "\<exists>s' u. map_page 0x400000 0x200000 NO (sample_space, sample_memory) = Inr s' \<and> translate (ram (snd s')) 0x1000 0x400123 = Some (0x200123, u)"
proof -
  have r: "page_round_down 0x400123 = 0x400000"
    by code_simp
  have "\<not> card (free_pages (snd (sample_space, sample_memory))) < 3"
    using sample_pages(5) by simp
  then show ?thesis
    using map_page_correct [OF sample_space_inv sample_page(1,2,5), of NO] sample_page(3) sample_no_huge r by (fastforce simp: sample_space_def)
qed

text \<open>
  C20: where the tables above a page exist, unmapping it makes exactly its addresses untranslated,
  and in the user's half no other address space sees a change.
\<close>

theorem local_unmap_page_correct:
  assumes "space_inv (space, pm)" "page_is_aligned va" "canonical va" "table_at (ram pm) (m_main_page space) (upper_path va) \<noteq> None"
  shows "\<exists>pm'. local_unmap_page va (space, pm) = Inr (space, pm') \<and> space_inv (space, pm') \<and> used_pages pm' = used_pages pm
    \<and> (\<forall>a. canonical a \<longrightarrow> translate (ram pm') (m_main_page space) a
         = (if page_round_down a = va then None else translate (ram pm) (m_main_page space) a))
    \<and> (user_path (upper_path va) \<longrightarrow> keeps_others (space, pm) (space, pm'))"
proof -
  obtain t where t: "table_at (ram pm) (m_main_page space) (upper_path va) = Some t"
    using assms(4) by blast
  show ?thesis
    using local_unmap_page_step(1-4) [OF assms(1-3) t] by (intro exI conjI allI impI) simp_all
qed

theorem local_unmap_page_correct_witness:
  "\<exists>space pm pm'. map_page 0x400000 0x200000 YES (sample_space, sample_memory) = Inr (space, pm) \<and> local_unmap_page 0x400000 (space, pm) = Inr (space, pm')
     \<and> translate (ram pm) 0x1000 0x400000 \<noteq> None \<and> translate (ram pm') 0x1000 0x400000 = None"
proof -
  obtain space pm u where s: "map_page 0x400000 0x200000 YES (sample_space, sample_memory) = Inr (space, pm)" "space_inv (space, pm)"
      "m_main_page space = 0x1000" "translate (ram pm) 0x1000 0x400000 = Some (0x200000, u)" "no_huge (ram pm) 0x1000 (upper_path 0x400000)"
    using sample_mapped by blast
  have "table_at (ram pm) (m_main_page space) (upper_path 0x400000) \<noteq> None"
    using translated_table [OF s(4,5)] s(3) by auto
  then show ?thesis
    using local_unmap_page_correct [OF s(2) sample_page(1,2)] s sample_page(2,4) by fastforce
qed

text \<open>
  C36: \<^verbatim>\<open>physical_address_of\<close> returns the physical page of a mapped page, but it does not
  look at the present bit of the last entry: after the page was unmapped, when the processor
  no longer translates the address, it still returns the old physical page.
\<close>

theorem physical_address_of_unmapped:
  assumes "space_inv (space, pm)" "page_is_aligned va" "canonical va" "no_huge (ram pm) (m_main_page space) (upper_path va)"
    and "translate (ram pm) (m_main_page space) va = Some (pa, u)"
  shows "physical_address_of va space (ram pm) = Inr pa
    \<and> (\<exists>pm'. local_unmap_page va (space, pm) = Inr (space, pm') \<and> translate (ram pm') (m_main_page space) va = None
        \<and> physical_address_of va space (ram pm') = Inr pa)"
proof -
  obtain t where t: "table_at (ram pm) (m_main_page space) (upper_path va) = Some t"
      "pa = (physical_address (ram pm (entry_at t (pt_index va))) AND NOT (mask 12)) + take_bit 12 va"
    using translated_table [OF assms(5,4)] by blast
  have "take_bit 12 va = 0"
    using assms(2) by (simp add: page_is_aligned_def page_size_def take_bit_eq_mod)
  moreover have "physical_address e AND NOT (mask 12) = physical_address e" for e
    by (rule bit_word_eqI) (auto simp: bit_simps bit_physical_address)
  ultimately have pa: "pa = physical_address (ram pm (entry_at t (pt_index va)))"
    using t(2) by simp
  note un = local_unmap_page_step [OF assms(1-3) t(1)]
  show ?thesis
    using assms(2) un(1) un(3) [OF assms(3)] physical_address_of_table [OF assms(2) t(1)] physical_address_of_table [OF assms(2) un(5)]
    by (simp add: pa entry_simps)
qed

theorem physical_address_of_unmapped_witness:
  "\<exists>space pm pm'. map_page 0x400000 0x200000 YES (sample_space, sample_memory) = Inr (space, pm) \<and> local_unmap_page 0x400000 (space, pm) = Inr (space, pm')
     \<and> translate (ram pm') 0x1000 0x400000 = None \<and> physical_address_of 0x400000 space (ram pm') = Inr 0x200000"
proof -
  obtain space pm u where s: "map_page 0x400000 0x200000 YES (sample_space, sample_memory) = Inr (space, pm)" "space_inv (space, pm)"
      "m_main_page space = 0x1000" "translate (ram pm) 0x1000 0x400000 = Some (0x200000, u)" "no_huge (ram pm) 0x1000 (upper_path 0x400000)"
    using sample_mapped by blast
  then show ?thesis
    using physical_address_of_unmapped [OF s(2) sample_page(1,2), of "0x200000" u] by auto
qed

text \<open>
  C21: mapping a range of whole pages translates the whole range, page by page, and changes no other
  translation, as long as there are three free pages for every page of the range.
\<close>

theorem map_range_correct:
  assumes "space_inv s" "range_fits (r_begin vr) (r_begin pr) n" "unat (range_length vr) = 4096 * n"
    and "\<forall>i < n. no_huge (ram (snd s)) (m_main_page (fst s)) (upper_path (page_number (r_begin vr) i))"
    and "finite (free_pages (snd s))" "3 * n \<le> card (free_pages (snd s))"
  shows "\<exists>ps s'. map_range vr pr sv s = Inr s' \<and> space_inv s' \<and> adds_pages s ps s'
    \<and> (\<forall>a. canonical a \<longrightarrow> map_option fst (translate (ram (snd s')) (m_main_page (fst s)) a)
         = (if r_begin vr \<le> a \<and> unat a < unat (r_begin vr) + 4096 * n then Some (r_begin pr + (a - r_begin vr))
            else map_option fst (translate (ram (snd s)) (m_main_page (fst s)) a)))"
  using assms by (rule map_range_step)

theorem map_range_correct_witness:
  "\<exists>s'. map_range \<lparr>r_begin = 0x400000, r_end = 0x402000\<rparr> \<lparr>r_begin = 0x200000, r_end = 0x202000\<rparr> NO (sample_space, sample_memory) = Inr s'
     \<and> map_option fst (translate (ram (snd s')) 0x1000 0x401abc) = Some 0x201abc"
proof -
  have "canonical (page_number 0x400000 i)" if "i < 2" for i
    using that canonical_low [of "0x400000"] canonical_low [of "0x401000"] by (auto simp: page_number_def page_size_def less_2_cases_iff)
  then have f: "range_fits 0x400000 0x200000 2"
    using sample_page(1,5) by (simp add: range_fits_def)
  have "canonical 0x401abc"
    using canonical_low [of "0x401abc"] by simp
  then show ?thesis
    using map_range_correct [of "(sample_space, sample_memory)" "\<lparr>r_begin = 0x400000, r_end = 0x402000\<rparr>" "\<lparr>r_begin = 0x200000, r_end = 0x202000\<rparr>" 2 NO]
      f sample_space_inv sample_no_huge sample_pages(4,5) by (fastforce simp: sample_space_def range_length_def)
qed

text \<open>
  C17: a new address space takes one free page, translates the kernel's half as the current address
  space does and nothing in the user's half, and leaves every address space alone whose tables
  are not among the free pages; afterwards it and the others share only tables of the kernel's half.
\<close>

theorem address_space_new_correct:
  assumes "memory_ok pm" "space_ok (free_pages pm) (ram pm) current"
  shows "if free_pages pm = {} then address_space_new current pm = Inl Panic
    else \<exists>s'. address_space_new current pm = Inr s' \<and> makes_space current pm s'"
  using assms by (rule address_space_new_step)

theorem address_space_new_correct_witness:
  "\<exists>s'. address_space_new 0x1000 sample_memory = Inr s' \<and> makes_space 0x1000 sample_memory s'"
proof -
  have "free_pages sample_memory \<noteq> {}"
    using sample_pages(5) by auto
  then show ?thesis
    using address_space_new_correct [OF sample_memory_ok sample_space_ok] by simp
qed

text \<open>
  C12: whatever was mapped and unmapped in an address space, and whatever pages others took and gave
  back meanwhile, destroying it never fails, gives back its tables and nothing else, and leaves
  the pages of the others in use.
\<close>

theorem address_space_gives_back_its_pages:
  assumes "lives used (space, pm)" "m_main_page space \<noteq> kernel_table" "m_main_page space \<noteq> active"
  shows "\<exists>pm'. free_address_space kernel_table active space pm = Inr pm' \<and> memory_ok pm' \<and> managed_pages pm' = managed_pages pm
    \<and> used_pages pm' = used \<and> ram pm' = ram pm"
  using free_address_space_step [OF lives_owns [OF assms(1)] assms(2,3)] .

theorem address_space_gives_back_its_pages_witness:
  "\<exists>space pm s1 pm'. address_space_new 0x1000 sample_memory = Inr s1 \<and> map_page 0x400000 0x200000 NO s1 = Inr (space, pm)
     \<and> free_address_space 0x1000 0x1000 space pm = Inr pm' \<and> used_pages pm' = {}"
proof -
  have user_half_page: "user_path (upper_path 0x400000)"
    unfolding user_path_def upper_path_def by code_simp
  obtain s1 where s1: "address_space_new 0x1000 sample_memory = Inr s1" "makes_space 0x1000 sample_memory s1"
    using address_space_new_step [OF sample_memory_ok sample_space_ok] sample_pages(5) by (auto split: if_splits)
  have live: "lives {} s1"
    using lives.created [OF sample_memory_ok sample_space_ok s1(1)] sample_pages(1) by simp
  have inv: "space_inv s1" and root: "m_main_page (fst s1) \<in> free_pages sample_memory" and nh: "no_huge (ram (snd s1)) (m_main_page (fst s1)) (upper_path 0x400000)"
    and free: "free_pages (snd s1) = free_pages sample_memory - {m_main_page (fst s1)}"
    using s1(2) user_half_page by (auto simp: makes_space_def Let_def free_pages_def)
  have "\<not> card (free_pages (snd s1)) < 3"
    using free root sample_pages(4,5) by simp
  then obtain space pm where m: "map_page 0x400000 0x200000 NO s1 = Inr (space, pm)" "m_main_page space = m_main_page (fst s1)"
    using map_page_step [OF inv sample_page(1,2,5) nh, of NO] by (fastforce simp: adds_pages_def)
  have "lives {} (space, pm)"
    using lives.mapped [OF live sample_page(5) nh m(1)] .
  moreover have "m_main_page space \<noteq> 0x1000"
    using root m(2) sample_pages(6) by force
  ultimately show ?thesis
    using address_space_gives_back_its_pages [of "{}" space pm "0x1000" "0x1000"] s1(1) m(1) by blast
qed









text \<open>The last entry on the way of \<open>local_unmap_page\<close>, which looks at no present bit.\<close>

lemma table_of_zero: "m (entry_at t i) = 0 \<Longrightarrow> table_of m t i = 0"
  by (simp add: table_of_def physical_address_def)

lemma local_unmap_page_eq:
  "page_is_aligned va \<Longrightarrow> local_unmap_page va (space, pm) =
     (let a = entry_at (foldl (table_of (ram pm)) (m_main_page space) (upper_path va)) (pt_index va)
      in Inr (space, write_entry a (set_present False (ram pm a)) pm))"
  by (simp add: local_unmap_page_def virtual_address_as_paging_indices_def upper_path_def Let_def)

lemma foldl_table_of: "table_at m root p = Some t \<Longrightarrow> foldl (table_of m) root p = t"
  by (induction p arbitrary: root) (auto simp: Let_def table_of_def split: if_splits)

text \<open>
  C37: Unmapping a page whose table is missing changes memory that belongs to someone else. For
  every address space and every page, when an entry above the last table is zero, as it is in a
  table that was just allocated, the page is not mapped; the code then takes physical address 0
  for the next table, follows the words it finds from there for the levels that remain, and clears
  the lowest bit of the word where it arrives. Every other word stays. With the last of the three
  upper levels missing, that word is in the first page of physical memory.
\<close>

theorem local_unmap_page_missing_table:
  assumes va: "page_is_aligned va" and path: "upper_path va = p @ i # q"
    and t: "table_at (ram pm) (m_main_page space) p = Some t" and zero: "ram pm (entry_at t i) = 0"
  shows "translate (ram pm) (m_main_page space) va = None
    \<and> (\<exists>pm'. local_unmap_page va (space, pm) = Inr (space, pm')
        \<and> (let stray = entry_at (foldl (table_of (ram pm)) 0 q) (pt_index va)
           in ram pm' = (ram pm)(stray := ram pm stray AND NOT 1) \<and> (q = [] \<longrightarrow> unat stray < 4096)))"
proof -
  have "walk (ram pm) (m_main_page space) True (upper_path va @ [pt_index va]) = None"
    using walk_append [OF t, of "i # q @ [pt_index va]" True] zero by (simp add: path Let_def)
  then have "translate (ram pm) (m_main_page space) va = None"
    by (simp add: translate_def indices_upper_path)
  moreover have "foldl (table_of (ram pm)) (m_main_page space) (upper_path va) = foldl (table_of (ram pm)) 0 q"
    by (simp add: path foldl_table_of [OF t] table_of_zero [of "ram pm", OF zero])
  moreover have "set_present False e = e AND NOT 1" for e
    by (rule bit_eqI) (simp add: bit_set_present bit_and_iff bit_not_iff)
  moreover have "unat (entry_at 0 (pt_index va)) < 4096"
    using unat_entry_at [of 0 "pt_index va"] by (simp add: page_is_aligned_def)
  ultimately show ?thesis
    using va by (simp add: local_unmap_page_eq Let_def)
qed

theorem local_unmap_page_missing_table_witness:
  "let m = (\<lambda>_. 0)(0 := 0x2000, 0x2008 := 0x3000, 0x3000 := 7); space = \<lparr>m_physical_pages = [], m_main_page = 0x100000\<rparr>
   in \<exists>pm'. local_unmap_page 0x200000 (space, sample_memory\<lparr>ram := m\<rparr>) = Inr (space, pm') \<and> ram pm' = m(0x3000 := 6)"
proof -
  let ?m = "(\<lambda>_. 0)(0 := 0x2000, 0x2008 := 0x3000, 0x3000 := 7) :: addr \<Rightarrow> u64"
  let ?space = "\<lparr>m_physical_pages = [], m_main_page = 0x100000\<rparr>"
  have "page_is_aligned 0x200000" "upper_path 0x200000 = [] @ 0 # [0, 1]"
    "entry_at (foldl (table_of ?m) 0 [0, 1]) (pt_index 0x200000) = 0x3000"
    by code_simp+
  moreover have "?m (entry_at 0x100000 0) = 0"
    by code_simp
  ultimately show ?thesis
    using local_unmap_page_missing_table [of "0x200000" "[]" 0 "[0, 1]" "sample_memory\<lparr>ram := ?m\<rparr>" ?space "0x100000"] by (simp add: Let_def)
qed

end
