(* ===== verification/Spec2Isabelle.thy ===== *)
theory Spec2Isabelle
  imports Physical_Region Boot_Allocator Virtual_Allocator Heap_Allocator C_String Clock Pipe Scheduler_Steps Disk_Cache Address_Space
begin

text \<open>
  UltraOS is an operating system for x86 processors: a boot loader hands a memory map to a
  kernel written in C++ (\<^verbatim>\<open>src/Kernel\<close>), which runs programs linked with its own C library
  (\<^verbatim>\<open>src/Userland/LibC\<close>). This library models the parts of it that compute on data structures
  of their own, as 64-bit code, and proves that they do what the rest of the system relies on.

  \<^bold>\<open>How the parts interact.\<close> The boot loader's map is sorted, repaired and merged by
  \<^verbatim>\<open>MemoryMap\<close>; \<^verbatim>\<open>BootAllocator\<close> reserves early memory in it; of what is left free
  \<^verbatim>\<open>MemoryManager\<close> makes one \<^verbatim>\<open>PhysicalRegion\<close> per range, which hands out pages and keeps a
  \<^verbatim>\<open>DynamicBitArray\<close> of them. \<^verbatim>\<open>AddressSpace\<close> takes its page tables from these pages.
  \<^verbatim>\<open>VirtualAllocator\<close> hands out address ranges and keeps them in a \<^verbatim>\<open>RedBlackTree\<close>;
  \<^verbatim>\<open>HeapAllocator\<close> hands out bytes of the kernel heap. Threads are switched by the
  \<^verbatim>\<open>Scheduler\<close>, wait on blockers, for example in a \<^verbatim>\<open>Pipe\<close>, and are destroyed by the
  \<^verbatim>\<open>TaskFinalizer\<close>. The clock is set from the RTC.

  \<^bold>\<open>Conventions.\<close> \<^verbatim>\<open>Kernel_Prelude\<close> fixes them. A machine integer is a word of its width, so
  that arithmetic wraps where the code's does. An operation that can stop the kernel has the
  result type \<^verbatim>\<open>'a res\<close>: \<^verbatim>\<open>Inl\<close> carries a failed \<^verbatim>\<open>ASSERT\<close>, a panic, a division by zero or
  undefined behaviour, and \<^verbatim>\<open>bind_res\<close> sequences such operations. An object is a record with
  the members of the class, passed in and returned. A loop that ends is a \<^verbatim>\<open>fun\<close> or a
  \<^verbatim>\<open>function\<close> with a termination proof; a loop that may not end is a \<^verbatim>\<open>partial_function\<close> into
  \<^verbatim>\<open>option\<close>, and that it returns is part of the theorem about it. Three loops have a bound on the
  number of their turns: \<^verbatim>\<open>find_free_run\<close> and \<^verbatim>\<open>unique_id\<close> of the heap and \<^verbatim>\<open>find_gap\<close> of the virtual
  allocator. A loop that runs out of it ends in \<^verbatim>\<open>Inl Undefined\<close>, and the theorems about the
  operations that contain them show that this does not happen. A lock makes the operation under
  it one step.

  \<^bold>\<open>Memory.\<close>
  \<^item> \<^verbatim>\<open>Page_Range\<close>: \<^verbatim>\<open>Memory/Page.h\<close> and \<^verbatim>\<open>Memory/Range.h\<close>. Rounding, alignment and the
    operations on address ranges, as sets of addresses.
  \<^item> \<^verbatim>\<open>Algorithms\<close>: \<^verbatim>\<open>Common/Utilities.h\<close> and \<^verbatim>\<open>Common/Math.h\<close>. \<^verbatim>\<open>quick_sort\<close> and
    \<^verbatim>\<open>insertion_sort\<close> sort, and the binary searches answer as a linear search does. The locale
    \<^verbatim>\<open>key_comparators\<close> is the contract of the comparison functions that callers pass.
  \<^item> \<^verbatim>\<open>Bit_Array\<close>: \<^verbatim>\<open>Common/DynamicBitArray.h\<close> and \<^verbatim>\<open>Interrupts/IVectorAllocator.h\<close>. The
    searches over 64-bit units find what a search over the bits finds, except where a theorem
    shows that they do not. The locale \<^verbatim>\<open>bit_map\<close> is what a client relies on.
  \<^item> \<^verbatim>\<open>Physical_Region\<close>: \<^verbatim>\<open>Memory/PhysicalRegion.cpp\<close>, a client of \<^verbatim>\<open>bit_map\<close>. It refines a set of
    free pages, and no sequence of operations hands out a page twice.
  \<^item> \<^verbatim>\<open>Memory_Map\<close>: \<^verbatim>\<open>Memory/MemoryMap.cpp\<close>. From a firmware map of whole pages the kernel gets a
    sorted map without overlaps that gives every address its most restrictive type, when no three
    entries share an address; the repair loop ends on every map.
  \<^item> \<^verbatim>\<open>Boot_Allocator\<close>: \<^verbatim>\<open>Memory/BootAllocator.cpp\<close>. A reservation is the lowest fitting part of
    free memory and changes the type of exactly its pages, when the map has no hole between the
    limits; in a hole the limits are not respected.
  \<^item> \<^verbatim>\<open>Physical_Memory\<close>: the constructor of \<^verbatim>\<open>Memory/MemoryManager.cpp\<close> and its calls for pages, over
    a memory of 64-bit words. The regions together are a set of pages: over every sequence of
    calls a page handed out is usable and not in use, and exactly a page in use can be freed.
  \<^item> \<^verbatim>\<open>Address_Space\<close>: \<^verbatim>\<open>Memory/AddressSpace.cpp\<close> and \<^verbatim>\<open>GenericPagingEntry.h\<close>, page tables of four
    levels in that memory. \<^verbatim>\<open>translate\<close> is the walk of the processor. \<^verbatim>\<open>space_inv\<close> says that no two
    paths of indices lead to the same table and that no table is a free page. Mapping and unmapping change
    exactly the translations they are asked to change; \<^verbatim>\<open>keeps_others\<close> says that this holds of
    every address space that shares only the kernel's tables. \<^verbatim>\<open>lives\<close> is the life of an address
    space among other users of memory, at the end of which it gives back exactly its pages.
  \<^item> This theory: \<^verbatim>\<open>MemoryManager::early_initialize\<close>, and the path of memory from the firmware's map
    over the boot allocator to the pages handed out. The conditions on the firmware's map, whole
    pages, at most two entries for an address and no hole where the kernel is loaded, are
    hypotheses of the theorem.
  \<^item> \<^verbatim>\<open>Red_Black_Tree\<close>: \<^verbatim>\<open>Common/RedBlackTree.h\<close>. The linked nodes are a tree with a path to the
    current node. Insertion and removal keep the colours, the order and the size, searches
    agree with the sorted list of elements, and after any sequence of insertions and removals the
    tree holds what a set holds and its depth is logarithmic. The locale
    \<^verbatim>\<open>ordered_tree\<close> is the contract for a strict order.
  \<^item> \<^verbatim>\<open>Virtual_Allocator\<close>: \<^verbatim>\<open>Memory/VirtualAllocator.cpp\<close>, a client of \<^verbatim>\<open>ordered_tree\<close>. Allocations
    are aligned, inside the space and apart from each other after every sequence of calls in which
    no request for a given range goes around an allocated one (\<^verbatim>\<open>requests_ok\<close>); such a request is
    not refused, and breaks the invariant.
  \<^item> \<^verbatim>\<open>Heap_Allocator\<close>: \<^verbatim>\<open>Memory/HeapAllocator.cpp\<close>, with the two-bit map of chunks. An
    allocation is aligned, inside a block and apart from the live ones; a free ends exactly one.

  \<^bold>\<open>Threads and streams.\<close>
  \<^item> \<^verbatim>\<open>Scheduler\<close> and \<^verbatim>\<open>Scheduler_Steps\<close>: \<^verbatim>\<open>Multitasking\<close>. Threads, processes, blockers and
    processors are numbers, and one record holds their members and the queues. The first
    theory has the operations, the invariant \<^verbatim>\<open>sched_inv\<close> and the facts about waking, killing
    and burying threads. The parameters of the invariant name what is unfinished inside
    \<^verbatim>\<open>pick_next\<close>: a processor whose current thread no longer runs, a dead thread that is not
    on a list, a thread that asked to block. The second theory shows that each operation keeps
    it, and has the sequences of operations and their properties: no assertion fails, the states
    agree with the queues, no ready thread starves, and sleepers wake on time. The guards of
    \<^verbatim>\<open>enabled\<close> are the use that the kernel makes of the scheduler.
  \<^item> \<^verbatim>\<open>Pipe\<close>: \<^verbatim>\<open>FileSystem/Pipe.cpp\<close>. The ring buffer refines a bounded queue of bytes, with
    partial writes that the contract of \<^verbatim>\<open>IOStream.h\<close> does not allow, and no waiting end is
    forgotten.

  \<^bold>\<open>Disks.\<close>
  \<^item> \<^verbatim>\<open>Disk_Cache\<close>: \<^verbatim>\<open>FileSystem/DiskCache.cpp\<close>. The storage device is a parameter, and the
    hypothesis \<^verbatim>\<open>stores\<close> says that it reads back the blocks written to it. The cache with its
    disk refines an array of bytes over every sequence of calls on blocks whose cache block lies
    wholly in the file system (\<^verbatim>\<open>in_bounds\<close>), and evicts the block that was used least recently; a
    block in a last cache block that the end of the file system cuts off cannot be used. The path
    for RAM disks is modelled, and the theorems are about other devices.

  \<^bold>\<open>Time and the C library.\<close>
  \<^item> \<^verbatim>\<open>Clock\<close>: \<^verbatim>\<open>Time/Time.cpp\<close> and \<^verbatim>\<open>Time/RTC.cpp\<close>. The conversions between seconds and calendar
    time are inverse to each other; the clock is set from the first reading of the RTC that agrees
    with the one before it, rightly in 24-hour mode and not in 12-hour mode.
  \<^item> \<^verbatim>\<open>C_Type\<close> and \<^verbatim>\<open>C_String\<close>: \<^verbatim>\<open>Userland/LibC/ctype.c\<close>, \<^verbatim>\<open>string.c\<close> and \<^verbatim>\<open>strings.c\<close> on a memory
    of bytes with bounds. Moving, comparing and searching compute what C prescribes; the result of
    \<^verbatim>\<open>memccpy\<close> does not, and \<^verbatim>\<open>strncmp\<close> reads a character beyond its bound.

  \<^bold>\<open>Bounds.\<close> The theorems hold for all sizes of the data. Where the code needs a bound the
  theorem states it: ranges do not reach the end of the address space, a process has fewer
  than \<^verbatim>\<open>2 ^ 32\<close> threads, a year is one that the 64-bit count of seconds can hold. The memory map
  is a list without a bound: that a map of more than 170 entries overruns its buffer of one page
  is not modelled.

  \<^bold>\<open>Not modelled.\<close> Code that drives hardware: the boot loader, the interrupt controllers, the
  caches of page tables, the context switch, drivers, drawing. Its effects are in devices and processor
  state that the sources do not define. Code that only forwards: system calls, the C++
  runtime, wrappers over compiler builtins. Of threads and processes the stacks, registers,
  address spaces, windows and streams. Of the file systems the structures on the disk and
  the files opened on them. The list of components in the manifest
  names the files.
\<close>

subsection \<open>From the firmware's map to the pages of the kernel\<close>

definition kernel_image_base :: addr where
  "kernel_image_base = kernel_reserved_base + 0x100000"

definition kernel_first_heap_block_base :: addr where
  "kernel_first_heap_block_base = kernel_image_base + kernel_image_size"

definition kernel_first_heap_block_ceiling :: addr where
  "kernel_first_heap_block_ceiling = kernel_first_heap_block_base + kernel_first_heap_block_size"

text \<open>The next step of a computation that may not end and may fault.\<close>

definition and_then :: "'a res option \<Rightarrow> ('a \<Rightarrow> 'b res option) \<Rightarrow> 'b res option" where
  "and_then r f = (case r of None \<Rightarrow> None | Some (Inl e) \<Rightarrow> Some (Inl e) | Some (Inr x) \<Rightarrow> f x)"

lemma and_then_Inr: "and_then r f = Some (Inr y) \<longleftrightarrow> (\<exists>x. r = Some (Inr x) \<and> f x = Some (Inr y))"
  by (auto simp: and_then_def split: option.splits sum.splits)

text \<open>
  \<^verbatim>\<open>MemoryManager::early_initialize\<close> up to the initialization of the heap: the map is made, the
  memory of the kernel's image and of the first heap block is reserved, and the heap block is
  mapped in the tables that the boot loader left at \<open>kernel_base_table\<close>. The result has the
  physical address of the heap block, the boot allocator and the memory.
\<close>

definition early_initialize :: "addr \<Rightarrow> e820_range list \<Rightarrow> (addr \<Rightarrow> u64) \<Rightarrow> (addr \<times> boot_allocator \<times> (addr \<Rightarrow> u64)) res option" where
  "early_initialize kernel_base_table raw words =
     and_then (generate_from True raw) (\<lambda>mm.
     and_then (Some (virtual_to_physical kernel_image_base)) (\<lambda>image.
     and_then (reserve_at image (kernel_image_size div page_size) KERNEL_IMAGE (boot_allocator_new mm)) (\<lambda>(_, ba).
     and_then (reserve_contiguous (word_of_nat (ceiling_divide (unat kernel_first_heap_block_size) (unat page_size))) 0x100000 max_memory_address HEAP_BLOCK ba)
       (\<lambda>(heap_physical_base, ba).
     Some (bind_res (from_two_pointers kernel_first_heap_block_base kernel_first_heap_block_ceiling) (\<lambda>virtual_range.
           bind_res (mk_range heap_physical_base kernel_first_heap_block_size) (\<lambda>physical_range.
           bind_res (early_map_huge_range kernel_base_table virtual_range physical_range
             \<lparr>m_physical_regions = [], m_initial_physical_bytes = 0, m_free_physical_bytes = 0, ram = words\<rparr>) (\<lambda>pm.
           Inr (heap_physical_base, ba, ram pm)))))))))"

definition block_bytes :: "addr \<Rightarrow> size_t \<Rightarrow> addr set" where
  "block_bytes a bytes = {x. a \<le> x \<and> x < a + bytes}"

lemma reserved_bytes:
  assumes "reserved_block ba lower upper bytes tg a ba'" "bytes \<noteq> 0"
  shows "a \<in> block_bytes a bytes" "block_bytes a bytes = {x. a \<le> x \<and> unat x < unat a + unat bytes}" "lower \<le> a" "unat a + unat bytes \<le> unat upper"
    "strongest (m_entries (m_memory_map ba')) x type_FREE \<longleftrightarrow> strongest (m_entries (m_memory_map ba)) x type_FREE \<and> x \<notin> block_bytes a bytes"
    "x \<in> block_bytes a bytes \<Longrightarrow> strongest (m_entries (m_memory_map ba)) x type_FREE"
proof -
  have fits: "fits (m_entries (m_memory_map ba)) lower upper bytes a"
    using assms(1) by (simp add: reserved_block_def)
  then show limits: "lower \<le> a" "unat a + unat bytes \<le> unat upper"
    by (simp_all add: fits_def)
  then have "unat (a + bytes) = unat a + unat bytes"
    using unat_less_64 [of upper] by (intro unat_add_no_wrap) simp
  then show eq: "block_bytes a bytes = {x. a \<le> x \<and> unat x < unat a + unat bytes}"
    by (simp add: block_bytes_def word_less_nat_alt)
  have "0 < unat bytes"
    using assms(2) by (simp add: unat_gt_0)
  then show "a \<in> block_bytes a bytes"
    by (simp add: eq)
  show "strongest (m_entries (m_memory_map ba')) x type_FREE \<longleftrightarrow> strongest (m_entries (m_memory_map ba)) x type_FREE \<and> x \<notin> block_bytes a bytes"
    using assms(1) native_type_strong [of tg] by (auto simp: reserved_block_def block_bytes_def)
  show "x \<in> block_bytes a bytes \<Longrightarrow> strongest (m_entries (m_memory_map ba)) x type_FREE"
    using fits by (simp add: eq fits_def)
qed

lemma aligned_below_max: "page_is_aligned a \<Longrightarrow> a < max_memory_address"
  using unat_less_64 [of a] by (auto simp: page_is_aligned_iff max_memory_address_def word_less_nat_alt elim!: dvdE)

lemma boot_parameters:
  "virtual_to_physical kernel_image_base = Inr 0x100000" "kernel_image_size div page_size = 0x300"
  "(0x100000 :: addr) + 0x300 * page_size = 0x400000"
  "word_of_nat (ceiling_divide (unat kernel_first_heap_block_size) (unat page_size)) = (0x400 :: size_t)" "page_is_aligned 0x100000"
  by (simp_all add: virtual_to_physical_def kernel_image_base_def kernel_reserved_base_def max_memory_address_def physical_memory_base_def
      kernel_image_size_def kernel_first_heap_block_size_def page_size_def ceiling_divide_def page_is_aligned_def)

lemma early_initialize_reserves:
  assumes raw: "raw \<noteq> []" "\<forall>d \<in> set raw. entry_ok (e820_range_of d)" "\<forall>a. cover (map e820_range_of raw) a \<le> 2"
    and known: "no_holes (map e820_range_of raw) 0x100000 0x400000"
    and init: "early_initialize kernel_base_table raw words = Some (Inr (heap, ba, words'))"
  shows "\<exists>mm ba1. generate_from True raw = Some (Inr mm) \<and> reserved_block (boot_allocator_new mm) 0x100000 0x400000 0x300000 KERNEL_IMAGE 0x100000 ba1
    \<and> reserved_block ba1 0x100000 max_memory_address 0x400000 HEAP_BLOCK heap ba
    \<and> (\<forall>a t. strongest (m_entries mm) a t \<longleftrightarrow> strongest (map e820_range_of raw) a t)"
proof -
  obtain mm where mm: "generate_from True raw = Some (Inr mm)" "map_good (m_entries mm)"
      "\<And>a t. strongest (m_entries mm) a t \<longleftrightarrow> strongest (map e820_range_of raw) a t"
    using generate_from_step [OF raw] by (auto simp: map_good_def)
  have sizes: "(0x300000 :: size_t) = 0x300 * page_size" "(0x400000 :: size_t) = 0x400 * page_size"
    by (simp_all add: page_size_def)
  obtain a ba1 where image: "reserve_contiguous 0x300 0x100000 0x400000 KERNEL_IMAGE (boot_allocator_new mm) = Some (Inr (a, ba1))"
      and rest: "reserve_contiguous 0x400 0x100000 max_memory_address HEAP_BLOCK ba1 = Some (Inr (heap, ba))"
    using init unfolding early_initialize_def mm(1) boot_parameters reserve_at_def
    by (auto simp: and_then_Inr bind_res_eq_Inr boot_parameters(3) split: prod.splits)
  have "no_holes (m_entries mm) 0x100000 0x400000"
    using known by (simp add: no_holes_def mm(3))
  then have r1: "reserved_block (boot_allocator_new mm) 0x100000 0x400000 0x300000 KERNEL_IMAGE a ba1"
    using reserve_contiguous_step [of "boot_allocator_new mm" "0x100000" "0x400000" "0x300000" "0x300" KERNEL_IMAGE] image mm(2) boot_parameters(5) sizes(1) by simp
  have "0x100000 \<le> a" "unat a + 0x300000 \<le> 0x400000"
    using reserved_bytes(3,4) [OF r1] by simp_all
  then have a: "a = 0x100000"
    by (simp add: word_le_nat_alt word_unat_eq_iff)
  have ba1: "\<not> m_did_release ba1" "map_good (m_entries (m_memory_map ba1))"
    using r1 by (simp_all add: reserved_block_def)
  then have "\<forall>e \<in> set (m_entries (m_memory_map ba1)). r_begin e < max_memory_address"
    using aligned_below_max by (auto simp: map_good_def map_inv_def entry_ok_def)
  moreover have "strongest (m_entries (m_memory_map ba1)) 0x100000 (native_type_from_tag KERNEL_IMAGE)"
    using r1 unfolding a reserved_block_def by simp
  ultimately have "reserved_block ba1 0x100000 max_memory_address 0x400000 HEAP_BLOCK heap ba"
    using reserve_contiguous_below_sound [OF ba1 boot_parameters(5) sizes(2) _ _ _ rest] by simp
  then show ?thesis
    using mm r1 unfolding a by blast
qed

text \<open>
  C1: Memory from the firmware's map to the pages of the kernel. The firmware reports at least one
  entry, entries of whole pages, no three of them for one address, and some type for every address
  from 1 MB to 4 MB, where the kernel's image is loaded. When \<^verbatim>\<open>early_initialize\<close> returns, the
  boot allocator has reserved the image and the first heap block, which do not overlap and are
  memory that the firmware reports as free; it then releases the map to the memory manager. Every
  byte of every page that the memory manager hands out afterwards, after any sequence of its calls
  for pages, is memory that the firmware reports as free and lies neither in the image nor in the
  heap block.
\<close>

theorem boot_pages_are_free_memory:
  assumes raw: "raw \<noteq> []" "\<forall>d \<in> set raw. entry_ok (e820_range_of d)" "\<forall>a. cover (map e820_range_of raw) a \<le> 2"
    and known: "no_holes (map e820_range_of raw) 0x100000 0x400000"
    and init: "early_initialize kernel_base_table raw words = Some (Inr (heap, ba, words'))"
    and release: "boot_allocator_release ba = (mm, ba')"
  shows "(\<forall>x \<in> block_bytes 0x100000 kernel_image_size \<union> block_bytes heap kernel_first_heap_block_size. strongest (map e820_range_of raw) x type_FREE)
    \<and> block_bytes 0x100000 kernel_image_size \<inter> block_bytes heap kernel_first_heap_block_size = {}
    \<and> (\<forall>handed_out pm p x. memory_run mm handed_out pm \<longrightarrow> p \<in> handed_out \<longrightarrow> x \<in> page_bytes p \<longrightarrow>
         strongest (map e820_range_of raw) x type_FREE
         \<and> x \<notin> block_bytes 0x100000 kernel_image_size \<and> x \<notin> block_bytes heap kernel_first_heap_block_size)"
proof -
  obtain mm0 ba1 where b: "reserved_block (boot_allocator_new mm0) 0x100000 0x400000 0x300000 KERNEL_IMAGE 0x100000 ba1"
      "reserved_block ba1 0x100000 max_memory_address 0x400000 HEAP_BLOCK heap ba"
      and types: "\<And>a t. strongest (m_entries mm0) a t \<longleftrightarrow> strongest (map e820_range_of raw) a t"
    using early_initialize_reserves [OF raw known init] by blast
  note r1 = reserved_bytes [OF b(1)] and r2 = reserved_bytes [OF b(2)]
  have mm: "mm = m_memory_map ba" and sizes: "kernel_image_size = 0x300000" "kernel_first_heap_block_size = 0x400000"
    using release by (simp_all add: boot_allocator_release_def kernel_image_size_def kernel_first_heap_block_size_def)
  have free: "strongest (m_entries mm) x type_FREE \<longleftrightarrow> strongest (map e820_range_of raw) x type_FREE
      \<and> x \<notin> block_bytes 0x100000 0x300000 \<and> x \<notin> block_bytes heap 0x400000" for x
    using r1(5) [of x] r2(5) [of x] types by (auto simp: mm)
  have good: "map_good (m_entries mm)" and "strongest (m_entries mm) heap (native_type_from_tag HEAP_BLOCK)"
    using b(2) r2(1) by (auto simp: reserved_block_def block_bytes_def mm)
  then have ne: "m_entries mm \<noteq> []"
    by (auto simp: strongest_def)
  have heap: "strongest (map e820_range_of raw) x type_FREE \<and> x \<notin> block_bytes 0x100000 0x300000" if "x \<in> block_bytes heap 0x400000" for x
    using r2(6) [OF _ that] r1(5) [of x] types by auto
  have image: "strongest (map e820_range_of raw) x type_FREE" if "x \<in> block_bytes 0x100000 0x300000" for x
    using r1(6) [OF _ that] types by auto
  have pages: "strongest (map e820_range_of raw) x type_FREE \<and> x \<notin> block_bytes 0x100000 0x300000 \<and> x \<notin> block_bytes heap 0x400000"
    if "memory_run mm handed_out pm" "p \<in> handed_out" "x \<in> page_bytes p" for handed_out pm p x
  proof -
    have "p \<in> usable_pages (m_entries mm)"
      using memory_run_inv [OF that(1) good ne] that(2) by blast
    then show ?thesis
      using usable_page_bytes that(3) good free by blast
  qed
  show ?thesis
    unfolding sizes using heap image pages by blast
qed

definition sample_firmware_map :: "e820_range list" where
  "sample_firmware_map = [\<lparr>base_address = 0x100000, e_length = 0x7F00000, e_type = 1\<rparr>, \<lparr>base_address = 0, e_length = 0x100000, e_type = 2\<rparr>]"

definition sample_image_state :: boot_allocator where
  "sample_image_state = \<lparr>m_did_release = False, m_memory_map = \<lparr>m_entries = [\<lparr>r_begin = 0, r_end = 0x100000, r_type = 2\<rparr>,
      \<lparr>r_begin = 0x100000, r_end = 0x400000, r_type = 0x100000000\<rparr>, \<lparr>r_begin = 0x400000, r_end = 0x8000000, r_type = 1\<rparr>], m_capacity = 170\<rparr>\<rparr>"

definition sample_boot_state :: boot_allocator where
  "sample_boot_state = \<lparr>m_did_release = False, m_memory_map = \<lparr>m_entries = [\<lparr>r_begin = 0, r_end = 0x100000, r_type = 2\<rparr>,
      \<lparr>r_begin = 0x100000, r_end = 0x400000, r_type = 0x100000000\<rparr>, \<lparr>r_begin = 0x400000, r_end = 0x800000, r_type = 0x100000002\<rparr>,
      \<lparr>r_begin = 0x800000, r_end = 0x8000000, r_type = 1\<rparr>], m_capacity = 170\<rparr>\<rparr>"

text \<open>A boot loader whose tables are all one table, present and at \<^verbatim>\<open>0x1000\<close>, below the first level.\<close>

lemma sample_early_initialize:
  "\<exists>words'. early_initialize 0x5000 sample_firmware_map (\<lambda>_. 0x1007) = Some (Inr (0x400000, sample_boot_state, words'))"
proof -
  have gen: "generate_from True sample_firmware_map = Some (Inr sample_map)"
    by code_simp
  have image: "reserve_at 0x100000 0x300 KERNEL_IMAGE (boot_allocator_new sample_map) = Some (Inr (0x100000, sample_image_state))"
    by code_simp
  have heap: "reserve_contiguous 0x400 0x100000 max_memory_address HEAP_BLOCK sample_image_state = Some (Inr (0x400000, sample_boot_state))"
    by code_simp
  have ranges: "from_two_pointers kernel_first_heap_block_base kernel_first_heap_block_ceiling = Inr \<lparr>r_begin = 0xFFFFFFFF80400000, r_end = 0xFFFFFFFF80800000\<rparr>"
      "mk_range 0x400000 kernel_first_heap_block_size = Inr \<lparr>r_begin = 0x400000, r_end = 0x800000\<rparr>"
    by code_simp+
  have "case early_map_huge_range 0x5000 \<lparr>r_begin = 0xFFFFFFFF80400000, r_end = 0xFFFFFFFF80800000\<rparr> \<lparr>r_begin = 0x400000, r_end = 0x800000\<rparr>
      \<lparr>m_physical_regions = [], m_initial_physical_bytes = 0, m_free_physical_bytes = 0, ram = \<lambda>_. 0x1007\<rparr> of Inr pm \<Rightarrow> True | Inl e \<Rightarrow> False"
    by code_simp
  then obtain pm where "early_map_huge_range 0x5000 \<lparr>r_begin = 0xFFFFFFFF80400000, r_end = 0xFFFFFFFF80800000\<rparr> \<lparr>r_begin = 0x400000, r_end = 0x800000\<rparr>
      \<lparr>m_physical_regions = [], m_initial_physical_bytes = 0, m_free_physical_bytes = 0, ram = \<lambda>_. 0x1007\<rparr> = Inr pm"
    by (auto split: sum.splits)
  then show ?thesis
    unfolding early_initialize_def boot_parameters by (simp add: and_then_def gen image heap ranges)
qed

theorem boot_pages_are_free_memory_witness:
  "\<exists>pm p pm'. memory_run (m_memory_map sample_boot_state) {} pm \<and> mm_allocate_page True pm = Inr (p, pm')
     \<and> strongest (map e820_range_of sample_firmware_map) p type_FREE
     \<and> p \<notin> block_bytes 0x100000 kernel_image_size \<and> p \<notin> block_bytes 0x400000 kernel_first_heap_block_size"
proof -
  have e: "\<not> (0x100000 \<le> a \<and> a < 0x100000)" "\<exists>e \<in> set (map e820_range_of sample_firmware_map). a \<in> addrs e" if "a < 0x400000" for a
    using that order.strict_trans [OF that, of "0x8000000"] by (auto simp: sample_firmware_map_def e820_range_of_def addrs_def not_less)
  have raw: "sample_firmware_map \<noteq> []" "\<forall>d \<in> set sample_firmware_map. entry_ok (e820_range_of d)" "\<forall>a. cover (map e820_range_of sample_firmware_map) a \<le> 2"
    by (auto simp: sample_firmware_map_def entry_ok_def e820_range_of_def range_defs page_is_aligned_def page_size_def)
  have known: "no_holes (map e820_range_of sample_firmware_map) 0x100000 0x400000"
    unfolding no_holes_def using e(2) strongest_exists by blast
  obtain words where init: "early_initialize 0x5000 sample_firmware_map (\<lambda>_. 0x1007) = Some (Inr (0x400000, sample_boot_state, words))"
    using sample_early_initialize by blast
  have c: "first_viable_range (m_entries (m_memory_map sample_boot_state)) = Inr 1"
    "phys_constrained_by \<lparr>r_begin = 0x800000, r_end = 0x8000000, r_type = type_FREE\<rparr> lowest_allowed_physical_address highest_allowed_physical_address
      = Inr \<lparr>r_begin = 0x800000, r_end = 0x8000000, r_type = type_FREE\<rparr>"
    by code_simp+
  then have "\<exists>pm. memory_manager_new (m_memory_map sample_boot_state) words = Inr pm"
    by (simp add: memory_manager_new_def sample_boot_state_def manager_defs)
  then obtain pm where run: "memory_run (m_memory_map sample_boot_state) {} pm"
    using memory_run.made by blast
  have "0x800000 \<in> allowed_window"
    unfolding allowed_window_def atLeastLessThan_iff by code_simp
  then have "0x800000 \<in> usable_pages (m_entries (m_memory_map sample_boot_state))"
    by (simp add: sample_boot_state_def usable_pages_def usable_def manager_defs)
  moreover have "map_good (m_entries (m_memory_map sample_boot_state))"
    using early_initialize_reserves [OF raw known init] by (auto simp: reserved_block_def)
  moreover have "m_entries (m_memory_map sample_boot_state) \<noteq> []"
    by (simp add: sample_boot_state_def)
  ultimately have "pm_inv pm" "free_pages pm \<noteq> {}"
    using memory_run_inv [OF run] by (auto simp: free_pages_def)
  then obtain p pm' where p: "mm_allocate_page True pm = Inr (p, pm')"
    using mm_allocate_page_ok [of pm True] by auto
  have "p \<in> page_bytes p"
    by (simp add: page_bytes_def)
  then show ?thesis
    using boot_pages_are_free_memory [OF raw known init boot_allocator_release_def] memory_run.allocated [OF run p] run p by blast
qed

end
